(* ===== verification/Voxia_Prelude.thy ===== *)
theory Voxia_Prelude
  imports Main "HOL-Library.Word"
begin

unbundle bit_operations_syntax

text \<open>
  Shared vocabulary of the development: the C integer types of
  \<^verbatim>\<open>include/type.h\<close>, the error numbers of \<^verbatim>\<open>kernel/sys/err_no.h\<close>, the byte-copy
  primitive \<^verbatim>\<open>memcopy\<close> of \<^verbatim>\<open>kernel/libk/str/str.c\<close>, and the generic lemmas on
  lists and words that the component theories use.

  Conventions. An unsigned C integer of width \<open>w\<close> is a \<open>w word\<close>; its value is
  read with \<open>unat\<close>, and all arithmetic on it wraps as in C. A buffer that is a
  C array is a list of its fixed length; indices into it are natural numbers,
  obtained from the machine offsets by \<open>unat\<close>. A signed return value whose
  range is far from the limits of its type is an \<open>int\<close>, with the negated error
  number for a failure.
\<close>

section \<open>Types and collections\<close>

type_synonym u8 = "8 word"
type_synonym u16 = "16 word"
type_synonym u32 = "32 word"
type_synonym u64 = "64 word"

named_theorems ring_laws \<open>refinement facts of the ring buffers\<close>
named_theorems heap_frame \<open>fields of the heap that an update leaves alone\<close>
named_theorems errno_defs \<open>definitions of the error numbers\<close>

section \<open>Error numbers\<close>

definition EPERM :: int where [errno_defs]: "EPERM = 1"
definition ENOENT :: int where [errno_defs]: "ENOENT = 2"
definition EINTR :: int where [errno_defs]: "EINTR = 4"
definition EIO :: int where [errno_defs]: "EIO = 5"
definition EBADF :: int where [errno_defs]: "EBADF = 9"
definition EAGAIN :: int where [errno_defs]: "EAGAIN = 11"
definition ENOMEM :: int where [errno_defs]: "ENOMEM = 12"
definition EISDIR :: int where [errno_defs]: "EISDIR = 21"
definition EINVAL :: int where [errno_defs]: "EINVAL = 22"
definition EMFILE :: int where [errno_defs]: "EMFILE = 24"
definition ENOTTY :: int where [errno_defs]: "ENOTTY = 25"
definition ENOSPC :: int where [errno_defs]: "ENOSPC = 28"
definition ESPIPE :: int where [errno_defs]: "ESPIPE = 29"
definition EPIPE :: int where [errno_defs]: "EPIPE = 32"
definition ENOSYS :: int where [errno_defs]: "ENOSYS = 38"
definition EAFNOSUPPORT :: int where [errno_defs]: "EAFNOSUPPORT = 97"
definition EADDRINUSE :: int where [errno_defs]: "EADDRINUSE = 98"
definition ECONNREFUSED :: int where [errno_defs]: "ECONNREFUSED = 111"

section \<open>Copying bytes\<close>

text \<open>
  \<^verbatim>\<open>memcopy(dest, src, size)\<close> copies byte by byte in ascending order. Source and
  destination are distinct C objects at every call the development models, so
  they are two lists; \<open>d\<close> and \<open>s\<close> are the offsets of the pointers into them.
\<close>

primrec memcopy :: "'a list \<Rightarrow> nat \<Rightarrow> 'a list \<Rightarrow> nat \<Rightarrow> nat \<Rightarrow> 'a list" where
  "memcopy dest d src s 0 = dest"
| "memcopy dest d src s (Suc n) = (memcopy dest d src s n)[d + n := src ! (s + n)]"

lemma length_memcopy [simp]: "length (memcopy dest d src s n) = length dest"
  by (induction n) auto

lemma memcopy_nth:
  "k < length dest \<Longrightarrow>
   memcopy dest d src s n ! k =
     (if d \<le> k \<and> k < d + n then src ! (s + (k - d)) else dest ! k)"
proof (induction n)
  case (Suc n)
  then show ?case
    by (cases "k = d + n") auto
qed auto

lemma memcopy_splice:
  assumes "d + n \<le> length dest" and "s + n \<le> length src"
  shows "memcopy dest d src s n = take d dest @ take n (drop s src) @ drop (d + n) dest"
proof (rule nth_equalityI)
  show "length (memcopy dest d src s n) =
        length (take d dest @ take n (drop s src) @ drop (d + n) dest)"
    using assms by simp
next
  fix i assume "i < length (memcopy dest d src s n)"
  then have i: "i < length dest" by simp
  show "memcopy dest d src s n ! i =
        (take d dest @ take n (drop s src) @ drop (d + n) dest) ! i"
    using assms i by (auto simp: memcopy_nth nth_append min_absorb2)
qed

section \<open>Words\<close>

lemma unat_le_iff: "a \<le> b \<longleftrightarrow> unat a \<le> unat b" for a b :: "'w::len word"
  by (rule word_le_nat_alt)

lemma unat_diff_le: "b \<le> a \<Longrightarrow> unat (a - b) = unat a - unat b" for a b :: "'w::len word"
  by (rule unat_sub)

lemma unat_and_mask_mod:
  fixes x :: u64
  shows "unat (x AND 4095) = unat x mod 4096"
proof -
  have "x AND 4095 = take_bit 12 x"
    by (simp add: take_bit_eq_mask mask_eq_decr_exp)
  then show ?thesis
    by (simp only: unsigned_take_bit_eq) (simp add: take_bit_eq_mod)
qed

lemma unat_add_mod_dvd:
  fixes a b :: u64
  shows "unat (a + b) mod 4096 = (unat a + unat b) mod 4096"
proof -
  have "(unat a + unat b) mod 2 ^ 64 mod 4096 = (unat a + unat b) mod 4096"
    by (rule mod_mod_cancel) simp
  then show ?thesis by (simp add: unat_word_ariths)
qed

end
