(* ===== verification/Byte_Ring.thy ===== *)
theory Byte_Ring
  imports Voxia_Prelude
begin

text \<open>
  Byte ring buffers. The kernel has the same ring code twice, as
  \<^verbatim>\<open>pipe_ring_write\<close>/\<^verbatim>\<open>pipe_ring_read\<close> in \<^verbatim>\<open>kernel/sys/syscall/pipe.c\<close> and as
  \<^verbatim>\<open>pty_ring_write\<close>/\<^verbatim>\<open>pty_ring_read\<close> in \<^verbatim>\<open>kernel/tty/pty.c\<close>. This theory holds what the two
  share: the list that a ring holds, the arithmetic of a copy that wraps at the
  end of the array, and the interface \<open>byte_fifo\<close> that both rings implement and
  their clients rely on.
\<close>

section \<open>The queue a ring array holds\<close>

text \<open>The \<open>n\<close> bytes of the array \<open>b\<close> that start at the free-running index \<open>t\<close>.\<close>

definition ring_view :: "nat \<Rightarrow> 'a list \<Rightarrow> nat \<Rightarrow> nat \<Rightarrow> 'a list" where
  "ring_view cap b t n = map (\<lambda>i. b ! ((t + i) mod cap)) [0..<n]"

lemma length_ring_view [simp]: "length (ring_view cap b t n) = n"
  by (simp add: ring_view_def)

lemma nth_ring_view [simp]: "i < n \<Longrightarrow> ring_view cap b t n ! i = b ! ((t + i) mod cap)"
  by (simp add: ring_view_def)

lemma ring_view_0 [simp]: "ring_view cap b t 0 = []"
  by (simp add: ring_view_def)

lemma ring_view_mod: "ring_view cap b (t mod cap) n = ring_view cap b t n"
  by (simp add: ring_view_def mod_simps)

lemma ring_view_drop: "m \<le> n \<Longrightarrow> drop m (ring_view cap b t n) = ring_view cap b (t + m) (n - m)"
  by (rule nth_equalityI) (auto simp: add.assoc)

lemma ring_view_take: "m \<le> n \<Longrightarrow> take m (ring_view cap b t n) = ring_view cap b t m"
  by (rule nth_equalityI) auto

section \<open>Copies that wrap\<close>

text \<open>
  A transfer of \<open>n\<close> bytes at array offset \<open>off\<close> is split at the end of the
  array, as the C code does with \<^verbatim>\<open>first_part\<close>.
\<close>

definition wrap_put :: "nat \<Rightarrow> u8 list \<Rightarrow> nat \<Rightarrow> u8 list \<Rightarrow> nat \<Rightarrow> u8 list" where
  "wrap_put cap b off src n =
     (let first = min (cap - off) n;
          b1 = memcopy b off src 0 first
      in if first < n then memcopy b1 0 src first (n - first) else b1)"

definition wrap_get :: "nat \<Rightarrow> u8 list \<Rightarrow> nat \<Rightarrow> u8 list \<Rightarrow> nat \<Rightarrow> u8 list" where
  "wrap_get cap b off dst n =
     (let first = min (cap - off) n;
          d1 = memcopy dst 0 b off first
      in if first < n then memcopy d1 first b 0 (n - first) else d1)"

lemma length_wrap_put [simp]: "length (wrap_put cap b off src n) = length b"
  by (simp add: wrap_put_def Let_def)

lemma length_wrap_get [simp]: "length (wrap_get cap b off dst n) = length dst"
  by (simp add: wrap_get_def Let_def)

lemma wrap_put_nth:
  assumes "length b = cap" "off < cap" "n \<le> cap" "k < cap"
  shows "wrap_put cap b off src n ! k =
     (let j = (if off \<le> k then k - off else k + cap - off)
      in if j < n then src ! j else b ! k)"
  using assms by (auto simp: wrap_put_def Let_def memcopy_nth min_def add.commute)

lemma wrap_get_nth:
  assumes "length b = cap" "off < cap" "n \<le> cap" "k < length dst"
  shows "wrap_get cap b off dst n ! k = (if k < n then b ! ((off + k) mod cap) else dst ! k)"
proof (cases "off + k < cap")
  case True
  with assms show ?thesis
    by (auto simp: wrap_get_def Let_def memcopy_nth min_def)
next
  case False
  have "k < n \<Longrightarrow> (off + k) mod cap = off + k - cap"
    using False assms by (simp add: le_mod_geq)
  with False assms show ?thesis
    by (auto simp: wrap_get_def Let_def memcopy_nth min_def algebra_simps)
qed

lemma mod_shift_inj:
  fixes c :: nat
  assumes "(a + d) mod c = (a + e) mod c" and "d < c" and "e < c"
  shows "d = e"
proof -
  from assms(1) have "(int a + int d) mod int c = (int a + int e) mod int c"
    by (metis of_nat_add of_nat_mod)
  then have "int c dvd int d - int e"
    by (simp add: mod_eq_dvd_iff algebra_simps)
  moreover have "\<bar>int d - int e\<bar> < int c"
    using assms(2,3) by simp
  ultimately have "int d - int e = 0"
    using dvd_imp_le_int [of "int d - int e" "int c"] by fastforce
  then show ?thesis by simp
qed

lemma ring_view_put:
  assumes b: "length b = cap" and off: "off = (t + used) mod cap"
    and fits: "used + n \<le> cap" and cap: "0 < cap" and n: "n \<le> length src"
  shows "ring_view cap (wrap_put cap b off src n) t (used + n) = ring_view cap b t used @ take n src"
proof (rule nth_equalityI)
  show "length (ring_view cap (wrap_put cap b off src n) t (used + n)) =
        length (ring_view cap b t used @ take n src)"
    using n by simp
next
  fix i assume "i < length (ring_view cap (wrap_put cap b off src n) t (used + n))"
  then have i: "i < used + n" by simp
  define k where "k = (t + i) mod cap"
  have k: "k < cap" and o: "off < cap" using cap by (simp_all add: k_def off)
  have j: "(if off \<le> k then k - off else k + cap - off) = (if i < used then i + cap - used else i - used)"
  proof (rule mod_shift_inj [where a = off and c = cap])
    have "(off + (if off \<le> k then k - off else k + cap - off)) mod cap = k"
      using k o by simp
    moreover have "(off + (if i < used then i + cap - used else i - used)) mod cap = k"
      using i fits by (simp add: off k_def mod_simps) (simp flip: add.assoc)
    ultimately show "(off + (if off \<le> k then k - off else k + cap - off)) mod cap =
        (off + (if i < used then i + cap - used else i - used)) mod cap"
      by simp
  qed (use k o i fits in auto)
  show "ring_view cap (wrap_put cap b off src n) t (used + n) ! i =
        (ring_view cap b t used @ take n src) ! i"
    using i fits n wrap_put_nth [OF b o _ k, of n src] j
    by (auto simp: nth_append Let_def k_def)
qed

lemma wrap_get_eq:
  assumes "length b = cap" "0 < cap" "n \<le> cap" "n \<le> length dst"
  shows "wrap_get cap b (t mod cap) dst n = ring_view cap b t n @ drop n dst"
proof (rule nth_equalityI)
  show "length (wrap_get cap b (t mod cap) dst n) = length (ring_view cap b t n @ drop n dst)"
    using assms by simp
next
  fix i assume "i < length (wrap_get cap b (t mod cap) dst n)"
  then show "wrap_get cap b (t mod cap) dst n ! i = (ring_view cap b t n @ drop n dst) ! i"
    using assms by (auto simp: wrap_get_nth nth_append mod_simps)
qed

section \<open>The machine arithmetic of a transfer\<close>

text \<open>
  Both rings have 4096 bytes and compute the clamped length, the masked offset
  and the split point in 64-bit words. These lemmas turn that arithmetic into
  the wrapped copies above.
\<close>

lemma clamp_unat:
  fixes a b :: u64
  shows "unat (if a > b then b else a) = min (unat a) (unat b)"
  by (auto simp: word_less_nat_alt min_def)

lemma avail_unat: "unat d \<le> 4096 \<Longrightarrow> unat ((4096 :: u64) - d) = 4096 - unat d"
  by (subst unat_sub) (auto simp: word_le_nat_alt)

lemma mask_offset: "unat ((x :: u64) AND (4096 - 1)) = unat x mod 4096"
  using unat_and_mask_mod [of x] by simp

lemma sint_small:
  fixes len :: u64
  assumes "unat len \<le> 4096"
  shows "sint len = int (unat len)"
proof -
  have "int (unat len) \<le> 4096" using assms by linarith
  then have "uint len \<le> 4096" by (simp only: uint_nat)
  then have "signed_take_bit 63 (uint len) = uint len"
    by (intro signed_take_bit_int_eq_self) (auto intro: order_trans [OF _ uint_ge_0])
  then show ?thesis by (simp add: sint_uint)
qed

lemma split_point:
  fixes l h :: u64
  defines "off \<equiv> h AND (4096 - 1)"
  defines "p \<equiv> (if 4096 - off > l then l else 4096 - off)"
  shows "unat off = unat h mod 4096"
    and "unat p = min (4096 - unat h mod 4096) (unat l)"
    and "unat (l - p) = unat l - min (4096 - unat h mod 4096) (unat l)"
proof -
  show uo: "unat off = unat h mod 4096" by (simp only: off_def mask_offset)
  show up: "unat p = min (4096 - unat h mod 4096) (unat l)"
    unfolding p_def clamp_unat by (subst avail_unat) (simp_all add: uo min.commute)
  have "p \<le> l" by (simp add: word_le_nat_alt up)
  then show "unat (l - p) = unat l - min (4096 - unat h mod 4096) (unat l)"
    by (simp add: unat_sub up)
qed

lemma split_put:
  fixes l h :: u64
  defines "off \<equiv> h AND (4096 - 1)"
  defines "p \<equiv> (if 4096 - off > l then l else 4096 - off)"
  shows "(if l > p then memcopy (memcopy b (unat off) buf 0 (unat p)) 0 buf (unat p) (unat (l - p))
          else memcopy b (unat off) buf 0 (unat p)) =
         wrap_put 4096 b (unat h mod 4096) buf (unat l)"
  unfolding word_less_nat_alt split_point(1) [where h = h, folded off_def]
    split_point(2-3) [where h = h and l = l, folded off_def, folded p_def] wrap_put_def Let_def
  by (rule refl)

lemma split_get:
  fixes l t :: u64
  defines "off \<equiv> t AND (4096 - 1)"
  defines "p \<equiv> (if 4096 - off > l then l else 4096 - off)"
  shows "(if l > p then memcopy (memcopy buf 0 b (unat off) (unat p)) (unat p) b 0 (unat (l - p))
          else memcopy buf 0 b (unat off) (unat p)) =
         wrap_get 4096 b (unat t mod 4096) buf (unat l)"
  unfolding word_less_nat_alt split_point(1) [where h = t, folded off_def]
    split_point(2-3) [where h = t and l = l, folded off_def, folded p_def] wrap_get_def Let_def
  by (rule refl)

text \<open>The counters of a ring: \<open>d\<close> bytes queued, \<open>l\<close> more or fewer.\<close>

lemma head_advance:
  fixes h t l :: u64
  assumes "unat (h - t) + unat l \<le> 4096"
  shows "unat (h + l - t) = unat (h - t) + unat l"
proof -
  have "h + l - t = (h - t) + l" by simp
  moreover have "unat ((h - t) + l) = unat (h - t) + unat l"
    using assms by (simp add: unat_word_ariths)
  ultimately show ?thesis by (simp only:)
qed

lemma tail_advance:
  fixes h t l :: u64
  assumes "unat l \<le> unat (h - t)"
  shows "unat (h - (t + l)) = unat (h - t) - unat l"
proof -
  have "h - (t + l) = (h - t) - l" by simp
  moreover have "unat ((h - t) - l) = unat (h - t) - unat l"
    using assms by (intro unat_sub) (simp only: word_le_nat_alt)
  ultimately show ?thesis by (simp only:)
qed

lemma ring_index_at_head:
  fixes h t :: u64
  shows "unat h mod 4096 = (unat t + unat (h - t)) mod 4096"
  using unat_add_mod_dvd [of t "h - t"] by simp

section \<open>The interface of a byte queue\<close>

text \<open>
  What the clients of a ring rely on. \<open>put r xs len\<close> offers the first \<open>len\<close>
  bytes of \<open>xs\<close> and reports how many it took; \<open>get r buf len\<close> moves up to
  \<open>len\<close> bytes to the front of \<open>buf\<close>. The laws say that a ring is a bounded
  first-in first-out queue.
\<close>

datatype ring_op = Put "u8 list" | Get u64

locale byte_fifo =
  fixes invar :: "'r \<Rightarrow> bool"
    and contents :: "'r \<Rightarrow> u8 list"
    and capacity :: nat
    and put :: "'r \<Rightarrow> u8 list \<Rightarrow> u64 \<Rightarrow> 'r \<times> int"
    and get :: "'r \<Rightarrow> u8 list \<Rightarrow> u64 \<Rightarrow> 'r \<times> u8 list \<times> int"
  assumes bounded: "invar r \<Longrightarrow> length (contents r) \<le> capacity"
    and put_law: "\<lbrakk>invar r; unat len \<le> length xs; put r xs len = (r', k)\<rbrakk> \<Longrightarrow>
      invar r' \<and> k = int (min (unat len) (capacity - length (contents r))) \<and>
      contents r' = contents r @ take (nat k) xs"
    and get_law: "\<lbrakk>invar r; unat len \<le> length buf; get r buf len = (r', buf', k)\<rbrakk> \<Longrightarrow>
      invar r' \<and> k = int (min (unat len) (length (contents r))) \<and>
      buf' = take (nat k) (contents r) @ drop (nat k) buf \<and>
      contents r' = drop (nat k) (contents r)"
begin

text \<open>
  A history of operations: the final ring, the bytes taken in and the bytes
  given out, each in order.
\<close>

fun history :: "'r \<Rightarrow> ring_op list \<Rightarrow> 'r \<times> u8 list \<times> u8 list" where
  "history r [] = (r, [], [])"
| "history r (Put xs # ops) =
     (let (r1, k) = put r xs (word_of_nat (length xs));
          (r2, acc, del) = history r1 ops
      in (r2, take (nat k) xs @ acc, del))"
| "history r (Get len # ops) =
     (let (r1, buf, k) = get r (replicate (unat len) 0) len;
          (r2, acc, del) = history r1 ops
      in (r2, acc, take (nat k) buf @ del))"

lemma get_delivers:
  assumes "invar r" and "get r (replicate (unat len) 0) len = (r', buf, k)"
  shows "invar r' \<and> take (nat k) buf @ contents r' = contents r"
  using get_law [OF assms(1) _ assms(2)] by auto

lemma put_accepts:
  assumes "invar r" and "length xs < 2 ^ 64" and "put r xs (word_of_nat (length xs)) = (r', k)"
  shows "invar r' \<and> contents r' = contents r @ take (nat k) xs"
  using put_law [OF assms(1) _ assms(3)] assms(2) by (simp add: unat_of_nat take_bit_nat_eq_self)

theorem history_stream:
  assumes "invar r" and "\<forall>xs. Put xs \<in> set ops \<longrightarrow> length xs < 2 ^ 64"
    and "history r ops = (r', acc, del)"
  shows "invar r' \<and> contents r @ acc = del @ contents r'"
  using assms
proof (induction r ops arbitrary: r' acc del rule: history.induct)
  case (2 r xs ops)
  obtain r1 k where p: "put r xs (word_of_nat (length xs)) = (r1, k)" by fastforce
  obtain r2 acc2 del2 where h: "history r1 ops = (r2, acc2, del2)" by (cases "history r1 ops")
  have "length xs < 2 ^ 64" using "2.prems"(2) by simp
  then have r1: "invar r1" "contents r1 = contents r @ take (nat k) xs"
    using put_accepts [OF "2.prems"(1) _ p] by simp_all
  have "invar r2 \<and> contents r1 @ acc2 = del2 @ contents r2"
    by (rule "2.IH" [OF p [symmetric] refl r1(1) _ h]) (use "2.prems"(2) in simp)
  with "2.prems"(3) p h r1 show ?case by simp
next
  case (3 r len ops)
  obtain r1 buf k where g: "get r (replicate (unat len) 0) len = (r1, buf, k)"
    by (cases "get r (replicate (unat len) 0) len")
  obtain r2 acc2 del2 where h: "history r1 ops = (r2, acc2, del2)" by (cases "history r1 ops")
  have r1: "invar r1" "take (nat k) buf @ contents r1 = contents r"
    using get_delivers [OF "3.prems"(1) g] by simp_all
  have "invar r2 \<and> contents r1 @ acc2 = del2 @ contents r2"
    by (rule "3.IH" [OF g [symmetric] refl refl r1(1) _ h]) (use "3.prems"(2) in auto)
  with "3.prems"(3) g h r1 show ?case by (simp flip: r1(2))
qed simp

end

end
