(* ===== verification/Pipe_Ring.thy ===== *)
theory Pipe_Ring
  imports Byte_Ring
begin

text \<open>
  The ring buffer of a pipe: \<^verbatim>\<open>struct pipe_ring\<close> and its two operations in
  \<^verbatim>\<open>kernel/sys/syscall/pipe.c\<close>. \<open>head\<close> and \<open>tail\<close> are free-running 64-bit counters;
  the number of queued bytes is their wrapped difference.
\<close>

unbundle bit_operations_syntax

definition PIPE_MAX_RING_BUFFER :: u64 where
  "PIPE_MAX_RING_BUFFER = 4096"

record pipe_ring =
  pr_buf :: "u8 list"
  pr_head :: u64
  pr_tail :: u64

definition pipe_ring_write :: "pipe_ring \<Rightarrow> u8 list \<Rightarrow> u64 \<Rightarrow> pipe_ring \<times> int" where
  "pipe_ring_write ring buf len0 =
     (let mask = PIPE_MAX_RING_BUFFER - 1;
          head = pr_head ring;
          tail = pr_tail ring;
          avail = PIPE_MAX_RING_BUFFER - (head - tail);
          len = (if len0 > avail then avail else len0)
      in if len = 0 then (ring, 0)
         else
           let offset = head AND mask;
               part0 = PIPE_MAX_RING_BUFFER - offset;
               first_part = (if part0 > len then len else part0);
               b1 = memcopy (pr_buf ring) (unat offset) buf 0 (unat first_part);
               b2 = (if len > first_part
                     then memcopy b1 0 buf (unat first_part) (unat (len - first_part))
                     else b1)
           in (ring\<lparr>pr_buf := b2, pr_head := head + len\<rparr>, sint len))"

definition pipe_ring_read :: "pipe_ring \<Rightarrow> u8 list \<Rightarrow> u64 \<Rightarrow> pipe_ring \<times> u8 list \<times> int" where
  "pipe_ring_read ring buf len0 =
     (let mask = PIPE_MAX_RING_BUFFER - 1;
          head = pr_head ring;
          tail = pr_tail ring;
          avail = head - tail;
          len = (if len0 > avail then avail else len0)
      in if len = 0 then (ring, buf, 0)
         else
           let offset = tail AND mask;
               part0 = PIPE_MAX_RING_BUFFER - offset;
               first_part = (if part0 > len then len else part0);
               c1 = memcopy buf 0 (pr_buf ring) (unat offset) (unat first_part);
               c2 = (if len > first_part
                     then memcopy c1 (unat first_part) (pr_buf ring) 0 (unat (len - first_part))
                     else c1)
           in (ring\<lparr>pr_tail := tail + len\<rparr>, c2, sint len))"

text \<open>The ring is well formed: the array has its size and holds no more than that.\<close>

definition pipe_ring_inv :: "pipe_ring \<Rightarrow> bool" where
  "pipe_ring_inv r \<longleftrightarrow> length (pr_buf r) = 4096 \<and> unat (pr_head r - pr_tail r) \<le> 4096"

definition pipe_ring_list :: "pipe_ring \<Rightarrow> u8 list" where
  "pipe_ring_list r = ring_view 4096 (pr_buf r) (unat (pr_tail r)) (unat (pr_head r - pr_tail r))"

lemma length_pipe_ring_list [simp]:
  "length (pipe_ring_list r) = unat (pr_head r - pr_tail r)"
  by (simp add: pipe_ring_list_def)

section \<open>The ring is a bounded queue\<close>

lemma pipe_ring_write_eq:
  assumes inv: "pipe_ring_inv r"
  shows "pipe_ring_write r buf len =
    (let n = min (unat len) (4096 - unat (pr_head r - pr_tail r)) in
     if n = 0 then (r, 0)
     else (r\<lparr>pr_buf := wrap_put 4096 (pr_buf r) (unat (pr_head r) mod 4096) buf n,
              pr_head := pr_head r + word_of_nat n\<rparr>, int n))"
proof -
  define l where "l = (if len > 4096 - (pr_head r - pr_tail r)
                       then 4096 - (pr_head r - pr_tail r) else len)"
  have ul: "unat l = min (unat len) (4096 - unat (pr_head r - pr_tail r))"
    using inv unfolding l_def clamp_unat by (simp only: avail_unat pipe_ring_inv_def)
  have "pipe_ring_write r buf len =
    (if l = 0 then (r, 0)
     else (r\<lparr>pr_buf := wrap_put 4096 (pr_buf r) (unat (pr_head r) mod 4096) buf (unat l),
              pr_head := pr_head r + l\<rparr>, sint l))"
    unfolding pipe_ring_write_def Let_def PIPE_MAX_RING_BUFFER_def l_def [symmetric] split_put by (rule refl)
  also have "\<dots> = (if unat l = 0 then (r, 0)
     else (r\<lparr>pr_buf := wrap_put 4096 (pr_buf r) (unat (pr_head r) mod 4096) buf (unat l),
              pr_head := pr_head r + word_of_nat (unat l)\<rparr>, int (unat l)))"
  proof -
    have "unat l \<le> 4096" using ul by simp
    then show ?thesis by (simp add: sint_small unat_eq_0)
  qed
  finally show ?thesis by (simp only: ul Let_def)
qed

lemma pipe_ring_read_eq:
  "pipe_ring_inv r \<Longrightarrow> pipe_ring_read r buf len =
    (let n = min (unat len) (unat (pr_head r - pr_tail r)) in
     if n = 0 then (r, buf, 0)
     else (r\<lparr>pr_tail := pr_tail r + word_of_nat n\<rparr>,
           wrap_get 4096 (pr_buf r) (unat (pr_tail r) mod 4096) buf n, int n))"
proof -
  assume inv: "pipe_ring_inv r"
  define l where "l = (if len > pr_head r - pr_tail r then pr_head r - pr_tail r else len)"
  have ul: "unat l = min (unat len) (unat (pr_head r - pr_tail r))"
    unfolding l_def by (rule clamp_unat)
  have "pipe_ring_read r buf len =
    (if l = 0 then (r, buf, 0)
     else (r\<lparr>pr_tail := pr_tail r + l\<rparr>,
           wrap_get 4096 (pr_buf r) (unat (pr_tail r) mod 4096) buf (unat l), sint l))"
    unfolding pipe_ring_read_def Let_def PIPE_MAX_RING_BUFFER_def l_def [symmetric] split_get by (rule refl)
  also have "\<dots> = (if unat l = 0 then (r, buf, 0)
     else (r\<lparr>pr_tail := pr_tail r + word_of_nat (unat l)\<rparr>,
           wrap_get 4096 (pr_buf r) (unat (pr_tail r) mod 4096) buf (unat l), int (unat l)))"
  proof -
    have "unat l \<le> 4096" using ul inv by (simp add: pipe_ring_inv_def min_le_iff_disj)
    then show ?thesis by (simp add: sint_small unat_eq_0)
  qed
  finally show ?thesis by (simp only: ul Let_def)
qed

lemma pipe_ring_put_law:
  assumes inv: "pipe_ring_inv r" and xs: "unat len \<le> length xs"
    and w: "pipe_ring_write r xs len = (r', k)"
  shows "pipe_ring_inv r' \<and> k = int (min (unat len) (4096 - length (pipe_ring_list r))) \<and>
    pipe_ring_list r' = pipe_ring_list r @ take (nat k) xs"
proof -
  define n where "n = min (unat len) (4096 - unat (pr_head r - pr_tail r))"
  have n: "n \<le> length xs" "unat (pr_head r - pr_tail r) + n \<le> 4096" "n < 2 ^ 64"
    using xs inv by (auto simp: n_def pipe_ring_inv_def)
  have un: "unat (word_of_nat n :: u64) = n" using n(3) by (simp add: unat_of_nat)
  have hd: "unat (pr_head r + word_of_nat n - pr_tail r) = unat (pr_head r - pr_tail r) + n"
    using head_advance [of "pr_head r" "pr_tail r" "word_of_nat n"] n by (simp add: un)
  have "ring_view 4096 (wrap_put 4096 (pr_buf r) (unat (pr_head r) mod 4096) xs n)
          (unat (pr_tail r)) (unat (pr_head r - pr_tail r) + n) = pipe_ring_list r @ take n xs"
    unfolding pipe_ring_list_def
    by (rule ring_view_put) (use n inv ring_index_at_head in \<open>auto simp: pipe_ring_inv_def\<close>)
  note view = this
  have nn: "min (unat len) (4096 - length (pipe_ring_list r)) = n" by (simp add: n_def)
  show ?thesis
    unfolding nn using w inv n view unfolding pipe_ring_write_eq [OF inv] Let_def n_def [symmetric]
    by (auto simp: pipe_ring_inv_def hd pipe_ring_list_def split: if_splits)
qed

lemma pipe_ring_get_law:
  assumes inv: "pipe_ring_inv r" and buf: "unat len \<le> length buf"
    and g: "pipe_ring_read r buf len = (r', buf', k)"
  shows "pipe_ring_inv r' \<and> k = int (min (unat len) (length (pipe_ring_list r))) \<and>
    buf' = take (nat k) (pipe_ring_list r) @ drop (nat k) buf \<and>
    pipe_ring_list r' = drop (nat k) (pipe_ring_list r)"
proof -
  define n where "n = min (unat len) (unat (pr_head r - pr_tail r))"
  have n: "n \<le> length buf" "n \<le> unat (pr_head r - pr_tail r)" "n \<le> 4096"
    using buf inv by (auto simp: n_def pipe_ring_inv_def)
  have un: "unat (word_of_nat n :: u64) = n" using n(3) by (simp add: unat_of_nat)
  have tl: "unat (pr_head r - (pr_tail r + word_of_nat n)) = unat (pr_head r - pr_tail r) - n"
    using tail_advance [of "word_of_nat n" "pr_head r" "pr_tail r"] n by (simp add: un)
  have g': "wrap_get 4096 (pr_buf r) (unat (pr_tail r) mod 4096) buf n =
      take n (pipe_ring_list r) @ drop n buf"
    using n inv by (simp add: wrap_get_eq pipe_ring_list_def ring_view_take pipe_ring_inv_def)
  have d: "ring_view 4096 (pr_buf r) (unat (pr_tail r + word_of_nat n)) m =
      ring_view 4096 (pr_buf r) (unat (pr_tail r) + n) m" for m
    using ring_view_mod [of 4096 "pr_buf r"] unat_add_mod_dvd [of "pr_tail r" "word_of_nat n"] un
    by metis
  have nn: "min (unat len) (length (pipe_ring_list r)) = n" by (simp add: n_def)
  show ?thesis
    unfolding nn using g inv n unfolding pipe_ring_read_eq [OF inv] Let_def n_def [symmetric]
    by (auto simp: pipe_ring_inv_def tl pipe_ring_list_def d g' ring_view_drop split: if_splits)
qed

interpretation pipe_fifo: byte_fifo pipe_ring_inv pipe_ring_list 4096 pipe_ring_write pipe_ring_read
proof
  show "length (pipe_ring_list r) \<le> 4096" if "pipe_ring_inv r" for r
    using that by (simp add: pipe_ring_inv_def)
qed (fact pipe_ring_put_law pipe_ring_get_law)+

end
