(* ===== verification/Kernel_Heap.thy ===== *)
theory Kernel_Heap
  imports Pipe_Ring
begin

text \<open>
  The kernel objects that the file layer works on, as one explicit heap:
  \<^verbatim>\<open>struct dentry\<close>, \<^verbatim>\<open>struct vnode\<close>, \<^verbatim>\<open>struct file_descriptor\<close>, \<^verbatim>\<open>struct fdtable\<close>,
  \<^verbatim>\<open>struct internal_pipe\<close>, the block and wake fields of \<^verbatim>\<open>struct thread\<close>, and the
  hash table of \<^verbatim>\<open>struct vfs_cache\<close>. A pointer that may be NULL is an option, an
  address is a 64-bit word, and a dereference of an address that holds no live
  object is a fault. The allocators of the objects (\<^verbatim>\<open>kalloc\<close>, \<^verbatim>\<open>vxSlabAlloc\<close>,
  \<^verbatim>\<open>kfree2\<close>, \<^verbatim>\<open>slab_free\<close>) appear as the list of free addresses they will hand out
  next; the empty list is exhausted memory.
\<close>

type_synonym ptr = u64

section \<open>Objects\<close>

text \<open>The operation tables a file or vnode can point to: \<^verbatim>\<open>vops_file_t\<close> objects.\<close>

datatype vops = Pipe_read_ops | Pipe_write_ops | Pty_master_ops | Pty_slave_ops | Fs_ops nat

definition VNODE_TYPE_FILE :: u8 where "VNODE_TYPE_FILE = 1"
definition VNODE_TYPE_DIR :: u8 where "VNODE_TYPE_DIR = 2"
definition VNODE_TYPE_DEV :: u8 where "VNODE_TYPE_DEV = 3"
definition VNODE_TYPE_CHR :: u8 where "VNODE_TYPE_CHR = 4"
definition VNODE_TYPE_BLK :: u8 where "VNODE_TYPE_BLK = 5"
definition VNODE_TYPE_FIFO :: u8 where "VNODE_TYPE_FIFO = 6"
definition VNODE_TYPE_SOCK :: u8 where "VNODE_TYPE_SOCK = 7"
definition VNODE_TYPE_LNK :: u8 where "VNODE_TYPE_LNK = 8"

lemmas vnode_type_defs =
  VNODE_TYPE_FILE_def VNODE_TYPE_DIR_def VNODE_TYPE_DEV_def VNODE_TYPE_CHR_def
  VNODE_TYPE_BLK_def VNODE_TYPE_FIFO_def VNODE_TYPE_SOCK_def VNODE_TYPE_LNK_def

record vnode =
  vn_id :: u64
  vn_type :: u8
  vn_size :: u64
  vn_ops :: "vops option"
  vn_permission :: u16
  vn_fs_instance :: "ptr option"
  vn_private :: "ptr option"

record dentry =
  d_children :: "ptr list"
  d_refcount :: int
  d_hash :: u32
  d_flags :: u32
  d_name :: string
  d_vnode :: "ptr option"
  d_parent :: "ptr option"

record file_descriptor =
  f_count :: int
  f_ops :: "vops option"
  f_dentry :: "ptr option"
  f_mode :: u8
  f_pos :: u64
  f_flags :: u32
  f_vnode :: "ptr option"
  f_private_data :: "ptr option"
  f_write_buffer :: "u8 list option"
  f_write_buffer_size :: u64

record fdtable =
  fdt_max_fds :: u32
  fdt_fds :: "ptr option list"
  fdt_fd_flags :: "u8 list"
  fdt_next_fd :: u32

record internal_pipe =
  ip_ring :: pipe_ring
  ip_reader_waiter :: "nat option"
  ip_writer_waiter :: "nat option"
  ip_reader_count :: int
  ip_writer_count :: int

text \<open>Of a thread, the fields that \<^verbatim>\<open>thread_block\<close> and \<^verbatim>\<open>vxThreadWake\<close> use.\<close>

datatype thread_state =
    THREAD_STATE_CREATE | THREAD_STATE_READY | THREAD_STATE_RUNNING
  | THREAD_STATE_BLOCKED | THREAD_STATE_TERMINATED | THREAD_STATE_HAL

record thread =
  t_state :: thread_state
  t_wake_pending :: bool
  t_in_kernel_sleep :: bool

text \<open>
  The kernel's objects by address, its allocator, the name cache and the bytes on
  the block device, which only the file system drivers touch.
\<close>

record kernel =
  k_pool :: "ptr list"
  k_dentries :: "ptr \<Rightarrow> dentry option"
  k_vnodes :: "ptr \<Rightarrow> vnode option"
  k_files :: "ptr \<Rightarrow> file_descriptor option"
  k_pipes :: "ptr \<Rightarrow> internal_pipe option"
  k_fdtables :: "nat \<Rightarrow> fdtable option"
  k_buckets :: "u32 \<Rightarrow> ptr list"
  k_cache_count :: u64
  k_root :: "ptr option"
  k_rcu :: "ptr list"
  k_vnode_id :: u64
  k_vnode_tree :: "u64 \<Rightarrow> ptr option"
  k_threads :: "nat \<Rightarrow> thread"
  k_disk :: "nat \<Rightarrow> u8"

section \<open>Allocation\<close>

text \<open>The next address the allocator hands out, or None when it has no memory.\<close>

definition kernel_alloc :: "kernel \<Rightarrow> kernel \<times> ptr option" where
  "kernel_alloc k = (case k_pool k of [] \<Rightarrow> (k, None) | a # as \<Rightarrow> (k\<lparr>k_pool := as\<rparr>, Some a))"

definition kernel_free :: "ptr \<Rightarrow> kernel \<Rightarrow> kernel" where
  "kernel_free a k = k\<lparr>k_pool := a # k_pool k\<rparr>"

definition set_dentry :: "ptr \<Rightarrow> (dentry \<Rightarrow> dentry) \<Rightarrow> kernel \<Rightarrow> kernel" where
  "set_dentry a g k = k\<lparr>k_dentries := (k_dentries k)(a := map_option g (k_dentries k a))\<rparr>"

definition set_vnode :: "ptr \<Rightarrow> (vnode \<Rightarrow> vnode) \<Rightarrow> kernel \<Rightarrow> kernel" where
  "set_vnode a g k = k\<lparr>k_vnodes := (k_vnodes k)(a := map_option g (k_vnodes k a))\<rparr>"

definition set_file :: "ptr \<Rightarrow> (file_descriptor \<Rightarrow> file_descriptor) \<Rightarrow> kernel \<Rightarrow> kernel" where
  "set_file a g k = k\<lparr>k_files := (k_files k)(a := map_option g (k_files k a))\<rparr>"

definition set_pipe :: "ptr \<Rightarrow> (internal_pipe \<Rightarrow> internal_pipe) \<Rightarrow> kernel \<Rightarrow> kernel" where
  "set_pipe a g k = k\<lparr>k_pipes := (k_pipes k)(a := map_option g (k_pipes k a))\<rparr>"

lemmas set_obj_defs = set_dentry_def set_vnode_def set_file_def set_pipe_def

section \<open>Blocking and waking a thread\<close>

definition vxThreadWake :: "nat \<Rightarrow> kernel \<Rightarrow> kernel" where
  "vxThreadWake t k =
     (let th = (k_threads k t)\<lparr>t_wake_pending := True\<rparr>
      in k\<lparr>k_threads := (k_threads k)(t :=
           if t_state th = THREAD_STATE_BLOCKED
           then th\<lparr>t_state := THREAD_STATE_RUNNING\<rparr> else th)\<rparr>)"

text \<open>
  \<^verbatim>\<open>thread_block\<close> up to the point where it either returns at once, because a
  wake-up is already pending (\<open>False\<close>), or switches to the scheduler (\<open>True\<close>);
  \<open>thread_block_return\<close> is what it does when the scheduler switches back.
\<close>

definition thread_block :: "nat \<Rightarrow> kernel \<Rightarrow> kernel \<times> bool" where
  "thread_block t k =
     (let th = (k_threads k t)\<lparr>t_in_kernel_sleep := True, t_state := THREAD_STATE_BLOCKED\<rparr>
      in if t_wake_pending th
         then (k\<lparr>k_threads := (k_threads k)(t := th\<lparr>t_wake_pending := False,
                 t_in_kernel_sleep := False, t_state := THREAD_STATE_RUNNING\<rparr>)\<rparr>, False)
         else (k\<lparr>k_threads := (k_threads k)(t := th)\<rparr>, True))"

definition thread_block_return :: "nat \<Rightarrow> kernel \<Rightarrow> kernel" where
  "thread_block_return t k =
     k\<lparr>k_threads := (k_threads k)(t := (k_threads k t)\<lparr>t_in_kernel_sleep := False,
        t_wake_pending := False, t_state := THREAD_STATE_RUNNING\<rparr>)\<rparr>"

definition thread_asleep :: "kernel \<Rightarrow> nat \<Rightarrow> bool" where
  "thread_asleep k t \<longleftrightarrow>
     t_in_kernel_sleep (k_threads k t) \<and> t_state (k_threads k t) = THREAD_STATE_BLOCKED"

text \<open>A kernel without objects, with the given free addresses.\<close>

definition empty_kernel :: "ptr list \<Rightarrow> kernel" where
  "empty_kernel pool =
     \<lparr>k_pool = pool, k_dentries = Map.empty, k_vnodes = Map.empty, k_files = Map.empty,
      k_pipes = Map.empty, k_fdtables = Map.empty, k_buckets = (\<lambda>_. []), k_cache_count = 0,
      k_root = None, k_rcu = [], k_vnode_id = 0, k_vnode_tree = Map.empty,
      k_threads = (\<lambda>_. \<lparr>t_state = THREAD_STATE_RUNNING, t_wake_pending = False,
                          t_in_kernel_sleep = False\<rparr>), k_disk = (\<lambda>_. 0)\<rparr>"

text \<open>What \<^verbatim>\<open>memset(vnode, 0, ...)\<close> and \<^verbatim>\<open>memset(fd, 0, ...)\<close> leave in a new object.\<close>

definition zero_vnode :: vnode where
  "zero_vnode = \<lparr>vn_id = 0, vn_type = 0, vn_size = 0, vn_ops = None, vn_permission = 0,
     vn_fs_instance = None, vn_private = None\<rparr>"

definition zero_file :: file_descriptor where
  "zero_file = \<lparr>f_count = 0, f_ops = None, f_dentry = None, f_mode = 0, f_pos = 0, f_flags = 0,
     f_vnode = None, f_private_data = None, f_write_buffer = None, f_write_buffer_size = 0\<rparr>"

end
