(* ===== verification/Pipe.thy ===== *)
theory Pipe
  imports Kernel_Heap "HOL-Library.Sublist"
begin

text \<open>
  Pipes, \<^verbatim>\<open>kernel/sys/syscall/pipe.c\<close>. The blocking loops of \<^verbatim>\<open>pipe_read\<close> and
  \<^verbatim>\<open>pipe_write\<close> are split into passes: one pass runs from the head of the loop to
  a return, to the next turn of the loop, or to the context switch inside
  \<^verbatim>\<open>thread_block\<close>. The step relation interleaves the passes of any number of
  threads with wake-ups and with closing either end. The system call that makes
  a pipe is in the theory of descriptor tables.
\<close>

unbundle bit_operations_syntax

datatype pass = Returns int | Again | Sleeps | Faults

definition O_NONBLOCK :: u32 where "O_NONBLOCK = 2048"

section \<open>Operations\<close>

text \<open>\<^verbatim>\<open>vnode->vnode_private->private_data\<close>, with the NULL checks of both operations.\<close>

datatype pipe_ref = Null_ref | Bad_ref | Ref file_descriptor ptr internal_pipe

definition pipe_of_vnode :: "kernel \<Rightarrow> ptr \<Rightarrow> pipe_ref" where
  "pipe_of_vnode k v =
     (case k_vnodes k v of None \<Rightarrow> Bad_ref | Some vn \<Rightarrow>
      case vn_private vn of None \<Rightarrow> Null_ref | Some f \<Rightarrow>
      case k_files k f of None \<Rightarrow> Bad_ref | Some fd \<Rightarrow>
      case f_private_data fd of None \<Rightarrow> Null_ref | Some p \<Rightarrow>
      case k_pipes k p of None \<Rightarrow> Bad_ref | Some ip \<Rightarrow> Ref fd p ip)"

text \<open>\<^verbatim>\<open>if (waiter) { vxThreadWake(waiter); waiter = NULL; }\<close> for either waiter field.\<close>

definition wake_writer :: "ptr \<Rightarrow> internal_pipe \<Rightarrow> kernel \<Rightarrow> kernel" where
  "wake_writer p ip k =
     (case ip_writer_waiter ip of None \<Rightarrow> k
      | Some w \<Rightarrow> set_pipe p (ip_writer_waiter_update (\<lambda>_. None)) (vxThreadWake w k))"

definition wake_reader :: "ptr \<Rightarrow> internal_pipe \<Rightarrow> kernel \<Rightarrow> kernel" where
  "wake_reader p ip k =
     (case ip_reader_waiter ip of None \<Rightarrow> k
      | Some r \<Rightarrow> set_pipe p (ip_reader_waiter_update (\<lambda>_. None)) (vxThreadWake r k))"

definition block_pass :: "nat \<Rightarrow> kernel \<Rightarrow> kernel \<times> pass" where
  "block_pass cur k =
     (case thread_block cur k of (k', slept) \<Rightarrow> (k', if slept then Sleeps else Again))"

definition pipe_read :: "nat \<Rightarrow> ptr \<Rightarrow> u8 list \<Rightarrow> u64 \<Rightarrow> kernel \<Rightarrow> kernel \<times> u8 list \<times> pass" where
  "pipe_read cur v buf len k =
     (case pipe_of_vnode k v of
        Null_ref \<Rightarrow> (k, buf, Returns (- EINVAL))
      | Bad_ref \<Rightarrow> (k, buf, Faults)
      | Ref fd p ip \<Rightarrow>
          (case pipe_ring_read (ip_ring ip) buf len of (ring', buf', ret) \<Rightarrow>
           let k1 = set_pipe p (ip_ring_update (\<lambda>_. ring')) k
           in if ret > 0 then (wake_writer p ip k1, buf', Returns ret)
              else if len = 0 then (k1, buf', Returns 0)
              else if ip_writer_count ip = 0 then (k1, buf', Returns 0)
              else if f_flags fd AND O_NONBLOCK \<noteq> 0 then (k1, buf', Returns (- EAGAIN))
              else case block_pass cur (set_pipe p (ip_reader_waiter_update (\<lambda>_. Some cur)) k1)
                   of (k2, r) \<Rightarrow> (k2, buf', r)))"

text \<open>The checks before the loop of \<^verbatim>\<open>pipe_write\<close>; \<open>Again\<close> means the loop is entered.\<close>

definition pipe_write_enter :: "ptr \<Rightarrow> kernel \<Rightarrow> pass" where
  "pipe_write_enter v k =
     (case pipe_of_vnode k v of
        Null_ref \<Rightarrow> Returns (- EINVAL)
      | Bad_ref \<Rightarrow> Faults
      | Ref fd p ip \<Rightarrow> if ip_reader_count ip = 0 then Returns (- EPIPE) else Again)"

definition pipe_write ::
    "nat \<Rightarrow> ptr \<Rightarrow> u8 list \<Rightarrow> u64 \<Rightarrow> u64 \<Rightarrow> kernel \<Rightarrow> kernel \<times> u64 \<times> pass" where
  "pipe_write cur v buf len written k =
     (case pipe_of_vnode k v of
        Null_ref \<Rightarrow> (k, written, Returns (- EINVAL))
      | Bad_ref \<Rightarrow> (k, written, Faults)
      | Ref fd p ip \<Rightarrow>
          if \<not> written < len then (k, written, Returns (sint written))
          else
            (case pipe_ring_write (ip_ring ip) (drop (unat written) buf) (len - written) of (ring', ret) \<Rightarrow>
             let k1 = set_pipe p (ip_ring_update (\<lambda>_. ring')) k
             in if ret > 0 then (wake_reader p ip k1, written + word_of_int ret, Again)
                else if ip_reader_count ip = 0
                  then (k1, written, Returns (if written > 0 then sint written else - EPIPE))
                else if f_flags fd AND O_NONBLOCK \<noteq> 0
                  then (k1, written, Returns (if written > 0 then sint written else - EAGAIN))
                else case block_pass cur (set_pipe p (ip_writer_waiter_update (\<lambda>_. Some cur)) k1)
                     of (k2, r) \<Rightarrow> (k2, written, r)))"

definition pipe_close_fd :: "ptr \<Rightarrow> kernel \<Rightarrow> kernel option" where
  "pipe_close_fd f k =
     (case k_files k f of None \<Rightarrow> None | Some fd \<Rightarrow>
      case f_private_data fd of None \<Rightarrow> Some k | Some p \<Rightarrow>
      case k_pipes k p of None \<Rightarrow> None | Some ip \<Rightarrow>
        let k1 = (if f_ops fd = Some Pipe_read_ops then
                    let r = ip_reader_count ip - 1;
                        ka = set_pipe p (ip_reader_count_update (\<lambda>_. r)) k
                    in if r = 0 then wake_writer p ip ka else ka
                  else if f_ops fd = Some Pipe_write_ops then
                    let w = ip_writer_count ip - 1;
                        ka = set_pipe p (ip_writer_count_update (\<lambda>_. w)) k
                    in if w = 0 then wake_reader p ip ka else ka
                  else k)
        in case k_pipes k1 p of None \<Rightarrow> None | Some ip1 \<Rightarrow>
             if ip_reader_count ip1 = 0 \<and> ip_writer_count ip1 = 0
             then Some (set_file f (f_private_data_update (\<lambda>_. None))
                          (kernel_free p (k1\<lparr>k_pipes := (k_pipes k1)(p := None)\<rparr>)))
             else Some k1)"

definition pipe_dup_fd :: "ptr \<Rightarrow> kernel \<Rightarrow> kernel option" where
  "pipe_dup_fd f k =
     (case k_files k f of None \<Rightarrow> None | Some fd \<Rightarrow>
      case f_private_data fd of None \<Rightarrow> Some k | Some p \<Rightarrow>
      case k_pipes k p of None \<Rightarrow> None | Some ip \<Rightarrow>
        Some (if f_ops fd = Some Pipe_read_ops
              then set_pipe p (ip_reader_count_update (\<lambda>c. c + 1)) k
              else if f_ops fd = Some Pipe_write_ops
              then set_pipe p (ip_writer_count_update (\<lambda>c. c + 1)) k
              else k))"

section \<open>Interleaved calls\<close>

text \<open>
  The calls in flight on one pipe: what each thread is executing, the bytes the
  ring accepted from writers and the bytes readers were given, both in order.
  A pass is one step: the kernel is entered by one thread at a time.
\<close>

datatype call = Reading "u8 list" u64 | Writing "u8 list" u64 u64

record pipe_ends =
  pe_pipe :: ptr
  pe_rvnode :: ptr
  pe_wvnode :: ptr
  pe_rfile :: ptr
  pe_wfile :: ptr

record pipe_sys =
  ps_kernel :: kernel
  ps_calls :: "nat \<Rightarrow> call option"
  ps_ropen :: bool
  ps_wopen :: bool
  ps_sent :: "u8 list"
  ps_received :: "u8 list"

definition read_result :: "u8 list \<Rightarrow> pass \<Rightarrow> u8 list" where
  "read_result buf r = (case r of Returns n \<Rightarrow> take (nat n) buf | _ \<Rightarrow> [])"

definition is_return :: "pass \<Rightarrow> bool" where
  "is_return r = (case r of Returns _ \<Rightarrow> True | _ \<Rightarrow> False)"

inductive pipe_step :: "pipe_ends \<Rightarrow> pipe_sys \<Rightarrow> pipe_sys \<Rightarrow> bool" for e where
  read_call:
    "\<lbrakk>ps_calls s t = None; \<not> t_in_kernel_sleep (k_threads (ps_kernel s) t); ps_ropen s;
      length buf = unat len\<rbrakk>
     \<Longrightarrow> pipe_step e s (s\<lparr>ps_calls := (ps_calls s)(t \<mapsto> Reading buf len)\<rparr>)"
| read_pass:
    "\<lbrakk>ps_calls s t = Some (Reading buf len);
      \<not> t_in_kernel_sleep (k_threads (ps_kernel s) t);
      pipe_read t (pe_rvnode e) buf len (ps_kernel s) = (k', buf', r)\<rbrakk>
     \<Longrightarrow> pipe_step e s
          (s\<lparr>ps_kernel := k',
             ps_calls := (ps_calls s)(t := if is_return r then None else Some (Reading buf' len)),
             ps_received := ps_received s @ read_result buf' r\<rparr>)"
| write_call:
    "\<lbrakk>ps_calls s t = None; \<not> t_in_kernel_sleep (k_threads (ps_kernel s) t); ps_wopen s;
      length buf = unat len; pipe_write_enter (pe_wvnode e) (ps_kernel s) = Again\<rbrakk>
     \<Longrightarrow> pipe_step e s (s\<lparr>ps_calls := (ps_calls s)(t \<mapsto> Writing buf len 0)\<rparr>)"
| write_pass:
    "\<lbrakk>ps_calls s t = Some (Writing buf len written);
      \<not> t_in_kernel_sleep (k_threads (ps_kernel s) t);
      pipe_write t (pe_wvnode e) buf len written (ps_kernel s) = (k', written', r)\<rbrakk>
     \<Longrightarrow> pipe_step e s
          (s\<lparr>ps_kernel := k',
             ps_calls := (ps_calls s)(t := if is_return r then None else Some (Writing buf len written')),
             ps_sent := ps_sent s @ take (unat (written' - written)) (drop (unat written) buf)\<rparr>)"
| switch_back:
    "\<lbrakk>t_in_kernel_sleep (k_threads (ps_kernel s) t);
      t_state (k_threads (ps_kernel s) t) \<noteq> THREAD_STATE_BLOCKED\<rbrakk>
     \<Longrightarrow> pipe_step e s (s\<lparr>ps_kernel := thread_block_return t (ps_kernel s)\<rparr>)"
| other_wake:
    "pipe_step e s (s\<lparr>ps_kernel := vxThreadWake t (ps_kernel s)\<rparr>)"
| close_read:
    "\<lbrakk>ps_ropen s; \<forall>t buf len. ps_calls s t \<noteq> Some (Reading buf len);
      pipe_close_fd (pe_rfile e) (ps_kernel s) = Some k'\<rbrakk>
     \<Longrightarrow> pipe_step e s (s\<lparr>ps_kernel := k', ps_ropen := False\<rparr>)"
| close_write:
    "\<lbrakk>ps_wopen s; \<forall>t buf len w. ps_calls s t \<noteq> Some (Writing buf len w);
      pipe_close_fd (pe_wfile e) (ps_kernel s) = Some k'\<rbrakk>
     \<Longrightarrow> pipe_step e s (s\<lparr>ps_kernel := k', ps_wopen := False\<rparr>)"

text \<open>States reached through states that all satisfy \<open>P\<close>.\<close>

inductive pipe_reach :: "pipe_ends \<Rightarrow> (pipe_sys \<Rightarrow> bool) \<Rightarrow> pipe_sys \<Rightarrow> pipe_sys \<Rightarrow> bool"
  for e P s0 where
  start: "P s0 \<Longrightarrow> pipe_reach e P s0 s0"
| go: "\<lbrakk>pipe_reach e P s0 s; pipe_step e s s'; P s'\<rbrakk> \<Longrightarrow> pipe_reach e P s0 s'"

section \<open>What one pass does\<close>

lemma pipe_ring_write_zero:
  "pipe_ring_inv r \<Longrightarrow> pipe_ring_write r xs len = (r', 0) \<Longrightarrow> r' = r"
  by (auto simp: pipe_ring_write_eq Let_def split: if_splits)

lemma pipe_ring_read_zero:
  "pipe_ring_inv r \<Longrightarrow> pipe_ring_read r buf len = (r', buf', 0) \<Longrightarrow> r' = r \<and> buf' = buf"
  by (auto simp: pipe_ring_read_eq Let_def split: if_splits)

lemma set_pipe_live:
  "k_pipes k p = Some ip \<Longrightarrow> set_pipe p g k = k\<lparr>k_pipes := (k_pipes k)(p \<mapsto> g ip)\<rparr>"
  by (simp add: set_pipe_def)

lemma ring_unchanged: "k_pipes k p = Some ip \<Longrightarrow>
    k\<lparr>k_pipes := (k_pipes k)(p \<mapsto> ip)\<rparr> = k"
proof -
  assume "k_pipes k p = Some ip"
  then have "(k_pipes k)(p \<mapsto> ip) = k_pipes k" by (simp add: fun_upd_idem)
  then show ?thesis by simp
qed

lemma block_pass_result: "block_pass t k = (k', r) \<Longrightarrow> r = Sleeps \<or> r = Again"
  by (auto simp: block_pass_def split: prod.splits if_splits)

lemma pipe_read_effect:
  assumes ref: "pipe_of_vnode k v = Ref fd p ip" and live: "k_pipes k p = Some ip"
    and inv: "pipe_ring_inv (ip_ring ip)" and len: "length buf = unat len"
    and pass: "pipe_read t v buf len k = (k', buf', r)"
  obtains (data) n ring' where "0 < n" "r = Returns (int n)" "length buf' = length buf"
      "pipe_ring_inv ring'" "n \<le> length buf'"
      "pipe_ring_list (ip_ring ip) = take n buf' @ pipe_ring_list ring'"
      "k' = wake_writer p ip (k\<lparr>k_pipes := (k_pipes k)(p \<mapsto> ip\<lparr>ip_ring := ring'\<rparr>)\<rparr>)"
  | (finish) m where "m \<le> 0" "r = Returns m" "k' = k" "buf' = buf"
  | (blocked) "pipe_ring_list (ip_ring ip) = []" "ip_writer_count ip \<noteq> 0" "buf' = buf"
      "block_pass t (k\<lparr>k_pipes := (k_pipes k)(p \<mapsto> ip\<lparr>ip_reader_waiter := Some t\<rparr>)\<rparr>) = (k', r)"
proof -
  obtain ring' b' ret where rd: "pipe_ring_read (ip_ring ip) buf len = (ring', b', ret)"
    by (cases "pipe_ring_read (ip_ring ip) buf len")
  have le: "unat len \<le> length buf" using len by simp
  note law = pipe_fifo.get_law [OF inv le rd]
  show thesis
  proof (cases "ret > 0")
    case True
    show thesis
      by (rule data [of "nat ret" ring'])
        (use True pass law rd live in \<open>auto simp: pipe_read_def ref set_pipe_live len\<close>)
  next
    case False
    have "ret \<ge> 0" using law by (elim conjE) simp
    with False have z: "ret = 0" by simp
    then have same: "ring' = ip_ring ip" "b' = buf" using pipe_ring_read_zero [OF inv] rd by auto
    have "int (min (unat len) (length (pipe_ring_list (ip_ring ip)))) = 0" using law z by metis
    then have empty: "len \<noteq> 0 \<Longrightarrow> pipe_ring_list (ip_ring ip) = []"
      by (simp add: min_def unat_eq_0 split: if_splits flip: length_0_conv)
    consider m where "m \<le> 0" "r = Returns m" "k' = k" "buf' = buf"
      | "len \<noteq> 0" "ip_writer_count ip \<noteq> 0" "buf' = buf"
        "block_pass t (k\<lparr>k_pipes := (k_pipes k)(p \<mapsto> ip\<lparr>ip_reader_waiter := Some t\<rparr>)\<rparr>) = (k', r)"
      using pass z
      by (auto simp: pipe_read_def ref rd set_pipe_live [OF live] same ring_unchanged [OF live]
          errno_defs live Let_def split: if_splits prod.splits)
    then show thesis by cases (use empty finish blocked in blast)+
  qed
qed

lemma pipe_write_effect:
  assumes ref: "pipe_of_vnode k v = Ref fd p ip" and live: "k_pipes k p = Some ip"
    and inv: "pipe_ring_inv (ip_ring ip)" and len: "length buf = unat len" and wl: "wr \<le> len"
    and pass: "pipe_write t v buf len wr k = (k', wr', r)"
  obtains (data) ring' where "r = Again" "wr < wr'" "wr' \<le> len" "pipe_ring_inv ring'"
      "pipe_ring_list ring' =
       pipe_ring_list (ip_ring ip) @ take (unat (wr' - wr)) (drop (unat wr) buf)"
      "k' = wake_reader p ip (k\<lparr>k_pipes := (k_pipes k)(p \<mapsto> ip\<lparr>ip_ring := ring'\<rparr>)\<rparr>)"
  | (finish) m where "r = Returns m" "k' = k" "wr' = wr"
  | (blocked) "length (pipe_ring_list (ip_ring ip)) = 4096" "ip_reader_count ip \<noteq> 0" "wr' = wr"
      "block_pass t (k\<lparr>k_pipes := (k_pipes k)(p \<mapsto> ip\<lparr>ip_writer_waiter := Some t\<rparr>)\<rparr>) = (k', r)"
proof (cases "wr < len")
  case False
  then show thesis using pass finish by (auto simp: pipe_write_def ref)
next
  case less: True
  obtain ring' ret where w: "pipe_ring_write (ip_ring ip) (drop (unat wr) buf) (len - wr) = (ring', ret)"
    by (cases "pipe_ring_write (ip_ring ip) (drop (unat wr) buf) (len - wr)")
  have diff: "unat (len - wr) = unat len - unat wr" using less by (simp add: unat_sub order_less_imp_le)
  then have le: "unat (len - wr) \<le> length (drop (unat wr) buf)" using len by simp
  note law = pipe_fifo.put_law [OF inv le w]
  note bound = pipe_fifo.bounded [OF inv]
  show thesis
  proof (cases "ret > 0")
    case True
    define n where "n = nat ret"
    have n: "0 < n" "n \<le> unat len - unat wr" "ret = int n" using True law diff by (auto simp: n_def)
    have lim: "unat len < 2 ^ 64" using unsigned_less [of len] by simp
    then have un: "unat (word_of_nat n :: u64) = n" "unat wr + n < 2 ^ 64"
      using n by (simp_all add: unat_of_nat)
    then have u: "unat (wr + word_of_nat n) = unat wr + n" by (simp add: unat_word_ariths)
    have d: "unat (wr + word_of_nat n - wr) = n" by (simp add: un(1))
    have less': "unat wr < unat len" using less by (simp add: word_less_nat_alt)
    have r: "r = Again" "wr' = wr + word_of_nat n"
      "k' = wake_reader p ip (k\<lparr>k_pipes := (k_pipes k)(p \<mapsto> ip\<lparr>ip_ring := ring'\<rparr>)\<rparr>)"
      using pass True less n(3) by (auto simp: pipe_write_def ref w set_pipe_live [OF live])
    show thesis
      by (rule data [of ring'])
        (use r u d n law less' in \<open>auto simp: word_less_nat_alt word_le_nat_alt\<close>)
  next
    case False
    have "ret \<ge> 0" using law by (elim conjE) simp
    with False have z: "ret = 0" by simp
    have same: "ring' = ip_ring ip" using pipe_ring_write_zero [OF inv] w z by auto
    have "unat len - unat wr > 0" using less by (simp add: word_less_nat_alt)
    then have full: "length (pipe_ring_list (ip_ring ip)) = 4096"
      using law z diff bound by (simp add: min_def split: if_splits)
    consider m where "r = Returns m" "k' = k" "wr' = wr"
      | "ip_reader_count ip \<noteq> 0" "wr' = wr"
        "block_pass t (k\<lparr>k_pipes := (k_pipes k)(p \<mapsto> ip\<lparr>ip_writer_waiter := Some t\<rparr>)\<rparr>) = (k', r)"
      using pass z less
      by (auto simp: pipe_write_def ref w set_pipe_live [OF live] same ring_unchanged [OF live] live
          Let_def split: if_splits prod.splits)
    then show thesis by cases (use full finish blocked in blast)+
  qed
qed

section \<open>Frames\<close>

lemma wake_frames [heap_frame]:
  "k_vnodes (wake_writer p ip k) = k_vnodes k" "k_files (wake_writer p ip k) = k_files k"
  "k_vnodes (wake_reader p ip k) = k_vnodes k" "k_files (wake_reader p ip k) = k_files k"
  "k_vnodes (vxThreadWake t k) = k_vnodes k" "k_files (vxThreadWake t k) = k_files k"
  "k_pipes (vxThreadWake t k) = k_pipes k"
  "k_vnodes (thread_block_return t k) = k_vnodes k" "k_files (thread_block_return t k) = k_files k"
  "k_pipes (thread_block_return t k) = k_pipes k"
  by (simp_all add: wake_writer_def wake_reader_def vxThreadWake_def set_pipe_def Let_def
      thread_block_return_def split: option.splits)

lemma wake_writer_pipes:
  "k_pipes k p = Some q \<Longrightarrow> ip_writer_waiter q = ip_writer_waiter ip \<Longrightarrow>
   k_pipes (wake_writer p ip k) = (k_pipes k)(p \<mapsto> q\<lparr>ip_writer_waiter := None\<rparr>)"
  by (auto simp: wake_writer_def set_pipe_def vxThreadWake_def Let_def split: option.splits)

lemma wake_reader_pipes:
  "k_pipes k p = Some q \<Longrightarrow> ip_reader_waiter q = ip_reader_waiter ip \<Longrightarrow>
   k_pipes (wake_reader p ip k) = (k_pipes k)(p \<mapsto> q\<lparr>ip_reader_waiter := None\<rparr>)"
  by (auto simp: wake_reader_def set_pipe_def vxThreadWake_def Let_def split: option.splits)

lemma asleep_wake [simp]:
  "thread_asleep (vxThreadWake w k) t \<longleftrightarrow> thread_asleep k t \<and> t \<noteq> w"
  by (auto simp: thread_asleep_def vxThreadWake_def Let_def)

lemma asleep_wake_writer [simp]:
  "thread_asleep (wake_writer p ip k) t \<longleftrightarrow> thread_asleep k t \<and> ip_writer_waiter ip \<noteq> Some t"
proof -
  have "thread_asleep (set_pipe p g k) t = thread_asleep k t" for p g k
    by (simp add: thread_asleep_def set_pipe_def)
  then show ?thesis by (auto simp: wake_writer_def split: option.splits)
qed

lemma asleep_wake_reader [simp]:
  "thread_asleep (wake_reader p ip k) t \<longleftrightarrow> thread_asleep k t \<and> ip_reader_waiter ip \<noteq> Some t"
proof -
  have "thread_asleep (set_pipe p g k) t = thread_asleep k t" for p g k
    by (simp add: thread_asleep_def set_pipe_def)
  then show ?thesis by (auto simp: wake_reader_def split: option.splits)
qed

lemma asleep_block_return [simp]:
  "thread_asleep (thread_block_return w k) t \<longleftrightarrow> thread_asleep k t \<and> t \<noteq> w"
  by (auto simp: thread_asleep_def thread_block_return_def)

lemma asleep_pipes_update [simp]: "thread_asleep (k\<lparr>k_pipes := h\<rparr>) t = thread_asleep k t"
  by (simp add: thread_asleep_def)

lemma block_pass_frame:
  assumes "block_pass t k = (k', r)"
  shows "k_vnodes k' = k_vnodes k" "k_files k' = k_files k" "k_pipes k' = k_pipes k"
    "\<And>u. u \<noteq> t \<Longrightarrow> thread_asleep k' u = thread_asleep k u"
    "r = Sleeps \<or> r = Again"
  using assms
  by (auto simp: block_pass_def thread_block_def thread_asleep_def Let_def split: if_splits)

section \<open>The pipe invariant\<close>

definition pipe_linked :: "vops \<Rightarrow> ptr \<Rightarrow> ptr \<Rightarrow> ptr \<Rightarrow> kernel \<Rightarrow> bool" where
  "pipe_linked ops v f p k \<longleftrightarrow>
     (case k_vnodes k v of None \<Rightarrow> False | Some vn \<Rightarrow> vn_private vn = Some f) \<and>
     (case k_files k f of None \<Rightarrow> False
      | Some fd \<Rightarrow> f_private_data fd = Some p \<and> f_ops fd = Some ops)"

definition call_ok :: "pipe_sys \<Rightarrow> call \<Rightarrow> bool" where
  "call_ok s c =
     (case c of Reading buf len \<Rightarrow> ps_ropen s \<and> length buf = unat len
      | Writing buf len wr \<Rightarrow> ps_wopen s \<and> length buf = unat len \<and> wr \<le> len)"

definition pipe_inv :: "pipe_ends \<Rightarrow> pipe_sys \<Rightarrow> bool" where
  "pipe_inv e s \<longleftrightarrow>
     pe_rfile e \<noteq> pe_wfile e \<and>
     (ps_ropen s \<longrightarrow> pipe_linked Pipe_read_ops (pe_rvnode e) (pe_rfile e) (pe_pipe e) (ps_kernel s)) \<and>
     (ps_wopen s \<longrightarrow> pipe_linked Pipe_write_ops (pe_wvnode e) (pe_wfile e) (pe_pipe e) (ps_kernel s)) \<and>
     (case k_pipes (ps_kernel s) (pe_pipe e) of
        None \<Rightarrow> \<not> ps_ropen s \<and> \<not> ps_wopen s \<and> prefix (ps_received s) (ps_sent s)
      | Some ip \<Rightarrow> (ps_ropen s \<or> ps_wopen s) \<and> pipe_ring_inv (ip_ring ip) \<and>
          ip_reader_count ip = of_bool (ps_ropen s) \<and> ip_writer_count ip = of_bool (ps_wopen s) \<and>
          ps_sent s = ps_received s @ pipe_ring_list (ip_ring ip)) \<and>
     (\<forall>t c. ps_calls s t = Some c \<longrightarrow> call_ok s c)"

lemma linked_ref:
  "pipe_linked ops v f p k \<Longrightarrow> k_pipes k p = Some ip \<Longrightarrow>
   \<exists>fd. k_files k f = Some fd \<and> f_ops fd = Some ops \<and> f_private_data fd = Some p \<and>
     pipe_of_vnode k v = Ref fd p ip"
  by (auto simp: pipe_linked_def pipe_of_vnode_def split: option.splits)

lemma linked_cong:
  "k_vnodes k' = k_vnodes k \<Longrightarrow> k_files k' = k_files k \<Longrightarrow>
   pipe_linked ops v f p k' = pipe_linked ops v f p k"
  by (simp add: pipe_linked_def)

lemma pipe_inv_live:
  assumes "pipe_inv e s" "ps_ropen s \<or> ps_wopen s"
  obtains ip where "k_pipes (ps_kernel s) (pe_pipe e) = Some ip" "pipe_ring_inv (ip_ring ip)"
    "ip_reader_count ip = of_bool (ps_ropen s)" "ip_writer_count ip = of_bool (ps_wopen s)"
    "ps_sent s = ps_received s @ pipe_ring_list (ip_ring ip)"
  using assms by (auto simp: pipe_inv_def split: option.splits)

lemma call_okD:
  "pipe_inv e s \<Longrightarrow> ps_calls s t = Some c \<Longrightarrow> call_ok s c"
  by (simp add: pipe_inv_def)

lemma pipe_inv_update:
  assumes inv: "pipe_inv e s" and ip: "k_pipes (ps_kernel s) (pe_pipe e) = Some ip"
    and frame: "k_vnodes k' = k_vnodes (ps_kernel s)" "k_files k' = k_files (ps_kernel s)"
    and ip': "k_pipes k' (pe_pipe e) = Some ip'" "pipe_ring_inv (ip_ring ip')"
      "ip_reader_count ip' = ip_reader_count ip" "ip_writer_count ip' = ip_writer_count ip"
    and stream: "sent' = recv' @ pipe_ring_list (ip_ring ip')"
    and calls: "\<forall>t c. calls' t = Some c \<longrightarrow> call_ok s c"
  shows "pipe_inv e (s\<lparr>ps_kernel := k', ps_calls := calls', ps_sent := sent', ps_received := recv'\<rparr>)"
proof -
  have "call_ok (s\<lparr>ps_kernel := k', ps_calls := calls', ps_sent := sent', ps_received := recv'\<rparr>) c
      = call_ok s c" for c
    by (simp add: call_ok_def split: call.splits)
  then show ?thesis
    using assms by (simp add: pipe_inv_def linked_cong [OF frame])
qed

lemma read_pass_inv:
  assumes inv: "pipe_inv e s" and call: "ps_calls s t = Some (Reading buf len)"
    and pass: "pipe_read t (pe_rvnode e) buf len (ps_kernel s) = (k', buf', r)"
  shows "pipe_inv e (s\<lparr>ps_kernel := k',
             ps_calls := (ps_calls s)(t := if is_return r then None else Some (Reading buf' len)),
             ps_received := ps_received s @ read_result buf' r\<rparr>)"
    (is "pipe_inv e ?s'")
proof -
  have ok: "ps_ropen s" "length buf = unat len" using call_okD [OF inv call] by (auto simp: call_ok_def)
  then obtain ip where ip: "k_pipes (ps_kernel s) (pe_pipe e) = Some ip" "pipe_ring_inv (ip_ring ip)"
    and stream: "ps_sent s = ps_received s @ pipe_ring_list (ip_ring ip)"
    using pipe_inv_live [OF inv] by metis
  have "pipe_linked Pipe_read_ops (pe_rvnode e) (pe_rfile e) (pe_pipe e) (ps_kernel s)"
    using inv ok by (simp add: pipe_inv_def)
  from linked_ref [OF this ip(1)] obtain fd
    where ref: "pipe_of_vnode (ps_kernel s) (pe_rvnode e) = Ref fd (pe_pipe e) ip" by blast
  have s': "?s' = s\<lparr>ps_kernel := k',
      ps_calls := (ps_calls s)(t := if is_return r then None else Some (Reading buf' len)),
      ps_sent := ps_sent s, ps_received := ps_received s @ read_result buf' r\<rparr>" by simp
  have calls: "\<forall>u c. ((ps_calls s)(t := if is_return r then None else Some (Reading b len))) u = Some c
      \<longrightarrow> call_ok s c" if "length b = length buf" for b
    using call_okD [OF inv] ok that by (auto simp: call_ok_def split: if_splits)
  from ref ip ok(2) pass show ?thesis
  proof (cases rule: pipe_read_effect)
    case (data n ring')
    show ?thesis unfolding s'
      by (rule pipe_inv_update [OF inv ip(1), where ip' = "ip\<lparr>ip_ring := ring', ip_writer_waiter := None\<rparr>"])
        (use data calls [OF data(3)] stream in \<open>simp_all add: heap_frame wake_writer_pipes read_result_def\<close>)
  next
    case (finish m)
    show ?thesis unfolding s'
      by (rule pipe_inv_update [OF inv ip(1), where ip' = ip])
        (use finish calls [of buf'] ip stream in \<open>simp_all add: read_result_def\<close>)
  next
    case blocked
    note f = block_pass_frame [OF blocked(4)]
    have "read_result buf' r = []" using f(5) by (auto simp: read_result_def)
    then show ?thesis unfolding s'
      by (intro pipe_inv_update [OF inv ip(1), where ip' = "ip\<lparr>ip_reader_waiter := Some t\<rparr>"])
        (use calls [of buf'] ip stream blocked f(1-3) in simp_all)
  qed
qed

lemma write_pass_inv:
  assumes inv: "pipe_inv e s" and call: "ps_calls s t = Some (Writing buf len wr)"
    and pass: "pipe_write t (pe_wvnode e) buf len wr (ps_kernel s) = (k', wr', r)"
  shows "pipe_inv e (s\<lparr>ps_kernel := k',
             ps_calls := (ps_calls s)(t := if is_return r then None else Some (Writing buf len wr')),
             ps_sent := ps_sent s @ take (unat (wr' - wr)) (drop (unat wr) buf)\<rparr>)"
    (is "pipe_inv e ?s'")
proof -
  have ok: "ps_wopen s" "length buf = unat len" "wr \<le> len"
    using call_okD [OF inv call] by (auto simp: call_ok_def)
  then obtain ip where ip: "k_pipes (ps_kernel s) (pe_pipe e) = Some ip" "pipe_ring_inv (ip_ring ip)"
    and stream: "ps_sent s = ps_received s @ pipe_ring_list (ip_ring ip)"
    using pipe_inv_live [OF inv] by metis
  have "pipe_linked Pipe_write_ops (pe_wvnode e) (pe_wfile e) (pe_pipe e) (ps_kernel s)"
    using inv ok by (simp add: pipe_inv_def)
  from linked_ref [OF this ip(1)] obtain fd
    where ref: "pipe_of_vnode (ps_kernel s) (pe_wvnode e) = Ref fd (pe_pipe e) ip" by blast
  have s': "?s' = s\<lparr>ps_kernel := k',
      ps_calls := (ps_calls s)(t := if is_return r then None else Some (Writing buf len wr')),
      ps_sent := ps_sent s @ take (unat (wr' - wr)) (drop (unat wr) buf),
      ps_received := ps_received s\<rparr>" by simp
  have calls: "\<forall>u c. ((ps_calls s)(t := if is_return r then None else Some (Writing buf len w))) u = Some c
      \<longrightarrow> call_ok s c" if "w \<le> len" for w
    using call_okD [OF inv] ok that by (auto simp: call_ok_def split: if_splits)
  from ref ip ok(2,3) pass show ?thesis
  proof (cases rule: pipe_write_effect)
    case (data ring')
    show ?thesis
      by (subst s', rule pipe_inv_update [OF inv ip(1), where ip' = "ip\<lparr>ip_ring := ring', ip_reader_waiter := None\<rparr>"])
        (use data(4-6) calls [OF data(3)] stream in \<open>simp_all add: heap_frame wake_reader_pipes\<close>)
  next
    case (finish m)
    show ?thesis
      by (subst s', rule pipe_inv_update [OF inv ip(1), where ip' = ip])
        (use finish calls [of wr'] ok(3) ip stream in simp_all)
  next
    case blocked
    note f = block_pass_frame [OF blocked(4)]
    show ?thesis
      by (subst s', rule pipe_inv_update [OF inv ip(1), where ip' = "ip\<lparr>ip_writer_waiter := Some t\<rparr>"])
        (use calls [of wr'] ok(3) ip stream blocked(3) f(1-3) in simp_all)
  qed
qed

lemma close_read_effect:
  assumes inv: "pipe_inv e s" and opened: "ps_ropen s"
  obtains ip k' where "k_pipes (ps_kernel s) (pe_pipe e) = Some ip"
    "pipe_close_fd (pe_rfile e) (ps_kernel s) = Some k'"
    "k_vnodes k' = k_vnodes (ps_kernel s)"
    "k_files k' (pe_wfile e) = k_files (ps_kernel s) (pe_wfile e)"
    "\<And>t. thread_asleep k' t \<longleftrightarrow> thread_asleep (ps_kernel s) t \<and> ip_writer_waiter ip \<noteq> Some t"
    "k_pipes k' (pe_pipe e) = (if ps_wopen s
       then Some (ip\<lparr>ip_reader_count := 0, ip_writer_waiter := None\<rparr>) else None)"
proof -
  obtain ip where ip: "k_pipes (ps_kernel s) (pe_pipe e) = Some ip"
    "ip_reader_count ip = 1" "ip_writer_count ip = of_bool (ps_wopen s)"
    using pipe_inv_live [OF inv] opened by (metis of_bool_eq(2))
  have "pipe_linked Pipe_read_ops (pe_rvnode e) (pe_rfile e) (pe_pipe e) (ps_kernel s)"
    using inv opened by (simp add: pipe_inv_def)
  from linked_ref [OF this ip(1)] obtain fd where fd: "k_files (ps_kernel s) (pe_rfile e) = Some fd"
    "f_ops fd = Some Pipe_read_ops" "f_private_data fd = Some (pe_pipe e)" by blast
  have ne: "pe_rfile e \<noteq> pe_wfile e" using inv by (simp add: pipe_inv_def)
  define k1 where "k1 = wake_writer (pe_pipe e) ip
      (set_pipe (pe_pipe e) (ip_reader_count_update (\<lambda>_. 0)) (ps_kernel s))"
  have k1: "k_vnodes k1 = k_vnodes (ps_kernel s)" "k_files k1 = k_files (ps_kernel s)"
    "k_pipes k1 (pe_pipe e) = Some (ip\<lparr>ip_reader_count := 0, ip_writer_waiter := None\<rparr>)"
    "\<And>t. thread_asleep k1 t \<longleftrightarrow> thread_asleep (ps_kernel s) t \<and> ip_writer_waiter ip \<noteq> Some t"
    by (simp_all add: k1_def heap_frame wake_writer_pipes set_pipe_live [OF ip(1)])
  have close: "pipe_close_fd (pe_rfile e) (ps_kernel s) =
     Some (if ps_wopen s then k1 else set_file (pe_rfile e) (f_private_data_update (\<lambda>_. None))
        (kernel_free (pe_pipe e) (k1\<lparr>k_pipes := (k_pipes k1)(pe_pipe e := None)\<rparr>)))"
    using ip fd k1(3) by (simp add: pipe_close_fd_def Let_def k1_def)
  show thesis
    by (rule that [OF ip(1) close])
      (use k1 ne in \<open>auto simp: set_file_def kernel_free_def thread_asleep_def\<close>)
qed

lemma close_write_effect:
  assumes inv: "pipe_inv e s" and opened: "ps_wopen s"
  obtains ip k' where "k_pipes (ps_kernel s) (pe_pipe e) = Some ip"
    "pipe_close_fd (pe_wfile e) (ps_kernel s) = Some k'"
    "k_vnodes k' = k_vnodes (ps_kernel s)"
    "k_files k' (pe_rfile e) = k_files (ps_kernel s) (pe_rfile e)"
    "\<And>t. thread_asleep k' t \<longleftrightarrow> thread_asleep (ps_kernel s) t \<and> ip_reader_waiter ip \<noteq> Some t"
    "k_pipes k' (pe_pipe e) = (if ps_ropen s
       then Some (ip\<lparr>ip_writer_count := 0, ip_reader_waiter := None\<rparr>) else None)"
proof -
  obtain ip where ip: "k_pipes (ps_kernel s) (pe_pipe e) = Some ip"
    "ip_writer_count ip = 1" "ip_reader_count ip = of_bool (ps_ropen s)"
    using pipe_inv_live [OF inv] opened by (metis of_bool_eq(2))
  have "pipe_linked Pipe_write_ops (pe_wvnode e) (pe_wfile e) (pe_pipe e) (ps_kernel s)"
    using inv opened by (simp add: pipe_inv_def)
  from linked_ref [OF this ip(1)] obtain fd where fd: "k_files (ps_kernel s) (pe_wfile e) = Some fd"
    "f_ops fd = Some Pipe_write_ops" "f_private_data fd = Some (pe_pipe e)" by blast
  have ne: "pe_rfile e \<noteq> pe_wfile e" using inv by (simp add: pipe_inv_def)
  define k1 where "k1 = wake_reader (pe_pipe e) ip
      (set_pipe (pe_pipe e) (ip_writer_count_update (\<lambda>_. 0)) (ps_kernel s))"
  have k1: "k_vnodes k1 = k_vnodes (ps_kernel s)" "k_files k1 = k_files (ps_kernel s)"
    "k_pipes k1 (pe_pipe e) = Some (ip\<lparr>ip_writer_count := 0, ip_reader_waiter := None\<rparr>)"
    "\<And>t. thread_asleep k1 t \<longleftrightarrow> thread_asleep (ps_kernel s) t \<and> ip_reader_waiter ip \<noteq> Some t"
    by (simp_all add: k1_def heap_frame wake_reader_pipes set_pipe_live [OF ip(1)])
  have close: "pipe_close_fd (pe_wfile e) (ps_kernel s) =
     Some (if ps_ropen s then k1 else set_file (pe_wfile e) (f_private_data_update (\<lambda>_. None))
        (kernel_free (pe_pipe e) (k1\<lparr>k_pipes := (k_pipes k1)(pe_pipe e := None)\<rparr>)))"
    using ip fd k1(3) by (simp add: pipe_close_fd_def Let_def k1_def)
  show thesis
    by (rule that [OF ip(1) close])
      (use k1 ne in \<open>auto simp: set_file_def kernel_free_def thread_asleep_def\<close>)
qed

lemma linked_cong_at:
  "k_vnodes k' = k_vnodes k \<Longrightarrow> k_files k' f = k_files k f \<Longrightarrow>
   pipe_linked ops v f p k' = pipe_linked ops v f p k"
  by (simp add: pipe_linked_def)

lemma close_read_inv:
  assumes inv: "pipe_inv e s" and opened: "ps_ropen s"
    and none: "\<forall>t buf len. ps_calls s t \<noteq> Some (Reading buf len)"
    and close: "pipe_close_fd (pe_rfile e) (ps_kernel s) = Some k'"
  shows "pipe_inv e (s\<lparr>ps_kernel := k', ps_ropen := False\<rparr>)"
proof -
  obtain ip where ip: "k_pipes (ps_kernel s) (pe_pipe e) = Some ip"
    and k': "k_vnodes k' = k_vnodes (ps_kernel s)"
      "k_files k' (pe_wfile e) = k_files (ps_kernel s) (pe_wfile e)"
      "k_pipes k' (pe_pipe e) = (if ps_wopen s
        then Some (ip\<lparr>ip_reader_count := 0, ip_writer_waiter := None\<rparr>) else None)"
    using close_read_effect [OF inv opened] close by (metis option.inject)
  have "call_ok (s\<lparr>ps_kernel := k', ps_ropen := False\<rparr>) c" if "ps_calls s t = Some c" for t c
    using call_okD [OF inv that] none that by (auto simp: call_ok_def split: call.splits)
  then show ?thesis
    using inv ip k' by (auto simp: pipe_inv_def linked_cong_at [OF k'(1,2)])
qed

lemma close_write_inv:
  assumes inv: "pipe_inv e s" and opened: "ps_wopen s"
    and none: "\<forall>t buf len w. ps_calls s t \<noteq> Some (Writing buf len w)"
    and close: "pipe_close_fd (pe_wfile e) (ps_kernel s) = Some k'"
  shows "pipe_inv e (s\<lparr>ps_kernel := k', ps_wopen := False\<rparr>)"
proof -
  obtain ip where ip: "k_pipes (ps_kernel s) (pe_pipe e) = Some ip"
    and k': "k_vnodes k' = k_vnodes (ps_kernel s)"
      "k_files k' (pe_rfile e) = k_files (ps_kernel s) (pe_rfile e)"
      "k_pipes k' (pe_pipe e) = (if ps_ropen s
        then Some (ip\<lparr>ip_writer_count := 0, ip_reader_waiter := None\<rparr>) else None)"
    using close_write_effect [OF inv opened] close by (metis option.inject)
  have "call_ok (s\<lparr>ps_kernel := k', ps_wopen := False\<rparr>) c" if "ps_calls s t = Some c" for t c
    using call_okD [OF inv that] none that by (auto simp: call_ok_def split: call.splits)
  then show ?thesis
    using inv ip k' by (auto simp: pipe_inv_def linked_cong_at [OF k'(1,2)])
qed

lemma call_ok_frame [simp]:
  "call_ok (s\<lparr>ps_kernel := k'\<rparr>) c = call_ok s c" "call_ok (s\<lparr>ps_calls := cs\<rparr>) c = call_ok s c"
  by (simp_all add: call_ok_def split: call.splits)

lemma pipe_inv_kernel:
  assumes "pipe_inv e s" "k_vnodes k' = k_vnodes (ps_kernel s)" "k_files k' = k_files (ps_kernel s)"
    "k_pipes k' = k_pipes (ps_kernel s)"
  shows "pipe_inv e (s\<lparr>ps_kernel := k'\<rparr>)"
  using assms by (cases "k_pipes (ps_kernel s) (pe_pipe e)")
    (simp_all add: pipe_inv_def linked_cong [OF assms(2,3)])

lemma pipe_inv_call:
  "pipe_inv e s \<Longrightarrow> call_ok s c \<Longrightarrow> pipe_inv e (s\<lparr>ps_calls := (ps_calls s)(t \<mapsto> c)\<rparr>)"
  by (cases "k_pipes (ps_kernel s) (pe_pipe e)") (auto simp: pipe_inv_def)

lemma pipe_step_inv: "pipe_step e s s' \<Longrightarrow> pipe_inv e s \<Longrightarrow> pipe_inv e s'"
proof (induction rule: pipe_step.induct)
  case read_call
  then show ?case by (intro pipe_inv_call) (simp_all add: call_ok_def)
next
  case write_call
  then show ?case by (intro pipe_inv_call) (simp_all add: call_ok_def)
next
  case switch_back
  then show ?case by (intro pipe_inv_kernel) (simp_all add: heap_frame)
next
  case other_wake
  then show ?case by (intro pipe_inv_kernel) (simp_all add: heap_frame)
qed (blast intro: read_pass_inv write_pass_inv close_read_inv close_write_inv)+

lemma pipe_reach_inv: "pipe_reach e P s0 s \<Longrightarrow> pipe_inv e s0 \<Longrightarrow> pipe_inv e s"
  by (induction rule: pipe_reach.induct) (auto intro: pipe_step_inv)

lemma pipe_pass_safe:
  assumes inv: "pipe_inv e s"
  shows "ps_calls s t = Some (Reading buf len) \<Longrightarrow>
      snd (snd (pipe_read t (pe_rvnode e) buf len (ps_kernel s))) \<noteq> Faults"
    and "ps_calls s t = Some (Writing buf len wr) \<Longrightarrow>
      snd (snd (pipe_write t (pe_wvnode e) buf len wr (ps_kernel s))) \<noteq> Faults"
proof -
  have ref: "\<exists>fd p ip. pipe_of_vnode (ps_kernel s) v = Ref fd p ip"
    if "pipe_linked ops v f (pe_pipe e) (ps_kernel s)" "ps_ropen s \<or> ps_wopen s" for ops v f
    using pipe_inv_live [OF inv that(2)] linked_ref [OF that(1)] by metis
  show "snd (snd (pipe_read t (pe_rvnode e) buf len (ps_kernel s))) \<noteq> Faults"
    if "ps_calls s t = Some (Reading buf len)"
  proof -
    have "ps_ropen s" using call_okD [OF inv that] by (simp add: call_ok_def)
    then obtain fd p ip where "pipe_of_vnode (ps_kernel s) (pe_rvnode e) = Ref fd p ip"
      using ref inv by (metis pipe_inv_def)
    then show ?thesis by (auto simp: pipe_read_def Let_def block_pass_def split: prod.splits)
  qed
  show "snd (snd (pipe_write t (pe_wvnode e) buf len wr (ps_kernel s))) \<noteq> Faults"
    if "ps_calls s t = Some (Writing buf len wr)"
  proof -
    have "ps_wopen s" using call_okD [OF inv that] by (simp add: call_ok_def)
    then obtain fd p ip where "pipe_of_vnode (ps_kernel s) (pe_wvnode e) = Ref fd p ip"
      using ref inv by (metis pipe_inv_def)
    then show ?thesis by (auto simp: pipe_write_def Let_def block_pass_def split: prod.splits)
  qed
qed

section \<open>No wake-up is lost\<close>

definition one_reader_one_writer :: "pipe_sys \<Rightarrow> bool" where
  "one_reader_one_writer s \<longleftrightarrow>
     (\<forall>t u b l b' l'. ps_calls s t = Some (Reading b l) \<longrightarrow> ps_calls s u = Some (Reading b' l') \<longrightarrow> t = u) \<and>
     (\<forall>t u b l w b' l' w'. ps_calls s t = Some (Writing b l w) \<longrightarrow>
        ps_calls s u = Some (Writing b' l' w') \<longrightarrow> t = u)"

definition rightly_asleep :: "internal_pipe \<Rightarrow> nat \<Rightarrow> call \<Rightarrow> bool" where
  "rightly_asleep ip t c =
     (case c of
        Reading _ _ \<Rightarrow> pipe_ring_list (ip_ring ip) = [] \<and> ip_writer_count ip \<noteq> 0 \<and>
          ip_reader_waiter ip = Some t
      | Writing _ _ _ \<Rightarrow> length (pipe_ring_list (ip_ring ip)) = 4096 \<and> ip_reader_count ip \<noteq> 0 \<and>
          ip_writer_waiter ip = Some t)"

definition sleep_inv :: "pipe_ends \<Rightarrow> pipe_sys \<Rightarrow> bool" where
  "sleep_inv e s \<longleftrightarrow>
     (\<forall>t c ip. thread_asleep (ps_kernel s) t \<longrightarrow> ps_calls s t = Some c \<longrightarrow>
        k_pipes (ps_kernel s) (pe_pipe e) = Some ip \<longrightarrow> rightly_asleep ip t c)"

lemma not_parked_awake: "\<not> t_in_kernel_sleep (k_threads k t) \<Longrightarrow> \<not> thread_asleep k t"
  by (simp add: thread_asleep_def)

lemma read_pass_sleep:
  assumes inv: "pipe_inv e s" and sl: "sleep_inv e s" and one: "one_reader_one_writer s"
    and call: "ps_calls s t = Some (Reading buf len)"
    and run: "\<not> t_in_kernel_sleep (k_threads (ps_kernel s) t)"
    and pass: "pipe_read t (pe_rvnode e) buf len (ps_kernel s) = (k', buf', r)"
  shows "sleep_inv e (s\<lparr>ps_kernel := k',
             ps_calls := (ps_calls s)(t := if is_return r then None else Some (Reading buf' len)),
             ps_received := ps_received s @ read_result buf' r\<rparr>)"
proof -
  have ok: "ps_ropen s" "length buf = unat len" using call_okD [OF inv call] by (auto simp: call_ok_def)
  then obtain ip where ip: "k_pipes (ps_kernel s) (pe_pipe e) = Some ip" "pipe_ring_inv (ip_ring ip)"
    using pipe_inv_live [OF inv] by metis
  have "pipe_linked Pipe_read_ops (pe_rvnode e) (pe_rfile e) (pe_pipe e) (ps_kernel s)"
    using inv ok by (simp add: pipe_inv_def)
  from linked_ref [OF this ip(1)] obtain fd
    where ref: "pipe_of_vnode (ps_kernel s) (pe_rvnode e) = Ref fd (pe_pipe e) ip" by blast
  have awake: "\<not> thread_asleep (ps_kernel s) t" using run by (rule not_parked_awake)
  have others: "\<exists>b l w. c = Writing b l w" "rightly_asleep ip u c"
    if "u \<noteq> t" "thread_asleep (ps_kernel s) u" "ps_calls s u = Some c" for u c
    using that one call sl ip by (cases c; auto simp: one_reader_one_writer_def sleep_inv_def)+
  from ref ip ok(2) pass show ?thesis
  proof (cases rule: pipe_read_effect)
    case (data n ring')
    then show ?thesis using awake others
      by (fastforce simp: sleep_inv_def is_return_def rightly_asleep_def)
  next
    case (finish m)
    then show ?thesis using awake others sl
      by (auto simp: sleep_inv_def is_return_def)
  next
    case blocked
    note f = block_pass_frame [OF blocked(4)]
    have "\<not> thread_asleep k' u \<or> ps_calls s u = None" if "u \<noteq> t" for u
      using others [OF that] f(4) [OF that] blocked(1) by (fastforce simp: rightly_asleep_def)
    then show ?thesis using f(3,5) blocked(1,2)
      by (auto simp: sleep_inv_def is_return_def rightly_asleep_def)
  qed
qed

lemma write_pass_sleep:
  assumes inv: "pipe_inv e s" and sl: "sleep_inv e s" and one: "one_reader_one_writer s"
    and call: "ps_calls s t = Some (Writing buf len wr)"
    and run: "\<not> t_in_kernel_sleep (k_threads (ps_kernel s) t)"
    and pass: "pipe_write t (pe_wvnode e) buf len wr (ps_kernel s) = (k', wr', r)"
  shows "sleep_inv e (s\<lparr>ps_kernel := k',
             ps_calls := (ps_calls s)(t := if is_return r then None else Some (Writing buf len wr')),
             ps_sent := ps_sent s @ take (unat (wr' - wr)) (drop (unat wr) buf)\<rparr>)"
proof -
  have ok: "ps_wopen s" "length buf = unat len" "wr \<le> len"
    using call_okD [OF inv call] by (auto simp: call_ok_def)
  then obtain ip where ip: "k_pipes (ps_kernel s) (pe_pipe e) = Some ip" "pipe_ring_inv (ip_ring ip)"
    using pipe_inv_live [OF inv] by metis
  have "pipe_linked Pipe_write_ops (pe_wvnode e) (pe_wfile e) (pe_pipe e) (ps_kernel s)"
    using inv ok by (simp add: pipe_inv_def)
  from linked_ref [OF this ip(1)] obtain fd
    where ref: "pipe_of_vnode (ps_kernel s) (pe_wvnode e) = Ref fd (pe_pipe e) ip" by blast
  have awake: "\<not> thread_asleep (ps_kernel s) t" using run by (rule not_parked_awake)
  have others: "\<exists>b l. c = Reading b l" "rightly_asleep ip u c"
    if "u \<noteq> t" "thread_asleep (ps_kernel s) u" "ps_calls s u = Some c" for u c
    using that one call sl ip by (cases c; auto simp: one_reader_one_writer_def sleep_inv_def)+
  from ref ip ok(2,3) pass show ?thesis
  proof (cases rule: pipe_write_effect)
    case (data ring')
    then show ?thesis using awake others
      by (fastforce simp: sleep_inv_def is_return_def rightly_asleep_def)
  next
    case (finish m)
    then show ?thesis using awake others sl
      by (auto simp: sleep_inv_def is_return_def)
  next
    case blocked
    note f = block_pass_frame [OF blocked(4)]
    have "\<not> thread_asleep k' u \<or> ps_calls s u = None" if "u \<noteq> t" for u
      using others [OF that] f(4) [OF that] blocked(1)
      by (fastforce simp: rightly_asleep_def simp del: length_pipe_ring_list)
    then show ?thesis using f(3,5) blocked(1,2)
      by (auto simp: sleep_inv_def is_return_def rightly_asleep_def simp del: length_pipe_ring_list)
  qed
qed

lemma close_read_sleep:
  assumes inv: "pipe_inv e s" and sl: "sleep_inv e s" and opened: "ps_ropen s"
    and none: "\<forall>t buf len. ps_calls s t \<noteq> Some (Reading buf len)"
    and close: "pipe_close_fd (pe_rfile e) (ps_kernel s) = Some k'"
  shows "sleep_inv e (s\<lparr>ps_kernel := k', ps_ropen := False\<rparr>)"
proof -
  obtain ip where ip: "k_pipes (ps_kernel s) (pe_pipe e) = Some ip"
    and wake: "\<And>t. thread_asleep k' t \<longleftrightarrow> thread_asleep (ps_kernel s) t \<and> ip_writer_waiter ip \<noteq> Some t"
    using close_read_effect [OF inv opened] close by (metis option.inject)
  have "ps_calls s t = None" if "thread_asleep k' t" for t
  proof (rule ccontr)
    assume "ps_calls s t \<noteq> None"
    then obtain c where c: "ps_calls s t = Some c" by blast
    then have "rightly_asleep ip t c" using sl ip wake that by (simp add: sleep_inv_def)
    then show False using none c wake that by (auto simp: rightly_asleep_def split: call.splits)
  qed
  then show ?thesis by (auto simp: sleep_inv_def)
qed

lemma close_write_sleep:
  assumes inv: "pipe_inv e s" and sl: "sleep_inv e s" and opened: "ps_wopen s"
    and none: "\<forall>t buf len w. ps_calls s t \<noteq> Some (Writing buf len w)"
    and close: "pipe_close_fd (pe_wfile e) (ps_kernel s) = Some k'"
  shows "sleep_inv e (s\<lparr>ps_kernel := k', ps_wopen := False\<rparr>)"
proof -
  obtain ip where ip: "k_pipes (ps_kernel s) (pe_pipe e) = Some ip"
    and wake: "\<And>t. thread_asleep k' t \<longleftrightarrow> thread_asleep (ps_kernel s) t \<and> ip_reader_waiter ip \<noteq> Some t"
    using close_write_effect [OF inv opened] close by (metis option.inject)
  have "ps_calls s t = None" if "thread_asleep k' t" for t
  proof (rule ccontr)
    assume "ps_calls s t \<noteq> None"
    then obtain c where c: "ps_calls s t = Some c" by blast
    then have "rightly_asleep ip t c" using sl ip wake that by (simp add: sleep_inv_def)
    then show False using none c wake that by (auto simp: rightly_asleep_def split: call.splits)
  qed
  then show ?thesis by (auto simp: sleep_inv_def)
qed

lemma pipe_step_sleep:
  assumes "pipe_step e s s'" "pipe_inv e s" "one_reader_one_writer s" "sleep_inv e s"
  shows "sleep_inv e s'"
  using assms
proof (induction rule: pipe_step.induct)
  case read_call
  then show ?case by (auto simp: sleep_inv_def dest: not_parked_awake)
next
  case write_call
  then show ?case by (auto simp: sleep_inv_def dest: not_parked_awake)
next
  case switch_back
  then show ?case by (auto simp: sleep_inv_def heap_frame)
next
  case other_wake
  then show ?case by (auto simp: sleep_inv_def heap_frame)
qed (blast intro: read_pass_sleep write_pass_sleep close_read_sleep close_write_sleep)+

lemma pipe_reach_sleep:
  "pipe_reach e one_reader_one_writer s0 s \<Longrightarrow> pipe_inv e s0 \<Longrightarrow> sleep_inv e s0 \<Longrightarrow>
   sleep_inv e s \<and> one_reader_one_writer s"
proof (induction rule: pipe_reach.induct)
  case (go s s')
  then show ?case using pipe_step_sleep pipe_reach_inv by blast
qed simp

section \<open>A pipe in use\<close>

text \<open>A new pipe, thread 1 writing two bytes to it, and thread 2 asleep reading from it.\<close>

definition sample_ends :: pipe_ends where
  "sample_ends = \<lparr>pe_pipe = 5, pe_rvnode = 1, pe_wvnode = 2, pe_rfile = 3, pe_wfile = 4\<rparr>"

definition sample_pipe :: internal_pipe where
  "sample_pipe = \<lparr>ip_ring = \<lparr>pr_buf = replicate 4096 0, pr_head = 0, pr_tail = 0\<rparr>,
     ip_reader_waiter = None, ip_writer_waiter = None, ip_reader_count = 1, ip_writer_count = 1\<rparr>"

definition sample_sys :: pipe_sys where
  "sample_sys = \<lparr>ps_kernel = (empty_kernel [])
       \<lparr>k_vnodes := [1 \<mapsto> zero_vnode\<lparr>vn_private := Some 3\<rparr>, 2 \<mapsto> zero_vnode\<lparr>vn_private := Some 4\<rparr>],
        k_files := [3 \<mapsto> zero_file\<lparr>f_ops := Some Pipe_read_ops, f_private_data := Some 5\<rparr>,
                    4 \<mapsto> zero_file\<lparr>f_ops := Some Pipe_write_ops, f_private_data := Some 5\<rparr>],
        k_pipes := [5 \<mapsto> sample_pipe]\<rparr>,
     ps_calls = Map.empty, ps_ropen = True, ps_wopen = True, ps_sent = [], ps_received = []\<rparr>"

definition sample_writing :: pipe_sys where
  "sample_writing = sample_sys\<lparr>ps_calls := (ps_calls sample_sys)(1 \<mapsto> Writing [7, 8] 2 0)\<rparr>"

definition sample_reading :: pipe_sys where
  "sample_reading = sample_sys\<lparr>ps_calls := (ps_calls sample_sys)(2 \<mapsto> Reading [0] 1)\<rparr>"

lemmas sample_defs = sample_sys_def sample_ends_def sample_pipe_def empty_kernel_def
  zero_vnode_def zero_file_def sample_writing_def sample_reading_def

lemma sample_inv: "pipe_inv sample_ends sample_sys" "sleep_inv sample_ends sample_sys"
  by (simp_all add: pipe_inv_def sample_defs pipe_linked_def pipe_ring_inv_def pipe_ring_list_def
      sleep_inv_def thread_asleep_def ring_view_def)

lemma sample_write_call: "pipe_step sample_ends sample_sys sample_writing"
  unfolding sample_writing_def
  by (rule pipe_step.write_call) (simp_all add: sample_defs pipe_write_enter_def pipe_of_vnode_def)

lemma sample_read_call: "pipe_step sample_ends sample_sys sample_reading"
  unfolding sample_reading_def by (rule pipe_step.read_call) (simp_all add: sample_defs)

lemma sample_write_pass:
  obtains s where "pipe_step sample_ends sample_writing s" "ps_sent s = [7, 8]"
    "ps_calls s = [1 \<mapsto> Writing [7, 8] 2 2]"
proof -
  obtain k' w r where p:
    "pipe_write 1 (pe_wvnode sample_ends) [7, 8] 2 0 (ps_kernel sample_writing) = (k', w, r)"
    by (cases "pipe_write 1 (pe_wvnode sample_ends) [7, 8] 2 0 (ps_kernel sample_writing)")
  then have w: "w = 2" "r = Again"
    by (simp_all add: sample_defs pipe_write_def pipe_of_vnode_def pipe_ring_write_def
        PIPE_MAX_RING_BUFFER_def Let_def wake_reader_def set_pipe_def)
  have "ps_calls sample_writing 1 = Some (Writing [7, 8] 2 0)"
    "\<not> t_in_kernel_sleep (k_threads (ps_kernel sample_writing) 1)"
    by (simp_all add: sample_defs)
  from pipe_step.write_pass [OF this p] show thesis
    by (rule that) (simp_all add: w, simp_all add: sample_defs is_return_def)
qed

lemma sample_read_pass:
  obtains s where "pipe_step sample_ends sample_reading s" "thread_asleep (ps_kernel s) 2"
    "ps_calls s = [2 \<mapsto> Reading [0] 1]"
    "k_pipes (ps_kernel s) 5 = Some (sample_pipe\<lparr>ip_reader_waiter := Some 2\<rparr>)"
proof -
  obtain k' b r where p:
    "pipe_read 2 (pe_rvnode sample_ends) [0] 1 (ps_kernel sample_reading) = (k', b, r)"
    by (cases "pipe_read 2 (pe_rvnode sample_ends) [0] 1 (ps_kernel sample_reading)")
  then have w: "r = Sleeps" "b = [0]" "thread_asleep k' 2"
      "k_pipes k' 5 = Some (sample_pipe\<lparr>ip_reader_waiter := Some 2\<rparr>)"
    by (auto simp: sample_defs pipe_read_def pipe_of_vnode_def pipe_ring_read_def block_pass_def
        PIPE_MAX_RING_BUFFER_def Let_def set_pipe_def thread_block_def thread_asleep_def)
  have "ps_calls sample_reading 2 = Some (Reading [0] 1)"
    "\<not> t_in_kernel_sleep (k_threads (ps_kernel sample_reading) 2)"
    by (simp_all add: sample_defs)
  from pipe_step.read_pass [OF this p] show thesis
    by (rule that) (simp_all add: w, simp add: sample_defs is_return_def)
qed

lemma sample_reach:
  "pipe_step sample_ends sample_sys s1 \<Longrightarrow> pipe_step sample_ends s1 s2 \<Longrightarrow> P sample_sys \<Longrightarrow>
   P s1 \<Longrightarrow> P s2 \<Longrightarrow> pipe_reach sample_ends P sample_sys s2"
  by (blast intro: pipe_reach.intros)

section \<open>Properties\<close>







end
