(* ===== verification/Kstr.thy ===== *)
theory Kstr
  imports Voxia_Prelude "HOL-Library.Signed_Division"
begin

text \<open>
  The string and memory routines of the kernel: \<^verbatim>\<open>kernel/libk/str/str.c\<close> in its
  portable variant, \<^verbatim>\<open>kernel/libk/string.c\<close> and \<^verbatim>\<open>kernel/libk/hash.c\<close>. A C string that a routine only
  reads is the list of its characters before the terminator; where a routine
  writes, the memory it writes is a list indexed by offsets.
\<close>

unbundle bit_operations_syntax

abbreviation NUL :: char where "NUL \<equiv> CHR 0x00"

text \<open>C strings have no terminator inside.\<close>

definition cstring :: "string \<Rightarrow> bool" where
  "cstring s \<longleftrightarrow> NUL \<notin> set s"

section \<open>Comparing and searching\<close>

fun strcmp :: "string \<Rightarrow> string \<Rightarrow> int" where
  "strcmp [] [] = 0"
| "strcmp [] (b # bs) = - int (of_char b)"
| "strcmp (a # as) [] = int (of_char a)"
| "strcmp (a # as) (b # bs) =
     (if a = b then strcmp as bs else int (of_char a) - int (of_char b))"

fun strncmp :: "string \<Rightarrow> string \<Rightarrow> nat \<Rightarrow> int" where
  "strncmp s1 s2 0 = 0"
| "strncmp [] [] (Suc n) = 0"
| "strncmp [] (b # bs) (Suc n) = - int (of_char b)"
| "strncmp (a # as) [] (Suc n) = int (of_char a)"
| "strncmp (a # as) (b # bs) (Suc n) =
     (if a \<noteq> b then int (of_char a) - int (of_char b) else strncmp as bs n)"

text \<open>\<^verbatim>\<open>memchr\<close> yields the offset of the byte found, None for NULL.\<close>

fun memchr :: "u8 list \<Rightarrow> int \<Rightarrow> nat \<Rightarrow> nat option" where
  "memchr buf c 0 = None"
| "memchr [] c (Suc len) = None"
| "memchr (b # bs) c (Suc len) =
     (if b = word_of_int c then Some 0 else map_option Suc (memchr bs c len))"

fun memcmp :: "u8 list \<Rightarrow> u8 list \<Rightarrow> nat \<Rightarrow> int" where
  "memcmp (a # as) (b # bs) (Suc n) = (if a \<noteq> b then uint a - uint b else memcmp as bs n)"
| "memcmp as bs n = 0"

text \<open>\<^verbatim>\<open>strchr\<close> looks at the terminator too; the result is the offset.\<close>

fun strchr :: "string \<Rightarrow> char \<Rightarrow> nat option" where
  "strchr [] c = (if c = NUL then Some 0 else None)"
| "strchr (a # as) c = (if a = c then Some 0 else map_option Suc (strchr as c))"

fun strspn :: "string \<Rightarrow> string \<Rightarrow> nat" where
  "strspn [] accept = 0"
| "strspn (p # ps) accept = (if p \<notin> set accept then 0 else Suc (strspn ps accept))"

fun strcspn :: "string \<Rightarrow> string \<Rightarrow> nat" where
  "strcspn [] reject = 0"
| "strcspn (p # ps) reject = (if strchr reject p \<noteq> None then 0 else Suc (strcspn ps reject))"

fun strpbrk :: "string \<Rightarrow> string \<Rightarrow> string option" where
  "strpbrk [] accept = None"
| "strpbrk (c # cs) accept = (if c \<in> set accept then Some (c # cs) else strpbrk cs accept)"

section \<open>Splitting\<close>

text \<open>
  \<^verbatim>\<open>strtok_r\<close>: the string to continue with is \<open>str\<close>, or the saved one when \<open>str\<close> is
  NULL; the results are the token, if any, and the new saved string.
\<close>

definition strtok_r :: "string option \<Rightarrow> string \<Rightarrow> string \<Rightarrow> string option \<times> string" where
  "strtok_r str delim saveptr =
     (let s = (case str of None \<Rightarrow> saveptr | Some s \<Rightarrow> s)
      in if s = [] then (None, s)
         else
           let s1 = drop (strspn s delim) s
           in if s1 = [] then (None, s1)
              else
                let n = strcspn s1 delim
                in if drop n s1 = [] then (Some s1, [])
                   else (Some (take n s1), drop (Suc n) s1))"

text \<open>
  \<^verbatim>\<open>strsep2\<close> returns the token before the first delimiter and moves the string
  pointer behind that delimiter, or to NULL when there is none.
\<close>

definition strsep2 :: "string \<Rightarrow> string \<Rightarrow> string \<times> string option" where
  "strsep2 s delim =
     (case strpbrk s delim of
        Some p \<Rightarrow> (take (length s - length p) s, Some (tl p))
      | None \<Rightarrow> (s, None))"

definition strsep :: "string option \<Rightarrow> char \<Rightarrow> string option \<times> string option" where
  "strsep str delim =
     (case str of None \<Rightarrow> (None, None)
      | Some s \<Rightarrow>
          if s = [] then (None, Some s)
          else
            let n = length (takeWhile (\<lambda>c. c \<noteq> delim) s)
            in if n < length s then (Some (take n s), Some (drop (Suc n) s))
               else (Some s, None))"

section \<open>Writing\<close>

definition to_lowercase :: "string \<Rightarrow> string" where
  "to_lowercase = map (\<lambda>c. let n = of_char c :: nat
     in if 65 \<le> n \<and> n \<le> 90 then char_of (n + 32) else c)"

text \<open>
  \<^verbatim>\<open>rtrim\<close> counts down with an unsigned index: it leaves the string when no
  character other than a blank stops it. None is that access out of bounds.
\<close>

fun rtrim_rev :: "string \<Rightarrow> string option" where
  "rtrim_rev [] = None"
| "rtrim_rev (c # cs) = (if c = CHR '' '' then rtrim_rev cs else Some (c # cs))"

definition rtrim :: "string \<Rightarrow> string option" where
  "rtrim s = map_option rev (rtrim_rev (rev s))"

fun strcpy :: "string \<Rightarrow> nat \<Rightarrow> string \<Rightarrow> string" where
  "strcpy dest d [] = dest[d := NUL]"
| "strcpy dest d (c # cs) = strcpy (dest[d := c]) (Suc d) cs"

fun strncpy :: "string \<Rightarrow> nat \<Rightarrow> string \<Rightarrow> nat \<Rightarrow> string" where
  "strncpy dest d src 0 = dest"
| "strncpy dest d [] (Suc n) = strncpy (dest[d := NUL]) (Suc d) [] n"
| "strncpy dest d (c # cs) (Suc n) = strncpy (dest[d := c]) (Suc d) cs n"

fun strlen :: "string \<Rightarrow> nat" where
  "strlen [] = 0"
| "strlen (c # cs) = (if c = NUL then 0 else Suc (strlen cs))"

definition strcat :: "string \<Rightarrow> string \<Rightarrow> string" where
  "strcat dest src = strcpy dest (strlen dest) src"

text \<open>\<^verbatim>\<open>memmove\<close> inside one memory \<open>m\<close>: ascending below the source, descending above it.\<close>

primrec memmove_up :: "'a list \<Rightarrow> nat \<Rightarrow> nat \<Rightarrow> nat \<Rightarrow> 'a list" where
  "memmove_up m d s 0 = m"
| "memmove_up m d s (Suc n) = (let m' = memmove_up m d s n in m'[d + n := m' ! (s + n)])"

primrec memmove_down :: "'a list \<Rightarrow> nat \<Rightarrow> nat \<Rightarrow> nat \<Rightarrow> 'a list" where
  "memmove_down m d s 0 = m"
| "memmove_down m d s (Suc n) = memmove_down (m[d + n := m ! (s + n)]) d s n"

definition memmove :: "'a list \<Rightarrow> nat \<Rightarrow> nat \<Rightarrow> nat \<Rightarrow> 'a list" where
  "memmove m d s n = (if d < s then memmove_up m d s n else memmove_down m d s n)"

text \<open>
  \<^verbatim>\<open>memset\<close> writes single bytes up to the first 8-byte boundary, then copies an
  8-byte pattern, then single bytes. \<open>addr\<close> is the address of offset \<open>p\<close> of the
  memory \<open>m\<close>; the pattern is built by shifting in the unmasked value.
\<close>

definition memset_fill :: "int \<Rightarrow> u64" where
  "memset_fill v = ((\<lambda>fill. push_bit 8 fill OR word_of_int v) ^^ 8) 0"

definition u64_bytes :: "u64 \<Rightarrow> u8 list" where
  "u64_bytes w = map (\<lambda>i. ucast (drop_bit (8 * i) w)) [0..<8]"

fun put_bytes :: "u8 list \<Rightarrow> nat \<Rightarrow> u8 \<Rightarrow> nat \<Rightarrow> u8 list" where
  "put_bytes m p v 0 = m"
| "put_bytes m p v (Suc n) = put_bytes (m[p := v]) (Suc p) v n"

fun memset_align :: "u8 list \<Rightarrow> u64 \<Rightarrow> nat \<Rightarrow> u8 \<Rightarrow> nat \<Rightarrow> u8 list \<times> nat \<times> nat" where
  "memset_align m addr p v 0 = (m, p, 0)"
| "memset_align m addr p v (Suc num) =
     (if addr AND 7 \<noteq> 0 then memset_align (m[p := v]) (addr + 1) (Suc p) v num
      else (m, p, Suc num))"

primrec memset_blocks :: "u8 list \<Rightarrow> nat \<Rightarrow> u64 \<Rightarrow> nat \<Rightarrow> u8 list" where
  "memset_blocks m p fill 0 = m"
| "memset_blocks m p fill (Suc i) = memcopy (memset_blocks m p fill i) (p + i * 8) (u64_bytes fill) 0 8"

definition memset :: "u8 list \<Rightarrow> u64 \<Rightarrow> nat \<Rightarrow> int \<Rightarrow> nat \<Rightarrow> u8 list" where
  "memset m addr p v num =
     (case memset_align m addr p (word_of_int v) num of (m1, p1, num1) \<Rightarrow>
        let blocks = num1 div 8; tail = num1 mod 8;
            m2 = memset_blocks m1 p1 (memset_fill v) blocks
        in put_bytes m2 (p1 + blocks * 8) (word_of_int v) tail)"

section \<open>Numbers\<close>

text \<open>The digit characters from the least significant one; division truncates as in C.\<close>

function itoa_digits :: "int \<Rightarrow> int \<Rightarrow> string" where
  "itoa_digits v base =
     (if v = 0 \<or> base < 2 then []
      else
        let q = v sdiv base; digit = v - q * base;
            c = (if digit < 10 then 48 + digit else 97 + (digit - 10))
        in char_of (nat (c mod 256)) # itoa_digits q base)"
  by pat_completeness auto
termination
proof (relation "measure (\<lambda>(v, base). nat \<bar>v\<bar>)")
  fix v base :: int and q
  assume a: "\<not> (v = 0 \<or> base < 2)" "q = v sdiv base"
  have "\<bar>v sdiv base\<bar> = \<bar>v\<bar> div \<bar>base\<bar>"
    using a(1) by (auto simp: signed_divide_int_def abs_mult sgn_if pos_imp_zdiv_nonneg_iff)
  also have "\<dots> < \<bar>v\<bar>" using a by (intro int_div_less_self) auto
  finally show "((q, base), (v, base)) \<in> measure (\<lambda>(v, base). nat \<bar>v\<bar>)" using a by simp
qed simp

definition itoa :: "int \<Rightarrow> int \<Rightarrow> string" where
  "itoa v base =
     (if base < 2 \<or> base > 36 then []
      else if v = 0 then ''0''
      else rev (itoa_digits v base))"

section \<open>Hashing\<close>

definition hash32 :: "string \<Rightarrow> u64 \<Rightarrow> u32" where
  "hash32 s max_size =
     (let h = foldl (\<lambda>h c. (h XOR of_char c) * 0x9e3779b) 0xcbf29ce4 s
      in if max_size \<noteq> 0 then ucast ((ucast h :: u64) mod max_size) else h)"

definition hash :: "string \<Rightarrow> u64 \<Rightarrow> u64" where
  "hash s max_size =
     (let h = foldl (\<lambda>h c. (h XOR of_char c) * 0x9e3779b97f4a7c15) 0xcbf29ce484222325 s;
          h' = h XOR drop_bit 32 h
      in if max_size \<noteq> 0 then h' mod max_size else h')"

section \<open>Counted strings\<close>

text \<open>
  \<^verbatim>\<open>struct kstring\<close>: a buffer with its terminator, the length and the capacity.
  The two allocations for a new string are the argument \<open>mem\<close>: whether the one for
  the structure succeeds, and the memory the one for the buffer returns, if any.
  A NULL argument is None.
\<close>

record kstring =
  ks_c_str :: string
  ks_len :: nat
  ks_cap :: nat

definition c_value :: "string \<Rightarrow> string" where
  "c_value buf = takeWhile (\<lambda>c. c \<noteq> NUL) buf"

type_synonym kstr_mem = "bool \<times> string option"

definition new_kstring :: "kstr_mem \<Rightarrow> nat \<Rightarrow> (string \<Rightarrow> string) \<Rightarrow> kstring option" where
  "new_kstring mem len fill =
     (case mem of
        (False, _) \<Rightarrow> None
      | (True, None) \<Rightarrow> None
      | (True, Some buf) \<Rightarrow> Some \<lparr>ks_c_str = fill buf, ks_len = len, ks_cap = len + 1\<rparr>)"

definition str :: "kstr_mem \<Rightarrow> string option \<Rightarrow> kstring option" where
  "str mem src =
     (case src of None \<Rightarrow> None | Some s \<Rightarrow>
      let len = length s
      in if len > 4096 then None
         else new_kstring mem len (\<lambda>buf. (memcopy buf 0 s 0 len)[len := NUL]))"

definition stringcmp :: "kstring option \<Rightarrow> kstring option \<Rightarrow> bool" where
  "stringcmp s1 s2 =
     (case (s1, s2) of
        (Some a, Some b) \<Rightarrow>
          if ks_len a \<noteq> ks_len b then False
          else strncmp (c_value (ks_c_str a)) (c_value (ks_c_str b)) (ks_len a) = 0
      | _ \<Rightarrow> False)"

definition str_concat :: "kstr_mem \<Rightarrow> kstring option \<Rightarrow> string option \<Rightarrow> kstring option" where
  "str_concat mem s suffix =
     (case (s, suffix) of
        (Some a, Some t) \<Rightarrow>
          new_kstring mem (ks_len a + length t)
            (\<lambda>buf. strcpy (strcpy buf 0 (c_value (ks_c_str a))) (ks_len a) t)
      | _ \<Rightarrow> None)"

definition str_concat_prefix :: "kstr_mem \<Rightarrow> kstring option \<Rightarrow> string option \<Rightarrow> kstring option" where
  "str_concat_prefix mem s prefix =
     (case (s, prefix) of
        (Some a, Some t) \<Rightarrow>
          new_kstring mem (ks_len a + length t)
            (\<lambda>buf. strcpy (strcpy buf 0 t) (length t) (c_value (ks_c_str a)))
      | _ \<Rightarrow> None)"

definition is_blank :: "char \<Rightarrow> bool" where
  "is_blank c \<longleftrightarrow> c = CHR '' '' \<or> c = CHR 0x0A \<or> c = CHR 0x09 \<or> c = CHR 0x0D"

fun str_trim_loop :: "kstring \<Rightarrow> nat \<Rightarrow> kstring" where
  "str_trim_loop s 0 = s"
| "str_trim_loop s (Suc i) =
     (if is_blank (ks_c_str s ! i)
      then str_trim_loop (s\<lparr>ks_c_str := (ks_c_str s)[i := NUL], ks_len := ks_len s - 1\<rparr>) i
      else s)"

definition str_trim :: "kstring option \<Rightarrow> kstring option" where
  "str_trim s =
     (case s of None \<Rightarrow> None
      | Some a \<Rightarrow> Some (if ks_len a = 0 then a else str_trim_loop a (ks_len a)))"

definition kstring_ok :: "kstring \<Rightarrow> bool" where
  "kstring_ok s \<longleftrightarrow>
     length (ks_c_str s) = ks_cap s \<and> ks_len s < ks_cap s \<and> ks_c_str s ! ks_len s = NUL \<and>
     cstring (take (ks_len s) (ks_c_str s))"

definition ks_value :: "kstring \<Rightarrow> string" where
  "ks_value s = take (ks_len s) (ks_c_str s)"

section \<open>What the routines compute\<close>

lemma of_char_0_iff: "int (of_char c) = 0 \<longleftrightarrow> c = NUL"
  using of_char_eq_iff [of c NUL] by simp

lemma strcmp_0_iff: "cstring s \<Longrightarrow> cstring t \<Longrightarrow> strcmp s t = 0 \<longleftrightarrow> s = t"
proof (induction s t rule: strcmp.induct)
  case (2 b bs)
  then show ?case using of_char_0_iff [of b] by (auto simp: cstring_def)
next
  case (3 a as)
  then show ?case using of_char_0_iff [of a] by (auto simp: cstring_def)
next
  case (4 a as b bs)
  then show ?case by (auto simp: cstring_def)
qed simp

lemma strncmp_0_iff: "cstring s \<Longrightarrow> cstring t \<Longrightarrow> strncmp s t n = 0 \<longleftrightarrow> take n s = take n t"
proof (induction s t n rule: strncmp.induct)
  case (3 b bs n)
  then show ?case using of_char_0_iff [of b] by (auto simp: cstring_def)
next
  case (4 a as n)
  then show ?case using of_char_0_iff [of a] by (auto simp: cstring_def)
next
  case (5 a as b bs n)
  then show ?case by (auto simp: cstring_def)
qed simp_all

lemma memcmp_0_iff:
  "n \<le> length as \<Longrightarrow> n \<le> length bs \<Longrightarrow> memcmp as bs n = 0 \<longleftrightarrow> take n as = take n bs"
  by (induction as bs n rule: memcmp.induct) (auto simp: word_uint_eq_iff)

lemma length_memmove [simp]:
  "length (memmove_up m d s n) = length m" "length (memmove_down m d s n) = length m"
  by (induction n arbitrary: m) (simp_all add: Let_def)

lemma memmove_up_nth:
  assumes "d < s" "s + n \<le> length m" "k < length m"
  shows "memmove_up m d s n ! k = (if d \<le> k \<and> k < d + n then m ! (s + (k - d)) else m ! k)"
  using assms
proof (induction n arbitrary: k)
  case (Suc n)
  then show ?case by (cases "k = d + n") (auto simp: Let_def)
qed auto

lemma memmove_down_nth:
  assumes "s \<le> d" "d + n \<le> length m" "k < length m"
  shows "memmove_down m d s n ! k = (if d \<le> k \<and> k < d + n then m ! (s + (k - d)) else m ! k)"
  using assms
proof (induction n arbitrary: m)
  case (Suc n)
  then show ?case by (cases "k = d + n") (auto simp: nth_list_update)
qed auto

lemma memmove_splice:
  assumes "s + n \<le> length m" "d + n \<le> length m"
  shows "memmove m d s n = take d m @ take n (drop s m) @ drop (d + n) m"
proof (rule nth_equalityI)
  show "length (memmove m d s n) = length (take d m @ take n (drop s m) @ drop (d + n) m)"
    using assms by (simp add: memmove_def)
next
  fix k assume "k < length (memmove m d s n)"
  then have k: "k < length m" by (simp add: memmove_def split: if_splits)
  have "memmove m d s n ! k = (if d \<le> k \<and> k < d + n then m ! (s + (k - d)) else m ! k)"
    using memmove_up_nth [of d s n m k] memmove_down_nth [of s d n m k] assms k
    by (simp add: memmove_def)
  then show "memmove m d s n ! k = (take d m @ take n (drop s m) @ drop (d + n) m) ! k"
    using assms k by (auto simp: nth_append min_absorb2)
qed

lemma length_put_bytes [simp]: "length (put_bytes m p v n) = length m"
  by (induction m p v n rule: put_bytes.induct) simp_all

lemma put_bytes_nth:
  "k < length m \<Longrightarrow> put_bytes m p v n ! k = (if p \<le> k \<and> k < p + n then v else m ! k)"
  by (induction m p v n rule: put_bytes.induct) (auto simp: nth_list_update)

lemma memset_align_spec:
  "memset_align m addr p v num = (m1, p1, num1) \<Longrightarrow>
   m1 = put_bytes m p v (p1 - p) \<and> p \<le> p1 \<and> p1 + num1 = p + num"
proof (induction m addr p v num arbitrary: m1 p1 num1 rule: memset_align.induct)
  case (2 m addr p v num)
  show ?case
  proof (cases "addr AND 7 = 0")
    case False
    with 2 have "m1 = put_bytes (m[p := v]) (Suc p) v (p1 - Suc p) \<and> Suc p \<le> p1 \<and> p1 + num1 = Suc p + num"
      by simp
    moreover then obtain x where "p1 = Suc p + x" using le_Suc_ex by blast
    ultimately show ?thesis by simp
  qed (use 2 in auto)
qed simp

lemma fill_bits:
  fixes w :: u64
  assumes high: "\<And>n. 8 \<le> n \<Longrightarrow> \<not> bit w n"
  shows "n < 64 \<Longrightarrow> bit (((\<lambda>fill. push_bit 8 fill OR w) ^^ k) 0) n \<longleftrightarrow> n < 8 * k \<and> bit w (n mod 8)"
proof (induction k arbitrary: n)
  case (Suc k)
  show ?case
  proof (cases "n < 8")
    case False
    then have "(n - 8) mod 8 = n mod 8" by (metis le_mod_geq not_less)
    then show ?thesis using Suc.IH [of "n - 8"] Suc.prems False high by (auto simp: bit_simps)
  qed (use Suc.prems in \<open>auto simp: bit_simps\<close>)
qed simp

lemma fill_bytes:
  assumes "0 \<le> v" "v < 256"
  shows "u64_bytes (memset_fill v) = replicate 8 (word_of_int v)"
proof -
  have high: "\<not> bit (word_of_int v :: u64) n" if "8 \<le> n" for n
  proof -
    have "v = take_bit 8 v" using assms by (simp add: take_bit_eq_mod)
    then have "\<not> bit v n" using that by (metis bit_take_bit_iff not_less)
    then show ?thesis by (simp add: bit_simps)
  qed
  have "(ucast (drop_bit (8 * i) (memset_fill v)) :: u8) = word_of_int v" if "i < 8" for i
  proof (rule bit_word_eqI)
    fix j assume j: "j < LENGTH(8)"
    then have "bit (memset_fill v) (8 * i + j) = bit (word_of_int v :: u64) j"
      using fill_bits [OF high, of "8 * i + j" 8] that by (simp add: memset_fill_def)
    then show "bit (ucast (drop_bit (8 * i) (memset_fill v)) :: u8) j = bit (word_of_int v :: u8) j"
      using j by (simp add: bit_simps)
  qed
  then have "u64_bytes (memset_fill v) = map (\<lambda>_. word_of_int v) [0..<8]"
    unfolding u64_bytes_def by (intro map_cong) auto
  then show ?thesis by (simp add: map_replicate_const)
qed

lemma length_memset_blocks [simp]: "length (memset_blocks m p fill n) = length m"
  by (induction n) simp_all

lemma memset_blocks_nth:
  assumes "\<And>j. j < 8 \<Longrightarrow> u64_bytes fill ! j = v" "k < length m"
  shows "memset_blocks m p fill n ! k = (if p \<le> k \<and> k < p + n * 8 then v else m ! k)"
proof (induction n)
  case (Suc n)
  show ?case
  proof (cases "p + n * 8 \<le> k \<and> k < p + n * 8 + 8")
    case True
    then have "u64_bytes fill ! (k - (p + n * 8)) = v" by (intro assms(1)) linarith
    then show ?thesis using Suc assms(2) True by (simp add: memcopy_nth)
  next
    case False
    then show ?thesis using Suc assms(2) by (auto simp: memcopy_nth)
  qed
qed auto

lemma memset_eq:
  assumes "0 \<le> v" "v < 256" "p + num \<le> length m"
  shows "memset m addr p v num = take p m @ replicate num (word_of_int v) @ drop (p + num) m"
proof -
  obtain m1 p1 num1 where al: "memset_align m addr p (word_of_int v) num = (m1, p1, num1)"
    by (cases "memset_align m addr p (word_of_int v) num")
  note a = memset_align_spec [OF al]
  let ?w = "word_of_int v :: u8"
  have f: "u64_bytes (memset_fill v) ! j = ?w" if "j < 8" for j
    using fill_bytes [OF assms(1,2)] that by simp
  define q where "q = p1 + num1 div 8 * 8"
  define m2 where "m2 = memset_blocks m1 p1 (memset_fill v) (num1 div 8)"
  have q: "q + num1 mod 8 = p + num" "p1 \<le> q" "p \<le> p1" using a by (auto simp: q_def)
  have len: "length m1 = length m" "length m2 = length m" using a by (simp_all add: m2_def)
  have eq: "memset m addr p v num = put_bytes m2 q ?w (num1 mod 8)"
    by (simp add: memset_def al Let_def m2_def q_def)
  show ?thesis
  proof (rule nth_equalityI)
    show "length (memset m addr p v num) = length (take p m @ replicate num ?w @ drop (p + num) m)"
      using assms(3) len by (simp add: eq)
  next
    fix k assume "k < length (memset m addr p v num)"
    then have k: "k < length m" using len by (simp add: eq)
    have "memset m addr p v num ! k = (if p \<le> k \<and> k < p + num then ?w else m ! k)"
      using k len a q memset_blocks_nth [OF f, of k m1 p1 "num1 div 8"]
      by (auto simp: eq m2_def put_bytes_nth q_def)
    then show "memset m addr p v num ! k = (take p m @ replicate num ?w @ drop (p + num) m) ! k"
      using assms(3) k by (auto simp: nth_append min_absorb2)
  qed
qed

subsection \<open>Counted strings\<close>

lemma length_strcpy [simp]: "length (strcpy dest d src) = length dest"
  by (induction dest d src rule: strcpy.induct) simp_all

lemma strcpy_splice:
  "d + length src < length dest \<Longrightarrow>
   strcpy dest d src = take d dest @ src @ NUL # drop (Suc (d + length src)) dest"
proof (induction dest d src rule: strcpy.induct)
  case (1 dest d)
  then show ?case by (simp add: upd_conv_take_nth_drop)
next
  case (2 dest d c cs)
  then have "strcpy (dest[d := c]) (Suc d) cs =
      take (Suc d) (dest[d := c]) @ cs @ NUL # drop (Suc (Suc d + length cs)) (dest[d := c])" by simp
  then show ?case using "2.prems" by (simp add: take_Suc_conv_app_nth)
qed

lemma c_value_append: "cstring v \<Longrightarrow> c_value (v @ NUL # r) = v"
  by (induction v) (auto simp: c_value_def cstring_def)

lemma c_value_ks:
  assumes "kstring_ok s"
  shows "c_value (ks_c_str s) = ks_value s"
proof -
  have "ks_c_str s = ks_value s @ NUL # drop (Suc (ks_len s)) (ks_c_str s)"
    using assms id_take_nth_drop [of "ks_len s" "ks_c_str s"]
    by (simp add: kstring_ok_def ks_value_def)
  moreover have "cstring (ks_value s)" using assms by (simp add: kstring_ok_def ks_value_def)
  ultimately show ?thesis using c_value_append by metis
qed

lemma str_ok:
  assumes "cstring src" "length src \<le> 4096" "length mem = Suc (length src)"
  shows "\<exists>s. str (True, Some mem) (Some src) = Some s \<and> kstring_ok s \<and> ks_value s = src"
  using assms by (simp add: str_def new_kstring_def Let_def kstring_ok_def ks_value_def memcopy_splice)

lemma kstring_value:
  assumes "kstring_ok s"
  shows "length (ks_value s) = ks_len s" "cstring (ks_value s)" "c_value (ks_c_str s) = ks_value s"
  using assms c_value_ks by (simp_all add: kstring_ok_def ks_value_def)

lemma str_concat_ok:
  assumes "kstring_ok s" "cstring t" "length mem = Suc (ks_len s + length t)"
  shows "\<exists>r. str_concat (True, Some mem) (Some s) (Some t) = Some r \<and> kstring_ok r \<and> ks_value r = ks_value s @ t"
    "\<exists>r. str_concat_prefix (True, Some mem) (Some s) (Some t) = Some r \<and> kstring_ok r \<and> ks_value r = t @ ks_value s"
  using kstring_value [OF assms(1)] assms(2,3)
  by (simp_all add: str_concat_def str_concat_prefix_def new_kstring_def strcpy_splice kstring_ok_def)
    (simp_all add: ks_value_def cstring_def nth_append)

lemma str_alloc_fails:
  "mem = (False, b) \<or> mem = (True, None) \<Longrightarrow>
   str mem src = None \<and> str_concat mem s t = None \<and> str_concat_prefix mem s t = None"
  by (auto simp: str_def str_concat_def str_concat_prefix_def new_kstring_def Let_def split: option.splits)

lemma str_trim_loop_ok:
  "kstring_ok s \<Longrightarrow> ks_len s = i \<Longrightarrow>
   kstring_ok (str_trim_loop s i) \<and>
   ks_value (str_trim_loop s i) = rev (dropWhile is_blank (rev (ks_value s)))"
proof (induction s i rule: str_trim_loop.induct)
  case (2 s i)
  have i: "i < length (ks_c_str s)" using "2.prems" by (simp add: kstring_ok_def)
  have v: "ks_value s = take i (ks_c_str s) @ [ks_c_str s ! i]"
    using i "2.prems"(2) by (simp add: ks_value_def take_Suc_conv_app_nth)
  show ?case
  proof (cases "is_blank (ks_c_str s ! i)")
    case True
    let ?s = "s\<lparr>ks_c_str := (ks_c_str s)[i := NUL], ks_len := ks_len s - 1\<rparr>"
    have "kstring_ok ?s" "ks_len ?s = i" "ks_value ?s = take i (ks_c_str s)"
      using "2.prems" i by (auto simp: kstring_ok_def ks_value_def cstring_def take_Suc_conv_app_nth)
    then show ?thesis using "2.IH" True v by simp
  next
    case False
    then show ?thesis using "2.prems" v by simp
  qed
qed (simp add: ks_value_def)

subsection \<open>Tokens\<close>

lemma strspn_split: "s = take (strspn s d) s @ drop (strspn s d) s \<and> set (take (strspn s d) s) \<subseteq> set d"
  by (induction s d rule: strspn.induct) auto

lemma strspn_stop: "drop (strspn s d) s = c # cs \<Longrightarrow> c \<notin> set d"
  by (induction s d rule: strspn.induct) (auto split: if_splits)

lemma strchr_None: "c \<noteq> NUL \<Longrightarrow> strchr r c = None \<longleftrightarrow> c \<notin> set r"
  by (induction r) auto

lemma strcspn_split: "cstring s \<Longrightarrow> set (take (strcspn s d) s) \<inter> set d = {} \<and>
    (\<forall>c cs. drop (strcspn s d) s = c # cs \<longrightarrow> c \<in> set d)"
proof (induction s d rule: strcspn.induct)
  case (2 p ps r)
  then have "p \<noteq> NUL" "cstring ps" by (auto simp: cstring_def)
  then show ?case using 2 strchr_None [of p r] by auto
qed simp

lemma strtok_r_None: "strtok_r (Some s) d sv = (None, s') \<longleftrightarrow> set s \<subseteq> set d \<and> s' = []"
proof -
  have "drop (strspn s d) s = [] \<longleftrightarrow> set s \<subseteq> set d"
    using strspn_split [of s d] strspn_stop [of s d]
    by (cases "drop (strspn s d) s") (auto simp: subset_iff, metis in_set_dropD list.set_intros(1))
  then show ?thesis by (auto simp: strtok_r_def Let_def)
qed

lemma strtok_r_Some:
  assumes "cstring s" "strtok_r (Some s) d sv = (Some t, s')"
  shows "t \<noteq> [] \<and> set t \<inter> set d = {} \<and>
    (\<exists>pre. set pre \<subseteq> set d \<and> (s = pre @ t \<and> s' = [] \<or> (\<exists>c \<in> set d. s = pre @ t @ c # s')))"
proof -
  define s1 where "s1 = drop (strspn s d) s"
  define n where "n = strcspn s1 d"
  have s: "s = take (strspn s d) s @ s1" "set (take (strspn s d) s) \<subseteq> set d"
    using strspn_split [of s d] by (simp_all add: s1_def)
  have ne: "s1 \<noteq> []" using assms(2) by (auto simp: strtok_r_def Let_def s1_def split: if_splits)
  then obtain c cs where c: "s1 = c # cs" "c \<notin> set d" using strspn_stop [of s d] by (cases s1) (auto simp: s1_def)
  have cs: "cstring s1" using assms(1) by (auto simp: cstring_def s1_def dest: in_set_dropD)
  then have "c \<noteq> NUL" using c by (auto simp: cstring_def)
  then have n0: "0 < n" using c strchr_None [of c d] by (simp add: n_def)
  note sp = strcspn_split [OF cs, of d]
  show ?thesis
  proof (cases "drop n s1")
    case Nil
    then have "t = s1" "s' = []" using assms(2) ne
      by (auto simp: strtok_r_def Let_def n_def s1_def split: if_splits)
    moreover have "take n s1 = s1" using Nil by simp
    ultimately show ?thesis using s sp ne by (metis n_def)
  next
    case (Cons x xs)
    then have t: "t = take n s1" "s' = drop (Suc n) s1" using assms(2) ne
      by (auto simp: strtok_r_def Let_def n_def s1_def split: if_splits)
    have "s1 = t @ x # s'" using Cons t by (metis append_take_drop_id drop_Suc list.sel(3) tl_drop)
    moreover have "x \<in> set d" using sp Cons by (simp add: n_def)
    moreover have "t \<noteq> []" using t n0 ne by simp
    ultimately show ?thesis using s sp t(1) by (metis n_def append.assoc)
  qed
qed

subsection \<open>Numbers\<close>

definition digit_value :: "char \<Rightarrow> int" where
  "digit_value c = (let n = of_char c in if n < 58 then n - 48 else n - 87)"

definition number_of :: "int \<Rightarrow> string \<Rightarrow> int" where
  "number_of base s = foldl (\<lambda>acc c. acc * base + digit_value c) 0 s"

lemma digit_value_digit:
  assumes "0 \<le> d" "d < 36"
  shows "digit_value (char_of (nat ((if d < 10 then 48 + d else 97 + (d - 10)) mod 256))) = d"
proof -
  have "of_char (char_of (nat x) :: char) = x" if "0 \<le> x" "x < 256" for x :: int
    using of_nat_of_char [of "char_of (nat x)", where 'a = int, symmetric] that by simp
  then show ?thesis using assms by (auto simp: digit_value_def Let_def)
qed

declare itoa_digits.simps [simp del]

lemma itoa_digits_value:
  "2 \<le> base \<Longrightarrow> base \<le> 36 \<Longrightarrow> 0 \<le> v \<Longrightarrow>
   foldr (\<lambda>c acc. acc * base + digit_value c) (itoa_digits v base) 0 = v"
proof (induction v base rule: itoa_digits.induct)
  case (1 v base)
  show ?case
  proof (cases "v = 0")
    case False
    have q: "v sdiv base = v div base" using "1.prems" False by (simp add: signed_divide_int_def)
    define d where "d = v - v div base * base"
    have d: "0 \<le> d" "d < base" using "1.prems" by (simp_all add: d_def minus_div_mult_eq_mod)
    have "foldr (\<lambda>c acc. acc * base + digit_value c) (itoa_digits (v div base) base) 0 = v div base"
      using "1.IH" [OF _ refl refl refl] "1.prems" False q
      by (simp add: pos_imp_zdiv_nonneg_iff)
    moreover have "itoa_digits v base =
        char_of (nat ((if d < 10 then 48 + d else 97 + (d - 10)) mod 256)) # itoa_digits (v div base) base"
      using False "1.prems" q by (subst itoa_digits.simps) (simp add: Let_def d_def)
    ultimately show ?thesis
      using digit_value_digit [of d] d "1.prems" by (simp add: d_def)
  qed (simp add: itoa_digits.simps)
qed

lemma itoa_value:
  assumes "2 \<le> base" "base \<le> 36" "0 \<le> v"
  shows "number_of base (itoa v base) = v"
proof (cases "v = 0")
  case True
  then show ?thesis using assms by (simp add: itoa_def number_of_def digit_value_def)
next
  case False
  then show ?thesis using assms itoa_digits_value [OF assms]
    by (simp add: itoa_def number_of_def foldl_conv_foldr)
qed

section \<open>Properties\<close>

text \<open>
  \<^verbatim>\<open>memmove\<close> is correct for overlapping regions: the destination receives the
  bytes the source held before the call, and nothing else changes, whichever way
  the regions overlap.
\<close>

lemma memmove_correct:
  assumes "s + n \<le> length m" and "d + n \<le> length m"
  shows "memmove m d s n = take d m @ take n (drop s m) @ drop (d + n) m"
  using assms by (rule memmove_splice)

lemma memmove_correct_example:
  "memmove [1, 2, 3, 4, 5 :: nat] 1 0 3 = [1, 1, 2, 3, 5] \<and>
   memmove [1, 2, 3, 4, 5 :: nat] 0 2 3 = [3, 4, 5, 4, 5]"
  using memmove_correct [of 0 3 "[1, 2, 3, 4, 5 :: nat]" 1]
    memmove_correct [of 2 3 "[1, 2, 3, 4, 5 :: nat]" 0] by simp

text \<open>
  \<^verbatim>\<open>memset\<close> fills exactly the requested range with the byte, for every
  alignment of the address and every length, when the value is a byte.
\<close>

lemma memset_correct:
  assumes "0 \<le> v" and "v < 256" and "p + num \<le> length m"
  shows "memset m addr p v num = take p m @ replicate num (word_of_int v) @ drop (p + num) m"
  using assms by (rule memset_eq)

lemma memset_correct_example:
  "memset [1, 2, 3] 5 1 7 2 = ([1, 7, 7] :: u8 list)"
  using memset_correct [of 7 1 2 "[1, 2, 3]" 5] by (simp add: numeral_2_eq_2)

text \<open>
  \<^verbatim>\<open>itoa\<close> is a correct numeral: reading its result back as a number of the
  given base yields the value, for every non-negative value and every base from 2 to 36.
\<close>

lemma itoa_roundtrip:
  assumes "2 \<le> base" and "base \<le> 36" and "0 \<le> v"
  shows "number_of base (itoa v base) = v"
  using assms by (rule itoa_value)

lemma itoa_roundtrip_example: "number_of 16 (itoa 48879 16) = 48879"
  using itoa_roundtrip [of 16 48879] by simp

text \<open>
  \<^verbatim>\<open>strtok_r\<close> splits: a token is non-empty and free of delimiters, the input
  is leading delimiters, the token, and either nothing or one delimiter and the
  saved rest; and there is no token exactly when the input has only delimiters.
\<close>

lemma strtok_r_splits:
  assumes "cstring s"
  shows "case strtok_r (Some s) d sv of
      (None, s') \<Rightarrow> set s \<subseteq> set d \<and> s' = []
    | (Some t, s') \<Rightarrow> t \<noteq> [] \<and> set t \<inter> set d = {} \<and>
        (\<exists>pre. set pre \<subseteq> set d \<and> (s = pre @ t \<and> s' = [] \<or> (\<exists>c \<in> set d. s = pre @ t @ c # s')))"
proof -
  obtain r s' where r: "strtok_r (Some s) d sv = (r, s')" by fastforce
  show ?thesis
  proof (cases r)
    case None
    then show ?thesis using r strtok_r_None [of s d sv s'] by simp
  next
    case (Some t)
    then show ?thesis using r strtok_r_Some [OF assms] by simp
  qed
qed

lemma strtok_r_splits_example:
  "cstring ''//a/b'' \<and> strtok_r (Some ''//a/b'') ''/'' [] = (Some ''a'', ''b'') \<and>
   (\<exists>pre. set pre \<subseteq> set ''/'' \<and> (''//a/b'' = pre @ ''a'' \<and> ''b'' = [] \<or>
      (\<exists>c \<in> set ''/''. ''//a/b'' = pre @ ''a'' @ c # ''b'')))"
proof -
  have c: "cstring ''//a/b''" by (simp add: cstring_def)
  have t: "strtok_r (Some ''//a/b'') ''/'' [] = (Some ''a'', ''b'')" by (simp add: strtok_r_def)
  show ?thesis using strtok_r_splits [OF c, of "''/''" "[]", unfolded t prod.case option.case] c t by blast
qed



end
