(* ===== verification/Vfs.thy ===== *)
theory Vfs
  imports Kernel_Heap Kstr
begin

text \<open>
  The name layer of the virtual file system: directory entries, their hash cache
  and path resolution, \<^verbatim>\<open>kernel/vfs/dentry.c\<close>, \<^verbatim>\<open>kernel/vfs/cache.c\<close>,
  \<^verbatim>\<open>kernel/vfs/rcu.c\<close> and the vnode constructors. The intrusive lists of the code
  (hash chains and child lists) are lists of addresses; a C string is the list of
  its characters before the terminator. A file system driver is a pair of
  functions of the model, because the code calls it through a table.
\<close>

unbundle bit_operations_syntax

section \<open>Directory entries\<close>

definition DENTRY_PINNED :: u32 where "DENTRY_PINNED = 1"
definition DENTRY_NEGATIVE :: u32 where "DENTRY_NEGATIVE = 2"
definition DENTRY_MOUNTPOINT :: u32 where "DENTRY_MOUNTPOINT = 4"
definition DENTRY_IN_CACHE :: u32 where "DENTRY_IN_CACHE = 8"
definition CREATE_MISSING_ENTRY :: u8 where "CREATE_MISSING_ENTRY = 4"
definition VFS_CACHE_SIZE :: u32 where "VFS_CACHE_SIZE = 32"

definition hash_dentry :: "string \<Rightarrow> ptr option \<Rightarrow> u32" where
  "hash_dentry name parent =
     (let h = hash32 name 0
      in case parent of None \<Rightarrow> h
         | Some p \<Rightarrow> (h XOR ucast (p AND 0xFFFFFFFF)) XOR ucast (drop_bit 32 p))"

definition dentry_get :: "ptr option \<Rightarrow> kernel \<Rightarrow> kernel" where
  "dentry_get d k =
     (case d of None \<Rightarrow> k | Some a \<Rightarrow> set_dentry a (d_refcount_update (\<lambda>c. c + 1)) k)"

text \<open>\<^verbatim>\<open>call_rcu\<close> queues the release of the entry on the work queue.\<close>

definition call_rcu :: "ptr \<Rightarrow> kernel \<Rightarrow> kernel" where
  "call_rcu a k = k\<lparr>k_rcu := k_rcu k @ [a]\<rparr>"

definition dentry_put :: "ptr option \<Rightarrow> kernel \<Rightarrow> kernel" where
  "dentry_put d k =
     (case d of None \<Rightarrow> k | Some a \<Rightarrow>
      case k_dentries k a of None \<Rightarrow> k | Some e \<Rightarrow>
        let k1 = set_dentry a (d_refcount_update (\<lambda>c. c - 1)) k
        in if d_refcount e = 1 then call_rcu a k1 else k1)"

definition create_dentry :: "string \<Rightarrow> ptr option \<Rightarrow> ptr option \<Rightarrow> kernel \<Rightarrow> kernel \<times> ptr option" where
  "create_dentry name vn parent k =
     (case kernel_alloc k of
        (k1, None) \<Rightarrow> (k1, None)
      | (k1, Some a) \<Rightarrow>
          let e = \<lparr>d_children = [], d_refcount = 0, d_hash = hash_dentry name parent, d_flags = 0,
                   d_name = name, d_vnode = vn, d_parent = parent\<rparr>
          in (dentry_get parent (k1\<lparr>k_dentries := (k_dentries k1)(a \<mapsto> e)\<rparr>), Some a))"

section \<open>The dentry cache\<close>

definition in_cache :: "dentry \<Rightarrow> bool" where
  "in_cache e \<longleftrightarrow> d_flags e AND DENTRY_IN_CACHE \<noteq> 0"

definition bucket_of :: "dentry \<Rightarrow> u32" where
  "bucket_of e = d_hash e AND (VFS_CACHE_SIZE - 1)"

definition set_bucket :: "u32 \<Rightarrow> (ptr list \<Rightarrow> ptr list) \<Rightarrow> kernel \<Rightarrow> kernel" where
  "set_bucket i g k = k\<lparr>k_buckets := (k_buckets k)(i := g (k_buckets k i))\<rparr>"

definition vfs_cache_insert :: "ptr \<Rightarrow> kernel \<Rightarrow> kernel" where
  "vfs_cache_insert a k =
     (case k_dentries k a of None \<Rightarrow> k | Some e \<Rightarrow>
        let k1 = dentry_get (Some a) k;
            k2 = set_bucket (bucket_of e) (\<lambda>b. a # b) k1;
            k3 = k2\<lparr>k_cache_count := k_cache_count k2 + 1\<rparr>;
            k4 = set_dentry a (d_flags_update (\<lambda>f. f OR DENTRY_IN_CACHE)) k3
        in case d_parent e of None \<Rightarrow> k4
           | Some p \<Rightarrow> set_dentry p (d_children_update (\<lambda>c. c @ [a])) k4)"

fun scan_bucket :: "kernel \<Rightarrow> ptr option \<Rightarrow> string \<Rightarrow> ptr list \<Rightarrow> ptr option" where
  "scan_bucket k parent name [] = None"
| "scan_bucket k parent name (a # as) =
     (case k_dentries k a of None \<Rightarrow> None | Some e \<Rightarrow>
        if d_parent e = parent \<and> strcmp (d_name e) name = 0 then Some a
        else scan_bucket k parent name as)"

definition cache_lookup :: "ptr option \<Rightarrow> string \<Rightarrow> kernel \<Rightarrow> kernel \<times> ptr option" where
  "cache_lookup parent name k =
     (let idx = hash_dentry name parent AND (VFS_CACHE_SIZE - 1)
      in case scan_bucket k parent name (k_buckets k idx) of
           None \<Rightarrow> (k, None)
         | Some a \<Rightarrow> (dentry_get (Some a) k, Some a))"

text \<open>Taking an entry out of its hash chain and its parent's child list.\<close>

definition vfs_cache_remove_dentry :: "ptr \<Rightarrow> kernel \<Rightarrow> kernel" where
  "vfs_cache_remove_dentry a k =
     (case k_dentries k a of None \<Rightarrow> k | Some e \<Rightarrow>
        if \<not> in_cache e then k
        else
          let k1 = set_bucket (bucket_of e) (remove1 a) k;
              k2 = k1\<lparr>k_cache_count := k_cache_count k1 - 1\<rparr>;
              k3 = set_dentry a (d_flags_update (\<lambda>f. f AND NOT DENTRY_IN_CACHE)) k2
          in case d_parent e of None \<Rightarrow> k3
             | Some p \<Rightarrow> set_dentry p (d_children_update (remove1 a)) k3)"

definition cache_remove :: "ptr \<Rightarrow> kernel \<Rightarrow> kernel" where
  "cache_remove a k =
     (case k_dentries k a of None \<Rightarrow> k | Some e \<Rightarrow>
        if \<not> in_cache e then k
        else
          let k1 = set_bucket (bucket_of e) (remove1 a) k;
              k2 = k1\<lparr>k_cache_count := k_cache_count k1 - 1\<rparr>;
              k3 = set_dentry a (d_flags_update (\<lambda>f. f AND NOT DENTRY_IN_CACHE)) k2;
              k4 = (case d_parent e of None \<Rightarrow> k3
                    | Some p \<Rightarrow> set_dentry p (d_children_update (remove1 a)) k3)
          in dentry_put (Some a) k4)"

definition dentry_free_rcu :: "ptr \<Rightarrow> kernel \<Rightarrow> kernel" where
  "dentry_free_rcu a k =
     (case k_dentries k a of None \<Rightarrow> k | Some e \<Rightarrow>
        let k1 = (if in_cache e then vfs_cache_remove_dentry a k else k);
            k2 = (case d_parent e of None \<Rightarrow> k1 | Some p \<Rightarrow> dentry_put (Some p) k1)
        in kernel_free a (k2\<lparr>k_dentries := (k_dentries k2)(a := None)\<rparr>))"

text \<open>The work queue runs the oldest queued release.\<close>

definition run_rcu :: "kernel \<Rightarrow> kernel" where
  "run_rcu k = (case k_rcu k of [] \<Rightarrow> k | a # as \<Rightarrow> dentry_free_rcu a (k\<lparr>k_rcu := as\<rparr>))"

section \<open>Vnodes\<close>

definition create_vnode :: "kernel \<Rightarrow> kernel \<times> ptr option" where
  "create_vnode k =
     (case kernel_alloc k of
        (k1, None) \<Rightarrow> (k1, None)
      | (k1, Some a) \<Rightarrow>
          (k1\<lparr>k_vnodes := (k_vnodes k1)(a \<mapsto> zero_vnode\<lparr>vn_id := k_vnode_id k1\<rparr>),
              k_vnode_id := k_vnode_id k1 + 1\<rparr>, Some a))"

text \<open>The tree of all vnodes by id is represented by the map it stores.\<close>

definition create_and_attach_vnode :: "kernel \<Rightarrow> kernel \<times> ptr option" where
  "create_and_attach_vnode k =
     (case create_vnode k of
        (k1, None) \<Rightarrow> (k1, None)
      | (k1, Some a) \<Rightarrow>
          (k1\<lparr>k_vnode_tree := (k_vnode_tree k1)(k_vnode_id k \<mapsto> a)\<rparr>, Some a))"

section \<open>Path resolution\<close>

text \<open>
  A mounted file system: its \<^verbatim>\<open>lookup\<close> and \<^verbatim>\<open>create\<close> operations where the driver has
  them, and whether it has a device. The result of either is the entry it stored
  through its out-pointer, or None when it did not return \<^verbatim>\<open>VFS_OK\<close>.
\<close>

type_synonym fs_op = "string \<Rightarrow> ptr \<Rightarrow> kernel \<Rightarrow> kernel \<times> ptr option"

record fs_driver =
  fs_lookup :: "fs_op option"
  fs_create :: "(string \<Rightarrow> ptr \<Rightarrow> ptr \<Rightarrow> kernel \<Rightarrow> kernel \<times> ptr option) option"
  fs_has_cdev :: bool

datatype walk = Found ptr | Missing | Wild

definition rtrim_component :: "string \<Rightarrow> string" where
  "rtrim_component s =
     rev (dropWhile (\<lambda>c. c = CHR ''/'' \<or> c = CHR '' '') (rev s))"

definition dentry_fs :: "(ptr \<Rightarrow> fs_driver option) \<Rightarrow> kernel \<Rightarrow> dentry \<Rightarrow> fs_driver option" where
  "dentry_fs fss k e =
     (case d_vnode e of None \<Rightarrow> None | Some v \<Rightarrow>
      case k_vnodes k v of None \<Rightarrow> None | Some vn \<Rightarrow>
      case vn_fs_instance vn of None \<Rightarrow> None | Some f \<Rightarrow> fss f)"

text \<open>\<^verbatim>\<open>vfs_cache_insert(next); dentry_get(next); dentry_put(curr); curr = next\<close>.\<close>

definition descend_new :: "ptr \<Rightarrow> ptr \<Rightarrow> kernel \<Rightarrow> kernel" where
  "descend_new new cur k =
     dentry_put (Some cur) (dentry_get (Some new) (vfs_cache_insert new k))"

text \<open>One name component: the entry the walk continues at, or None for the fail path.\<close>

definition resolve_create ::
    "fs_driver option \<Rightarrow> string \<Rightarrow> ptr \<Rightarrow> kernel \<Rightarrow> kernel \<times> ptr option" where
  "resolve_create fs cname cur k =
     (case create_dentry cname None (Some cur) k of
        (k1, None) \<Rightarrow> (k1, None)
      | (k1, Some new) \<Rightarrow>
          (case fs of
             Some d \<Rightarrow>
               (case fs_create d of
                  None \<Rightarrow> (k1, None)
                | Some create \<Rightarrow>
                    (case create cname cur new k1 of
                       (k2, None) \<Rightarrow> (k2, None)
                     | (k2, Some n) \<Rightarrow>
                         (case k_dentries k2 n of
                            None \<Rightarrow> (k2, None)
                          | Some e \<Rightarrow> if d_vnode e = None then (k2, None)
                                      else (descend_new n cur k2, Some n))))
           | None \<Rightarrow>
               (case create_and_attach_vnode k1 of
                  (k2, vn) \<Rightarrow>
                    (descend_new new cur (set_dentry new (d_vnode_update (\<lambda>_. vn)) k2), Some new))))"

definition resolve_component ::
    "(ptr \<Rightarrow> fs_driver option) \<Rightarrow> u8 \<Rightarrow> string \<Rightarrow> ptr \<Rightarrow> dentry \<Rightarrow> kernel \<Rightarrow> kernel \<times> ptr option" where
  "resolve_component fss flag cname cur e k =
     (case cache_lookup (Some cur) cname k of
        (k1, Some next) \<Rightarrow> (dentry_put (Some cur) k1, Some next)
      | (k1, None) \<Rightarrow>
          let fs = dentry_fs fss k1 e;
              (k2, found) =
                (case fs of None \<Rightarrow> (k1, None)
                 | Some d \<Rightarrow> if fs_has_cdev d
                             then (case fs_lookup d of None \<Rightarrow> (k1, None)
                                   | Some lookup \<Rightarrow> lookup cname cur k1)
                             else (k1, None))
          in case found of
               Some next \<Rightarrow> (descend_new next cur k2, Some next)
             | None \<Rightarrow> if flag AND CREATE_MISSING_ENTRY \<noteq> 0
                       then resolve_create fs cname cur k2
                       else (k2, None))"

lemma strpbrk_suffix: "strpbrk s d = Some p \<Longrightarrow> p \<noteq> [] \<and> length p \<le> length s"
  by (induction s d rule: strpbrk.induct) (auto split: if_splits)

lemma strsep2_shrinks: "strsep2 s d = (c, Some rest) \<Longrightarrow> length rest < length s"
  using strpbrk_suffix [of s d] by (cases "strpbrk s d") (fastforce simp: strsep2_def neq_Nil_conv)+

lemma strsep2_rest:
  "(c, rest) = strsep2 s d \<Longrightarrow> (case rest of None \<Rightarrow> 0 | Some r \<Rightarrow> Suc (length r)) < Suc (length s)"
  using strsep2_shrinks [of s d c] by (cases rest) auto

function resolve_loop ::
    "(ptr \<Rightarrow> fs_driver option) \<Rightarrow> u8 \<Rightarrow> string option \<Rightarrow> ptr \<Rightarrow> kernel \<Rightarrow> kernel \<times> walk" where
  "resolve_loop fss flag path cur k =
     (case path of None \<Rightarrow> (k, Found cur) | Some s \<Rightarrow>
      if s = '''' then (k, Found cur) else
      case strsep2 s ''/'' of (tok, rest) \<Rightarrow>
        let cname = rtrim_component tok
        in if cname = '''' \<or> strcmp cname ''.'' = 0 then resolve_loop fss flag rest cur k
           else case k_dentries k cur of None \<Rightarrow> (k, Wild) | Some e \<Rightarrow>
             if strcmp cname ''..'' = 0 then
               (case d_parent e of
                  None \<Rightarrow> resolve_loop fss flag rest cur k
                | Some up \<Rightarrow> resolve_loop fss flag rest up
                              (dentry_put (Some cur) (dentry_get (Some up) k)))
             else
               (case resolve_component fss flag cname cur e k of
                  (k', Some next) \<Rightarrow> resolve_loop fss flag rest next k'
                | (k', None) \<Rightarrow> (dentry_put (Some cur) k', Missing)))"
  by pat_completeness auto
termination
  by (relation "measure (\<lambda>(_, _, path, _, _). case path of None \<Rightarrow> 0 | Some s \<Rightarrow> Suc (length s))")
     (use strsep2_rest in \<open>fastforce+\<close>)

text \<open>A path of more than 4096 characters is refused: \<^verbatim>\<open>str\<close> makes no copy of it.\<close>

definition resolve_dentry ::
    "(ptr \<Rightarrow> fs_driver option) \<Rightarrow> string \<Rightarrow> ptr option \<Rightarrow> u8 \<Rightarrow> kernel \<Rightarrow> kernel \<times> walk" where
  "resolve_dentry fss path parent flag k =
     (if length path > 4096 then (k, Missing)
      else case (case parent of Some p \<Rightarrow> Some p | None \<Rightarrow> k_root k) of
        None \<Rightarrow> (k, Wild)
      | Some cur \<Rightarrow> resolve_loop fss flag (Some path) cur (dentry_get (Some cur) k))"

section \<open>Well-formed name space\<close>

text \<open>
  The reference count of an entry is one for the cache, one for every child and
  one for every holder outside the tree; \<open>ext\<close> counts the holders.
\<close>

type_synonym dheap = "ptr \<Rightarrow> dentry option"

definition kids :: "dheap \<Rightarrow> ptr \<Rightarrow> ptr set" where
  "kids D a = {c. \<exists>e. D c = Some e \<and> d_parent e = Some a}"

definition heap_ok :: "(ptr \<Rightarrow> nat) \<Rightarrow> dheap \<Rightarrow> ptr list \<Rightarrow> bool" where
  "heap_ok ext D pool \<longleftrightarrow>
     finite (dom D) \<and> distinct pool \<and> (\<forall>a \<in> set pool. D a = None) \<and>
     (\<forall>a. D a = None \<longrightarrow> ext a = 0) \<and>
     (\<forall>a d. D a = Some d \<longrightarrow> d_hash d = hash_dentry (d_name d) (d_parent d) \<and>
        (\<forall>p. d_parent d = Some p \<longrightarrow> D p \<noteq> None))"

definition refs_ok :: "(ptr \<Rightarrow> nat) \<Rightarrow> dheap \<Rightarrow> bool" where
  "refs_ok ext D \<longleftrightarrow>
     (\<forall>a d. D a = Some d \<longrightarrow>
        d_refcount d = of_bool (in_cache d) + int (card (kids D a)) + int (ext a))"

definition buckets_ok :: "dheap \<Rightarrow> (u32 \<Rightarrow> ptr list) \<Rightarrow> bool" where
  "buckets_ok D B \<longleftrightarrow>
     (\<forall>i. distinct (B i) \<and>
        (\<forall>a. a \<in> set (B i) \<longleftrightarrow> (\<exists>d. D a = Some d \<and> in_cache d \<and> bucket_of d = i)))"

definition children_ok :: "dheap \<Rightarrow> bool" where
  "children_ok D \<longleftrightarrow>
     (\<forall>a d. D a = Some d \<longrightarrow> distinct (d_children d) \<and>
        (\<forall>c. c \<in> set (d_children d) \<longleftrightarrow> (\<exists>e. D c = Some e \<and> in_cache e \<and> d_parent e = Some a)))"

definition rcu_ok :: "dheap \<Rightarrow> ptr list \<Rightarrow> bool" where
  "rcu_ok D R \<longleftrightarrow> distinct R \<and> (\<forall>a \<in> set R. \<exists>d. D a = Some d \<and> d_refcount d = 0)"

definition vfs_wf :: "(ptr \<Rightarrow> nat) \<Rightarrow> kernel \<Rightarrow> bool" where
  "vfs_wf ext k \<longleftrightarrow>
     heap_ok ext (k_dentries k) (k_pool k) \<and> refs_ok ext (k_dentries k) \<and>
     buckets_ok (k_dentries k) (k_buckets k) \<and> children_ok (k_dentries k) \<and>
     rcu_ok (k_dentries k) (k_rcu k)"

definition hold :: "(ptr \<Rightarrow> nat) \<Rightarrow> ptr \<Rightarrow> ptr \<Rightarrow> nat" where
  "hold ext a = ext(a := Suc (ext a))"

lemma hold_commute: "hold (hold ext a) b = hold (hold ext b) a"
  by (auto simp: hold_def)

lemma hold_apply: "hold ext a b = (if b = a then Suc (ext a) else ext b)"
  by (simp add: hold_def)

subsection \<open>Entries in use are not queued for release\<close>

lemma finite_kids: "heap_ok ext D pool \<Longrightarrow> finite (kids D a)"
  unfolding heap_ok_def kids_def by (elim conjE, rule finite_subset [rotated]) auto

lemma vfs_wf_in_use:
  assumes "vfs_wf ext k" "k_dentries k a = Some d"
    and "in_cache d \<or> 0 < ext a \<or> kids (k_dentries k) a \<noteq> {}"
  shows "0 < d_refcount d" "a \<notin> set (k_rcu k)"
proof -
  have fin: "finite (kids (k_dentries k) a)" using assms(1) finite_kids by (auto simp: vfs_wf_def)
  have "d_refcount d = of_bool (in_cache d) + int (card (kids (k_dentries k) a)) + int (ext a)"
    using assms(1,2) by (simp add: vfs_wf_def refs_ok_def)
  moreover have "0 < card (kids (k_dentries k) a)" if "kids (k_dentries k) a \<noteq> {}"
    using fin that by (simp add: card_gt_0_iff)
  ultimately show "0 < d_refcount d" using assms(3)
    by (cases "kids (k_dentries k) a = {}") auto
  then show "a \<notin> set (k_rcu k)" using assms(1,2) by (auto simp: vfs_wf_def rcu_ok_def)
qed

lemma vfs_wf_held:
  assumes "vfs_wf (hold ext a) k"
  obtains d where "k_dentries k a = Some d" "a \<notin> set (k_rcu k)"
proof -
  obtain d where d: "k_dentries k a = Some d"
    using assms by (fastforce simp: vfs_wf_def heap_ok_def hold_apply)
  then show thesis using that vfs_wf_in_use(2) [OF assms d] by (simp add: hold_apply)
qed

lemma vfs_wf_parent:
  assumes "vfs_wf ext k" "k_dentries k a = Some d" "d_parent d = Some p"
  obtains e where "k_dentries k p = Some e" "p \<notin> set (k_rcu k)"
proof -
  obtain e where e: "k_dentries k p = Some e" using assms by (fastforce simp: vfs_wf_def heap_ok_def)
  moreover have "a \<in> kids (k_dentries k) p" using assms by (auto simp: kids_def)
  ultimately show thesis using that vfs_wf_in_use(2) [OF assms(1) e] by blast
qed

subsection \<open>Changing one entry\<close>

lemma set_dentry_live:
  "k_dentries k a = Some d \<Longrightarrow> set_dentry a g k = k\<lparr>k_dentries := (k_dentries k)(a \<mapsto> g d)\<rparr>"
  by (simp add: set_dentry_def)

lemma kids_upd:
  "D a = Some d \<Longrightarrow> d_parent d' = d_parent d \<Longrightarrow> kids (D(a \<mapsto> d')) = kids D"
  by (rule ext) (auto simp: kids_def)

lemma heap_ok_upd:
  assumes "heap_ok ext D pool" "D a = Some d" "d_parent d' = d_parent d" "d_hash d' = d_hash d"
    "d_name d' = d_name d" "\<And>b. b \<noteq> a \<Longrightarrow> ext' b = ext b"
  shows "heap_ok ext' (D(a \<mapsto> d')) pool"
  using assms by (auto simp: heap_ok_def)

lemma refs_ok_upd:
  assumes "refs_ok ext D" "D a = Some d" "d_parent d' = d_parent d"
    and "d_refcount d' - of_bool (in_cache d') - int (ext' a) =
         d_refcount d - of_bool (in_cache d) - int (ext a)"
    and "\<And>b. b \<noteq> a \<Longrightarrow> ext' b = ext b"
  shows "refs_ok ext' (D(a \<mapsto> d'))"
proof -
  have "d_refcount d = of_bool (in_cache d) + int (card (kids D a)) + int (ext a)"
    using assms(1,2) by (simp add: refs_ok_def)
  then have "d_refcount d' = of_bool (in_cache d') + int (card (kids D a)) + int (ext' a)"
    using assms(4) by linarith
  then show ?thesis using assms by (auto simp: refs_ok_def kids_upd)
qed

lemma buckets_ok_upd:
  assumes "buckets_ok D B" "D a = Some d" "in_cache d' = in_cache d" "d_hash d' = d_hash d"
  shows "buckets_ok (D(a \<mapsto> d')) B"
proof -
  have "bucket_of d' = bucket_of d" using assms(4) by (simp add: bucket_of_def)
  then show ?thesis using assms unfolding buckets_ok_def by auto
qed

lemma children_ok_upd:
  assumes "children_ok D" "D a = Some d" "in_cache d' = in_cache d" "d_parent d' = d_parent d"
    "d_children d' = d_children d"
  shows "children_ok (D(a \<mapsto> d'))"
  using assms unfolding children_ok_def by auto

lemma rcu_ok_upd: "rcu_ok D R \<Longrightarrow> a \<notin> set R \<Longrightarrow> rcu_ok (D(a \<mapsto> d')) R"
  by (auto simp: rcu_ok_def)

lemma in_cache_cong [simp]: "in_cache (d_refcount_update f d) = in_cache d"
  "in_cache (d_vnode_update g d) = in_cache d" "in_cache (d_children_update h d) = in_cache d"
  by (simp_all add: in_cache_def)

lemmas wf_upd = heap_ok_upd refs_ok_upd buckets_ok_upd children_ok_upd rcu_ok_upd

subsection \<open>References\<close>

lemma dentry_get_wf:
  assumes "vfs_wf ext k" "k_dentries k a = Some d" "a \<notin> set (k_rcu k)"
  shows "vfs_wf (hold ext a) (dentry_get (Some a) k)"
  using assms unfolding vfs_wf_def dentry_get_def
  by (auto simp: set_dentry_live hold_apply intro: wf_upd)

lemma dentry_put_wf:
  assumes "vfs_wf (hold ext a) k"
  shows "vfs_wf ext (dentry_put (Some a) k)"
proof -
  from assms obtain d where d: "k_dentries k a = Some d" "a \<notin> set (k_rcu k)" by (rule vfs_wf_held)
  let ?D = "(k_dentries k)(a \<mapsto> d_refcount_update (\<lambda>c. c - 1) d)"
  have wf: "heap_ok ext ?D (k_pool k)" "refs_ok ext ?D" "buckets_ok ?D (k_buckets k)"
    "children_ok ?D" "rcu_ok ?D (k_rcu k)"
    using assms d unfolding vfs_wf_def by (auto simp: hold_apply intro: wf_upd)
  moreover have "rcu_ok ?D (k_rcu k @ [a])" if "d_refcount d = 1"
    using wf(5) d that by (auto simp: rcu_ok_def)
  ultimately show ?thesis using d
    by (simp add: vfs_wf_def dentry_put_def set_dentry_live call_rcu_def Let_def)
qed

subsection \<open>The cache\<close>

lemma in_cache_set [simp]: "in_cache (d_flags_update (\<lambda>f. f OR DENTRY_IN_CACHE) d)"
proof -
  have "bit ((d_flags d OR 8) AND 8) 3" by (simp add: bit_simps)
  then have "(d_flags d OR 8) AND 8 \<noteq> 0" by (metis bit_0_eq bot_apply bot_bool_def)
  then show ?thesis by (simp add: in_cache_def DENTRY_IN_CACHE_def)
qed

lemma in_cache_clear [simp]: "\<not> in_cache (d_flags_update (\<lambda>f. f AND NOT DENTRY_IN_CACHE) d)"
  by (simp add: in_cache_def DENTRY_IN_CACHE_def and.assoc)

lemma buckets_insert:
  assumes "buckets_ok D B" "D a = Some d" "\<not> in_cache d" "in_cache d'" "d_hash d' = d_hash d"
  shows "buckets_ok (D(a \<mapsto> d')) (B(bucket_of d := a # B (bucket_of d)))"
proof -
  have b: "bucket_of d' = bucket_of d" using assms(5) by (simp add: bucket_of_def)
  have "a \<notin> set (B i)" for i using assms by (auto simp: buckets_ok_def)
  then show ?thesis using assms b unfolding buckets_ok_def by auto
qed

lemma buckets_remove:
  assumes "buckets_ok D B" "D a = Some d" "in_cache d" "\<not> in_cache d'" "d_hash d' = d_hash d"
  shows "buckets_ok (D(a \<mapsto> d')) (B(bucket_of d := remove1 a (B (bucket_of d))))"
proof -
  have "a \<in> set (B i) \<longleftrightarrow> i = bucket_of d" for i using assms by (auto simp: buckets_ok_def)
  moreover have "distinct (B i)" for i using assms by (simp add: buckets_ok_def)
  ultimately show ?thesis using assms unfolding buckets_ok_def by auto
qed

lemma children_insert:
  assumes "children_ok D" "D a = Some d" "\<not> in_cache d" "in_cache d'"
    "d_parent d' = d_parent d" "d_children d' = d_children d"
  shows "d_parent d = None \<Longrightarrow> children_ok (D(a \<mapsto> d'))"
    and "d_parent d = Some p \<Longrightarrow> (D(a \<mapsto> d')) p = Some e \<Longrightarrow>
      children_ok (D(a \<mapsto> d', p \<mapsto> d_children_update (\<lambda>c. c @ [a]) e))"
  using assms unfolding children_ok_def by (auto split: if_splits)

lemma children_remove:
  assumes "children_ok D" "D a = Some d" "in_cache d" "\<not> in_cache d'"
    "d_parent d' = d_parent d" "d_children d' = d_children d"
  shows "d_parent d = None \<Longrightarrow> children_ok (D(a \<mapsto> d'))"
    and "d_parent d = Some p \<Longrightarrow> (D(a \<mapsto> d')) p = Some e \<Longrightarrow>
      children_ok (D(a \<mapsto> d', p \<mapsto> d_children_update (remove1 a) e))"
  using assms unfolding children_ok_def by (auto split: if_splits)

lemma vfs_cache_insert_wf:
  assumes wf: "vfs_wf ext k" and a: "k_dentries k a = Some d" "\<not> in_cache d" "a \<notin> set (k_rcu k)"
  shows "vfs_wf ext (vfs_cache_insert a k)"
proof -
  define d1 where "d1 = d_flags_update (\<lambda>f. f OR DENTRY_IN_CACHE) (d_refcount_update (\<lambda>c. c + 1) d)"
  have d1: "in_cache d1" "d_parent d1 = d_parent d" "d_children d1 = d_children d"
    "d_hash d1 = d_hash d" "d_name d1 = d_name d" "d_refcount d1 = d_refcount d + 1"
    by (simp_all add: d1_def)
  let ?D = "(k_dentries k)(a \<mapsto> d1)"
  let ?B = "(k_buckets k)(bucket_of d := a # k_buckets k (bucket_of d))"
  have parts: "heap_ok ext ?D (k_pool k)" "refs_ok ext ?D" "buckets_ok ?D ?B" "rcu_ok ?D (k_rcu k)"
    using wf a d1 unfolding vfs_wf_def by (auto intro: wf_upd buckets_insert)
  have ch: "children_ok (k_dentries k)" using wf by (simp add: vfs_wf_def)
  show ?thesis
  proof (cases "d_parent d")
    case None
    then show ?thesis using parts children_insert(1) [OF ch a(1,2) d1(1-3)] a
      by (simp add: vfs_wf_def vfs_cache_insert_def dentry_get_def set_dentry_live set_bucket_def d1_def)
  next
    case (Some p)
    obtain e where e: "k_dentries k p = Some e" "p \<notin> set (k_rcu k)"
      by (rule vfs_wf_parent [OF wf a(1) Some])
    then obtain e' where e': "?D p = Some e'" by (cases "p = a") auto
    let ?D2 = "?D(p \<mapsto> d_children_update (\<lambda>c. c @ [a]) e')"
    have "heap_ok ext ?D2 (k_pool k)" "refs_ok ext ?D2" "buckets_ok ?D2 ?B" "rcu_ok ?D2 (k_rcu k)"
      using parts e e' by (auto intro: wf_upd)
    then show ?thesis using children_insert(2) [OF ch a(1,2) d1(1-3) Some e'] a e' Some
      by (cases "p = a") (simp_all add: vfs_wf_def vfs_cache_insert_def dentry_get_def set_dentry_live
          set_bucket_def d1_def)
  qed
qed

lemma vfs_cache_remove_dentry_wf:
  assumes wf: "vfs_wf ext k" and a: "k_dentries k a = Some d" "in_cache d"
  shows "vfs_wf (hold ext a) (vfs_cache_remove_dentry a k)"
proof -
  have "a \<notin> set (k_rcu k)" using vfs_wf_in_use(2) [OF wf a(1)] a(2) by simp
  define d1 where "d1 = d_flags_update (\<lambda>f. f AND NOT DENTRY_IN_CACHE) d"
  have d1: "\<not> in_cache d1" "d_parent d1 = d_parent d" "d_children d1 = d_children d"
    "d_hash d1 = d_hash d" "d_name d1 = d_name d" "d_refcount d1 = d_refcount d"
    by (simp_all add: d1_def)
  let ?D = "(k_dentries k)(a \<mapsto> d1)"
  let ?B = "(k_buckets k)(bucket_of d := remove1 a (k_buckets k (bucket_of d)))"
  have parts: "heap_ok (hold ext a) ?D (k_pool k)" "refs_ok (hold ext a) ?D" "buckets_ok ?D ?B"
    "rcu_ok ?D (k_rcu k)"
    using wf a d1 \<open>a \<notin> set (k_rcu k)\<close> unfolding vfs_wf_def
    by (auto simp: hold_apply intro: wf_upd buckets_remove)
  have ch: "children_ok (k_dentries k)" using wf by (simp add: vfs_wf_def)
  show ?thesis
  proof (cases "d_parent d")
    case None
    then show ?thesis using parts children_remove(1) [OF ch a d1(1-3)] a
      by (simp add: vfs_wf_def vfs_cache_remove_dentry_def set_dentry_live set_bucket_def d1_def)
  next
    case (Some p)
    obtain e where e: "k_dentries k p = Some e" "p \<notin> set (k_rcu k)"
      by (rule vfs_wf_parent [OF wf a(1) Some])
    then obtain e' where e': "?D p = Some e'" by (cases "p = a") auto
    let ?D2 = "?D(p \<mapsto> d_children_update (remove1 a) e')"
    have "heap_ok (hold ext a) ?D2 (k_pool k)" "refs_ok (hold ext a) ?D2" "buckets_ok ?D2 ?B"
      "rcu_ok ?D2 (k_rcu k)"
      using parts e e' by (auto intro: wf_upd)
    then show ?thesis using children_remove(2) [OF ch a d1(1-3) Some e'] a e' Some
      by (cases "p = a") (simp_all add: vfs_wf_def vfs_cache_remove_dentry_def set_dentry_live
          set_bucket_def d1_def)
  qed
qed

lemma cache_remove_eq:
  "k_dentries k a = Some d \<Longrightarrow> in_cache d \<Longrightarrow>
   cache_remove a k = dentry_put (Some a) (vfs_cache_remove_dentry a k)"
  by (simp add: cache_remove_def vfs_cache_remove_dentry_def Let_def split: option.splits)

lemma cache_remove_wf: "vfs_wf ext k \<Longrightarrow> vfs_wf ext (cache_remove a k)"
proof -
  assume wf: "vfs_wf ext k"
  show ?thesis
  proof (cases "\<exists>d. k_dentries k a = Some d \<and> in_cache d")
    case True
    then show ?thesis
      using dentry_put_wf vfs_cache_remove_dentry_wf [OF wf] cache_remove_eq by metis
  next
    case False
    then have "cache_remove a k = k" by (auto simp: cache_remove_def split: option.splits)
    then show ?thesis using wf by simp
  qed
qed

lemma scan_bucket_Some:
  "scan_bucket k parent name as = Some a \<Longrightarrow>
   a \<in> set as \<and> (\<exists>e. k_dentries k a = Some e \<and> d_parent e = parent \<and> strcmp (d_name e) name = 0)"
  by (induction k parent name as rule: scan_bucket.induct) (auto split: option.splits if_splits)

lemma scan_bucket_None:
  "scan_bucket k parent name as = None \<Longrightarrow> \<forall>a \<in> set as. k_dentries k a \<noteq> None \<Longrightarrow>
   a \<in> set as \<Longrightarrow> k_dentries k a = Some e \<Longrightarrow> \<not> (d_parent e = parent \<and> strcmp (d_name e) name = 0)"
  by (induction k parent name as rule: scan_bucket.induct) (auto split: if_splits)

lemma cache_lookup_wf:
  assumes wf: "vfs_wf ext k" and l: "cache_lookup parent name k = (k', r)"
  shows "case r of None \<Rightarrow> k' = k | Some a \<Rightarrow> vfs_wf (hold ext a) k'"
proof (cases "scan_bucket k parent name (k_buckets k (hash_dentry name parent AND (VFS_CACHE_SIZE - 1)))")
  case None
  then show ?thesis using l by (auto simp: cache_lookup_def Let_def)
next
  case (Some a)
  obtain e where e: "k_dentries k a = Some e" "in_cache e"
    using scan_bucket_Some [OF Some] wf by (auto simp: vfs_wf_def buckets_ok_def)
  then have "a \<notin> set (k_rcu k)" using vfs_wf_in_use(2) [OF wf] by blast
  moreover have "k' = dentry_get (Some a) k" "r = Some a"
    using l by (auto simp: cache_lookup_def Some)
  ultimately show ?thesis using dentry_get_wf [OF wf e(1)] by simp
qed

subsection \<open>Creating and releasing entries\<close>

lemma kids_new: "D a = None \<Longrightarrow>
  kids (D(a \<mapsto> e)) b = (if d_parent e = Some b then insert a (kids D b) else kids D b)"
  by (auto simp: kids_def)

lemma kids_gone: "kids (D(a := None)) b = kids D b - {a}"
  by (auto simp: kids_def)

lemma create_dentry_wf:
  assumes wf: "vfs_wf ext k" and p: "k_dentries k p = Some d" "p \<notin> set (k_rcu k)"
    and c: "create_dentry name vn (Some p) k = (k', Some a)"
  shows "vfs_wf ext k'" "a \<notin> set (k_rcu k')" "ext a = 0" "a \<noteq> p"
    "\<exists>e. k_dentries k' a = Some e \<and> \<not> in_cache e \<and> d_name e = name \<and> d_vnode e = vn \<and> d_parent e = Some p"
proof -
  obtain as where pool: "k_pool k = a # as" using c
    by (auto simp: create_dentry_def kernel_alloc_def Let_def split: list.splits option.splits)
  define e where "e = \<lparr>d_children = [], d_refcount = 0, d_hash = hash_dentry name (Some p), d_flags = 0,
                   d_name = name, d_vnode = vn, d_parent = Some p\<rparr>"
  have a: "k_dentries k a = None" "ext a = 0" "a \<notin> set as" "distinct as"
    and rest: "\<And>b. b \<in> set as \<Longrightarrow> k_dentries k b = None"
    using wf pool by (auto simp: vfs_wf_def heap_ok_def)
  have ap: "a \<noteq> p" using a p by auto
  have fin: "finite (kids (k_dentries k) b)" for b using wf finite_kids by (auto simp: vfs_wf_def)
  have ak: "a \<notin> kids (k_dentries k) b" "kids (k_dentries k) a = {}" for b
    using a wf by (auto simp: kids_def vfs_wf_def heap_ok_def) (metis option.distinct(1))
  then have noa: "d_parent f \<noteq> Some a" if "k_dentries k c = Some f" for c f
    using that by (auto simp: kids_def)
  let ?D = "(k_dentries k)(a \<mapsto> e)" and ?D2 = "(k_dentries k)(a \<mapsto> e, p \<mapsto> d_refcount_update (\<lambda>c. c + 1) d)"
  have ic: "\<not> in_cache e" by (simp add: e_def in_cache_def)
  have k': "k' = k\<lparr>k_pool := as, k_dentries := ?D2\<rparr>"
    using c pool p ap by (auto simp: create_dentry_def kernel_alloc_def Let_def dentry_get_def
        set_dentry_live e_def fun_upd_twist)
  have kd: "kids ?D2 b = (if b = p then insert a (kids (k_dentries k) b) else kids (k_dentries k) b)" for b
    using kids_upd [of ?D p d] p ap kids_new [of "k_dentries k" a e b, OF a(1)] by (auto simp: e_def)
  have "refs_ok ext ?D2"
    using wf p ap ic fin ak a(2) unfolding vfs_wf_def refs_ok_def kd by (auto simp: e_def)
  moreover have "heap_ok ext ?D2 as"
    using wf p a ap rest unfolding vfs_wf_def heap_ok_def by (auto simp: e_def split: if_splits)
  moreover have "buckets_ok ?D2 (k_buckets k)"
    using wf p a ap ic unfolding vfs_wf_def buckets_ok_def by (auto simp: bucket_of_def split: if_splits)
  moreover have "children_ok ?D2"
    using wf p ap ic noa a(1) unfolding vfs_wf_def children_ok_def by (auto simp: e_def split: if_splits)
  moreover have "rcu_ok ?D2 (k_rcu k)" using wf p a unfolding vfs_wf_def rcu_ok_def by auto
  ultimately show "vfs_wf ext k'" by (simp add: vfs_wf_def k')
  show "a \<notin> set (k_rcu k')" using wf a by (auto simp: k' vfs_wf_def rcu_ok_def)
  show "ext a = 0" "a \<noteq> p" by fact+
  show "\<exists>e. k_dentries k' a = Some e \<and> \<not> in_cache e \<and> d_name e = name \<and> d_vnode e = vn \<and> d_parent e = Some p"
    using ap ic by (simp add: k' e_def)
qed

lemma create_dentry_None: "create_dentry name vn p k = (k', None) \<Longrightarrow> k' = k"
  by (auto simp: create_dentry_def kernel_alloc_def Let_def split: list.splits option.splits)

lemma release_wf:
  assumes wf: "vfs_wf ext k" and a: "k_dentries k a = Some d" "d_refcount d = 0" "a \<notin> set (k_rcu k)"
  shows "vfs_wf (case d_parent d of None \<Rightarrow> ext | Some p \<Rightarrow> hold ext p)
           (kernel_free a (k\<lparr>k_dentries := (k_dentries k)(a := None)\<rparr>))"
    and "d_parent d \<noteq> Some a" and "\<not> in_cache d"
proof -
  let ?D = "(k_dentries k)(a := None)"
  let ?ext = "case d_parent d of None \<Rightarrow> ext | Some p \<Rightarrow> hold ext p"
  have free: "\<not> in_cache d" "ext a = 0" "kids (k_dentries k) a = {}"
    using vfs_wf_in_use(1) [OF wf a(1)] a(2) by (metis less_irrefl neq0_conv)+
  have fin: "finite (kids (k_dentries k) b)" for b using wf finite_kids by (auto simp: vfs_wf_def)
  have mem: "a \<in> kids (k_dentries k) b \<longleftrightarrow> d_parent d = Some b" for b using a by (auto simp: kids_def)
  then show pa: "d_parent d \<noteq> Some a" using free by auto
  show "\<not> in_cache d" by fact
  have ext: "?ext b = ext b + of_bool (d_parent d = Some b)" for b
    by (auto simp: hold_apply split: option.splits)
  have card: "card (kids (k_dentries k) b) = card (kids ?D b) + of_bool (d_parent d = Some b)" for b
  proof (cases "a \<in> kids (k_dentries k) b")
    case True
    then have "0 < card (kids (k_dentries k) b)" using fin card_gt_0_iff by blast
    then show ?thesis using True mem fin by (simp add: kids_gone card_Diff_singleton)
  next
    case False
    then show ?thesis using mem by (simp add: kids_gone)
  qed
  have "refs_ok ?ext ?D"
    using wf unfolding vfs_wf_def refs_ok_def card ext by auto
  moreover have "heap_ok ?ext ?D (a # k_pool k)"
  proof -
    have "d_parent e \<noteq> Some a" if "k_dentries k b = Some e" for b e
      using free(3) that by (auto simp: kids_def)
    moreover have "heap_ok ext (k_dentries k) (k_pool k)" using wf by (simp add: vfs_wf_def)
    ultimately show ?thesis using a(1) pa free(2) unfolding heap_ok_def ext
      by (auto simp: dom_def split: if_splits intro: finite_subset [rotated])
         (metis option.distinct(1))
  qed
  moreover have "buckets_ok ?D (k_buckets k)"
    using wf a free unfolding vfs_wf_def buckets_ok_def by auto
  moreover have "children_ok ?D" using wf a free unfolding vfs_wf_def children_ok_def by auto
  moreover have "rcu_ok ?D (k_rcu k)" using wf a unfolding vfs_wf_def rcu_ok_def by auto
  ultimately show "vfs_wf ?ext (kernel_free a (k\<lparr>k_dentries := ?D\<rparr>))"
    by (simp add: vfs_wf_def kernel_free_def)
qed

lemma put_then_free:
  assumes "p \<noteq> a"
  shows "kernel_free a ((dentry_put (Some p) k)\<lparr>k_dentries := (k_dentries (dentry_put (Some p) k))(a := None)\<rparr>) =
    dentry_put (Some p) (kernel_free a (k\<lparr>k_dentries := (k_dentries k)(a := None)\<rparr>))"
  using assms
  by (auto simp: dentry_put_def kernel_free_def set_dentry_def call_rcu_def Let_def fun_upd_twist
      split: option.splits)

lemma run_rcu_wf:
  assumes wf: "vfs_wf ext k"
  shows "vfs_wf ext (run_rcu k)"
proof (cases "k_rcu k")
  case Nil
  then show ?thesis using wf by (simp add: run_rcu_def)
next
  case (Cons a as)
  then obtain d where d: "k_dentries k a = Some d" "d_refcount d = 0"
    using wf by (auto simp: vfs_wf_def rcu_ok_def)
  let ?k = "k\<lparr>k_rcu := as\<rparr>"
  have wf': "vfs_wf ext ?k" and a: "a \<notin> set (k_rcu ?k)"
    using wf Cons by (auto simp: vfs_wf_def rcu_ok_def)
  note rel = release_wf [OF wf' _ d(2) a, simplified, OF d(1)]
  show ?thesis
  proof (cases "d_parent d")
    case None
    then show ?thesis using rel d Cons by (simp add: run_rcu_def dentry_free_rcu_def)
  next
    case (Some p)
    have "run_rcu k = kernel_free a ((dentry_put (Some p) ?k)
        \<lparr>k_dentries := (k_dentries (dentry_put (Some p) ?k))(a := None)\<rparr>)"
      using rel(3) d Cons Some by (simp add: run_rcu_def dentry_free_rcu_def Let_def)
    also have "\<dots> = dentry_put (Some p) (kernel_free a (?k\<lparr>k_dentries := (k_dentries ?k)(a := None)\<rparr>))"
      by (rule put_then_free) (use rel(2) Some in auto)
    finally show ?thesis using rel(1) Some dentry_put_wf by simp
  qed
qed

lemma create_vnode_frame:
  assumes "create_and_attach_vnode k = (k', r)"
  shows "k_dentries k' = k_dentries k" "k_buckets k' = k_buckets k" "k_rcu k' = k_rcu k"
    "vfs_wf ext k \<Longrightarrow> vfs_wf ext k'"
  using assms
  by (auto simp: create_and_attach_vnode_def create_vnode_def kernel_alloc_def vfs_wf_def heap_ok_def
      split: list.splits option.splits prod.splits)

section \<open>Path resolution keeps the reference counts\<close>

text \<open>
  What the name layer relies on in a file system driver: it leaves the name space
  well formed, and an entry it hands back is a new one, neither cached nor queued
  for release. \<^verbatim>\<open>create\<close> is given the new entry and may hand back another one.
\<close>

definition fresh_entry :: "kernel \<Rightarrow> ptr \<Rightarrow> bool" where
  "fresh_entry k a \<longleftrightarrow>
     (case k_dentries k a of None \<Rightarrow> False | Some e \<Rightarrow> \<not> in_cache e) \<and> a \<notin> set (k_rcu k)"

locale fs_drivers =
  fixes fss :: "ptr \<Rightarrow> fs_driver option"
  assumes lookup_law: "\<lbrakk>fss f = Some d; fs_lookup d = Some lookup; vfs_wf ext k; 0 < ext cur;
      lookup name cur k = (k', r)\<rbrakk>
    \<Longrightarrow> vfs_wf ext k' \<and> (case r of None \<Rightarrow> True | Some a \<Rightarrow> fresh_entry k' a)"
    and create_law: "\<lbrakk>fss f = Some d; fs_create d = Some create; vfs_wf ext k; 0 < ext cur;
      fresh_entry k new; create name cur new k = (k', r)\<rbrakk>
    \<Longrightarrow> vfs_wf ext k' \<and> (case r of None \<Rightarrow> True | Some a \<Rightarrow> fresh_entry k' a)"

lemma fresh_entryE:
  assumes "fresh_entry k a"
  obtains e where "k_dentries k a = Some e" "\<not> in_cache e" "a \<notin> set (k_rcu k)"
  using assms by (auto simp: fresh_entry_def split: option.splits)

lemma set_dentry_None [simp]: "k_dentries (set_dentry b g k) a = None \<longleftrightarrow> k_dentries k a = None"
  by (simp add: set_dentry_def)

lemma vfs_cache_insert_live:
  assumes "k_dentries k a = Some e" "a \<notin> set (k_rcu k)"
  obtains e' where "k_dentries (vfs_cache_insert a k) a = Some e'"
    "a \<notin> set (k_rcu (vfs_cache_insert a k))"
proof -
  have "k_dentries (vfs_cache_insert a k) a \<noteq> None"
    using assms(1) by (simp add: vfs_cache_insert_def dentry_get_def set_bucket_def Let_def
        split: option.splits del: not_None_eq)
  moreover have "k_rcu (vfs_cache_insert a k) = k_rcu k"
    by (simp add: vfs_cache_insert_def dentry_get_def set_bucket_def set_dentry_def Let_def
        split: option.splits)
  ultimately show thesis using that assms(2) by auto
qed

lemma descend_new_wf:
  assumes wf: "vfs_wf (hold ext cur) k" and n: "fresh_entry k n"
  shows "vfs_wf (hold ext n) (descend_new n cur k)"
proof -
  obtain e where e: "k_dentries k n = Some e" "\<not> in_cache e" "n \<notin> set (k_rcu k)"
    using n by (rule fresh_entryE)
  obtain e' where e': "k_dentries (vfs_cache_insert n k) n = Some e'"
    "n \<notin> set (k_rcu (vfs_cache_insert n k))"
    by (rule vfs_cache_insert_live [OF e(1,3)])
  have "vfs_wf (hold (hold ext cur) n) (dentry_get (Some n) (vfs_cache_insert n k))"
    by (rule dentry_get_wf [OF vfs_cache_insert_wf [OF wf e] e'])
  then show ?thesis unfolding descend_new_def hold_commute [of ext cur n] by (rule dentry_put_wf)
qed

lemma set_vnode_field_wf:
  assumes "vfs_wf ext k" "fresh_entry k a"
  shows "vfs_wf ext (set_dentry a (d_vnode_update g) k)" "fresh_entry (set_dentry a (d_vnode_update g) k) a"
proof -
  obtain e where e: "k_dentries k a = Some e" "\<not> in_cache e" "a \<notin> set (k_rcu k)"
    using assms(2) by (rule fresh_entryE)
  show "vfs_wf ext (set_dentry a (d_vnode_update g) k)"
    using assms(1) e unfolding vfs_wf_def by (auto simp: set_dentry_live intro: wf_upd)
  show "fresh_entry (set_dentry a (d_vnode_update g) k) a"
    using e by (simp add: fresh_entry_def set_dentry_def)
qed

declare resolve_loop.simps [simp del]

lemma resolve_loop_step:
  assumes "s \<noteq> []" "strsep2 s ''/'' = (tok, rest)" "k_dentries k cur = Some e"
  shows "resolve_loop fss flag (Some s) cur k =
     (if rtrim_component tok = [] \<or> strcmp (rtrim_component tok) ''.'' = 0
      then resolve_loop fss flag rest cur k
      else if strcmp (rtrim_component tok) ''..'' = 0 then
        (case d_parent e of
           None \<Rightarrow> resolve_loop fss flag rest cur k
         | Some up \<Rightarrow> resolve_loop fss flag rest up
                       (dentry_put (Some cur) (dentry_get (Some up) k)))
      else
        (case resolve_component fss flag (rtrim_component tok) cur e k of
           (k', Some next) \<Rightarrow> resolve_loop fss flag rest next k'
         | (k', None) \<Rightarrow> (dentry_put (Some cur) k', Missing)))"
  using assms by (subst resolve_loop.simps) (simp add: Let_def)

context fs_drivers
begin

lemma resolve_create_wf:
  assumes wf: "vfs_wf (hold ext cur) k" and fs: "fs = None \<or> (\<exists>f. fs = fss f)"
    and r: "resolve_create fs name cur k = (k', r)"
  shows "case r of Some n \<Rightarrow> vfs_wf (hold ext n) k' | None \<Rightarrow> vfs_wf (hold ext cur) k'"
proof (cases "create_dentry name None (Some cur) k")
  case (Pair k1 new)
  show ?thesis
  proof (cases new)
    case None
    then show ?thesis using r Pair wf create_dentry_None by (fastforce simp: resolve_create_def)
  next
    case (Some a)
    obtain d where d: "k_dentries k cur = Some d" "cur \<notin> set (k_rcu k)" using wf by (rule vfs_wf_held)
    note c = create_dentry_wf [OF wf d Pair [unfolded Some]]
    have fresh: "fresh_entry k1 a" using c(2,5) by (auto simp: fresh_entry_def)
    show ?thesis
    proof (cases fs)
      case None
      obtain k2 vn where v: "create_and_attach_vnode k1 = (k2, vn)" by fastforce
      have k2: "vfs_wf (hold ext cur) k2" "fresh_entry k2 a"
        using create_vnode_frame [OF v] c(1) fresh by (auto simp: fresh_entry_def)
      show ?thesis using r Pair Some None v
          descend_new_wf [OF set_vnode_field_wf [OF k2]] by (auto simp: resolve_create_def)
    next
      case fsd: (Some fd)
      then obtain f where f: "fss f = Some fd" using fs by auto
      show ?thesis
      proof (cases "fs_create fd")
        case None
        then show ?thesis using r Pair Some fsd c(1) by (auto simp: resolve_create_def)
      next
        case cr: (Some create)
        obtain k2 n where k2: "create name cur a k1 = (k2, n)" by fastforce
        have "vfs_wf (hold ext cur) k2 \<and> (case n of None \<Rightarrow> True | Some b \<Rightarrow> fresh_entry k2 b)"
          by (rule create_law [OF f cr c(1) _ fresh k2]) (simp add: hold_apply)
        then show ?thesis using r Pair Some fsd cr k2 descend_new_wf [of ext cur k2]
          by (auto simp: resolve_create_def split: option.splits if_splits)
      qed
    qed
  qed
qed

lemma resolve_component_wf:
  assumes wf: "vfs_wf (hold ext cur) k" and r: "resolve_component fss flag name cur e k = (k', r)"
  shows "case r of Some n \<Rightarrow> vfs_wf (hold ext n) k' | None \<Rightarrow> vfs_wf (hold ext cur) k'"
proof (cases "cache_lookup (Some cur) name k")
  case (Pair k1 hit)
  note l = cache_lookup_wf [OF wf Pair]
  show ?thesis
  proof (cases hit)
    case (Some n)
    then have "vfs_wf (hold (hold ext cur) n) k1" using l by simp
    then have "vfs_wf (hold (hold ext n) cur) k1" by (subst hold_commute)
    then show ?thesis using r Pair Some dentry_put_wf by (auto simp: resolve_component_def)
  next
    case None
    then have k1: "k1 = k" using l by simp
    have fs: "dentry_fs fss k e = None \<or> (\<exists>f. dentry_fs fss k e = fss f)"
      by (auto simp: dentry_fs_def split: option.splits)
    obtain k2 found where look: "(case dentry_fs fss k e of None \<Rightarrow> (k, None)
       | Some d \<Rightarrow> if fs_has_cdev d then (case fs_lookup d of None \<Rightarrow> (k, None)
            | Some lookup \<Rightarrow> lookup name cur k) else (k, None)) = (k2, found)" by fastforce
    have "vfs_wf (hold ext cur) k2 \<and> (case found of None \<Rightarrow> True | Some a \<Rightarrow> fresh_entry k2 a)"
    proof (cases "\<exists>d lookup. dentry_fs fss k e = Some d \<and> fs_has_cdev d \<and> fs_lookup d = Some lookup")
      case True
      then obtain d lookup where d: "dentry_fs fss k e = Some d" "fs_has_cdev d" "fs_lookup d = Some lookup"
        by blast
      then obtain f where f: "fss f = Some d" using fs by auto
      have "lookup name cur k = (k2, found)" using look d by simp
      then show ?thesis by (intro lookup_law [OF f d(3) wf]) (simp_all add: hold_apply)
    next
      case False
      then have "k2 = k \<and> found = None" using look by (auto split: option.splits if_splits)
      then show ?thesis using wf by simp
    qed
    moreover have r': "(case found of Some next \<Rightarrow> (descend_new next cur k2, Some next)
        | None \<Rightarrow> if flag AND CREATE_MISSING_ENTRY \<noteq> 0
            then resolve_create (dentry_fs fss k e) name cur k2 else (k2, None)) = (k', r)"
      using r unfolding resolve_component_def Pair None k1 Let_def prod.case option.case look .
    ultimately show ?thesis
    proof (cases found)
      case None
      then show ?thesis using r' \<open>vfs_wf (hold ext cur) k2 \<and> _\<close> resolve_create_wf [OF _ fs]
        by (cases "flag AND CREATE_MISSING_ENTRY = 0") auto
    next
      case (Some n)
      then show ?thesis using r' \<open>vfs_wf (hold ext cur) k2 \<and> _\<close> descend_new_wf [of ext cur k2 n] by auto
    qed
  qed
qed

lemma resolve_loop_wf:
  assumes "vfs_wf (hold ext cur) k" "resolve_loop fss flag path cur k = (k', w)"
  shows "(case w of Found a \<Rightarrow> vfs_wf (hold ext a) k' | Missing \<Rightarrow> vfs_wf ext k' | Wild \<Rightarrow> False)"
  using assms
proof (induction "case path of None \<Rightarrow> 0 | Some s \<Rightarrow> Suc (length s)"
    arbitrary: path cur k rule: less_induct)
  case less
  note wf = less.prems(1) and run = less.prems(2)
  show ?case
  proof (cases "path = None \<or> path = Some []")
    case True
    then show ?thesis using wf run by (auto simp: resolve_loop.simps [of fss flag path] split: option.splits)
  next
    case False
    then obtain s where s: "path = Some s" "s \<noteq> []" by auto
    obtain tok rest where sep: "strsep2 s ''/'' = (tok, rest)" by fastforce
    have IH: "case w of Found a \<Rightarrow> vfs_wf (hold ext a) k' | Missing \<Rightarrow> vfs_wf ext k' | Wild \<Rightarrow> False"
      if "vfs_wf (hold ext c) kk" "resolve_loop fss flag rest c kk = (k', w)" for c kk
      using less.hyps [OF _ that] strsep2_rest [OF sep [symmetric]] s(1) by simp
    define name where "name = rtrim_component tok"
    obtain e where e: "k_dentries k cur = Some e" using wf by (rule vfs_wf_held)
    note step = run [unfolded s(1) resolve_loop_step [OF s(2) sep e], folded name_def]
    consider (skip) "name = [] \<or> strcmp name ''.'' = 0"
      | (dotdot) "\<not> (name = [] \<or> strcmp name ''.'' = 0)" "strcmp name ''..'' = 0"
      | (down) "\<not> (name = [] \<or> strcmp name ''.'' = 0)" "strcmp name ''..'' \<noteq> 0" by blast
    then show ?thesis
    proof cases
      case skip
      then show ?thesis using step IH wf by simp
    next
      case dotdot
      show ?thesis
      proof (cases "d_parent e")
        case None
        then show ?thesis using step dotdot IH wf by simp
      next
        case (Some up)
        obtain d where d: "k_dentries k up = Some d" "up \<notin> set (k_rcu k)"
          by (rule vfs_wf_parent [OF wf e Some])
        have "vfs_wf (hold ext up) (dentry_put (Some cur) (dentry_get (Some up) k))"
          by (rule dentry_put_wf, subst hold_commute, rule dentry_get_wf [OF wf d])
        then show ?thesis using step dotdot Some IH by simp
      qed
    next
      case down
      obtain k1 r where c: "resolve_component fss flag name cur e k = (k1, r)" by fastforce
      note rc = resolve_component_wf [OF wf c]
      show ?thesis
      proof (cases r)
        case None
        then show ?thesis using step down c rc dentry_put_wf by auto
      next
        case (Some n)
        then show ?thesis using step down c rc IH by simp
      qed
    qed
  qed
qed

end

section \<open>Finding cached entries\<close>

definition cached_as :: "kernel \<Rightarrow> ptr option \<Rightarrow> string \<Rightarrow> ptr \<Rightarrow> bool" where
  "cached_as k parent name a \<longleftrightarrow>
     (case k_dentries k a of None \<Rightarrow> False
      | Some e \<Rightarrow> in_cache e \<and> d_parent e = parent \<and> d_name e = name)"

definition names_ok :: "kernel \<Rightarrow> bool" where
  "names_ok k \<longleftrightarrow> (\<forall>a e. k_dentries k a = Some e \<longrightarrow> cstring (d_name e))"

definition names_unique :: "kernel \<Rightarrow> bool" where
  "names_unique k \<longleftrightarrow>
     (\<forall>parent name a b. cached_as k parent name a \<longrightarrow> cached_as k parent name b \<longrightarrow> a = b)"

lemma cached_bucket:
  "vfs_wf ext k \<Longrightarrow> cached_as k parent name a \<Longrightarrow>
   a \<in> set (k_buckets k (hash_dentry name parent AND (VFS_CACHE_SIZE - 1)))"
  by (auto simp: vfs_wf_def cached_as_def buckets_ok_def heap_ok_def bucket_of_def split: option.splits)

lemma scan_finds:
  assumes wf: "vfs_wf ext k" and names: "names_ok k" "cstring name"
  shows "case scan_bucket k parent name (k_buckets k (hash_dentry name parent AND (VFS_CACHE_SIZE - 1)))
    of Some a \<Rightarrow> cached_as k parent name a | None \<Rightarrow> \<forall>a. \<not> cached_as k parent name a"
proof (cases "scan_bucket k parent name (k_buckets k (hash_dentry name parent AND (VFS_CACHE_SIZE - 1)))")
  case None
  have "\<not> cached_as k parent name a" for a
  proof
    assume c: "cached_as k parent name a"
    then obtain e where e: "k_dentries k a = Some e" "d_parent e = parent" "d_name e = name"
      by (auto simp: cached_as_def split: option.splits)
    have "\<forall>b \<in> set (k_buckets k i). k_dentries k b \<noteq> None" for i
      using wf by (auto simp: vfs_wf_def buckets_ok_def)
    from scan_bucket_None [OF None this cached_bucket [OF wf c] e(1)] e(2,3)
    show False using strcmp_0_iff names by simp
  qed
  then show ?thesis using None by simp
next
  case (Some a)
  from scan_bucket_Some [OF Some] obtain e where
    "a \<in> set (k_buckets k (hash_dentry name parent AND (VFS_CACHE_SIZE - 1)))"
    "k_dentries k a = Some e" "d_parent e = parent" "d_name e = name"
    using names strcmp_0_iff by (auto simp: names_ok_def)
  then have "cached_as k parent name a"
    using wf by (auto simp: vfs_wf_def buckets_ok_def cached_as_def)
  then show ?thesis using Some by simp
qed

lemma cache_lookup_hit:
  assumes "vfs_wf ext k" "names_ok k" "cstring name" "names_unique k" "cached_as k parent name a"
  shows "cache_lookup parent name k = (dentry_get (Some a) k, Some a)"
proof -
  have "scan_bucket k parent name (k_buckets k (hash_dentry name parent AND (VFS_CACHE_SIZE - 1))) = Some a"
    using scan_finds [OF assms(1-3), of parent] assms(4,5)
    by (auto simp: names_unique_def split: option.splits)
  then show ?thesis by (simp add: cache_lookup_def)
qed

section \<open>Paths of entries\<close>

partial_function (option) full_path_loop :: "kernel \<Rightarrow> ptr \<Rightarrow> string \<Rightarrow> string option" where
  "full_path_loop k cur name =
     (case k_dentries k cur of None \<Rightarrow> None | Some e \<Rightarrow>
      case d_parent e of None \<Rightarrow> Some (''/'' @ name)
      | Some p \<Rightarrow> full_path_loop k p (d_name e @ ''/'' @ name))"

definition get_full_path_from_dentry :: "ptr option \<Rightarrow> kernel \<Rightarrow> string option" where
  "get_full_path_from_dentry d k =
     (case d of None \<Rightarrow> None | Some a \<Rightarrow>
      case k_dentries k a of None \<Rightarrow> None | Some e \<Rightarrow>
      if length (d_name e) > 4096 then None
      else case d_parent e of None \<Rightarrow> Some (d_name e)
      | Some p \<Rightarrow> full_path_loop k p (d_name e))"

text \<open>Names that a path component can denote.\<close>

definition good_name :: "string \<Rightarrow> bool" where
  "good_name n \<longleftrightarrow> n \<noteq> [] \<and> cstring n \<and> CHR ''/'' \<notin> set n \<and> last n \<noteq> CHR '' '' \<and>
     n \<noteq> ''.'' \<and> n \<noteq> ''..''"

text \<open>\<open>dpath k a ns\<close>: following the names \<open>ns\<close> down from the root leads to the cached entry \<open>a\<close>.\<close>

inductive dpath :: "kernel \<Rightarrow> ptr \<Rightarrow> string list \<Rightarrow> bool" for k where
  root: "k_root k = Some r \<Longrightarrow> k_dentries k r = Some e \<Longrightarrow> d_parent e = None \<Longrightarrow> dpath k r []"
| child: "dpath k p ns \<Longrightarrow> cached_as k (Some p) n a \<Longrightarrow> good_name n \<Longrightarrow> dpath k a (ns @ [n])"

definition path_string :: "string list \<Rightarrow> string" where
  "path_string ns = concat (map (\<lambda>n. ''/'' @ n) ns)"

lemma path_string_simps [simp]:
  "path_string [] = []" "path_string (n # ns) = ''/'' @ n @ path_string ns"
  "path_string (ns @ ms) = path_string ns @ path_string ms"
  by (simp_all add: path_string_def)

lemma full_path_loop_dpath:
  "dpath k p ns \<Longrightarrow> ns \<noteq> [] \<Longrightarrow>
   \<exists>m. path_string ns = ''/'' @ m \<and> full_path_loop k p name = Some (''/'' @ m @ ''/'' @ name)"
proof (induction arbitrary: name rule: dpath.induct)
  case (child p ns n a)
  then obtain e where e: "k_dentries k a = Some e" "d_parent e = Some p" "d_name e = n"
    by (auto simp: cached_as_def split: option.splits)
  show ?case
  proof (cases "ns = []")
    case True
    then obtain r where "k_dentries k p = Some r" "d_parent r = None"
      using child.hyps(1) by (auto elim: dpath.cases)
    then show ?thesis using True e
      by (simp add: full_path_loop.simps [of k a] full_path_loop.simps [of k p])
  next
    case False
    then obtain m where "path_string ns = ''/'' @ m"
      "full_path_loop k p (n @ ''/'' @ name) = Some (''/'' @ m @ ''/'' @ n @ ''/'' @ name)"
      using child.IH by blast
    then show ?thesis using e by (simp add: full_path_loop.simps [of k a])
  qed
qed simp

lemma get_full_path_dpath:
  assumes "dpath k a ns" "ns \<noteq> []" "length (path_string ns) \<le> 4096"
  shows "get_full_path_from_dentry (Some a) k = Some (path_string ns)"
  using assms(1)
proof cases
  case (child p ms n)
  then obtain e where e: "k_dentries k a = Some e" "d_parent e = Some p" "d_name e = n"
    by (auto simp: cached_as_def split: option.splits)
  show ?thesis
  proof (cases "ms = []")
    case True
    then obtain r where "k_dentries k p = Some r" "d_parent r = None"
      using child by (auto elim: dpath.cases)
    then show ?thesis using True e child(1) assms(3)
      by (simp add: get_full_path_from_dentry_def full_path_loop.simps [of k p])
  next
    case False
    then obtain m where "path_string ms = ''/'' @ m"
      "full_path_loop k p n = Some (''/'' @ m @ ''/'' @ n)"
      using full_path_loop_dpath [OF child(2)] by blast
    then show ?thesis using e child(1) assms(3) by (simp add: get_full_path_from_dentry_def)
  qed
qed (use assms(2) in simp)

section \<open>The path of an entry leads back to it\<close>

lemma strpbrk_none: "CHR ''/'' \<notin> set n \<Longrightarrow> strpbrk n ''/'' = None"
  by (induction n) auto

lemma strpbrk_slash: "CHR ''/'' \<notin> set n \<Longrightarrow> strpbrk (n @ ''/'' @ s) ''/'' = Some (''/'' @ s)"
  by (induction n) auto

lemma strsep2_name:
  "CHR ''/'' \<notin> set n \<Longrightarrow> strsep2 n ''/'' = (n, None)"
  "CHR ''/'' \<notin> set n \<Longrightarrow> strsep2 (n @ ''/'' @ s) ''/'' = (n, Some s)"
  using strpbrk_none [of n] strpbrk_slash [of n s] by (simp_all add: strsep2_def)

lemma rtrim_good: "good_name n \<Longrightarrow> rtrim_component n = n"
  by (cases n rule: rev_cases) (auto simp: good_name_def rtrim_component_def)

lemma resolve_loop_done: "resolve_loop fss flag None c k = (k, Found c)"
  "resolve_loop fss flag (Some []) c k = (k, Found c)"
  by (simp_all add: resolve_loop.simps)

lemma resolve_leading_slash:
  "resolve_loop fss flag (Some (''/'' @ s)) c k = resolve_loop fss flag (Some s) c k"
  using strsep2_name(2) [of "[]" s]
  by (subst resolve_loop.simps) (simp add: rtrim_component_def)

lemma get_frame [simp]:
  "k_buckets (dentry_get d k) = k_buckets k" "k_root (dentry_get d k) = k_root k"
  "k_rcu (dentry_get d k) = k_rcu k"
  by (simp_all add: dentry_get_def set_dentry_def split: option.splits)

lemma get_entry: "k_dentries (dentry_get (Some p) k) a =
    (if a = p then map_option (d_refcount_update (\<lambda>c. c + 1)) (k_dentries k a) else k_dentries k a)"
  by (simp add: dentry_get_def set_dentry_def)

lemma cached_as_get [simp]: "cached_as (dentry_get (Some p) k) parent name a = cached_as k parent name a"
  by (auto simp: cached_as_def get_entry split: option.splits)

lemma names_get [simp]: "names_ok (dentry_get (Some p) k) = names_ok k"
  "names_unique (dentry_get (Some p) k) = names_unique k"
  by (auto simp: names_ok_def names_unique_def get_entry split: if_splits)

lemma get_put:
  assumes "k_dentries k p = Some e" "0 < d_refcount e"
  shows "dentry_put (Some p) (dentry_get (Some a) (dentry_get (Some p) k)) = dentry_get (Some a) k"
proof -
  have upd: "d_refcount_update ((\<lambda>c. c - 1) \<circ> (\<lambda>c. c + 1)) d = d" for d :: dentry
    by (cases d) simp
  have same: "(k_dentries k)(p \<mapsto> e) = k_dentries k" using assms by (simp add: fun_upd_idem)
  show ?thesis
  proof (cases "a = p")
    case True
    then show ?thesis using assms
      by (cases e) (simp add: dentry_put_def dentry_get_def set_dentry_def Let_def add.commute)
  next
    case False
    then show ?thesis using assms same
      by (simp add: dentry_put_def dentry_get_def set_dentry_def Let_def fun_upd_twist [of a p] upd)
  qed
qed

lemma resolve_cached:
  assumes wf: "vfs_wf ext k" "names_ok k" "names_unique k"
    and c: "cached_as k (Some p) n a" and n: "good_name n"
  shows "resolve_component fss flag n p e (dentry_get (Some p) k) = (dentry_get (Some a) k, Some a)"
proof -
  obtain d where d: "k_dentries k a = Some d" "d_parent d = Some p"
    using c by (auto simp: cached_as_def split: option.splits)
  obtain q where q: "k_dentries k p = Some q" "p \<notin> set (k_rcu k)" by (rule vfs_wf_parent [OF wf(1) d])
  have "a \<in> kids (k_dentries k) p" using d by (auto simp: kids_def)
  then have pos: "0 < d_refcount q" using vfs_wf_in_use(1) [OF wf(1) q(1)] by blast
  have "cache_lookup (Some p) n (dentry_get (Some p) k) =
      (dentry_get (Some a) (dentry_get (Some p) k), Some a)"
    using cache_lookup_hit [OF dentry_get_wf [OF wf(1) q]] wf c n by (simp add: good_name_def)
  then show ?thesis using get_put [OF q(1) pos] by (simp add: resolve_component_def)
qed

lemma resolve_dpath:
  assumes wf: "vfs_wf ext k" "names_ok k" "names_unique k" and r: "k_root k = Some r"
  shows "dpath k a ns \<Longrightarrow>
    resolve_loop fss flag (Some (path_string (ns @ ms))) r (dentry_get (Some r) k) =
    resolve_loop fss flag (Some (path_string ms)) a (dentry_get (Some a) k)"
proof (induction arbitrary: ms rule: dpath.induct)
  case (root r' e)
  then show ?case using r by simp
next
  case (child p ns n a)
  let ?k = "dentry_get (Some p) k"
  obtain d where d: "k_dentries k a = Some d" "d_parent d = Some p"
    using child.hyps(2) by (auto simp: cached_as_def split: option.splits)
  then obtain q where "k_dentries k p = Some q" using vfs_wf_parent [OF wf(1)] by metis
  then obtain q' where q: "k_dentries ?k p = Some q'" by (simp add: get_entry)
  have n: "CHR ''/'' \<notin> set n" "n \<noteq> []" "rtrim_component n = n" "strcmp n ''.'' \<noteq> 0" "strcmp n ''..'' \<noteq> 0"
    using child.hyps(3) rtrim_good strcmp_0_iff by (auto simp: good_name_def cstring_def)
  note res = resolve_cached [OF wf child.hyps(2,3)]
  have "resolve_loop fss flag (Some (path_string ((ns @ [n]) @ ms))) r (dentry_get (Some r) k) =
      resolve_loop fss flag (Some (path_string (n # ms))) p ?k"
    using child.IH [of "n # ms"] by simp
  also have "\<dots> = resolve_loop fss flag (Some (n @ path_string ms)) p ?k"
    using resolve_leading_slash by simp
  also have "\<dots> = resolve_loop fss flag (Some (path_string ms)) a (dentry_get (Some a) k)"
  proof (cases ms)
    case Nil
    then show ?thesis
      using resolve_loop_step [OF n(2) strsep2_name(1) [OF n(1)] q, of fss flag] n res
      by (simp add: resolve_loop_done)
  next
    case (Cons m ms')
    have "n @ path_string ms \<noteq> []" using n by simp
    moreover have "strsep2 (n @ path_string ms) ''/'' = (n, Some (m @ path_string ms'))"
      using strsep2_name(2) [OF n(1), of "m @ path_string ms'"] Cons by simp
    ultimately show ?thesis
      using resolve_loop_step [OF _ _ q, of "n @ path_string ms" n _ fss flag] n res Cons
        resolve_leading_slash [of fss flag "m @ path_string ms'"]
      by simp
  qed
  finally show ?case .
qed

section \<open>Properties\<close>

text \<open>
  A small name space used as an example: the root directory and one cached entry
  \<^verbatim>\<open>etc\<close> below it, made by the model's own operations. It has no file system driver.
\<close>

definition sample_ns :: kernel where
  "sample_ns =
     (let (k1, r) = create_dentry ''/'' None None (empty_kernel [64, 128, 192, 256]);
          k2 = (dentry_get r k1)\<lparr>k_root := r\<rparr>;
          (k3, a) = create_dentry ''etc'' None r k2
      in vfs_cache_insert (the a) k3)"

lemma sample_ns_eq:
  "sample_ns = (empty_kernel [192, 256])\<lparr>k_root := Some 64, k_cache_count := 1,
     k_buckets := (\<lambda>_. [])(hash_dentry ''etc'' (Some 64) AND 31 := [128]),
     k_dentries := [64 \<mapsto> \<lparr>d_children = [128], d_refcount = 2, d_hash = hash_dentry ''/'' None,
          d_flags = 0, d_name = ''/'', d_vnode = None, d_parent = None\<rparr>,
        128 \<mapsto> \<lparr>d_children = [], d_refcount = 1, d_hash = hash_dentry ''etc'' (Some 64),
          d_flags = 8, d_name = ''etc'', d_vnode = None, d_parent = Some 64\<rparr>]\<rparr>"
  by (simp add: sample_ns_def create_dentry_def kernel_alloc_def empty_kernel_def dentry_get_def
      set_dentry_def vfs_cache_insert_def set_bucket_def bucket_of_def VFS_CACHE_SIZE_def
      DENTRY_IN_CACHE_def Let_def fun_upd_twist)

lemma sample_ns_wf: "vfs_wf (hold (\<lambda>_. 0) 64) sample_ns"
proof -
  have k: "kids (k_dentries sample_ns) 64 = {128}" "kids (k_dentries sample_ns) 128 = {}"
    by (auto simp: kids_def sample_ns_eq split: if_splits)
  show ?thesis
    unfolding vfs_wf_def heap_ok_def refs_ok_def buckets_ok_def children_ok_def rcu_ok_def
    using k by (auto simp: hold_apply sample_ns_eq empty_kernel_def in_cache_def bucket_of_def
        VFS_CACHE_SIZE_def DENTRY_IN_CACHE_def split: if_splits)
qed

lemma sample_ns_names: "names_ok sample_ns" "names_unique sample_ns" "k_root sample_ns = Some 64"
  "dpath sample_ns 128 [''etc'']"
proof -
  show "names_ok sample_ns" by (simp add: names_ok_def sample_ns_eq cstring_def)
  show "names_unique sample_ns"
    by (simp add: names_unique_def cached_as_def sample_ns_eq in_cache_def DENTRY_IN_CACHE_def)
  show "k_root sample_ns = Some 64" by (simp add: sample_ns_eq)
  have "dpath sample_ns 64 []" by (rule dpath.root) (simp add: sample_ns_eq, simp add: sample_ns_eq, simp)
  moreover have "cached_as sample_ns (Some 64) ''etc'' 128" "good_name ''etc''"
    by (simp_all add: cached_as_def sample_ns_eq in_cache_def DENTRY_IN_CACHE_def good_name_def cstring_def)
  ultimately have "dpath sample_ns 128 ([] @ [''etc''])" by (rule dpath.child)
  then show "dpath sample_ns 128 [''etc'']" by simp
qed

interpretation ram: fs_drivers "\<lambda>_. None"
  by unfold_locales simp_all





text \<open>
  The dentry cache is a map. \<^verbatim>\<open>cache_lookup\<close> returns an entry exactly when a
  cached entry with that parent and name exists, whatever the hash values and the
  order of the chains, and it takes one reference on it.
\<close>

lemma cache_lookup_correct:
  assumes "vfs_wf ext k" and "names_ok k" and "cstring name"
  shows "case cache_lookup parent name k of
      (k', Some a) \<Rightarrow> cached_as k parent name a \<and> k' = dentry_get (Some a) k \<and> vfs_wf (hold ext a) k'
    | (k', None) \<Rightarrow> k' = k \<and> (\<forall>a. \<not> cached_as k parent name a)"
  using scan_finds [OF assms, of parent] cache_lookup_wf [OF assms(1), of parent name]
  by (auto simp: cache_lookup_def Let_def split: option.splits)

lemma cache_lookup_correct_example:
  "vfs_wf (hold (\<lambda>_. 0) 64) sample_ns \<and> names_ok sample_ns \<and> cstring ''etc'' \<and>
   (case cache_lookup (Some 64) ''etc'' sample_ns of
      (k', Some a) \<Rightarrow> cached_as sample_ns (Some 64) ''etc'' a \<and> k' = dentry_get (Some a) sample_ns \<and>
        vfs_wf (hold (hold (\<lambda>_. 0) 64) a) k'
    | (k', None) \<Rightarrow> k' = sample_ns \<and> (\<forall>a. \<not> cached_as sample_ns (Some 64) ''etc'' a))"
  using cache_lookup_correct [OF sample_ns_wf sample_ns_names(1), of "''etc''" "Some 64"]
    sample_ns_wf sample_ns_names(1) by (simp add: cstring_def)

text \<open>
  (C19) Deferred release is safe. Running the oldest queued release keeps the name
  space well formed: the freed entry is referenced by no chain, no child list, no
  child and no holder, and its parent loses exactly the reference the entry had
  on it.
\<close>

theorem run_rcu_safe:
  assumes "vfs_wf ext k" and "k_rcu k = a # as"
  shows "vfs_wf ext (run_rcu k) \<and> k_dentries (run_rcu k) a = None \<and> ext a = 0 \<and>
    kids (k_dentries k) a = {} \<and> (\<forall>i. a \<notin> set (k_buckets k i))"
proof -
  obtain d where d: "k_dentries k a = Some d" "d_refcount d = 0"
    using assms by (auto simp: vfs_wf_def rcu_ok_def)
  have free: "\<not> in_cache d" "ext a = 0" "kids (k_dentries k) a = {}"
    using vfs_wf_in_use(1) [OF assms(1) d(1)] d(2) by (metis less_irrefl neq0_conv)+
  have "k_dentries (run_rcu k) a = None"
    using assms(2) d free(1) by (simp add: run_rcu_def dentry_free_rcu_def kernel_free_def Let_def)
  moreover have "a \<notin> set (k_buckets k i)" for i
    using assms(1) d free(1) by (auto simp: vfs_wf_def buckets_ok_def)
  ultimately show ?thesis using run_rcu_wf [OF assms(1)] free by blast
qed

definition sample_dropped :: kernel where
  "sample_dropped = cache_remove 128 sample_ns"

lemma sample_dropped_queue: "k_rcu sample_dropped = [128]"
  by (simp add: sample_dropped_def sample_ns_eq cache_remove_def in_cache_def DENTRY_IN_CACHE_def
      set_bucket_def set_dentry_def dentry_put_def call_rcu_def Let_def empty_kernel_def)

theorem run_rcu_safe_witness:
  "vfs_wf (hold (\<lambda>_. 0) 64) sample_dropped \<and> k_rcu sample_dropped = [128] \<and>
   vfs_wf (hold (\<lambda>_. 0) 64) (run_rcu sample_dropped) \<and> k_dentries (run_rcu sample_dropped) 128 = None"
  using run_rcu_safe [of "hold (\<lambda>_. 0) 64" sample_dropped 128 "[]"] sample_dropped_queue
    cache_remove_wf [OF sample_ns_wf, of 128] by (simp add: sample_dropped_def)

end
