(* ===== verification/Fd_Table.thy ===== *)
theory Fd_Table
  imports Pipe Vfs
begin

text \<open>
  Descriptor tables and the system calls on them: \<^verbatim>\<open>kernel/sys/fd.c\<close> and
  \<^verbatim>\<open>dup.c\<close>, \<^verbatim>\<open>close.c\<close>, \<^verbatim>\<open>fcntl.c\<close>, \<^verbatim>\<open>lseek.c\<close>, \<^verbatim>\<open>pipe.c\<close> (\<^verbatim>\<open>syscall_pipe2\<close>) under
  \<^verbatim>\<open>kernel/sys/syscall/\<close>, and the copy of the table that \<^verbatim>\<open>fork\<close> makes in
  \<^verbatim>\<open>kernel/procc/thread.c\<close>. A process is named by its pid. The read and write
  operations behind a file are called through its operation table and are an
  argument of the calls. None is the result of a call that would dereference NULL
  or freed memory.
\<close>

unbundle bit_operations_syntax

section \<open>Files behind descriptors\<close>

text \<open>
  \<^verbatim>\<open>ops->write(vnode, buf, len, offset)\<close> and \<^verbatim>\<open>ops->read(vnode, buf, len, offset)\<close>, where
  the table has them. The bytes written are given as the list of exactly \<open>len\<close>
  bytes; the bytes read are returned as a list.
\<close>

record file_ops =
  fo_write :: "vops \<Rightarrow> (ptr \<Rightarrow> u8 list \<Rightarrow> u64 \<Rightarrow> kernel \<Rightarrow> kernel \<times> int) option"
  fo_read :: "vops \<Rightarrow> (ptr \<Rightarrow> u64 \<Rightarrow> u64 \<Rightarrow> kernel \<Rightarrow> kernel \<times> u8 list \<times> int) option"

definition INITIAL_MAX_FDS :: u32 where "INITIAL_MAX_FDS = 64"
definition FD_CLOEXEC :: u8 where "FD_CLOEXEC = 1"
definition O_CLOEXEC :: u32 where "O_CLOEXEC = 0x80000"

definition alloc_fdtable :: fdtable where
  "alloc_fdtable =
     \<lparr>fdt_max_fds = INITIAL_MAX_FDS, fdt_fds = replicate (unat INITIAL_MAX_FDS) None,
      fdt_fd_flags = replicate (unat INITIAL_MAX_FDS) 0, fdt_next_fd = 0\<rparr>"

definition alloc_fd :: "kernel \<Rightarrow> (kernel \<times> ptr) option" where
  "alloc_fd k =
     (case kernel_alloc k of
        (k1, None) \<Rightarrow> None
      | (k1, Some a) \<Rightarrow> Some (k1\<lparr>k_files := (k_files k1)(a \<mapsto> zero_file\<lparr>f_count := 1\<rparr>)\<rparr>, a))"

definition set_fdtable :: "nat \<Rightarrow> fdtable \<Rightarrow> kernel \<Rightarrow> kernel" where
  "set_fdtable pid fdt k = k\<lparr>k_fdtables := (k_fdtables k)(pid \<mapsto> fdt)\<rparr>"

definition fd_in_range :: "fdtable \<Rightarrow> int \<Rightarrow> bool" where
  "fd_in_range fdt fd \<longleftrightarrow> \<not> (fd < 0 \<or> fd \<ge> sint (fdt_max_fds fdt))"

definition fd_slot :: "fdtable \<Rightarrow> int \<Rightarrow> ptr option" where
  "fd_slot fdt fd = fdt_fds fdt ! nat fd"

text \<open>The search loop \<^verbatim>\<open>for (newfd = start; newfd < max_fds; newfd++) if (!fds[newfd]) break;\<close>\<close>

fun scan_free :: "ptr option list \<Rightarrow> nat \<Rightarrow> nat option" where
  "scan_free [] i = None"
| "scan_free (None # fds) i = Some i"
| "scan_free (Some f # fds) i = scan_free fds (Suc i)"

definition find_free :: "fdtable \<Rightarrow> nat \<Rightarrow> nat option" where
  "find_free fdt start = scan_free (drop start (take (unat (fdt_max_fds fdt)) (fdt_fds fdt))) start"

text \<open>Putting a file into a slot: flags, slot and \<^verbatim>\<open>next_fd\<close>.\<close>

definition install_fd :: "fdtable \<Rightarrow> nat \<Rightarrow> ptr \<Rightarrow> u8 \<Rightarrow> fdtable" where
  "install_fd fdt n f flags =
     fdt\<lparr>fdt_fd_flags := (fdt_fd_flags fdt)[n := flags],
         fdt_fds := (fdt_fds fdt)[n := Some f],
         fdt_next_fd := (if int n \<ge> sint (fdt_next_fd fdt) then word_of_nat n + 1 else fdt_next_fd fdt)\<rparr>"

definition share_fd :: "nat \<Rightarrow> fdtable \<Rightarrow> nat \<Rightarrow> ptr \<Rightarrow> u8 \<Rightarrow> kernel \<Rightarrow> kernel" where
  "share_fd pid fdt n f flags k =
     set_fdtable pid (install_fd fdt n f flags) (set_file f (f_count_update (\<lambda>c. c + 1)) k)"

section \<open>Duplicating\<close>

definition syscall_dup :: "nat \<Rightarrow> int \<Rightarrow> kernel \<Rightarrow> kernel \<times> int" where
  "syscall_dup pid oldfd k =
     (case k_fdtables k pid of None \<Rightarrow> (k, - EBADF) | Some fdt \<Rightarrow>
      if \<not> fd_in_range fdt oldfd then (k, - EBADF) else
      case fd_slot fdt oldfd of None \<Rightarrow> (k, - EBADF) | Some f \<Rightarrow>
      case find_free fdt 0 of None \<Rightarrow> (k, - EMFILE)
      | Some n \<Rightarrow> (share_fd pid fdt n f 0 k, int n))"

section \<open>Closing\<close>

text \<open>Writing out buffered data when the last reference to a regular file goes.\<close>

definition flush_on_close :: "file_ops \<Rightarrow> file_descriptor \<Rightarrow> kernel \<Rightarrow> kernel" where
  "flush_on_close ops fd k =
     (case (f_write_buffer fd, f_vnode fd, f_ops fd) of
        (Some buf, Some v, Some tbl) \<Rightarrow>
          if f_write_buffer_size fd > 0 \<and> map_option vn_type (k_vnodes k v) = Some VNODE_TYPE_FILE
          then (case fo_write ops tbl of None \<Rightarrow> k
                | Some w \<Rightarrow> fst (w v (take (unat (f_write_buffer_size fd)) buf)
                                   (f_pos fd - f_write_buffer_size fd) k))
          else k
      | _ \<Rightarrow> k)"

definition is_fifo :: "file_descriptor \<Rightarrow> kernel \<Rightarrow> bool" where
  "is_fifo fd k \<longleftrightarrow>
     (case f_vnode fd of None \<Rightarrow> False
      | Some v \<Rightarrow> map_option vn_type (k_vnodes k v) = Some VNODE_TYPE_FIFO)"

text \<open>The eviction check of \<^verbatim>\<open>syscall_close\<close>.\<close>

definition evict_after_close :: "ptr option \<Rightarrow> kernel \<Rightarrow> kernel" where
  "evict_after_close d k =
     (case d of None \<Rightarrow> k | Some a \<Rightarrow>
      case k_dentries k a of None \<Rightarrow> k | Some e \<Rightarrow>
      case d_vnode e of None \<Rightarrow> k | Some v \<Rightarrow>
        if map_option vn_type (k_vnodes k v) = Some VNODE_TYPE_FILE \<and> in_cache e \<and>
           d_flags e AND DENTRY_PINNED = 0 \<and> d_refcount e = 1
        then cache_remove a k else k)"

text \<open>The last reference is gone: flush, leave the pipe, drop the entry, free.\<close>

definition release_file :: "file_ops \<Rightarrow> bool \<Rightarrow> ptr \<Rightarrow> kernel \<Rightarrow> kernel option" where
  "release_file ops evict f k =
     (case k_files k f of None \<Rightarrow> None | Some fd \<Rightarrow>
        let k1 = flush_on_close ops fd k
        in case (if is_fifo fd k1 then pipe_close_fd f k1 else Some k1) of
             None \<Rightarrow> None
           | Some k2 \<Rightarrow>
               let k3 = dentry_put (f_dentry fd) k2;
                   k4 = kernel_free f (k3\<lparr>k_files := (k_files k3)(f := None)\<rparr>)
               in Some (if evict then evict_after_close (f_dentry fd) k4 else k4))"

definition drop_file :: "file_ops \<Rightarrow> bool \<Rightarrow> ptr \<Rightarrow> kernel \<Rightarrow> kernel option" where
  "drop_file ops evict f k =
     (case k_files k f of None \<Rightarrow> None | Some fd \<Rightarrow>
        let k1 = set_file f (f_count_update (\<lambda>c. c - 1)) k
        in if f_count fd - 1 = 0 then release_file ops evict f k1 else Some k1)"

text \<open>The look-ups under \<^verbatim>\<open>/proc\<close> at the end of \<^verbatim>\<open>syscall_close\<close>, each released again.\<close>

definition close_proc_entry :: "(ptr \<Rightarrow> fs_driver option) \<Rightarrow> nat \<Rightarrow> int \<Rightarrow> kernel \<Rightarrow> kernel" where
  "close_proc_entry fss pid fd k =
     (case resolve_dentry fss ''/proc'' None 0 k of
        (k1, Found p) \<Rightarrow>
          (case resolve_dentry fss (itoa (int pid) 10) (Some p) 0 k1 of
             (k2, Found q) \<Rightarrow>
               (case resolve_dentry fss (itoa fd 10) (Some q) 0 k2 of
                  (k3, Found d) \<Rightarrow> dentry_put (Some p) (dentry_put (Some q) (dentry_put (Some d) k3))
                | (k3, _) \<Rightarrow> dentry_put (Some p) (dentry_put (Some q) k3))
           | (k2, _) \<Rightarrow> dentry_put (Some p) k2)
      | (k1, _) \<Rightarrow> k1)"

definition syscall_close ::
    "(ptr \<Rightarrow> fs_driver option) \<Rightarrow> file_ops \<Rightarrow> nat \<Rightarrow> int \<Rightarrow> kernel \<Rightarrow> (kernel \<times> int) option" where
  "syscall_close fss ops pid fd k =
     (case k_fdtables k pid of None \<Rightarrow> None | Some fdt \<Rightarrow>
      if \<not> fd_in_range fdt fd then Some (k, - EBADF) else
      case fd_slot fdt fd of None \<Rightarrow> Some (k, - EBADF) | Some f \<Rightarrow>
        let k1 = set_fdtable pid (fdt\<lparr>fdt_fds := (fdt_fds fdt)[nat fd := None]\<rparr>) k
        in case drop_file ops True f k1 of None \<Rightarrow> None
           | Some k2 \<Rightarrow> Some (close_proc_entry fss pid fd k2, 0))"

definition syscall_dup2 ::
    "(ptr \<Rightarrow> fs_driver option) \<Rightarrow> file_ops \<Rightarrow> nat \<Rightarrow> int \<Rightarrow> int \<Rightarrow> kernel \<Rightarrow> (kernel \<times> int) option" where
  "syscall_dup2 fss ops pid oldfd newfd k =
     (case k_fdtables k pid of None \<Rightarrow> Some (k, - EBADF) | Some fdt \<Rightarrow>
      if \<not> fd_in_range fdt oldfd \<or> fd_slot fdt oldfd = None then Some (k, - EBADF)
      else if \<not> fd_in_range fdt newfd then Some (k, - EBADF)
      else if oldfd = newfd then Some (k, newfd)
      else
        case (if fd_slot fdt newfd \<noteq> None then map_option fst (syscall_close fss ops pid newfd k)
              else Some k) of
          None \<Rightarrow> None
        | Some k1 \<Rightarrow>
            (case k_fdtables k1 pid of None \<Rightarrow> None | Some fdt1 \<Rightarrow>
             case fd_slot fdt1 oldfd of None \<Rightarrow> None
             | Some f \<Rightarrow> Some (share_fd pid fdt1 (nat newfd) f 0 k1, newfd)))"

text \<open>The loop of \<^verbatim>\<open>free_fdtable\<close> over the slots of a table.\<close>

fun free_slots :: "file_ops \<Rightarrow> ptr option list \<Rightarrow> kernel \<Rightarrow> kernel option" where
  "free_slots ops [] k = Some k"
| "free_slots ops (None # fds) k = free_slots ops fds k"
| "free_slots ops (Some f # fds) k =
     (case drop_file ops False f k of None \<Rightarrow> None | Some k1 \<Rightarrow> free_slots ops fds k1)"

definition free_fdtable :: "file_ops \<Rightarrow> nat \<Rightarrow> kernel \<Rightarrow> kernel option" where
  "free_fdtable ops pid k =
     (case k_fdtables k pid of None \<Rightarrow> Some k | Some fdt \<Rightarrow>
      map_option (\<lambda>k1. k1\<lparr>k_fdtables := (k_fdtables k1)(pid := None)\<rparr>)
        (free_slots ops (take (unat (fdt_max_fds fdt)) (fdt_fds fdt)) k))"

section \<open>Other calls on descriptors\<close>

definition F_DUPFD :: int where "F_DUPFD = 0"
definition F_GETFD :: int where "F_GETFD = 1"
definition F_SETFD :: int where "F_SETFD = 2"
definition F_GETFL :: int where "F_GETFL = 3"
definition F_SETFL :: int where "F_SETFL = 4"
definition F_DUPFD_CLOEXEC :: int where "F_DUPFD_CLOEXEC = 1030"

text \<open>\<^verbatim>\<open>O_APPEND | O_NONBLOCK | O_ASYNC | O_DIRECT | O_NOATIME\<close>\<close>

definition SETFL_ALLOWED :: u32 where
  "SETFL_ALLOWED = 0x400 OR 0x800 OR 0x2000 OR 0x4000 OR 0x40000"

definition fcntl_dup :: "nat \<Rightarrow> fdtable \<Rightarrow> ptr \<Rightarrow> u64 \<Rightarrow> u8 \<Rightarrow> kernel \<Rightarrow> kernel \<times> int" where
  "fcntl_dup pid fdt f arg flags k =
     (let start0 = sint (ucast arg :: u32);
          start = (if start0 < 0 then 0 else start0)
      in case find_free fdt (nat start) of None \<Rightarrow> (k, - EMFILE)
         | Some n \<Rightarrow> (share_fd pid fdt n f flags k, int n))"

definition syscall_fcntl :: "nat \<Rightarrow> int \<Rightarrow> int \<Rightarrow> u64 \<Rightarrow> kernel \<Rightarrow> (kernel \<times> int) option" where
  "syscall_fcntl pid fd cmd arg k =
     (case k_fdtables k pid of None \<Rightarrow> Some (k, - EBADF) | Some fdt \<Rightarrow>
      if \<not> fd_in_range fdt fd then Some (k, - EBADF) else
      case fd_slot fdt fd of None \<Rightarrow> Some (k, - EBADF) | Some f \<Rightarrow>
      if cmd = F_DUPFD then Some (fcntl_dup pid fdt f arg 0 k)
      else if cmd = F_DUPFD_CLOEXEC then Some (fcntl_dup pid fdt f arg FD_CLOEXEC k)
      else if cmd = F_GETFD then Some (k, uint (fdt_fd_flags fdt ! nat fd))
      else if cmd = F_SETFD
        then Some (set_fdtable pid (fdt\<lparr>fdt_fd_flags := (fdt_fd_flags fdt)[nat fd := ucast arg]\<rparr>) k, 0)
      else if cmd = F_GETFL
        then (case k_files k f of None \<Rightarrow> None | Some file \<Rightarrow> Some (k, uint (f_flags file)))
      else if cmd = F_SETFL
        then (case k_files k f of None \<Rightarrow> None
              | Some file \<Rightarrow>
                  let keep = f_flags file AND NOT SETFL_ALLOWED;
                      changed = ucast arg AND SETFL_ALLOWED
                  in Some (set_file f (f_flags_update (\<lambda>_. keep OR changed)) k, 0))
      else Some (k, - EINVAL))"

definition SEEK_SET :: int where "SEEK_SET = 0"
definition SEEK_CUR :: int where "SEEK_CUR = 1"
definition SEEK_END :: int where "SEEK_END = 2"
definition INT64_MAX :: int where "INT64_MAX = 0x7fffffffffffffff"

text \<open>The flush before a seek: the error to return, if any, and the new state.\<close>

definition lseek_flush :: "file_ops \<Rightarrow> ptr \<Rightarrow> file_descriptor \<Rightarrow> ptr \<Rightarrow> vnode \<Rightarrow> kernel \<Rightarrow> kernel \<times> int option" where
  "lseek_flush ops f fd v vn k =
     (case f_write_buffer fd of None \<Rightarrow> (k, None) | Some buf \<Rightarrow>
      if f_write_buffer_size fd > 0 \<and> vn_type vn = VNODE_TYPE_FILE then
        (case (case f_ops fd of None \<Rightarrow> None | Some tbl \<Rightarrow> fo_write ops tbl) of
           None \<Rightarrow> (set_file f (f_write_buffer_size_update (\<lambda>_. 0)) k, None)
         | Some w \<Rightarrow>
             (case w v (take (unat (f_write_buffer_size fd)) buf) (f_pos fd - f_write_buffer_size fd) k of
                (k1, s) \<Rightarrow>
                  if s \<le> 0 then (k1, Some (if s < 0 then s else - EIO))
                  else (set_file f (f_write_buffer_size_update (\<lambda>_. 0)) k1, None)))
      else (k, None))"

text \<open>The new position, or None for \<^verbatim>\<open>-EINVAL\<close>. \<open>off\<close> is a 64-bit signed number.\<close>

definition lseek_target :: "u64 \<Rightarrow> u64 \<Rightarrow> int \<Rightarrow> int \<Rightarrow> int option" where
  "lseek_target pos sz off whence =
     (if whence = SEEK_SET then (if off < 0 then None else Some off)
      else if whence = SEEK_CUR then
        (if off > 0 then
           (if pos > word_of_int INT64_MAX - word_of_int off then None else Some (sint pos + off))
         else if off < 0 then
           (if word_of_int (- off) > pos then None else Some (sint (pos - word_of_int (- off))))
         else Some (sint pos))
      else if whence = SEEK_END then
        (if off > 0 then (if sint sz > INT64_MAX - off then None else Some (sint sz + off))
         else if off < 0 then (if - off > sint sz then None else Some (sint sz + off))
         else Some (sint sz))
      else None)"

definition syscall_lseek :: "file_ops \<Rightarrow> nat \<Rightarrow> int \<Rightarrow> int \<Rightarrow> int \<Rightarrow> kernel \<Rightarrow> (kernel \<times> int) option" where
  "syscall_lseek ops pid fd off whence k =
     (case k_fdtables k pid of None \<Rightarrow> None | Some fdt \<Rightarrow>
      if \<not> fd_in_range fdt fd then Some (k, - EBADF) else
      case fd_slot fdt fd of None \<Rightarrow> Some (k, - EBADF) | Some f \<Rightarrow>
      case k_files k f of None \<Rightarrow> None | Some file \<Rightarrow>
      case f_vnode file of None \<Rightarrow> Some (k, - EBADF) | Some v \<Rightarrow>
      case k_vnodes k v of None \<Rightarrow> None | Some vn \<Rightarrow>
      if vn_type vn = VNODE_TYPE_FIFO \<or> vn_type vn = VNODE_TYPE_SOCK then Some (k, - ESPIPE) else
      case lseek_flush ops f file v vn k of
        (k1, Some e) \<Rightarrow> Some (k1, e)
      | (k1, None) \<Rightarrow>
          (case k_vnodes k1 v of None \<Rightarrow> None | Some vn1 \<Rightarrow>
           case lseek_target (f_pos file) (vn_size vn1) off whence of
             None \<Rightarrow> Some (k1, - EINVAL)
           | Some p \<Rightarrow> Some (set_file f (f_pos_update (\<lambda>_. word_of_int p)) k1, p)))"

section \<open>Making a pipe\<close>

fun scan_two :: "ptr option list \<Rightarrow> nat \<Rightarrow> nat option \<Rightarrow> nat option \<times> nat option" where
  "scan_two [] i rfd = (rfd, None)"
| "scan_two (Some f # fds) i rfd = scan_two fds (Suc i) rfd"
| "scan_two (None # fds) i None = scan_two fds (Suc i) (Some i)"
| "scan_two (None # fds) i (Some r) = (Some r, Some i)"

definition new_pipe :: internal_pipe where
  "new_pipe = \<lparr>ip_ring = \<lparr>pr_buf = replicate 4096 0, pr_head = 0, pr_tail = 0\<rparr>, ip_reader_waiter = None,
     ip_writer_waiter = None, ip_reader_count = 1, ip_writer_count = 1\<rparr>"

definition pipe_file :: "vops \<Rightarrow> ptr \<Rightarrow> u32 \<Rightarrow> file_descriptor \<Rightarrow> file_descriptor" where
  "pipe_file tbl p flags fd =
     fd\<lparr>f_ops := Some tbl, f_private_data := Some p,
        f_flags := (if flags AND O_NONBLOCK \<noteq> 0 then f_flags fd OR O_NONBLOCK else f_flags fd)\<rparr>"

definition pipe_vnode :: "vops \<Rightarrow> ptr \<Rightarrow> vnode \<Rightarrow> vnode" where
  "pipe_vnode tbl f vn = vn\<lparr>vn_type := VNODE_TYPE_FIFO, vn_ops := Some tbl, vn_private := Some f\<rparr>"

definition syscall_pipe2 :: "nat \<Rightarrow> u32 \<Rightarrow> kernel \<Rightarrow> (kernel \<times> int \<times> (nat \<times> nat) option) option" where
  "syscall_pipe2 pid flags k =
     (case k_fdtables k pid of None \<Rightarrow> None | Some fdt \<Rightarrow>
      case scan_two (take (unat (fdt_max_fds fdt)) (fdt_fds fdt)) 0 None of
        (Some rfd, Some wfd) \<Rightarrow>
          (case kernel_alloc k of
             (k1, None) \<Rightarrow> None
           | (k1, Some p) \<Rightarrow>
               let k2 = k1\<lparr>k_pipes := (k_pipes k1)(p \<mapsto> new_pipe)\<rparr>;
                   cloexec = (if flags AND O_CLOEXEC \<noteq> 0 then 1 else 0)
               in case alloc_fd k2 of None \<Rightarrow> None | Some (k3, rfile) \<Rightarrow>
                  case alloc_fd (set_file rfile (pipe_file Pipe_read_ops p flags) k3) of None \<Rightarrow> None
                  | Some (k4, wfile) \<Rightarrow>
                  case create_and_attach_vnode (set_file wfile (pipe_file Pipe_write_ops p flags) k4) of
                    (_, None) \<Rightarrow> None
                  | (k5, Some rv) \<Rightarrow>
                  case create_and_attach_vnode
                         (set_file rfile (f_vnode_update (\<lambda>_. Some rv)) (set_vnode rv (pipe_vnode Pipe_read_ops rfile) k5)) of
                    (_, None) \<Rightarrow> None
                  | (k6, Some wv) \<Rightarrow>
                      let k7 = set_file wfile (f_vnode_update (\<lambda>_. Some wv))
                                 (set_vnode wv (pipe_vnode Pipe_write_ops wfile) k6);
                          fdt1 = install_fd (install_fd fdt rfd rfile cloexec) wfd wfile cloexec
                      in Some (set_fdtable pid fdt1 k7, 0, Some (rfd, wfd)))
      | _ \<Rightarrow> Some (k, - EMFILE, None))"

definition syscall_pipe :: "nat \<Rightarrow> kernel \<Rightarrow> (kernel \<times> int \<times> (nat \<times> nat) option) option" where
  "syscall_pipe pid k = syscall_pipe2 pid 0 k"

section \<open>The copy of the table for a child process\<close>

fun share_slots :: "ptr option list \<Rightarrow> kernel \<Rightarrow> kernel" where
  "share_slots [] k = k"
| "share_slots (None # fds) k = share_slots fds k"
| "share_slots (Some f # fds) k = share_slots fds (set_file f (f_count_update (\<lambda>c. c + 1)) k)"

definition copy_flags :: "ptr option list \<Rightarrow> u8 list \<Rightarrow> u8 list" where
  "copy_flags fds flags = map2 (\<lambda>f b. if f = None then 0 else b) fds flags"

definition fork_fdtable :: "nat \<Rightarrow> nat \<Rightarrow> kernel \<Rightarrow> kernel option" where
  "fork_fdtable parent child k =
     (case k_fdtables k parent of None \<Rightarrow> None | Some fdt \<Rightarrow>
      let n = unat (fdt_max_fds fdt);
          fds = take n (fdt_fds fdt);
          new = fdt\<lparr>fdt_fds := fds, fdt_fd_flags := copy_flags fds (take n (fdt_fd_flags fdt))\<rparr>
      in Some (set_fdtable child new (share_slots fds k)))"

section \<open>Operations that leave descriptors alone\<close>

text \<open>
  Files, pipes and vnodes are distinct objects, and the allocator holds none of them.
  Whatever runs next to the calls below keeps this, and leaves descriptors, pipes and
  the types of live vnodes alone.
\<close>

definition objs_ok :: "kernel \<Rightarrow> bool" where
  "objs_ok k \<longleftrightarrow> distinct (k_pool k) \<and>
     set (k_pool k) \<inter> (dom (k_files k) \<union> dom (k_pipes k) \<union> dom (k_vnodes k)) = {} \<and>
     dom (k_files k) \<inter> dom (k_pipes k) = {} \<and> dom (k_files k) \<inter> dom (k_vnodes k) = {} \<and>
     dom (k_pipes k) \<inter> dom (k_vnodes k) = {}"

definition same_fd :: "kernel \<Rightarrow> kernel \<Rightarrow> bool" where
  "same_fd k k' \<longleftrightarrow> k_files k' = k_files k \<and> k_fdtables k' = k_fdtables k \<and> k_pipes k' = k_pipes k \<and>
     (objs_ok k \<longrightarrow> objs_ok k') \<and>
     (\<forall>v vn. k_vnodes k v = Some vn \<longrightarrow> (\<exists>vn'. k_vnodes k' v = Some vn' \<and> vn_type vn' = vn_type vn))"

lemma same_fd_refl [simp]: "same_fd k k"
  by (simp add: same_fd_def)

lemma same_fd_trans [trans]: "same_fd a b \<Longrightarrow> same_fd b c \<Longrightarrow> same_fd a c"
  by (fastforce simp: same_fd_def)

lemma same_fd_dentry [simp, intro]:
  "same_fd k (dentry_get d k)" "same_fd k (dentry_put d k)" "same_fd k (set_dentry a g k)"
  "same_fd k (cache_remove a k)" "same_fd k (vfs_cache_insert a k)"
  by (simp_all add: same_fd_def objs_ok_def dentry_get_def dentry_put_def set_dentry_def call_rcu_def
      cache_remove_def vfs_cache_insert_def set_bucket_def Let_def split: option.splits)

lemma same_fd_evict [simp, intro]: "same_fd k (evict_after_close d k)"
  by (simp add: evict_after_close_def split: option.splits)

lemma same_fd_lookup: "cache_lookup p n k = (k', r) \<Longrightarrow> same_fd k k'"
  by (auto simp: cache_lookup_def Let_def split: option.splits)

lemma same_fd_descend: "same_fd k (descend_new n c k)"
  unfolding descend_new_def by (metis same_fd_dentry same_fd_trans)

text \<open>
  What the calls rely on in the code behind operation tables: a look-up by a driver
  and a write to a file leave descriptors, pipes and the types of live vnodes as
  they are, and a write neither makes nor frees a vnode.
\<close>

definition env_ok :: "(ptr \<Rightarrow> fs_driver option) \<Rightarrow> file_ops \<Rightarrow> bool" where
  "env_ok fss ops \<longleftrightarrow>
     (\<forall>f d l name c k. fss f = Some d \<longrightarrow> fs_lookup d = Some l \<longrightarrow> same_fd k (fst (l name c k))) \<and>
     (\<forall>tbl w v data off k. fo_write ops tbl = Some w \<longrightarrow>
        same_fd k (fst (w v data off k)) \<and> k_pipes (fst (w v data off k)) = k_pipes k \<and>
        (\<forall>u. map_option vn_type (k_vnodes (fst (w v data off k)) u) = map_option vn_type (k_vnodes k u)))"

lemma env_lookup:
  "env_ok fss ops \<Longrightarrow> fs = None \<or> (\<exists>f. fs = fss f) \<Longrightarrow> fs = Some d \<Longrightarrow> fs_lookup d = Some l \<Longrightarrow>
   l n c k = (k', r) \<Longrightarrow> same_fd k k'"
  unfolding env_ok_def by (metis fst_conv option.distinct(1))

lemma env_write:
  assumes "env_ok fss ops" "fo_write ops tbl = Some w" "w v data off k = (k', s)"
  shows "same_fd k k'" "k_pipes k' = k_pipes k"
    "map_option vn_type (k_vnodes k' u) = map_option vn_type (k_vnodes k u)"
  using assms unfolding env_ok_def by (metis fst_conv)+

lemma same_fd_component:
  assumes env: "env_ok fss ops" and flag: "flag AND CREATE_MISSING_ENTRY = 0"
    and r: "resolve_component fss flag n c e k = (k', r)"
  shows "same_fd k k'"
proof -
  obtain k1 hit where l: "cache_lookup (Some c) n k = (k1, hit)" by fastforce
  have k1: "same_fd k k1" using l by (rule same_fd_lookup)
  show ?thesis
  proof (cases hit)
    case (Some x)
    then have "k' = dentry_put (Some c) k1" using r l by (simp add: resolve_component_def)
    then show ?thesis using same_fd_trans [OF k1 same_fd_dentry(2)] by simp
  next
    case None
    let ?fs = "dentry_fs fss k1 e"
    have fs: "?fs = None \<or> (\<exists>f. ?fs = fss f)" by (auto simp: dentry_fs_def split: option.splits)
    obtain k2 found where look: "(case ?fs of None \<Rightarrow> (k1, None)
       | Some d \<Rightarrow> if fs_has_cdev d then (case fs_lookup d of None \<Rightarrow> (k1, None)
            | Some lookup \<Rightarrow> lookup n c k1) else (k1, None)) = (k2, found)" by fastforce
    have "same_fd k1 k2"
    proof (cases "\<exists>d lookup. ?fs = Some d \<and> fs_has_cdev d \<and> fs_lookup d = Some lookup")
      case True
      then obtain d lookup where d: "?fs = Some d" "fs_has_cdev d" "fs_lookup d = Some lookup" by blast
      then have "lookup n c k1 = (k2, found)" using look by simp
      then show ?thesis by (rule env_lookup [OF env fs d(1,3)])
    next
      case False
      then have "k2 = k1" using look by (auto split: option.splits if_splits)
      then show ?thesis by simp
    qed
    then have k2: "same_fd k k2" by (rule same_fd_trans [OF k1])
    have r': "(case found of Some next \<Rightarrow> (descend_new next c k2, Some next)
        | None \<Rightarrow> if flag AND CREATE_MISSING_ENTRY \<noteq> 0
            then resolve_create ?fs n c k2 else (k2, None)) = (k', r)"
      using r unfolding resolve_component_def l None Let_def prod.case option.case look .
    show ?thesis
    proof (cases found)
      case None
      then show ?thesis using r' k2 flag by simp
    next
      case (Some x)
      then show ?thesis using r' same_fd_trans [OF k2 same_fd_descend] by auto
    qed
  qed
qed

text \<open>A walk keeps whatever its steps keep.\<close>

lemma resolve_loop_frame:
  assumes refl: "\<And>k. R k k" and trans: "\<And>a b c. R a b \<Longrightarrow> R b c \<Longrightarrow> R a c"
    and get_put: "\<And>d k. R k (dentry_get d k)" "\<And>d k. R k (dentry_put d k)"
    and step: "\<And>n c e k k' r. resolve_component fss flag n c e k = (k', r) \<Longrightarrow> R k k'"
  shows "resolve_loop fss flag path c k = (k', w) \<Longrightarrow> R k k'"
proof (induction "case path of None \<Rightarrow> 0 | Some s \<Rightarrow> Suc (length s)"
    arbitrary: path c k rule: less_induct)
  case less
  show ?case
  proof (cases "path = None \<or> path = Some []")
    case True
    then show ?thesis using less.prems refl by (auto simp: resolve_loop_done)
  next
    case False
    then obtain s where s: "path = Some s" "s \<noteq> []" by auto
    obtain tok rest where sep: "strsep2 s ''/'' = (tok, rest)" by fastforce
    have IH: "R kk k'" if "resolve_loop fss flag rest c' kk = (k', w)" for c' kk
      using less.hyps [OF _ that] strsep2_rest [OF sep [symmetric]] s(1) by simp
    define name where "name = rtrim_component tok"
    show ?thesis
    proof (cases "k_dentries k c")
      case None
      have "resolve_loop fss flag (Some s) c k = (if name = [] \<or> strcmp name ''.'' = 0
          then resolve_loop fss flag rest c k else (k, Wild))"
        using s(2) sep None by (subst resolve_loop.simps) (simp add: name_def)
      then show ?thesis using less.prems s(1) IH refl by (auto split: if_splits)
    next
      case (Some e)
      note walk = less.prems [unfolded s(1) resolve_loop_step [OF s(2) sep Some], folded name_def]
      consider (skip) "name = [] \<or> strcmp name ''.'' = 0"
        | (dotdot) "\<not> (name = [] \<or> strcmp name ''.'' = 0)" "strcmp name ''..'' = 0"
        | (down) "\<not> (name = [] \<or> strcmp name ''.'' = 0)" "strcmp name ''..'' \<noteq> 0" by blast
      then show ?thesis
      proof cases
        case skip
        then show ?thesis using walk IH by simp
      next
        case dotdot
        have "R k (dentry_put (Some c) (dentry_get (Some up) k))" for up by (rule trans [OF get_put])
        then show ?thesis using walk dotdot IH trans by (cases "d_parent e") (simp, simp, blast)
      next
        case down
        obtain k1 r where c: "resolve_component fss flag name c e k = (k1, r)" by fastforce
        note k1 = step [OF c]
        show ?thesis
        proof (cases r)
          case None
          then show ?thesis using walk down c trans [OF k1 get_put(2)] by auto
        next
          case (Some n)
          then show ?thesis using walk down c trans [OF k1 IH] by simp
        qed
      qed
    qed
  qed
qed

lemma same_fd_resolve_loop:
  assumes env: "env_ok fss ops" and flag: "flag AND CREATE_MISSING_ENTRY = 0"
    and r: "resolve_loop fss flag path c k = (k', w)"
  shows "same_fd k k'"
  by (rule resolve_loop_frame [where R = same_fd, OF _ _ _ _ _ r])
     (use same_fd_trans same_fd_component [OF env flag] in auto)

lemma same_fd_resolve:
  "env_ok fss ops \<Longrightarrow> flag AND CREATE_MISSING_ENTRY = 0 \<Longrightarrow>
   resolve_dentry fss path parent flag k = (k', w) \<Longrightarrow> same_fd k k'"
  using same_fd_trans [OF same_fd_dentry(1) same_fd_resolve_loop]
  by (auto simp: resolve_dentry_def split: option.splits if_splits)

lemma same_fd_proc_entry:
  assumes env: "env_ok fss ops"
  shows "same_fd k (close_proc_entry fss pid fd k)"
proof -
  note r = same_fd_resolve [OF env, of 0, simplified]
  have p: "same_fd a b \<Longrightarrow> same_fd a (dentry_put x b)" for a b x by (rule same_fd_trans) auto
  show ?thesis
    unfolding close_proc_entry_def
    by (auto split: prod.splits walk.splits intro!: p dest!: r) (blast intro: same_fd_trans)+
qed

section \<open>Reference counts of open files\<close>

text \<open>The slots, over all processes, that hold a file; \<open>x\<close> counts references in flight.\<close>

definition slots :: "(nat \<Rightarrow> fdtable option) \<Rightarrow> ptr \<Rightarrow> (nat \<times> nat) set" where
  "slots T f = {(pid, i). \<exists>fdt. T pid = Some fdt \<and> i < length (fdt_fds fdt) \<and> fdt_fds fdt ! i = Some f}"

definition table_ok :: "fdtable \<Rightarrow> bool" where
  "table_ok fdt \<longleftrightarrow>
     length (fdt_fds fdt) = unat (fdt_max_fds fdt) \<and> length (fdt_fd_flags fdt) = unat (fdt_max_fds fdt) \<and>
     unat (fdt_max_fds fdt) \<le> 1024 \<and> unat (fdt_next_fd fdt) \<le> unat (fdt_max_fds fdt) \<and>
     (\<forall>i < length (fdt_fds fdt). fdt_fds fdt ! i \<noteq> None \<longrightarrow> i < unat (fdt_next_fd fdt))"

definition files_ok ::
    "(ptr \<Rightarrow> nat) \<Rightarrow> (nat \<Rightarrow> fdtable option) \<Rightarrow> (ptr \<Rightarrow> file_descriptor option) \<Rightarrow> bool" where
  "files_ok x T F \<longleftrightarrow>
     finite (dom T) \<and> (\<forall>pid fdt. T pid = Some fdt \<longrightarrow> table_ok fdt) \<and>
     (\<forall>f. F f = None \<longrightarrow> slots T f = {} \<and> x f = 0) \<and>
     (\<forall>f fd. F f = Some fd \<longrightarrow> f_count fd = int (card (slots T f) + x f) \<and> 0 < f_count fd)"

lemma finite_slots:
  assumes "finite (dom T)"
  shows "finite (slots T f)"
proof (rule finite_subset)
  show "slots T f \<subseteq> Sigma (dom T) (\<lambda>pid. {..<length (fdt_fds (the (T pid)))})"
    by (auto simp: slots_def)
  show "finite (Sigma (dom T) (\<lambda>pid. {..<length (fdt_fds (the (T pid)))}))" using assms by auto
qed

lemma slots_install:
  assumes "T pid = Some fdt" "n < length (fdt_fds fdt)" "fdt_fds fdt ! n = None"
  shows "slots (T(pid \<mapsto> install_fd fdt n f fl)) g = slots T g \<union> (if g = f then {(pid, n)} else {})"
    and "(pid, n) \<notin> slots T g"
  using assms by (auto simp: slots_def install_fd_def nth_list_update split: if_splits)

lemma slots_remove:
  assumes "T pid = Some fdt" "n < length (fdt_fds fdt)" "fdt_fds fdt ! n = Some f"
  shows "slots (T(pid \<mapsto> fdt\<lparr>fdt_fds := (fdt_fds fdt)[n := None]\<rparr>)) g = slots T g - {(pid, n)}"
    and "(pid, n) \<in> slots T g \<longleftrightarrow> g = f"
  using assms by (auto simp: slots_def nth_list_update split: if_splits)

lemma uint_compare:
  "int n < uint w \<longleftrightarrow> n < unat w" "uint w \<le> int n \<longleftrightarrow> unat w \<le> n" for w :: u32
  by (metis of_nat_less_iff of_nat_unat, metis of_nat_le_iff of_nat_unat)

lemma sint_small32: "unat (w :: u32) \<le> 1024 \<Longrightarrow> sint w = uint w"
proof -
  assume "unat w \<le> 1024"
  then have "uint w \<le> 1024" using uint_compare(2) [of w 1024] by simp
  then have "signed_take_bit 31 (uint w) = uint w"
    by (intro signed_take_bit_int_eq_self) (auto intro: order_trans [OF _ uint_ge_0])
  then show ?thesis by (simp add: sint_uint)
qed

lemma table_ok_install:
  assumes "table_ok fdt" "n < length (fdt_fds fdt)"
  shows "table_ok (install_fd fdt n f fl)"
proof -
  have n: "n < 1024" using assms by (simp add: table_ok_def)
  have u: "unat (word_of_nat n + 1 :: u32) = Suc n"
    using n by (simp add: unat_word_ariths unat_of_nat take_bit_nat_eq_self)
  have s: "sint (fdt_next_fd fdt) = uint (fdt_next_fd fdt)"
    using assms(1) by (intro sint_small32) (simp add: table_ok_def)
  show ?thesis using assms u s
    by (fastforce simp: table_ok_def install_fd_def nth_list_update not_le uint_compare split: if_splits)
qed

lemma table_ok_remove:
  "table_ok fdt \<Longrightarrow> table_ok (fdt\<lparr>fdt_fds := (fdt_fds fdt)[n := None]\<rparr>)"
  unfolding table_ok_def by (cases "n < length (fdt_fds fdt)") (auto simp: nth_list_update)

lemma fd_in_range_iff: "table_ok fdt \<Longrightarrow> fd_in_range fdt fd \<longleftrightarrow> 0 \<le> fd \<and> nat fd < length (fdt_fds fdt)"
  using sint_small32 [of "fdt_max_fds fdt"] uint_compare(2) [of "fdt_max_fds fdt" "nat fd"]
  by (auto simp: fd_in_range_def table_ok_def)

lemma scan_free_Some:
  "scan_free fds i = Some n \<Longrightarrow> i \<le> n \<and> n < i + length fds \<and> fds ! (n - i) = None \<and>
     (\<forall>j. i \<le> j \<longrightarrow> j < n \<longrightarrow> fds ! (j - i) \<noteq> None)"
proof (induction fds i rule: scan_free.induct)
  case (3 f fds i)
  then have IH: "Suc i \<le> n" "n < Suc i + length fds" "fds ! (n - Suc i) = None"
    "\<And>j. Suc i \<le> j \<Longrightarrow> j < n \<Longrightarrow> fds ! (j - Suc i) \<noteq> None" by auto
  have "(Some f # fds) ! (j - i) \<noteq> None" if "i \<le> j" "j < n" for j
    using IH(4) [of j] that by (cases "j = i") (auto simp: nth_Cons')
  then show ?case using IH by (auto simp: nth_Cons' Suc_diff_le)
qed auto

lemma scan_free_None: "scan_free fds i = None \<Longrightarrow> j < length fds \<Longrightarrow> fds ! j \<noteq> None"
proof (induction fds i arbitrary: j rule: scan_free.induct)
  case (3 f fds i)
  then show ?case by (cases j) auto
qed auto

lemma find_free_Some:
  assumes "table_ok fdt" "find_free fdt start = Some n"
  shows "start \<le> n" "n < length (fdt_fds fdt)" "fdt_fds fdt ! n = None"
    "\<And>j. start \<le> j \<Longrightarrow> j < n \<Longrightarrow> fdt_fds fdt ! j \<noteq> None"
proof -
  let ?l = "drop start (fdt_fds fdt)"
  have s: "scan_free ?l start = Some n" using assms by (simp add: find_free_def table_ok_def)
  note r = scan_free_Some [OF s]
  show "start \<le> n" using r by simp
  have len: "start < length (fdt_fds fdt)" using r by (cases "start < length (fdt_fds fdt)") auto
  show n: "n < length (fdt_fds fdt)" using r len by simp
  show "fdt_fds fdt ! n = None" using r n len by (auto simp: nth_drop)
  show "fdt_fds fdt ! j \<noteq> None" if "start \<le> j" "j < n" for j using r that n by auto
qed

lemma find_free_None:
  assumes "table_ok fdt" "find_free fdt start = None" "start \<le> j" "j < length (fdt_fds fdt)"
  shows "fdt_fds fdt ! j \<noteq> None"
  using scan_free_None [of "drop start (fdt_fds fdt)" start "j - start"] assms
  by (simp add: find_free_def table_ok_def)

lemma files_ok_table: "files_ok x T F \<Longrightarrow> T pid = Some fdt \<Longrightarrow> table_ok fdt"
  by (simp add: files_ok_def)

lemma files_ok_slot:
  assumes "files_ok x T F" "T pid = Some fdt" "n < length (fdt_fds fdt)" "fdt_fds fdt ! n = Some f"
  obtains fd where "F f = Some fd"
proof -
  have "slots T f \<noteq> {}" using assms by (auto simp: slots_def)
  then show thesis using that assms(1) by (fastforce simp: files_ok_def)
qed

lemma files_ok_count:
  "files_ok x T F \<Longrightarrow> F f = Some fd \<Longrightarrow> f_count fd = int (card (slots T f) + x f)"
  "files_ok x T F \<Longrightarrow> F f = Some fd \<Longrightarrow> 0 < f_count fd"
  unfolding files_ok_def by blast+

lemma files_ok_share:
  assumes ok: "files_ok x T F" and t: "T pid = Some fdt" and n: "n < length (fdt_fds fdt)"
    "fdt_fds fdt ! n = None" and f: "F f = Some fd"
  shows "files_ok x (T(pid \<mapsto> install_fd fdt n f fl)) (F(f \<mapsto> f_count_update (\<lambda>c. c + 1) fd))"
proof -
  let ?T = "T(pid \<mapsto> install_fd fdt n f fl)"
  note sl = slots_install [of T, OF t n]
  have fin: "finite (slots T g)" for g using ok finite_slots by (simp add: files_ok_def)
  have card: "card (slots ?T g) = card (slots T g) + (if g = f then 1 else 0)" for g
    using sl fin by simp
  have "table_ok (install_fd fdt n f fl)" using table_ok_install files_ok_table [OF ok t] n by blast
  moreover have "f_count fd = int (card (slots T g) + x g)" "0 < f_count fd"
    if "F g = Some fd" for g fd using files_ok_count [OF ok that] .
  ultimately show ?thesis
    using ok f card unfolding files_ok_def by (auto simp: sl(1) split: if_splits)
qed

lemma files_ok_hold:
  assumes ok: "files_ok x T F" and f: "F f = Some fd"
  shows "files_ok (x(f := Suc (x f))) T (F(f \<mapsto> f_count_update (\<lambda>c. c + 1) fd))"
proof -
  have "f_count e = int (card (slots T g) + x g)" "0 < f_count e"
    if "F g = Some e" for g e using files_ok_count [OF ok that] .
  then show ?thesis using ok f unfolding files_ok_def by (auto split: if_splits)
qed

lemma files_ok_unslot:
  assumes ok: "files_ok x T F" and t: "T pid = Some fdt" and n: "n < length (fdt_fds fdt)"
    "fdt_fds fdt ! n = Some f"
  shows "files_ok (x(f := Suc (x f))) (T(pid \<mapsto> fdt\<lparr>fdt_fds := (fdt_fds fdt)[n := None]\<rparr>)) F"
proof -
  let ?T = "T(pid \<mapsto> fdt\<lparr>fdt_fds := (fdt_fds fdt)[n := None]\<rparr>)"
  note sl = slots_remove [of T, OF t n]
  have fin: "finite (slots T g)" for g using ok finite_slots by (simp add: files_ok_def)
  have card: "card (slots ?T g) + (if g = f then 1 else 0) = card (slots T g)" for g
  proof (cases "g = f")
    case True
    then have "0 < card (slots T g)" using sl(2) fin card_gt_0_iff by blast
    then show ?thesis using True sl fin by (simp add: card_Diff_singleton)
  next
    case False
    then show ?thesis using sl by simp
  qed
  have f: "F f \<noteq> None" using files_ok_slot [OF ok t n] by blast
  have tab: "table_ok (fdt\<lparr>fdt_fds := (fdt_fds fdt)[n := None]\<rparr>)"
    using table_ok_remove files_ok_table [OF ok t] by blast
  have c: "f_count fd = int (card (slots ?T g) + (x(f := Suc (x f))) g)"
    if "F g = Some fd" for g fd
    using ok card [of g] that by (auto simp: files_ok_def)
  have pos: "0 < f_count fd" if "F g = Some fd" for g fd using files_ok_count(2) [OF ok that] .
  have none: "slots ?T g = {} \<and> (x(f := Suc (x f))) g = 0" if "F g = None" for g
    using ok f sl(1) that by (auto simp: files_ok_def)
  have tabs: "table_ok t" if "?T q = Some t" for q t
    using ok tab that by (auto simp: files_ok_def split: if_splits)
  show ?thesis
    unfolding files_ok_def using ok pos none tabs c by (simp add: files_ok_def)
qed

text \<open>Dropping one reference in flight: the file goes exactly when it was the last one.\<close>

lemma files_ok_drop:
  assumes ok: "files_ok (x(f := Suc (x f))) T F" and f: "F f = Some fd"
  shows "f_count fd \<noteq> 1 \<Longrightarrow> f_count fd' = f_count fd - 1 \<Longrightarrow> files_ok x T (F(f \<mapsto> fd'))"
    and "f_count fd = 1 \<Longrightarrow> files_ok x T (F(f := None))"
    and "f_count fd = 1 \<longleftrightarrow> slots T f = {} \<and> x f = 0"
proof -
  have c: "f_count fd = int (card (slots T f) + Suc (x f))" using files_ok_count(1) [OF ok f] by simp
  have fin: "finite (slots T f)" using ok finite_slots by (simp add: files_ok_def)
  have "card (slots T f) = 0 \<longleftrightarrow> slots T f = {}" using fin by simp
  then show last: "f_count fd = 1 \<longleftrightarrow> slots T f = {} \<and> x f = 0" using c by auto
  have others: "f_count e = int (card (slots T g) + x g) \<and> 0 < f_count e"
    if "g \<noteq> f" "F g = Some e" for g e
    using files_ok_count [OF ok that(2)] that(1) by simp
  have none: "slots T g = {} \<and> x g = 0" if "g \<noteq> f" "F g = None" for g
  proof -
    have "slots T g = {} \<and> (x(f := Suc (x f))) g = 0" using ok that(2) unfolding files_ok_def by blast
    then show ?thesis using that(1) by simp
  qed
  show "files_ok x T (F(f := None))" if "f_count fd = 1"
    using ok others none last that by (auto simp: files_ok_def)
  show "files_ok x T (F(f \<mapsto> fd'))" if "f_count fd \<noteq> 1" "f_count fd' = f_count fd - 1"
    using ok others none c that by (auto simp: files_ok_def)
qed

section \<open>Pipe ends\<close>

text \<open>
  A pipe counts its open files: the reader count is the number of files with the
  read operations, the writer count the number with the write operations, and a
  pipe file never outlives its pipe.
\<close>

definition ends :: "(ptr \<Rightarrow> file_descriptor option) \<Rightarrow> vops \<Rightarrow> ptr \<Rightarrow> ptr set" where
  "ends F tbl p = {f. \<exists>fd. F f = Some fd \<and> f_private_data fd = Some p \<and> f_ops fd = Some tbl}"

definition pipe_file_of :: "file_descriptor \<Rightarrow> ptr \<Rightarrow> bool" where
  "pipe_file_of fd p \<longleftrightarrow>
     f_private_data fd = Some p \<and> (f_ops fd = Some Pipe_read_ops \<or> f_ops fd = Some Pipe_write_ops)"

definition pipes_ok :: "kernel \<Rightarrow> bool" where
  "pipes_ok k \<longleftrightarrow>
     finite (dom (k_files k)) \<and>
     (\<forall>p ip. k_pipes k p = Some ip \<longrightarrow>
        ip_reader_count ip = int (card (ends (k_files k) Pipe_read_ops p)) \<and>
        ip_writer_count ip = int (card (ends (k_files k) Pipe_write_ops p))) \<and>
     (\<forall>f fd p. k_files k f = Some fd \<longrightarrow> pipe_file_of fd p \<longrightarrow> k_pipes k p \<noteq> None) \<and>
     (\<forall>f fd v. k_files k f = Some fd \<longrightarrow> f_vnode fd = Some v \<longrightarrow> v \<in> dom (k_vnodes k)) \<and>
     (\<forall>f fd. k_files k f = Some fd \<longrightarrow> (is_fifo fd k \<longleftrightarrow> (\<exists>p. pipe_file_of fd p)))"

lemma finite_ends: "finite (dom F) \<Longrightarrow> finite (ends F tbl p)"
  by (rule finite_subset [of _ "dom F"]) (auto simp: ends_def)

lemma ends_upd:
  "F f = Some fd \<Longrightarrow> f_private_data fd' = f_private_data fd \<Longrightarrow> f_ops fd' = f_ops fd \<Longrightarrow>
   ends (F(f \<mapsto> fd')) = ends F"
  by (intro ext) (auto simp: ends_def)

lemma ends_gone: "ends (F(f := None)) tbl p = ends F tbl p - {f}"
  by (auto simp: ends_def)

definition pipe_counts_ok :: "(ptr \<Rightarrow> file_descriptor option) \<Rightarrow> kernel \<Rightarrow> ptr \<Rightarrow> bool" where
  "pipe_counts_ok F k p \<longleftrightarrow>
     (case k_pipes k p of
        None \<Rightarrow> ends F Pipe_read_ops p = {} \<and> ends F Pipe_write_ops p = {}
      | Some ip \<Rightarrow> ip_reader_count ip = int (card (ends F Pipe_read_ops p)) \<and>
          ip_writer_count ip = int (card (ends F Pipe_write_ops p)))"

lemma pipes_ok_counts: "pipes_ok k \<Longrightarrow> pipe_counts_ok (k_files k) k p"
proof (cases "k_pipes k p")
  case None
  assume "pipes_ok k"
  then have "\<not> (k_files k f = Some fd \<and> pipe_file_of fd p)" for f fd
    using None unfolding pipes_ok_def by blast
  then show ?thesis using None by (auto simp: pipe_counts_ok_def ends_def pipe_file_of_def)
qed (simp add: pipes_ok_def pipe_counts_ok_def)

lemma pipes_ok_release:
  assumes ok: "pipes_ok k" and F: "k_files k' = (k_files k)(f := None)"
    and fifo: "\<And>e. is_fifo e k' = is_fifo e k" and vn: "dom (k_vnodes k') = dom (k_vnodes k)"
    and counts: "\<And>p. pipe_counts_ok (k_files k') k' p"
  shows "pipes_ok k'"
proof -
  have live: "k_pipes k' p \<noteq> None" if "k_files k' g = Some e" "pipe_file_of e p" for g e p
  proof
    assume "k_pipes k' p = None"
    then have "ends (k_files k') Pipe_read_ops p = {}" "ends (k_files k') Pipe_write_ops p = {}"
      using counts [of p] by (simp_all add: pipe_counts_ok_def)
    then show False using that by (auto simp: ends_def pipe_file_of_def)
  qed
  have iff: "is_fifo e k' \<longleftrightarrow> (\<exists>p. pipe_file_of e p)" if "k_files k' g = Some e" for g e
    using ok that F fifo by (auto simp: pipes_ok_def split: if_splits)
  have c: "ip_reader_count ip = int (card (ends (k_files k') Pipe_read_ops p)) \<and>
      ip_writer_count ip = int (card (ends (k_files k') Pipe_write_ops p))" if "k_pipes k' p = Some ip" for p ip
    using counts [of p] that by (simp add: pipe_counts_ok_def)
  have "f_vnode e = Some v \<Longrightarrow> v \<in> dom (k_vnodes k')" if "k_files k' g = Some e" for g e v
    using ok that F unfolding pipes_ok_def vn by (auto split: if_splits)
  moreover have "finite (dom (k_files k'))" using ok F by (simp add: pipes_ok_def)
  ultimately show ?thesis using live iff c unfolding pipes_ok_def by blast
qed

lemma same_fd_pipes_ok:
  assumes s: "same_fd k k'" and ok: "pipes_ok k"
  shows "pipes_ok k'"
proof -
  have eq: "k_files k' = k_files k" "k_pipes k' = k_pipes k" using s by (simp_all add: same_fd_def)
  have v: "\<exists>vn'. k_vnodes k' v = Some vn' \<and> vn_type vn' = vn_type vn" if "k_vnodes k v = Some vn" for v vn
    using s that by (auto simp: same_fd_def)
  have live: "\<exists>vn. k_vnodes k v = Some vn" if "k_files k f = Some e" "f_vnode e = Some v" for f e v
    using ok that unfolding pipes_ok_def by blast
  have "is_fifo e k' = is_fifo e k" if "k_files k f = Some e" for f e
    using live [OF that] v by (fastforce simp: is_fifo_def split: option.splits)
  moreover have "f_vnode e = Some v \<Longrightarrow> v \<in> dom (k_vnodes k')" if "k_files k f = Some e" for f e v
    using live [OF that] v by blast
  ultimately show ?thesis using ok unfolding pipes_ok_def eq by metis
qed

lemma pipes_ok_count:
  assumes "pipes_ok k" "k_files k f = Some fd" "f_private_data fd' = f_private_data fd"
    "f_ops fd' = f_ops fd" "f_vnode fd' = f_vnode fd"
  shows "pipes_ok (k\<lparr>k_files := (k_files k)(f \<mapsto> fd')\<rparr>)"
proof -
  have "is_fifo e (k\<lparr>k_files := h\<rparr>) = is_fifo e k" for e h by (simp add: is_fifo_def split: option.splits)
  moreover have "is_fifo fd' k = is_fifo fd k" using assms(5) by (simp add: is_fifo_def)
  moreover have "pipe_file_of fd' = pipe_file_of fd" using assms(3,4) by (auto simp: pipe_file_of_def)
  ultimately show ?thesis
    using assms ends_upd [of "k_files k" f fd fd'] unfolding pipes_ok_def by auto
qed

section \<open>Releasing a file\<close>

lemma flush_frame:
  assumes "env_ok fss ops"
  shows "same_fd k (flush_on_close ops fd k)" "k_pipes (flush_on_close ops fd k) = k_pipes k"
    "is_fifo e (flush_on_close ops fd k) = is_fifo e k"
    "dom (k_vnodes (flush_on_close ops fd k)) = dom (k_vnodes k)"
proof -
  have all: "same_fd k (flush_on_close ops fd k) \<and> k_pipes (flush_on_close ops fd k) = k_pipes k \<and>
      (\<forall>u. map_option vn_type (k_vnodes (flush_on_close ops fd k) u) = map_option vn_type (k_vnodes k u))"
    using env_write [OF assms] unfolding flush_on_close_def
    by (auto split: option.splits prod.splits) (metis prod.collapse)+
  from all show "same_fd k (flush_on_close ops fd k)" "k_pipes (flush_on_close ops fd k) = k_pipes k"
    "is_fifo e (flush_on_close ops fd k) = is_fifo e k"
    by (auto simp: is_fifo_def split: option.splits)
  show "dom (k_vnodes (flush_on_close ops fd k)) = dom (k_vnodes k)"
    using all by (auto simp: dom_def) (metis map_option_is_None option.distinct(1) option.exhaust)+
qed

lemma wake_keeps:
  "k_fdtables (wake_writer p ip k) = k_fdtables k" "k_fdtables (wake_reader p ip k) = k_fdtables k"
  by (simp_all add: wake_writer_def wake_reader_def vxThreadWake_def set_pipe_def Let_def split: option.splits)

text \<open>Closing one end of a pipe whose counts are right.\<close>

lemma pipe_close_release:
  assumes ok: "pipes_ok k" and f: "k_files k f = Some fd" "pipe_file_of fd p"
  obtains k' where "pipe_close_fd f k = Some k'" "k_fdtables k' = k_fdtables k"
    "k_vnodes k' = k_vnodes k" "\<And>g. g \<noteq> f \<Longrightarrow> k_files k' g = k_files k g"
    "\<And>q. q \<noteq> p \<Longrightarrow> k_pipes k' q = k_pipes k q"
    "pipe_counts_ok ((k_files k)(f := None)) k' p"
proof -
  have fin: "finite (ends (k_files k) tbl p)" for tbl using ok finite_ends by (simp add: pipes_ok_def)
  obtain ip where ip: "k_pipes k p = Some ip"
    "ip_reader_count ip = int (card (ends (k_files k) Pipe_read_ops p))"
    "ip_writer_count ip = int (card (ends (k_files k) Pipe_write_ops p))"
    using ok f unfolding pipes_ok_def by (metis not_None_eq)
  have mem: "f \<in> ends (k_files k) tbl p \<longleftrightarrow> f_ops fd = Some tbl" for tbl
    using f by (auto simp: ends_def pipe_file_of_def)
  have pos: "0 < card (ends (k_files k) tbl p)" if "f_ops fd = Some tbl" for tbl
    using fin mem that card_gt_0_iff by blast
  have card: "int (card (ends ((k_files k)(f := None)) tbl p)) =
      int (card (ends (k_files k) tbl p)) - (if f_ops fd = Some tbl then 1 else 0)" for tbl
    using fin mem pos [of tbl] by (auto simp: ends_gone card_Diff_singleton of_nat_diff)
  define r w where "r = ip_reader_count ip - (if f_ops fd = Some Pipe_read_ops then 1 else 0)"
    and "w = ip_writer_count ip - (if f_ops fd = Some Pipe_write_ops then 1 else 0)"
  define k1 where "k1 = (if f_ops fd = Some Pipe_read_ops then
        let ka = set_pipe p (ip_reader_count_update (\<lambda>_. r)) k in if r = 0 then wake_writer p ip ka else ka
      else let ka = set_pipe p (ip_writer_count_update (\<lambda>_. w)) k in if w = 0 then wake_reader p ip ka else ka)"
  have ops: "f_ops fd = Some Pipe_read_ops \<or> f_ops fd = Some Pipe_write_ops" "f_private_data fd = Some p"
    using f by (auto simp: pipe_file_of_def)
  have k1: "k_files k1 = k_files k" "k_vnodes k1 = k_vnodes k" "k_fdtables k1 = k_fdtables k"
    "k_dentries k1 = k_dentries k"
    "\<And>q. q \<noteq> p \<Longrightarrow> k_pipes k1 q = k_pipes k q"
    "\<exists>ip1. k_pipes k1 p = Some ip1 \<and> ip_reader_count ip1 = r \<and> ip_writer_count ip1 = w"
    using ip ops
    by (auto simp: k1_def r_def w_def set_pipe_live wake_writer_def wake_reader_def vxThreadWake_def Let_def
        split: option.splits)
  then obtain ip1 where ip1: "k_pipes k1 p = Some ip1" "ip_reader_count ip1 = r" "ip_writer_count ip1 = w"
    by blast
  have close: "pipe_close_fd f k = Some (if r = 0 \<and> w = 0 then
      set_file f (f_private_data_update (\<lambda>_. None)) (kernel_free p (k1\<lparr>k_pipes := (k_pipes k1)(p := None)\<rparr>))
      else k1)"
    using f(1) ip(1) ops ip1 by (auto simp: pipe_close_fd_def Let_def k1_def r_def w_def split: if_splits)
  show thesis
  proof (cases "r = 0 \<and> w = 0")
    case True
    then have "card (ends ((k_files k)(f := None)) tbl p) = 0" if "tbl = Pipe_read_ops \<or> tbl = Pipe_write_ops" for tbl
      using card [of tbl] ip that by (auto simp: r_def w_def)
    then have "ends ((k_files k)(f := None)) Pipe_read_ops p = {}" "ends ((k_files k)(f := None)) Pipe_write_ops p = {}"
      using fin by (simp_all add: ends_gone)
    with True show thesis
      by (intro that [OF close]) (use k1 in \<open>auto simp: set_file_def kernel_free_def pipe_counts_ok_def\<close>)
  next
    case False
    show thesis
      by (intro that [OF close]) (use False k1 ip1 card ip in \<open>auto simp: r_def w_def pipe_counts_ok_def\<close>)
  qed
qed

lemma objs_ok_set_file: "objs_ok (set_file f g k) = objs_ok k"
  by (auto simp: set_file_def objs_ok_def dom_def)

lemma pipe_close_keeps: "pipe_close_fd f k = Some k' \<Longrightarrow> k_files k' f \<noteq> None"
  by (auto simp: pipe_close_fd_def Let_def set_file_def set_pipe_def wake_writer_def wake_reader_def vxThreadWake_def
      kernel_free_def split: option.splits if_splits)

lemma pipe_close_objs:
  assumes "objs_ok k" "pipe_close_fd f k = Some k'"
  shows "objs_ok k'"
proof -
  have wake: "objs_ok (wake_writer p ip k) = objs_ok k" "objs_ok (wake_reader p ip k) = objs_ok k" for p ip k
    by (auto simp: wake_writer_def wake_reader_def vxThreadWake_def set_pipe_def objs_ok_def Let_def dom_def
        split: option.splits)
  have set: "objs_ok (set_pipe p g k) = objs_ok k" for p g k
    by (auto simp: set_pipe_def objs_ok_def dom_def)
  have free: "objs_ok (kernel_free p (k\<lparr>k_pipes := (k_pipes k)(p := None)\<rparr>))"
    if "k_pipes k p \<noteq> None" "objs_ok k" for p k
    using that by (auto simp: objs_ok_def kernel_free_def dom_def)
  show ?thesis
    using assms unfolding pipe_close_fd_def
    by (auto simp: Let_def set wake objs_ok_set_file free split: option.splits if_splits)
qed

lemma release_file_objs:
  assumes env: "env_ok fss ops" and ok: "objs_ok k" and r: "release_file ops ev f k = Some k'"
  shows "objs_ok k'"
proof -
  obtain fd where f: "k_files k f = Some fd" using r by (auto simp: release_file_def split: option.splits)
  define k1 where "k1 = flush_on_close ops fd k"
  have k1: "objs_ok k1" "k_files k1 f = Some fd"
    using flush_frame(1) [OF env, of k fd] ok f by (simp_all add: k1_def same_fd_def)
  obtain k2 where k2: "(if is_fifo fd k1 then pipe_close_fd f k1 else Some k1) = Some k2"
    using r f by (auto simp: release_file_def k1_def Let_def split: option.splits if_splits)
  have ok2: "objs_ok k2" using k2 k1(1) pipe_close_objs by (auto split: if_splits)
  have live: "k_files k2 f \<noteq> None" using k2 k1(2) pipe_close_keeps by (auto split: if_splits)
  define k3 where "k3 = dentry_put (f_dentry fd) k2"
  have k3: "objs_ok k3" "k_files k3 f \<noteq> None"
    using same_fd_dentry(2) [of k2 "f_dentry fd"] ok2 live by (simp_all add: same_fd_def k3_def del: same_fd_dentry)
  define k4 where "k4 = kernel_free f (k3\<lparr>k_files := (k_files k3)(f := None)\<rparr>)"
  have "objs_ok k4" using k3 by (auto simp: objs_ok_def k4_def kernel_free_def dom_def)
  moreover have "k' = (if ev then evict_after_close (f_dentry fd) k4 else k4)"
    using r by (simp only: release_file_def Let_def option.case f k1_def [symmetric] k2(1) k4_def k3_def option.inject)
  ultimately show ?thesis using same_fd_evict [of k4 "f_dentry fd"] by (auto simp: same_fd_def)
qed

lemma drop_file_objs:
  "env_ok fss ops \<Longrightarrow> objs_ok k \<Longrightarrow> drop_file ops ev f k = Some k' \<Longrightarrow> objs_ok k'"
  using release_file_objs [of fss ops "set_file f (f_count_update (\<lambda>c. c - 1)) k" ev f k']
  by (auto simp: drop_file_def Let_def objs_ok_set_file split: option.splits if_splits)

lemma release_file_ok:
  assumes env: "env_ok fss ops" and ok: "pipes_ok k" and f: "k_files k f = Some fd"
  obtains k' where "release_file ops ev f k = Some k'" "k_fdtables k' = k_fdtables k"
    "k_files k' = (k_files k)(f := None)" "pipes_ok k'"
proof -
  let ?F = "(k_files k)(f := None)"
  define k1 where "k1 = flush_on_close ops fd k"
  have k1: "k_files k1 = k_files k" "k_fdtables k1 = k_fdtables k" "k_pipes k1 = k_pipes k"
    "\<And>e. is_fifo e k1 = is_fifo e k" "dom (k_vnodes k1) = dom (k_vnodes k)"
    using flush_frame [OF env] by (simp_all add: k1_def same_fd_def)
  have ok1: "pipes_ok k1" using ok k1 by (simp add: pipes_ok_def)
  have f1: "k_files k1 f = Some fd" using f k1 by simp
  obtain k2 where k2: "(if is_fifo fd k1 then pipe_close_fd f k1 else Some k1) = Some k2"
    "k_fdtables k2 = k_fdtables k" "\<And>e. is_fifo e k2 = is_fifo e k" "dom (k_vnodes k2) = dom (k_vnodes k)"
    "(k_files k2)(f := None) = ?F" "\<And>p. pipe_counts_ok ?F k2 p"
  proof (cases "is_fifo fd k1")
    case False
    then have no: "\<not> pipe_file_of fd p" for p using ok1 f1 by (auto simp: pipes_ok_def)
    have "ends ?F Pipe_read_ops p = ends (k_files k1) Pipe_read_ops p"
      "ends ?F Pipe_write_ops p = ends (k_files k1) Pipe_write_ops p" for p
      using f1 no k1(1) by (auto simp: ends_def pipe_file_of_def)
    then have "pipe_counts_ok ?F k1 p" for p
      using pipes_ok_counts [OF ok1, of p] by (cases "k_pipes k1 p") (simp_all add: pipe_counts_ok_def)
    then show thesis using that [of k1] False k1 by simp
  next
    case True
    then obtain p where p: "pipe_file_of fd p" using ok1 f1 by (auto simp: pipes_ok_def)
    obtain k2 where c: "pipe_close_fd f k1 = Some k2" "k_fdtables k2 = k_fdtables k1"
      "k_vnodes k2 = k_vnodes k1" "\<And>g. g \<noteq> f \<Longrightarrow> k_files k2 g = k_files k1 g"
      "\<And>q. q \<noteq> p \<Longrightarrow> k_pipes k2 q = k_pipes k1 q" "pipe_counts_ok ((k_files k1)(f := None)) k2 p"
      using pipe_close_release [OF ok1 f1 p] by metis
    have F: "(k_files k2)(f := None) = ?F" using c(4) k1(1) by auto
    have "ends ?F tbl q = ends (k_files k1) tbl q" if "q \<noteq> p" for tbl q
      using f1 p that k1(1) by (auto simp: ends_def pipe_file_of_def)
    then have "pipe_counts_ok ?F k2 q" for q
      using c(5,6) pipes_ok_counts [OF ok1, of q] k1(1)
      by (cases "q = p"; cases "k_pipes k1 q") (simp_all add: pipe_counts_ok_def)
    moreover have "is_fifo e k2 = is_fifo e k" for e using c(3) k1(4) [of e] by (simp add: is_fifo_def split: option.splits)
    ultimately show thesis using that [of k2] True c k1 F by simp
  qed
  define k4 where "k4 = kernel_free f ((dentry_put (f_dentry fd) k2)
      \<lparr>k_files := (k_files (dentry_put (f_dentry fd) k2))(f := None)\<rparr>)"
  have put: "k_files (dentry_put d k2) = k_files k2" "k_fdtables (dentry_put d k2) = k_fdtables k2"
    "k_pipes (dentry_put d k2) = k_pipes k2" "k_vnodes (dentry_put d k2) = k_vnodes k2" for d
    by (simp_all add: dentry_put_def set_dentry_def call_rcu_def Let_def split: option.splits)
  have k4: "k_files k4 = (k_files k2)(f := None)" "k_fdtables k4 = k_fdtables k2" "k_pipes k4 = k_pipes k2"
    "k_vnodes k4 = k_vnodes k2"
    by (simp_all add: k4_def kernel_free_def put)
  have ev: "k_files (evict_after_close d k4) = k_files k4" "k_fdtables (evict_after_close d k4) = k_fdtables k4"
    "k_pipes (evict_after_close d k4) = k_pipes k4" "k_vnodes (evict_after_close d k4) = k_vnodes k4" for d
    by (simp_all add: evict_after_close_def cache_remove_def dentry_put_def set_dentry_def call_rcu_def
        set_bucket_def Let_def split: option.splits)
  define k' where "k' = (if ev then evict_after_close (f_dentry fd) k4 else k4)"
  have k': "k_files k' = ?F" "k_fdtables k' = k_fdtables k" "k_pipes k' = k_pipes k2" "k_vnodes k' = k_vnodes k2"
    using k2(2,5) ev k4 by (simp_all add: k'_def)
  have "is_fifo e k' = is_fifo e k" for e using k2(3) [of e] k'(4) by (simp add: is_fifo_def cong: option.case_cong)
  moreover have "dom (k_vnodes k') = dom (k_vnodes k)" using k'(4) k2(4) by simp
  moreover have "pipe_counts_ok (k_files k') k' p" for p
    using k2(6) [of p] k'(1,3) by (simp add: pipe_counts_ok_def cong: option.case_cong)
  ultimately have "pipes_ok k'" by (rule pipes_ok_release [OF ok k'(1)])
  moreover have "release_file ops ev f k = Some k'"
    by (simp only: release_file_def Let_def option.case f k1_def [symmetric] k2(1) k4_def k'_def)
  ultimately show thesis using that k' by blast
qed

lemma drop_file_ok:
  assumes env: "env_ok fss ops" and ok: "pipes_ok k"
    and fs: "files_ok (x(f := Suc (x f))) T (k_files k)"
  obtains k' where "drop_file ops ev f k = Some k'" "k_fdtables k' = k_fdtables k"
    "files_ok x T (k_files k')" "pipes_ok k'" "\<And>g. g \<noteq> f \<Longrightarrow> k_files k' g = k_files k g"
    "k_files k' f = None \<longleftrightarrow> slots T f = {} \<and> x f = 0"
proof -
  obtain fd where f: "k_files k f = Some fd" using fs by (fastforce simp: files_ok_def)
  note d = files_ok_drop [OF fs f]
  define k1 where "k1 = set_file f (f_count_update (\<lambda>c. c - 1)) k"
  have k1: "k1 = k\<lparr>k_files := (k_files k)(f \<mapsto> f_count_update (\<lambda>c. c - 1) fd)\<rparr>"
    using f by (simp add: k1_def set_file_def)
  have ok1: "pipes_ok k1" unfolding k1 by (rule pipes_ok_count [OF ok f]) simp_all
  show thesis
  proof (cases "f_count fd = 1")
    case True
    have "k_files k1 f = Some (f_count_update (\<lambda>c. c - 1) fd)" by (simp add: k1)
    from release_file_ok [OF env ok1 this, of ev] obtain k'
      where r: "release_file ops ev f k1 = Some k'" "k_fdtables k' = k_fdtables k1"
        "k_files k' = (k_files k1)(f := None)" "pipes_ok k'" by blast
    have F: "k_files k' = (k_files k)(f := None)" using r(3) by (simp add: k1)
    show thesis
      by (rule that [of k'])
        (use True r(1,2,4) f d(2,3) F in \<open>simp_all add: drop_file_def k1_def [symmetric], simp_all add: k1\<close>)
  next
    case False
    show thesis
      by (rule that [of k1])
        (use False f d(1,3) ok1 in \<open>auto simp: drop_file_def k1_def [symmetric] Let_def k1\<close>)
  qed
qed

section \<open>The descriptor invariant\<close>

definition fd_inv :: "kernel \<Rightarrow> bool" where
  "fd_inv k \<longleftrightarrow> files_ok (\<lambda>_. 0) (k_fdtables k) (k_files k) \<and> pipes_ok k \<and> objs_ok k"

lemma fd_inv_files: "fd_inv k \<Longrightarrow> files_ok (\<lambda>_. 0) (k_fdtables k) (k_files k)"
  by (simp add: fd_inv_def)

lemma fd_inv_table: "fd_inv k \<Longrightarrow> k_fdtables k pid = Some fdt \<Longrightarrow> table_ok fdt"
  by (auto simp: fd_inv_def dest: files_ok_table)

lemma pipes_ok_tables: "pipes_ok (k\<lparr>k_fdtables := T\<rparr>) = pipes_ok k"
proof -
  have "is_fifo e (k\<lparr>k_fdtables := T\<rparr>) = is_fifo e k" for e by (simp add: is_fifo_def split: option.splits)
  then show ?thesis by (simp add: pipes_ok_def)
qed

lemma objs_ok_tables: "objs_ok (k\<lparr>k_fdtables := T\<rparr>) = objs_ok k"
  by (simp add: objs_ok_def)

lemma objs_ok_files: "k_files k f = Some e \<Longrightarrow> objs_ok (k\<lparr>k_files := (k_files k)(f \<mapsto> e')\<rparr>) = objs_ok k"
  by (auto simp: objs_ok_def)

lemma share_fd_inv:
  assumes "fd_inv k" "k_fdtables k pid = Some fdt" "n < length (fdt_fds fdt)"
    "fdt_fds fdt ! n = None" "k_files k f = Some fd"
  shows "fd_inv (share_fd pid fdt n f fl k)"
proof -
  have k': "share_fd pid fdt n f fl k = k\<lparr>k_files := (k_files k)(f \<mapsto> f_count_update (\<lambda>c. c + 1) fd),
      k_fdtables := (k_fdtables k)(pid \<mapsto> install_fd fdt n f fl)\<rparr>"
    using assms(5) by (simp add: share_fd_def set_fdtable_def set_file_def)
  have "pipes_ok (k\<lparr>k_files := (k_files k)(f \<mapsto> f_count_update (\<lambda>c. c + 1) fd)\<rparr>)"
    using assms(1) by (intro pipes_ok_count [OF _ assms(5)]) (simp_all add: fd_inv_def)
  then show ?thesis
    using files_ok_share [OF fd_inv_files [OF assms(1)] assms(2-5)] assms(1)
    by (simp add: k' fd_inv_def pipes_ok_tables objs_ok_tables objs_ok_files [OF assms(5)])
qed

lemma slot_file:
  assumes "fd_inv k" "k_fdtables k pid = Some fdt" "fd_in_range fdt fd" "fd_slot fdt fd = Some f"
  obtains fl where "nat fd < length (fdt_fds fdt)" "fdt_fds fdt ! nat fd = Some f" "k_files k f = Some fl"
proof -
  have n: "nat fd < length (fdt_fds fdt)"
    using assms(3) fd_in_range_iff fd_inv_table [OF assms(1,2)] by blast
  moreover have s: "fdt_fds fdt ! nat fd = Some f" using assms(4) by (simp add: fd_slot_def)
  ultimately show thesis
    using files_ok_slot [OF fd_inv_files [OF assms(1)] assms(2) n s] that by metis
qed

lemma syscall_close_ok:
  assumes env: "env_ok fss ops" and inv: "fd_inv k" and t: "k_fdtables k pid = Some fdt"
    and fd: "fd_in_range fdt fd" "fd_slot fdt fd = Some f"
  obtains k' where "syscall_close fss ops pid fd k = Some (k', 0)" "fd_inv k'"
    "k_fdtables k' = (k_fdtables k)(pid \<mapsto> fdt\<lparr>fdt_fds := (fdt_fds fdt)[nat fd := None]\<rparr>)"
    "\<And>g. g \<noteq> f \<Longrightarrow> k_files k' g = k_files k g"
    "k_files k' f = None \<longleftrightarrow> slots (k_fdtables k) f = {(pid, nat fd)}"
proof -
  obtain fl where n: "nat fd < length (fdt_fds fdt)" "fdt_fds fdt ! nat fd = Some f" "k_files k f = Some fl"
    by (rule slot_file [OF inv t fd])
  let ?T = "(k_fdtables k)(pid \<mapsto> fdt\<lparr>fdt_fds := (fdt_fds fdt)[nat fd := None]\<rparr>)"
  define k1 where "k1 = set_fdtable pid (fdt\<lparr>fdt_fds := (fdt_fds fdt)[nat fd := None]\<rparr>) k"
  have k1: "k1 = k\<lparr>k_fdtables := ?T\<rparr>" by (simp add: k1_def set_fdtable_def)
  have ok1: "pipes_ok k1" using inv by (simp add: k1 pipes_ok_tables fd_inv_def)
  have fs: "files_ok ((\<lambda>_. 0)(f := Suc 0)) ?T (k_files k1)"
    using files_ok_unslot [OF fd_inv_files [OF inv] t n(1,2)] by (simp add: k1)
  obtain k2 where d: "drop_file ops True f k1 = Some k2" "k_fdtables k2 = k_fdtables k1"
    "files_ok (\<lambda>_. 0) ?T (k_files k2)" "pipes_ok k2" "\<And>g. g \<noteq> f \<Longrightarrow> k_files k2 g = k_files k1 g"
    "k_files k2 f = None \<longleftrightarrow> slots ?T f = {}"
    using drop_file_ok [OF env ok1, of "\<lambda>_. 0" f ?T True] fs by (auto simp del: fun_upd_apply)
  define k3 where "k3 = close_proc_entry fss pid fd k2"
  have sf: "same_fd k2 k3" unfolding k3_def by (rule same_fd_proc_entry [OF env])
  have k3: "k_files k3 = k_files k2" "k_fdtables k3 = ?T"
    using sf d(2) by (simp_all add: same_fd_def k1)
  show thesis
  proof (rule that)
    show "syscall_close fss ops pid fd k = Some (k3, 0)"
      using d(1) by (simp add: syscall_close_def t fd k1_def [symmetric] k3_def)
    have "objs_ok k2" by (rule drop_file_objs [OF env _ d(1)]) (use inv in \<open>simp add: k1 objs_ok_tables fd_inv_def\<close>)
    then show "fd_inv k3" using d(3) k3 sf same_fd_pipes_ok [OF sf d(4)] by (simp add: fd_inv_def same_fd_def)
    show "k_fdtables k3 = ?T" by (rule k3(2))
    show "k_files k3 g = k_files k g" if "g \<noteq> f" for g using d(5) [OF that] by (simp add: k3 k1)
    show "k_files k3 f = None \<longleftrightarrow> slots (k_fdtables k) f = {(pid, nat fd)}"
      using d(6) slots_remove [where T = "k_fdtables k", OF t n(1,2)] by (auto simp: k3)
  qed
qed

section \<open>Duplication keeps the invariant\<close>

lemma find_free_inv:
  assumes "fd_inv k" "k_fdtables k pid = Some fdt" "find_free fdt start = Some n"
  shows "n < length (fdt_fds fdt)" "fdt_fds fdt ! n = None"
  using find_free_Some [OF fd_inv_table [OF assms(1,2)] assms(3)] by auto

lemma share_free_inv:
  assumes inv: "fd_inv k" and t: "k_fdtables k pid = Some fdt" and fd: "fd_in_range fdt fd" "fd_slot fdt fd = Some f"
    and n: "find_free fdt start = Some n"
  shows "fd_inv (share_fd pid fdt n f fl k)"
proof -
  obtain fl where "k_files k f = Some fl" by (rule slot_file [OF inv t fd])
  then show ?thesis by (rule share_fd_inv [OF inv t find_free_inv [OF inv t n]])
qed

lemma syscall_dup_inv: "fd_inv k \<Longrightarrow> fd_inv (fst (syscall_dup pid fd k))"
  by (auto simp: syscall_dup_def split: option.splits intro: share_free_inv)

lemma fcntl_dup_inv:
  "fd_inv k \<Longrightarrow> k_fdtables k pid = Some fdt \<Longrightarrow> fd_in_range fdt fd \<Longrightarrow> fd_slot fdt fd = Some f \<Longrightarrow>
   fd_inv (fst (fcntl_dup pid fdt f arg fl k))"
  by (auto simp: fcntl_dup_def Let_def split: option.splits intro: share_free_inv)

lemma slots_flags:
  "T pid = Some fdt \<Longrightarrow> slots (T(pid \<mapsto> fdt\<lparr>fdt_fd_flags := fl\<rparr>)) = slots T"
  by (intro ext) (auto simp: slots_def split: if_splits)

lemma files_ok_retable:
  assumes "files_ok x T F" "slots T' = slots T" "finite (dom T')" "\<And>pid fdt. T' pid = Some fdt \<Longrightarrow> table_ok fdt"
  shows "files_ok x T' F"
  using assms unfolding files_ok_def assms(2) by blast

lemma files_ok_upd:
  assumes "files_ok x T F" "F f = Some e" "f_count e' = f_count e"
  shows "files_ok x T (F(f \<mapsto> e'))"
  using assms unfolding files_ok_def fun_upd_apply by (metis option.distinct(1) option.inject)

lemma syscall_fcntl_inv:
  assumes inv: "fd_inv k"
  obtains k' r where "syscall_fcntl pid fd cmd arg k = Some (k', r)" "fd_inv k'"
proof (cases "\<exists>fdt f. k_fdtables k pid = Some fdt \<and> fd_in_range fdt fd \<and> fd_slot fdt fd = Some f")
  case False
  then have "syscall_fcntl pid fd cmd arg k = Some (k, - EBADF)"
    by (auto simp: syscall_fcntl_def split: option.splits)
  then show thesis using that inv by blast
next
  case True
  then obtain fdt f where t: "k_fdtables k pid = Some fdt" "fd_in_range fdt fd" "fd_slot fdt fd = Some f" by blast
  obtain e where e: "nat fd < length (fdt_fds fdt)" "fdt_fds fdt ! nat fd = Some f" "k_files k f = Some e"
    by (rule slot_file [OF inv t])
  have "files_ok (\<lambda>_. 0) ((k_fdtables k)(pid \<mapsto> fdt\<lparr>fdt_fd_flags := (fdt_fd_flags fdt)[n := b]\<rparr>)) (k_files k)" for n b
  proof (rule files_ok_retable [OF fd_inv_files [OF inv] slots_flags [where T = "k_fdtables k", OF t(1)]])
    show "finite (dom ((k_fdtables k)(pid \<mapsto> fdt\<lparr>fdt_fd_flags := (fdt_fd_flags fdt)[n := b]\<rparr>)))"
      using fd_inv_files [OF inv] by (simp add: files_ok_def)
    show "table_ok t" if "((k_fdtables k)(pid \<mapsto> fdt\<lparr>fdt_fd_flags := (fdt_fd_flags fdt)[n := b]\<rparr>)) q = Some t" for q t
      using that fd_inv_table [OF inv] fd_inv_table [OF inv t(1)] by (auto simp: table_ok_def split: if_splits)
  qed
  then have setfd: "fd_inv (set_fdtable pid (fdt\<lparr>fdt_fd_flags := (fdt_fd_flags fdt)[n := b]\<rparr>) k)" for n b
    using inv by (simp add: fd_inv_def set_fdtable_def pipes_ok_tables objs_ok_tables)
  have "pipes_ok (k\<lparr>k_files := (k_files k)(f \<mapsto> f_flags_update (\<lambda>_. b) e)\<rparr>)" for b
    using inv by (intro pipes_ok_count [OF _ e(3)]) (simp_all add: fd_inv_def)
  moreover have "files_ok (\<lambda>_. 0) (k_fdtables k) ((k_files k)(f \<mapsto> f_flags_update (\<lambda>_. b) e))" for b
    by (rule files_ok_upd [OF fd_inv_files [OF inv] e(3)]) simp
  ultimately have setfl: "fd_inv (set_file f (f_flags_update (\<lambda>_. b)) k)" for b
    using e(3) inv by (simp add: fd_inv_def set_file_def objs_ok_files [OF e(3)])
  have dup: "\<exists>k' r. Some (fcntl_dup pid fdt f arg fl k) = Some (k', r) \<and> fd_inv k'" for fl
    using fcntl_dup_inv [OF inv t, of arg fl] by (metis prod.collapse)
  have "\<exists>k' r. syscall_fcntl pid fd cmd arg k = Some (k', r) \<and> fd_inv k'"
    using setfd setfl inv dup e(3) by (simp add: syscall_fcntl_def t Let_def)
  then show thesis using that by blast
qed

text \<open>\<^verbatim>\<open>dup2\<close>: the target is closed if it is open, then holds the file of the source.\<close>

lemma syscall_dup2_ok:
  assumes env: "env_ok fss ops" and inv: "fd_inv k" and t: "k_fdtables k pid = Some fdt"
    and fd: "fd_in_range fdt oldfd" "fd_slot fdt oldfd = Some f" and new: "fd_in_range fdt newfd"
  obtains k' fdt' where "syscall_dup2 fss ops pid oldfd newfd k = Some (k', newfd)" "fd_inv k'"
    "k_fdtables k' pid = Some fdt'" "fdt_fds fdt' = (fdt_fds fdt)[nat newfd := Some f]"
proof (cases "oldfd = newfd")
  case True
  have "(fdt_fds fdt)[nat newfd := Some f] = fdt_fds fdt"
    using fd(2) True by (metis fd_slot_def list_update_id)
  then show thesis using that [of k fdt] True t fd inv by (simp add: syscall_dup2_def)
next
  case False
  have ok: "table_ok fdt" by (rule fd_inv_table [OF inv t])
  have old: "nat oldfd < length (fdt_fds fdt)" "nat newfd < length (fdt_fds fdt)" "nat oldfd \<noteq> nat newfd"
    using fd(1) new False fd_in_range_iff [OF ok] by auto
  obtain k1 fdt1 where k1: "(if fd_slot fdt newfd \<noteq> None then map_option fst (syscall_close fss ops pid newfd k)
      else Some k) = Some k1" "fd_inv k1" "k_fdtables k1 pid = Some fdt1"
    "fdt_fds fdt1 = (fdt_fds fdt)[nat newfd := None]"
  proof (cases "fd_slot fdt newfd")
    case None
    then show thesis using that [of k fdt] inv t by (simp add: fd_slot_def) (metis list_update_id)
  next
    case (Some g)
    obtain k' where "syscall_close fss ops pid newfd k = Some (k', 0)" "fd_inv k'"
      "k_fdtables k' = (k_fdtables k)(pid \<mapsto> fdt\<lparr>fdt_fds := (fdt_fds fdt)[nat newfd := None]\<rparr>)"
      using syscall_close_ok [OF env inv t new Some] by metis
    then show thesis using that [of k'] Some by simp
  qed
  have f1: "fd_slot fdt1 oldfd = Some f" using fd(2) k1(4) old by (simp add: fd_slot_def)
  have n1: "nat newfd < length (fdt_fds fdt1)" "fdt_fds fdt1 ! nat newfd = None" using k1(4) old by simp_all
  have "nat oldfd < length (fdt_fds fdt1)" "fdt_fds fdt1 ! nat oldfd = Some f"
    using f1 old k1(4) by (simp_all add: fd_slot_def)
  then obtain e where e: "k_files k1 f = Some e"
    using files_ok_slot [OF fd_inv_files [OF k1(2)] k1(3)] by metis
  show thesis
  proof (rule that)
    show "syscall_dup2 fss ops pid oldfd newfd k = Some (share_fd pid fdt1 (nat newfd) f 0 k1, newfd)"
      using t fd new False k1(1,3) f1 by (auto simp: syscall_dup2_def)
    show "fd_inv (share_fd pid fdt1 (nat newfd) f 0 k1)" by (rule share_fd_inv [OF k1(2,3) n1 e])
    show "k_fdtables (share_fd pid fdt1 (nat newfd) f 0 k1) pid = Some (install_fd fdt1 (nat newfd) f 0)"
      by (simp add: share_fd_def set_fdtable_def)
    show "fdt_fds (install_fd fdt1 (nat newfd) f 0) = (fdt_fds fdt)[nat newfd := Some f]"
      by (simp add: install_fd_def k1(4))
  qed
qed

section \<open>Whole tables: process exit and fork\<close>

text \<open>A table's slots, seen as references in flight, can be moved in and out of the count.\<close>

lemma card_slots_table:
  assumes "T pid = None" "finite (dom T)"
  shows "card (slots (T(pid \<mapsto> fdt)) f) = card (slots T f) + count_list (fdt_fds fdt) (Some f)"
proof -
  let ?I = "{i. i < length (fdt_fds fdt) \<and> Some f = fdt_fds fdt ! i}"
  have "slots (T(pid \<mapsto> fdt)) f = slots T f \<union> Pair pid ` ?I"
    using assms(1) by (auto simp: slots_def split: if_splits)
  moreover have "slots T f \<inter> Pair pid ` ?I = {}" using assms(1) by (auto simp: slots_def)
  moreover have "card (Pair pid ` ?I) = count_list (fdt_fds fdt) (Some f)"
    by (subst card_image) (simp_all add: inj_on_def count_list_eq_length_filter length_filter_conv_card)
  ultimately show ?thesis using finite_slots [OF assms(2)] by (simp add: card_Un_disjoint)
qed

lemma files_ok_table_iff:
  assumes "T pid = None" "table_ok fdt"
  shows "files_ok x (T(pid \<mapsto> fdt)) F = files_ok (\<lambda>f. x f + count_list (fdt_fds fdt) (Some f)) T F"
proof (cases "finite (dom T)")
  case True
  note c = card_slots_table [OF assms(1) True, of fdt]
  have fin: "finite (slots T f)" "finite (slots (T(pid \<mapsto> fdt)) f)" for f
    using True by (auto intro: finite_slots)
  have e: "slots (T(pid \<mapsto> fdt)) f = {} \<longleftrightarrow> slots T f = {} \<and> count_list (fdt_fds fdt) (Some f) = 0" for f
    using c [of f] fin [of f] by (metis add_is_0 card_0_eq)
  have t: "(\<forall>p t. (T(pid \<mapsto> fdt)) p = Some t \<longrightarrow> table_ok t) \<longleftrightarrow> (\<forall>p t. T p = Some t \<longrightarrow> table_ok t)"
    using assms by (metis fun_upd_apply option.distinct(1) option.inject)
  show ?thesis unfolding files_ok_def e c t using True by (auto simp: add.assoc add.commute)
qed (simp add: files_ok_def)

lemma free_slots_ok:
  assumes env: "env_ok fss ops"
  shows "pipes_ok k \<Longrightarrow> objs_ok k \<Longrightarrow> files_ok (\<lambda>f. x f + count_list fds (Some f)) T (k_files k) \<Longrightarrow>
    \<exists>k'. free_slots ops fds k = Some k' \<and> k_fdtables k' = k_fdtables k \<and> files_ok x T (k_files k') \<and>
      pipes_ok k' \<and> objs_ok k'"
proof (induction fds arbitrary: k)
  case (Cons a fds)
  let ?x = "\<lambda>g. x g + count_list fds (Some g)"
  show ?case
  proof (cases a)
    case None
    then show ?thesis using Cons by simp
  next
    case (Some f)
    have "(\<lambda>g. x g + count_list (a # fds) (Some g)) = ?x(f := Suc (?x f))" using Some by (intro ext) auto
    then have "files_ok (?x(f := Suc (?x f))) T (k_files k)" using Cons.prems(3) by simp
    from drop_file_ok [OF env Cons.prems(1) this, of False] obtain k1
      where k1: "drop_file ops False f k = Some k1" "k_fdtables k1 = k_fdtables k" "files_ok ?x T (k_files k1)"
        "pipes_ok k1" by blast
    from Cons.IH [OF k1(4) drop_file_objs [OF env Cons.prems(2) k1(1)] k1(3)] k1(1,2)
    show ?thesis using Some by auto
  qed
qed simp

lemma free_fdtable_ok:
  assumes env: "env_ok fss ops" and inv: "fd_inv k"
  obtains k' where "free_fdtable ops pid k = Some k'" "fd_inv k'" "k_fdtables k' = (k_fdtables k)(pid := None)"
proof (cases "k_fdtables k pid")
  case None
  then show thesis using that [of k] inv by (simp add: free_fdtable_def fun_upd_idem)
next
  case (Some fdt)
  let ?T = "(k_fdtables k)(pid := None)"
  have ok: "table_ok fdt" by (rule fd_inv_table [OF inv Some])
  then have t: "take (unat (fdt_max_fds fdt)) (fdt_fds fdt) = fdt_fds fdt" by (simp add: table_ok_def)
  have "files_ok (\<lambda>f. 0 + count_list (fdt_fds fdt) (Some f)) ?T (k_files k)"
    using files_ok_table_iff [of ?T pid fdt "\<lambda>_. 0" "k_files k"] ok fd_inv_files [OF inv] Some
    by (simp add: fun_upd_idem)
  with inv free_slots_ok [OF env, of k "\<lambda>_. 0" "fdt_fds fdt" ?T] obtain k1
    where k1: "free_slots ops (fdt_fds fdt) k = Some k1" "k_fdtables k1 = k_fdtables k"
      "files_ok (\<lambda>_. 0) ?T (k_files k1)" "pipes_ok k1" "objs_ok k1"
    by (auto simp: fd_inv_def)
  show thesis
    by (rule that [of "k1\<lparr>k_fdtables := ?T\<rparr>"])
      (use Some k1 t in \<open>simp_all add: free_fdtable_def fd_inv_def pipes_ok_tables objs_ok_tables\<close>)
qed

lemma share_slots_ok:
  assumes "files_ok x T (k_files k)" "pipes_ok k" "objs_ok k" "\<And>f. Some f \<in> set fds \<Longrightarrow> k_files k f \<noteq> None"
  shows "files_ok (\<lambda>f. x f + count_list fds (Some f)) T (k_files (share_slots fds k)) \<and>
    pipes_ok (share_slots fds k) \<and> objs_ok (share_slots fds k) \<and> k_fdtables (share_slots fds k) = k_fdtables k"
  using assms
proof (induction fds arbitrary: k x)
  case (Cons a fds)
  show ?case
  proof (cases a)
    case None
    then show ?thesis using Cons by simp
  next
    case (Some f)
    obtain e where e: "k_files k f = Some e" using Cons.prems(4) Some by fastforce
    define k1 where "k1 = set_file f (f_count_update (\<lambda>c. c + 1)) k"
    have k1: "k1 = k\<lparr>k_files := (k_files k)(f \<mapsto> f_count_update (\<lambda>c. c + 1) e)\<rparr>"
      using e by (simp add: k1_def set_file_def)
    have "pipes_ok k1" unfolding k1 by (rule pipes_ok_count [OF Cons.prems(2) e]) simp_all
    moreover have "objs_ok k1" using Cons.prems(3) e by (simp add: k1 objs_ok_files)
    moreover have "files_ok (x(f := Suc (x f))) T (k_files k1)"
      using files_ok_hold [OF Cons.prems(1) e] by (simp add: k1)
    moreover have "Some g \<in> set fds \<Longrightarrow> k_files k1 g \<noteq> None" for g using Cons.prems(4) [of g] by (simp add: k1)
    ultimately have IH: "files_ok (\<lambda>g. (x(f := Suc (x f))) g + count_list fds (Some g)) T (k_files (share_slots fds k1)) \<and>
        pipes_ok (share_slots fds k1) \<and> objs_ok (share_slots fds k1) \<and> k_fdtables (share_slots fds k1) = k_fdtables k1"
      using Cons.IH [of "x(f := Suc (x f))" k1] by blast
    have "(\<lambda>g. (x(f := Suc (x f))) g + count_list fds (Some g)) = (\<lambda>g. x g + count_list (a # fds) (Some g))"
      using Some by (intro ext) auto
    then show ?thesis using IH Some by (simp add: k1_def [symmetric]) (simp add: k1)
  qed
qed simp

lemma fork_fdtable_ok:
  assumes inv: "fd_inv k" and p: "k_fdtables k parent = Some fdt" and c: "k_fdtables k child = None"
  obtains k' where "fork_fdtable parent child k = Some k'" "fd_inv k'"
    "k_fdtables k' parent = Some fdt" "map_option fdt_fds (k_fdtables k' child) = Some (fdt_fds fdt)"
    "map_option fdt_fd_flags (k_fdtables k' child) = Some (copy_flags (fdt_fds fdt) (fdt_fd_flags fdt))"
proof -
  have ok: "table_ok fdt" by (rule fd_inv_table [OF inv p])
  then have t: "take (unat (fdt_max_fds fdt)) (fdt_fds fdt) = fdt_fds fdt"
    "take (unat (fdt_max_fds fdt)) (fdt_fd_flags fdt) = fdt_fd_flags fdt" by (simp_all add: table_ok_def)
  define new where "new = fdt\<lparr>fdt_fd_flags := copy_flags (fdt_fds fdt) (fdt_fd_flags fdt)\<rparr>"
  have new: "table_ok new" using ok by (simp add: table_ok_def new_def copy_flags_def)
  have live: "k_files k f \<noteq> None" if "Some f \<in> set (fdt_fds fdt)" for f
    using that files_ok_slot [OF fd_inv_files [OF inv] p] by (metis in_set_conv_nth option.distinct(1))
  define k1 where "k1 = share_slots (fdt_fds fdt) k"
  have k1: "files_ok (\<lambda>f. 0 + count_list (fdt_fds new) (Some f)) (k_fdtables k) (k_files k1)"
    "pipes_ok k1" "objs_ok k1" "k_fdtables k1 = k_fdtables k"
    using share_slots_ok [OF fd_inv_files [OF inv], of "fdt_fds fdt"] inv live
    by (simp_all add: fd_inv_def k1_def new_def)
  have "files_ok (\<lambda>_. 0) ((k_fdtables k)(child \<mapsto> new)) (k_files k1)"
    using files_ok_table_iff [where T = "k_fdtables k", OF c new] k1(1) by simp
  then have "fd_inv (set_fdtable child new k1)"
    using k1 by (simp add: fd_inv_def set_fdtable_def pipes_ok_tables objs_ok_tables)
  moreover have "fork_fdtable parent child k = Some (set_fdtable child new k1)"
    using p t by (simp add: fork_fdtable_def Let_def k1_def new_def)
  ultimately show thesis
    by (intro that [of "set_fdtable child new k1"]) (use p c k1(4) in \<open>auto simp: set_fdtable_def new_def\<close>)
qed

section \<open>Making a pipe keeps the invariant\<close>

lemma nth_shift: "Suc i \<le> w \<Longrightarrow> (a # fds) ! (w - i) = fds ! (w - Suc i)" "Suc i \<le> w \<Longrightarrow> w - i = Suc (w - Suc i)"
  by (metis Suc_diff_Suc Suc_le_lessD nth_Cons_Suc) arith

lemma scan_two_second:
  "scan_two fds i (Some r) = (rr, Some w) \<Longrightarrow> rr = Some r \<and> i \<le> w \<and> w - i < length fds \<and> fds ! (w - i) = None"
proof (induction fds arbitrary: i)
  case (Cons a fds)
  show ?case
  proof (cases a)
    case (Some f)
    then have "rr = Some r \<and> Suc i \<le> w \<and> w - Suc i < length fds \<and> fds ! (w - Suc i) = None"
      using Cons.IH [of "Suc i"] Cons.prems by simp
    then show ?thesis using nth_shift(1) [of i w a fds] nth_shift(2) [of i w] by simp
  qed (use Cons.prems in auto)
qed simp

lemma scan_two_Some:
  "scan_two fds i None = (Some r, Some w) \<Longrightarrow>
   i \<le> r \<and> r < w \<and> w - i < length fds \<and> fds ! (r - i) = None \<and> fds ! (w - i) = None"
proof (induction fds arbitrary: i)
  case (Cons a fds)
  show ?case
  proof (cases a)
    case None
    then have "r = i" "Suc i \<le> w \<and> w - Suc i < length fds \<and> fds ! (w - Suc i) = None"
      using Cons.prems scan_two_second [of fds "Suc i" i "Some r" w] by auto
    then show ?thesis using None nth_shift(1) [of i w a fds] nth_shift(2) [of i w] by simp
  next
    case (Some f)
    then have "Suc i \<le> r \<and> r < w \<and> w - Suc i < length fds \<and> fds ! (r - Suc i) = None \<and> fds ! (w - Suc i) = None"
      using Cons.IH [of "Suc i"] Cons.prems by simp
    then show ?thesis using nth_shift(1) [of i w a fds] nth_shift(1) [of i r a fds] nth_shift(2) [of i w] by simp
  qed
qed simp

lemma ends_new:
  "F f = None \<Longrightarrow> f_private_data fd = Some p \<Longrightarrow> f_ops fd = Some tbl \<Longrightarrow>
   ends (F(f \<mapsto> fd)) tbl' q = ends F tbl' q \<union> (if tbl' = tbl \<and> q = p then {f} else {})"
  by (auto simp: ends_def)

lemma files_ok_new:
  assumes ok: "files_ok x T F" and t: "T pid = Some fdt" and n: "n < length (fdt_fds fdt)"
    "fdt_fds fdt ! n = None" and f: "F f = None" "f_count fd = 1"
  shows "files_ok x (T(pid \<mapsto> install_fd fdt n f fl)) (F(f \<mapsto> fd))"
proof -
  let ?T = "T(pid \<mapsto> install_fd fdt n f fl)"
  note sl = slots_install [of T, OF t n]
  have fin: "finite (slots T g)" for g using ok finite_slots by (simp add: files_ok_def)
  have new: "slots T f = {}" "x f = 0" using ok f(1) by (simp_all add: files_ok_def)
  have card: "card (slots ?T g) = card (slots T g) + (if g = f then 1 else 0)" for g
    using sl fin by simp
  have "table_ok (install_fd fdt n f fl)" using table_ok_install files_ok_table [OF ok t] n by blast
  moreover have "f_count e = int (card (slots T g) + x g)" "0 < f_count e"
    if "F g = Some e" for g e using files_ok_count [OF ok that] .
  ultimately show ?thesis
    using ok f(2) new card unfolding files_ok_def by (auto simp: sl(1) split: if_splits)
qed

text \<open>What the call leaves: five new objects taken off the allocator, linked to each other.\<close>

definition pipe_made :: "u32 \<Rightarrow> kernel \<Rightarrow> ptr \<Rightarrow> ptr \<Rightarrow> ptr \<Rightarrow> ptr \<Rightarrow> ptr \<Rightarrow> kernel \<Rightarrow> bool" where
  "pipe_made flags k p rfl wfl rv wv k' \<longleftrightarrow>
     (let file = (\<lambda>tbl v. pipe_file tbl p flags (zero_file\<lparr>f_count := 1\<rparr>)\<lparr>f_vnode := Some v\<rparr>) in
     k_pipes k' = (k_pipes k)(p \<mapsto> new_pipe) \<and>
     k_files k' = (k_files k)(rfl \<mapsto> file Pipe_read_ops rv, wfl \<mapsto> file Pipe_write_ops wv) \<and>
     k_vnodes k' = (k_vnodes k)(rv \<mapsto> pipe_vnode Pipe_read_ops rfl (zero_vnode\<lparr>vn_id := k_vnode_id k\<rparr>),
       wv \<mapsto> pipe_vnode Pipe_write_ops wfl (zero_vnode\<lparr>vn_id := k_vnode_id k + 1\<rparr>)) \<and>
     k_pool k = p # rfl # wfl # rv # wv # k_pool k' \<and> k_threads k' = k_threads k)"

lemma syscall_pipe2_made:
  assumes ok: "objs_ok k" and t: "k_fdtables k pid = Some fdt"
    and s: "scan_two (take (unat (fdt_max_fds fdt)) (fdt_fds fdt)) 0 None = (Some rfd, Some wfd)"
    and r: "syscall_pipe2 pid flags k = Some (k', res)"
  obtains p rfl wfl rv wv c where "res = (0, Some (rfd, wfd))" "pipe_made flags k p rfl wfl rv wv k'"
    "k_fdtables k' = (k_fdtables k)(pid \<mapsto> install_fd (install_fd fdt rfd rfl c) wfd wfl c)"
proof -
  obtain p rfl wfl rv wv rest where pool: "k_pool k = p # rfl # wfl # rv # wv # rest"
    using r t s
    by (auto simp: syscall_pipe2_def Let_def kernel_alloc_def alloc_fd_def create_and_attach_vnode_def create_vnode_def
        set_file_def set_vnode_def split: option.splits list.splits prod.splits)
  have d: "distinct [p, rfl, wfl, rv, wv]" using ok pool by (auto simp: objs_ok_def)
  show thesis
    using r t s d
    by (intro that [of p rfl wfl rv wv])
      (auto simp: syscall_pipe2_def Let_def kernel_alloc_def alloc_fd_def create_and_attach_vnode_def create_vnode_def
        set_file_def set_vnode_def pool pipe_made_def set_fdtable_def fun_upd_twist)
qed

lemma pipe_made_pipes_ok:
  assumes ok: "pipes_ok k" and objs: "objs_ok k" and m: "pipe_made flags k p rfl wfl rv wv k'"
  shows "pipes_ok k'"
proof -
  have d: "distinct [p, rfl, wfl, rv, wv]" "k_files k rfl = None" "k_files k wfl = None" "k_pipes k p = None"
    "k_vnodes k rv = None" "k_vnodes k wv = None"
    using objs m by (auto simp: objs_ok_def pipe_made_def Let_def)
  define F where "F = (\<lambda>tbl v. pipe_file tbl p flags (zero_file\<lparr>f_count := 1\<rparr>)\<lparr>f_vnode := Some v\<rparr>)"
  have F: "f_private_data (F tbl v) = Some p" "f_ops (F tbl v) = Some tbl" "f_vnode (F tbl v) = Some v" for tbl v
    by (simp_all add: F_def pipe_file_def)
  have k': "k_files k' = (k_files k)(rfl \<mapsto> F Pipe_read_ops rv, wfl \<mapsto> F Pipe_write_ops wv)"
    "k_pipes k' = (k_pipes k)(p \<mapsto> new_pipe)"
    "k_vnodes k' = (k_vnodes k)(rv \<mapsto> pipe_vnode Pipe_read_ops rfl (zero_vnode\<lparr>vn_id := k_vnode_id k\<rparr>),
       wv \<mapsto> pipe_vnode Pipe_write_ops wfl (zero_vnode\<lparr>vn_id := k_vnode_id k + 1\<rparr>))"
    using m by (simp_all add: pipe_made_def Let_def F_def)
  have old: "pipe_counts_ok (k_files k) k q" for q by (rule pipes_ok_counts [OF ok])
  have ends: "ends (k_files k') tbl q = ends (k_files k) tbl q \<union>
      (if q \<noteq> p then {} else if tbl = Pipe_read_ops then {rfl} else if tbl = Pipe_write_ops then {wfl} else {})" for tbl q
    unfolding k' using d by (auto simp: ends_def F)
  have none: "ends (k_files k) Pipe_read_ops p = {}" "ends (k_files k) Pipe_write_ops p = {}"
    using old [of p] d by (simp_all add: pipe_counts_ok_def)
  have c: "ip_reader_count ip = int (card (ends (k_files k') Pipe_read_ops q)) \<and>
      ip_writer_count ip = int (card (ends (k_files k') Pipe_write_ops q))" if "k_pipes k' q = Some ip" for q ip
    using that old [of q] none by (cases "q = p") (auto simp: ends k'(2) pipe_counts_ok_def new_pipe_def)
  have fifo: "is_fifo e k' = is_fifo e k" if "k_files k f = Some e" for f e
  proof -
    have "f_vnode e = Some v \<Longrightarrow> v \<noteq> rv \<and> v \<noteq> wv" for v using ok d that unfolding pipes_ok_def by blast
    then show ?thesis by (auto simp: is_fifo_def k'(3) split: option.splits)
  qed
  have new: "is_fifo (F Pipe_read_ops rv) k'" "is_fifo (F Pipe_write_ops wv) k'"
    using d(1) by (auto simp: is_fifo_def F k'(3) pipe_vnode_def)
  have "is_fifo e k' \<longleftrightarrow> (\<exists>q. pipe_file_of e q)" if "k_files k' f = Some e" for f e
  proof (cases "k_files k f = Some e")
    case True
    then show ?thesis using fifo [OF True] ok unfolding pipes_ok_def by blast
  next
    case False
    then have "e = F Pipe_read_ops rv \<or> e = F Pipe_write_ops wv" using that by (auto simp: k' split: if_splits)
    then show ?thesis using new by (auto simp: pipe_file_of_def F)
  qed
  moreover have "k_pipes k' q \<noteq> None" if "k_files k' f = Some e" "pipe_file_of e q" for f e q
    using that ok unfolding pipes_ok_def by (auto simp: k' F pipe_file_of_def split: if_splits)
  moreover have "v \<in> dom (k_vnodes k')" if "k_files k' f = Some e" "f_vnode e = Some v" for f e v
    using that ok unfolding pipes_ok_def by (auto simp: k' F split: if_splits)
  moreover have "finite (dom (k_files k'))" using ok by (simp add: k' pipes_ok_def)
  ultimately show ?thesis using c unfolding pipes_ok_def by blast
qed

lemma syscall_pipe2_inv:
  assumes inv: "fd_inv k" and t: "k_fdtables k pid = Some fdt"
    and s: "scan_two (take (unat (fdt_max_fds fdt)) (fdt_fds fdt)) 0 None = (Some rfd, Some wfd)"
    and m: "pipe_made flags k p rfl wfl rv wv k'"
    and T: "k_fdtables k' = (k_fdtables k)(pid \<mapsto> install_fd (install_fd fdt rfd rfl c) wfd wfl c)"
  shows "fd_inv k'"
proof -
  have objs: "objs_ok k" and ok: "table_ok fdt" using inv fd_inv_table [OF inv t] by (simp_all add: fd_inv_def)
  have n: "rfd < wfd" "wfd < length (fdt_fds fdt)" "fdt_fds fdt ! rfd = None" "fdt_fds fdt ! wfd = None"
    using scan_two_Some [OF s] ok by (auto simp: table_ok_def)
  have d: "rfl \<noteq> wfl" "k_files k rfl = None" "k_files k wfl = None"
    using objs m by (auto simp: objs_ok_def pipe_made_def Let_def)
  define F where "F = (\<lambda>tbl v. pipe_file tbl p flags (zero_file\<lparr>f_count := 1\<rparr>)\<lparr>f_vnode := Some v\<rparr>)"
  have F: "f_count (F tbl v) = 1" for tbl v by (simp add: F_def pipe_file_def)
  let ?T = "(k_fdtables k)(pid \<mapsto> install_fd fdt rfd rfl c)" and ?F = "(k_files k)(rfl \<mapsto> F Pipe_read_ops rv)"
  have "rfd < length (fdt_fds fdt)" using n by simp
  note one = files_ok_new [OF fd_inv_files [OF inv] t this n(3) d(2) F [of Pipe_read_ops rv], of c]
  have w: "wfd < length (fdt_fds (install_fd fdt rfd rfl c))" "fdt_fds (install_fd fdt rfd rfl c) ! wfd = None"
    using n by (simp_all add: install_fd_def)
  have "?F wfl = None" using d by simp
  note two = files_ok_new [of _ ?T ?F pid, OF one _ w this F [of Pipe_write_ops wv], of c]
  have "objs_ok k'" using objs m by (auto simp: objs_ok_def pipe_made_def Let_def)
  moreover have "files_ok (\<lambda>_. 0) (k_fdtables k') (k_files k')"
    using two m T by (simp add: pipe_made_def Let_def F_def)
  ultimately show ?thesis using pipe_made_pipes_ok [OF _ objs m] inv by (simp add: fd_inv_def)
qed

section \<open>Seeking\<close>

definition seek_base :: "u64 \<Rightarrow> u64 \<Rightarrow> int \<Rightarrow> int option" where
  "seek_base pos sz whence =
     (if whence = SEEK_SET then Some 0 else if whence = SEEK_CUR then Some (uint pos)
      else if whence = SEEK_END then Some (uint sz) else None)"

lemma sint_small64: "uint (w :: u64) \<le> INT64_MAX \<Longrightarrow> sint w = uint w"
proof -
  assume "uint w \<le> INT64_MAX"
  then have "signed_take_bit 63 (uint w) = uint w"
    by (intro signed_take_bit_int_eq_self) (auto simp: INT64_MAX_def intro: order_trans [OF _ uint_ge_0])
  then show ?thesis by (simp add: sint_uint)
qed

lemma lseek_target_spec:
  assumes pos: "uint pos \<le> INT64_MAX" and sz: "uint sz \<le> INT64_MAX" and off: "- INT64_MAX \<le> off" "off \<le> INT64_MAX"
  shows "lseek_target pos sz off whence =
    (case seek_base pos sz whence of None \<Rightarrow> None
     | Some b \<Rightarrow> if 0 \<le> b + off \<and> b + off \<le> INT64_MAX then Some (b + off) else None)"
proof -
  have w: "uint (word_of_int x :: u64) = x" if "0 \<le> x" "x \<le> INT64_MAX" for x
    using that by (simp add: uint_word_of_int INT64_MAX_def)
  have up: "pos > word_of_int INT64_MAX - word_of_int off \<longleftrightarrow> uint pos + off > INT64_MAX" if "off > 0"
  proof -
    have "word_of_int INT64_MAX - word_of_int off = (word_of_int (INT64_MAX - off) :: u64)" by simp
    then show ?thesis using w [of "INT64_MAX - off"] that off by (simp add: word_less_def) linarith
  qed
  have down: "word_of_int (- off) > pos \<longleftrightarrow> uint pos + off < 0"
    "sint (pos - word_of_int (- off)) = uint pos + off \<or> uint pos + off < 0" if "off < 0"
  proof -
    show lt: "word_of_int (- off) > pos \<longleftrightarrow> uint pos + off < 0"
      using w [of "- off"] that off by (simp add: word_less_def) linarith
    show "sint (pos - word_of_int (- off)) = uint pos + off \<or> uint pos + off < 0"
    proof (cases "uint pos + off < 0")
      case False
      then have "uint (pos - word_of_int (- off)) = uint pos + off"
        using w [of "- off"] that off pos by (subst uint_sub_lem [THEN iffD1]) simp_all
      then show ?thesis using sint_small64 [of "pos - word_of_int (- off)"] pos that by simp
    qed simp
  qed
  show ?thesis
    using pos sz off up down sint_small64 [OF pos] sint_small64 [OF sz] uint_ge_0 [of pos] uint_ge_0 [of sz]
    unfolding lseek_target_def seek_base_def by (auto simp: SEEK_SET_def SEEK_CUR_def SEEK_END_def)
qed

lemma fd_inv_set_file:
  assumes inv: "fd_inv k" and g: "\<And>e. f_count (g e) = f_count e" "\<And>e. f_private_data (g e) = f_private_data e"
    "\<And>e. f_ops (g e) = f_ops e" "\<And>e. f_vnode (g e) = f_vnode e"
  shows "fd_inv (set_file f g k)"
proof (cases "k_files k f")
  case None
  then show ?thesis using inv by (simp add: set_file_def fun_upd_idem)
next
  case (Some e)
  then have "set_file f g k = k\<lparr>k_files := (k_files k)(f \<mapsto> g e)\<rparr>" by (simp add: set_file_def)
  then show ?thesis
    using pipes_ok_count [OF _ Some g(2-4)] files_ok_upd [OF fd_inv_files [OF inv] Some g(1)] inv
    by (simp add: fd_inv_def objs_ok_files [OF Some])
qed

lemma same_fd_inv: "same_fd k k' \<Longrightarrow> fd_inv k \<Longrightarrow> fd_inv k'"
  using same_fd_pipes_ok [of k k'] by (simp add: fd_inv_def same_fd_def)

lemma syscall_lseek_inv:
  assumes env: "env_ok fss ops" and inv: "fd_inv k" and r: "syscall_lseek ops pid fd off whence k = Some (k', res)"
  shows "fd_inv k'"
proof -
  have flush: "fd_inv k1" if "lseek_flush ops f e v vn k = (k1, r1)" for f e v vn k1 r1
    using that same_fd_inv [OF env_write(1) [OF env] inv] inv
    by (auto simp: lseek_flush_def intro!: fd_inv_set_file split: option.splits if_splits prod.splits)
  show ?thesis
    using r inv flush unfolding syscall_lseek_def
    by (auto intro!: fd_inv_set_file split: option.splits if_splits prod.splits)
qed

end
