(* ===== verification/Fd_Io.thy ===== *)
theory Fd_Io
  imports Fd_Table
begin

text \<open>
  Reading and writing through descriptors: \<^verbatim>\<open>read.c\<close>, \<^verbatim>\<open>write.c\<close>, \<^verbatim>\<open>readv.c\<close> and
  \<^verbatim>\<open>writev.c\<close> under \<^verbatim>\<open>kernel/sys/syscall/\<close>. Writes to a regular file go through a
  buffer of 4096 bytes in the open file. User memory is given and returned as
  lists of bytes. The operations behind a file, the sockets and the success of a
  \<^verbatim>\<open>kalloc\<close> are arguments.
\<close>

unbundle bit_operations_syntax

section \<open>Arguments of the calls\<close>

record io_env =
  io_ops :: file_ops
  io_kalloc :: "nat \<Rightarrow> kernel \<Rightarrow> bool"
  io_socket :: "ptr \<Rightarrow> kernel \<Rightarrow> bool"
  io_recvfrom :: "int \<Rightarrow> u32 \<Rightarrow> kernel \<Rightarrow> kernel \<times> u8 list \<times> int"
  io_sendto :: "int \<Rightarrow> u8 list \<Rightarrow> kernel \<Rightarrow> kernel \<times> int"

text \<open>
  \<^verbatim>\<open>io_socket\<close> is the test that the private data of a file without a vnode is a
  socket of family \<^verbatim>\<open>AF_UNIX\<close> or \<^verbatim>\<open>AF_INET\<close>.
\<close>

definition routed_to_socket :: "io_env \<Rightarrow> file_descriptor \<Rightarrow> kernel \<Rightarrow> bool" where
  "routed_to_socket env fd k \<longleftrightarrow>
     f_vnode fd = None \<and> (case f_private_data fd of None \<Rightarrow> False | Some s \<Rightarrow> io_socket env s k)"

definition WRITE_BUFFER :: nat where "WRITE_BUFFER = 4096"

section \<open>read and readv\<close>

definition syscall_read :: "io_env \<Rightarrow> nat \<Rightarrow> int \<Rightarrow> u64 \<Rightarrow> kernel \<Rightarrow> (kernel \<times> u8 list \<times> int) option" where
  "syscall_read env pid fd count k =
     (case k_fdtables k pid of None \<Rightarrow> None | Some fdt \<Rightarrow>
      if \<not> fd_in_range fdt fd then Some (k, [], - EBADF) else
      case fd_slot fdt fd of None \<Rightarrow> Some (k, [], - EBADF) | Some f \<Rightarrow>
      case k_files k f of None \<Rightarrow> None | Some e \<Rightarrow>
      if routed_to_socket env e k then Some (io_recvfrom env fd (ucast count) k) else
      case f_vnode e of None \<Rightarrow> Some (k, [], - EBADF) | Some v \<Rightarrow>
      case f_ops e of None \<Rightarrow> Some (k, [], - EBADF) | Some tbl \<Rightarrow>
      case k_vnodes k v of None \<Rightarrow> None | Some vn \<Rightarrow>
      if vn_type vn = VNODE_TYPE_DIR then Some (k, [], - EISDIR) else
      case fo_read (io_ops env) tbl of None \<Rightarrow> Some (k, [], - EINVAL) | Some rd \<Rightarrow>
      if \<not> io_kalloc env (unat count) k then Some (k, [], - ENOMEM) else
      case rd v count (f_pos e) k of (k1, kbuf, n) \<Rightarrow>
        if n > 0
        then Some (set_file f (f_pos_update (\<lambda>p. p + word_of_int n)) k1, take (nat n) kbuf, n)
        else Some (k1, [], n))"

text \<open>
  The loop of \<^verbatim>\<open>readv\<close> over the lengths of the vector; a length of None is an entry
  whose base is NULL. The result is the chunks read, the new offset and the total,
  or an error.
\<close>

fun readv_loop ::
    "io_env \<Rightarrow> (ptr \<Rightarrow> u64 \<Rightarrow> u64 \<Rightarrow> kernel \<Rightarrow> kernel \<times> u8 list \<times> int) \<Rightarrow> ptr \<Rightarrow> nat option list \<Rightarrow> u64 \<Rightarrow> int \<Rightarrow>
     kernel \<Rightarrow> kernel \<times> u8 list list \<times> (int + u64 \<times> int)" where
  "readv_loop env rd v [] off tot k = (k, [], Inr (off, tot))"
| "readv_loop env rd v (None # iov) off tot k = readv_loop env rd v iov off tot k"
| "readv_loop env rd v (Some len # iov) off tot k =
     (if len = 0 then readv_loop env rd v iov off tot k
      else if \<not> io_kalloc env len k then (k, [], Inl (- ENOMEM))
      else case rd v (word_of_nat len) off k of (k1, kbuf, n) \<Rightarrow>
        if n < 0 then (k1, [], Inl n)
        else let chunk = take (nat n) kbuf; off1 = off + word_of_int n
             in if n < int len then (k1, [chunk], Inr (off1, tot + n))
                else case readv_loop env rd v iov off1 (tot + n) k1 of
                       (k2, chunks, r) \<Rightarrow> (k2, chunk # chunks, r))"

definition syscall_readv ::
    "io_env \<Rightarrow> nat \<Rightarrow> int \<Rightarrow> nat option list option \<Rightarrow> int \<Rightarrow> kernel \<Rightarrow> (kernel \<times> u8 list list \<times> int) option" where
  "syscall_readv env pid fd iov iovcnt k =
     (case k_fdtables k pid of None \<Rightarrow> None | Some fdt \<Rightarrow>
      if \<not> fd_in_range fdt fd then Some (k, [], - EBADF) else
      case fd_slot fdt fd of None \<Rightarrow> Some (k, [], - EBADF) | Some f \<Rightarrow>
      case k_files k f of None \<Rightarrow> None | Some e \<Rightarrow>
      case f_vnode e of None \<Rightarrow> Some (k, [], - EBADF) | Some v \<Rightarrow>
      case (case f_ops e of None \<Rightarrow> None | Some tbl \<Rightarrow> fo_read (io_ops env) tbl) of
        None \<Rightarrow> Some (k, [], - ENOTTY)
      | Some rd \<Rightarrow>
          (case iov of None \<Rightarrow> Some (k, [], - EINVAL) | Some iovec \<Rightarrow>
           if iovcnt \<le> 0 then Some (k, [], - EINVAL) else
           case readv_loop env rd v (take (nat iovcnt) iovec) (f_pos e) 0 k of
             (k1, chunks, Inl err) \<Rightarrow> Some (k1, chunks, err)
           | (k1, chunks, Inr (off, tot)) \<Rightarrow>
               Some (set_file f (f_pos_update (\<lambda>_. off)) k1, chunks, tot)))"

section \<open>write and writev\<close>

text \<open>Handing the buffered bytes to the file: \<^verbatim>\<open>ops->write(vnode, write_buffer, size, pos - size)\<close>.\<close>

definition buf_write ::
    "(ptr \<Rightarrow> u8 list \<Rightarrow> u64 \<Rightarrow> kernel \<Rightarrow> kernel \<times> int) \<Rightarrow> ptr \<Rightarrow> file_descriptor \<Rightarrow> kernel \<Rightarrow> kernel \<times> int" where
  "buf_write w v e k =
     w v (case f_write_buffer e of None \<Rightarrow> [] | Some b \<Rightarrow> take (unat (f_write_buffer_size e)) b)
       (f_pos e - f_write_buffer_size e) k"

text \<open>Appending \<open>n\<close> bytes of user memory to the buffer.\<close>

definition buf_append :: "u8 list \<Rightarrow> nat \<Rightarrow> file_descriptor \<Rightarrow> file_descriptor" where
  "buf_append data n e =
     e\<lparr>f_write_buffer := map_option (\<lambda>b. memcopy b (unat (f_write_buffer_size e)) data 0 n) (f_write_buffer e),
       f_write_buffer_size := f_write_buffer_size e + word_of_nat n, f_pos := f_pos e + word_of_nat n\<rparr>"

definition with_buffer :: "file_descriptor \<Rightarrow> file_descriptor" where
  "with_buffer e =
     (case f_write_buffer e of
        None \<Rightarrow> e\<lparr>f_write_buffer := Some (replicate WRITE_BUFFER 0), f_write_buffer_size := 0\<rparr>
      | Some b \<Rightarrow> e)"

definition write_file ::
    "io_env \<Rightarrow> (ptr \<Rightarrow> u8 list \<Rightarrow> u64 \<Rightarrow> kernel \<Rightarrow> kernel \<times> int) \<Rightarrow> ptr \<Rightarrow> ptr \<Rightarrow> file_descriptor \<Rightarrow> u8 list \<Rightarrow> kernel \<Rightarrow>
     (kernel \<times> int) option" where
  "write_file env w v f e data k =
     (if f_write_buffer e = None \<and> \<not> io_kalloc env WRITE_BUFFER k then Some (k, - ENOMEM) else
      let e1 = with_buffer e; k1 = set_file f (\<lambda>_. e1) k; n = length data;
          (k2, full) =
            (if f_write_buffer_size e1 + word_of_nat n > 4096
             then case buf_write w v e1 k1 of (ka, s) \<Rightarrow>
                    if s = 0 \<and> f_write_buffer_size e1 > 0 then (ka, True)
                    else (set_file f (f_write_buffer_size_update (\<lambda>_. 0)) ka, False)
             else (k1, False))
      in if full then Some (k2, - ENOSPC)
         else if n > WRITE_BUFFER then
           (case k_files k2 f of None \<Rightarrow> None | Some e2 \<Rightarrow>
            case w v data (f_pos e2) k2 of (k3, s) \<Rightarrow>
              if s > 0 then Some (set_file f (f_pos_update (\<lambda>p. p + word_of_int s)) k3, s)
              else if s = 0 then Some (k3, - ENOSPC)
              else Some (k3, s))
         else Some (set_file f (buf_append data n) k2, int n))"

definition syscall_write :: "io_env \<Rightarrow> nat \<Rightarrow> int \<Rightarrow> u8 list \<Rightarrow> kernel \<Rightarrow> (kernel \<times> int) option" where
  "syscall_write env pid fd data k =
     (case k_fdtables k pid of None \<Rightarrow> None | Some fdt \<Rightarrow>
      if \<not> fd_in_range fdt fd then Some (k, - EBADF) else
      case fd_slot fdt fd of None \<Rightarrow> Some (k, - EBADF) | Some f \<Rightarrow>
      case k_files k f of None \<Rightarrow> None | Some e \<Rightarrow>
      if routed_to_socket env e k then Some (io_sendto env fd data k) else
      case f_vnode e of None \<Rightarrow> Some (k, - EBADF) | Some v \<Rightarrow>
      case f_ops e of None \<Rightarrow> Some (k, - EBADF) | Some tbl \<Rightarrow>
      case fo_write (io_ops env) tbl of None \<Rightarrow> Some (k, - ENOTTY) | Some w \<Rightarrow>
      case k_vnodes k v of None \<Rightarrow> None | Some vn \<Rightarrow>
      if vn_type vn = VNODE_TYPE_FILE \<and> vn_fs_instance vn \<noteq> None then write_file env w v f e data k
      else case w v data (f_pos e) k of (k1, s) \<Rightarrow>
        Some (if s > 0 then set_file f (f_pos_update (\<lambda>p. p + word_of_int s)) k1 else k1, s))"

text \<open>
  One entry of \<^verbatim>\<open>writev\<close> on a regular file, the \<^verbatim>\<open>while (count > 0)\<close> loop: the state,
  the total so far, and the value to return at once where the loop returns. A
  buffer with no room left after the flush would keep the loop from making
  progress; that case is None here, as a write beyond the data given would be.
\<close>

function writev_file ::
    "(ptr \<Rightarrow> u8 list \<Rightarrow> u64 \<Rightarrow> kernel \<Rightarrow> kernel \<times> int) \<Rightarrow> ptr \<Rightarrow> ptr \<Rightarrow> u8 list \<Rightarrow> int \<Rightarrow> kernel \<Rightarrow>
     (kernel \<times> int \<times> int option) option" where
  "writev_file w v f data tot k =
     (if data = [] then Some (k, tot, None) else
      case k_files k f of None \<Rightarrow> None | Some e \<Rightarrow>
      case (if f_write_buffer_size e = 4096
            then case buf_write w v e k of (ka, s) \<Rightarrow>
                   if s = 0 then (ka, True) else (set_file f (f_write_buffer_size_update (\<lambda>_. 0)) ka, False)
            else (k, False)) of
        (k1, True) \<Rightarrow> Some (k1, tot, Some (if tot > 0 then tot else - ENOSPC))
      | (k1, False) \<Rightarrow>
          (case k_files k1 f of None \<Rightarrow> None | Some e1 \<Rightarrow>
           if f_write_buffer_size e1 = 0 \<and> length data \<ge> 4096 then
             (case w v data (f_pos e1) k1 of (k2, s) \<Rightarrow>
                if s > 0 then
                  (if nat s > length data then None
                   else writev_file w v f (drop (nat s) data) (tot + s)
                          (set_file f (f_pos_update (\<lambda>p. p + word_of_int s)) k2))
                else if s = 0 then Some (k2, tot, Some (if tot > 0 then tot else - ENOSPC))
                else Some (k2, tot, Some (if tot > 0 then tot else s)))
           else
             let room = 4096 - f_write_buffer_size e1;
                 n = (if unat room > length data then length data else unat room)
             in if n = 0 then None
                else writev_file w v f (drop n data) (tot + int n) (set_file f (buf_append data n) k1)))"
  by pat_completeness auto
termination
  by (relation "measure (\<lambda>(w, v, f, data, tot, k). length data)") auto

declare writev_file.simps [simp del]

text \<open>The loop over the vector; an entry of None has a NULL base.\<close>

fun writev_loop ::
    "io_env \<Rightarrow> (ptr \<Rightarrow> u8 list \<Rightarrow> u64 \<Rightarrow> kernel \<Rightarrow> kernel \<times> int) \<Rightarrow> bool \<Rightarrow> ptr \<Rightarrow> ptr \<Rightarrow> u8 list option list \<Rightarrow> int \<Rightarrow>
     kernel \<Rightarrow> (kernel \<times> int) option" where
  "writev_loop env w is_file v f [] tot k = Some (k, tot)"
| "writev_loop env w is_file v f (None # iov) tot k = writev_loop env w is_file v f iov tot k"
| "writev_loop env w is_file v f (Some data # iov) tot k =
     (if data = [] then writev_loop env w is_file v f iov tot k else
      case k_files k f of None \<Rightarrow> None | Some e \<Rightarrow>
      if is_file then
        (if f_write_buffer e = None \<and> \<not> io_kalloc env WRITE_BUFFER k
         then Some (k, if tot > 0 then tot else - ENOMEM)
         else case writev_file w v f data tot (set_file f with_buffer k) of
                None \<Rightarrow> None
              | Some (k1, tot1, Some r) \<Rightarrow> Some (k1, r)
              | Some (k1, tot1, None) \<Rightarrow> writev_loop env w is_file v f iov tot1 k1)
      else
        (case w v data (f_pos e) k of (k1, s) \<Rightarrow>
           if s < 0 then Some (k1, if tot > 0 then tot else s)
           else if s = 0 then Some (k1, if tot = 0 then - ENOSPC else tot)
           else writev_loop env w is_file v f iov (tot + s)
                  (set_file f (f_pos_update (\<lambda>p. p + word_of_int s)) k1)))"

definition syscall_writev ::
    "io_env \<Rightarrow> nat \<Rightarrow> int \<Rightarrow> u8 list option list option \<Rightarrow> int \<Rightarrow> kernel \<Rightarrow> (kernel \<times> int) option" where
  "syscall_writev env pid fd iov iovcnt k =
     (case k_fdtables k pid of None \<Rightarrow> None | Some fdt \<Rightarrow>
      if \<not> fd_in_range fdt fd then Some (k, - EBADF) else
      case fd_slot fdt fd of None \<Rightarrow> Some (k, - EBADF) | Some f \<Rightarrow>
      case k_files k f of None \<Rightarrow> None | Some e \<Rightarrow>
      case f_vnode e of None \<Rightarrow> Some (k, - EBADF) | Some v \<Rightarrow>
      case (case f_ops e of None \<Rightarrow> None | Some tbl \<Rightarrow> fo_write (io_ops env) tbl) of
        None \<Rightarrow> Some (k, - ENOTTY)
      | Some w \<Rightarrow>
          (case iov of None \<Rightarrow> Some (k, - EINVAL) | Some iovec \<Rightarrow>
           if iovcnt \<le> 0 then Some (k, - EINVAL) else
           case k_vnodes k v of None \<Rightarrow> None | Some vn \<Rightarrow>
             writev_loop env w (vn_type vn = VNODE_TYPE_FILE \<and> vn_fs_instance vn \<noteq> None) v f
               (take (nat iovcnt) iovec) 0 k))"

section \<open>What a buffered file contains\<close>

text \<open>
  The content of a file as its user sees it is the content of the store with the
  buffered bytes laid over it, at the position before the current one.
\<close>

definition overlay :: "(nat \<Rightarrow> u8) \<Rightarrow> nat \<Rightarrow> u8 list \<Rightarrow> nat \<Rightarrow> u8" where
  "overlay c off data i = (if off \<le> i \<and> i < off + length data then data ! (i - off) else c i)"

definition pending :: "file_descriptor \<Rightarrow> u8 list" where
  "pending e = (case f_write_buffer e of None \<Rightarrow> [] | Some b \<Rightarrow> take (unat (f_write_buffer_size e)) b)"

definition file_view :: "(kernel \<Rightarrow> nat \<Rightarrow> u8) \<Rightarrow> kernel \<Rightarrow> file_descriptor \<Rightarrow> nat \<Rightarrow> u8" where
  "file_view c k e = overlay (c k) (unat (f_pos e) - unat (f_write_buffer_size e)) (pending e)"

definition buffer_ok :: "file_descriptor \<Rightarrow> bool" where
  "buffer_ok e \<longleftrightarrow> f_write_buffer_size e \<le> f_pos e \<and> f_write_buffer_size e \<le> 4096 \<and>
     (case f_write_buffer e of None \<Rightarrow> f_write_buffer_size e = 0 | Some b \<Rightarrow> length b = WRITE_BUFFER)"

text \<open>
  What is relied on in the write operation of a file: it stores all of the bytes at
  the given offset and does not touch the open files. \<open>c\<close> is the content it keeps,
  which open files are no part of.
\<close>

definition store_law :: "(kernel \<Rightarrow> nat \<Rightarrow> u8) \<Rightarrow> (u8 list \<Rightarrow> u64 \<Rightarrow> kernel \<Rightarrow> kernel \<times> int) \<Rightarrow> bool" where
  "store_law c w \<longleftrightarrow>
     (\<forall>k F. c (k\<lparr>k_files := F\<rparr>) = c k) \<and>
     (\<forall>data off k. snd (w data off k) = int (length data) \<and> k_files (fst (w data off k)) = k_files k \<and>
        c (fst (w data off k)) = overlay (c k) (unat off) data)"

lemma overlay_append: "overlay (overlay c off xs) (off + length xs) ys = overlay c off (xs @ ys)"
  by (rule ext) (auto simp: overlay_def nth_append)

lemma overlay_Nil [simp]: "overlay c off [] = c"
  by (rule ext) (auto simp: overlay_def)

lemma pending_length: "buffer_ok e \<Longrightarrow> length (pending e) = unat (f_write_buffer_size e)"
  by (auto simp: buffer_ok_def pending_def WRITE_BUFFER_def word_le_nat_alt split: option.splits)

lemma buffer_base: "buffer_ok e \<Longrightarrow> unat (f_pos e - f_write_buffer_size e) = unat (f_pos e) - unat (f_write_buffer_size e)"
  "buffer_ok e \<Longrightarrow> unat (f_write_buffer_size e) \<le> unat (f_pos e)"
  "buffer_ok e \<Longrightarrow> unat (f_write_buffer_size e) \<le> 4096"
  by (simp_all add: buffer_ok_def unat_sub word_le_nat_alt)

text \<open>Flushing: afterwards the store holds what the user saw before.\<close>

lemma buf_write_ok:
  assumes "store_law c (w v)" "buffer_ok e" "buf_write w v e k = (k', s)"
  shows "s = int (unat (f_write_buffer_size e))" "k_files k' = k_files k" "c k' = file_view c k e"
proof -
  have w: "w v (pending e) (f_pos e - f_write_buffer_size e) k = (k', s)"
    using assms(3) by (simp add: buf_write_def pending_def)
  show "s = int (unat (f_write_buffer_size e))" "k_files k' = k_files k" "c k' = file_view c k e"
    using assms(1) w pending_length [OF assms(2)] unfolding store_law_def file_view_def buffer_base(1) [OF assms(2), symmetric]
    by (metis fst_conv snd_conv)+
qed

lemma view_empty: "f_write_buffer_size e = 0 \<Longrightarrow> file_view c k e = c k"
  by (simp add: file_view_def pending_def split: option.splits)

lemma buffer_ok_empty: "buffer_ok e \<Longrightarrow> buffer_ok (e\<lparr>f_write_buffer_size := 0\<rparr>)"
  by (simp add: buffer_ok_def split: option.splits)

text \<open>Appending to the buffer: the user sees the bytes written at the position.\<close>

lemma buf_append_ok:
  assumes ok: "buffer_ok e" and b: "f_write_buffer e = Some b" and n: "n \<le> length data"
    "unat (f_write_buffer_size e) + n \<le> 4096" and pos: "unat (f_pos e) + n < 2 ^ 64"
  shows "buffer_ok (buf_append data n e)" "unat (f_pos (buf_append data n e)) = unat (f_pos e) + n"
    "file_view c k (buf_append data n e) = overlay (file_view c k e) (unat (f_pos e)) (take n data)"
proof -
  have n64: "n < 2 ^ 64" using pos by simp
  have u: "unat (word_of_nat n :: u64) = n" using n64 by (simp add: unat_of_nat take_bit_nat_eq_self)
  have p: "unat (f_pos e + word_of_nat n) = unat (f_pos e) + n"
    using pos u by (subst unat_add_lem [THEN iffD1]) simp_all
  have z: "unat (f_write_buffer_size e + word_of_nat n) = unat (f_write_buffer_size e) + n"
    using n(2) u by (subst unat_add_lem [THEN iffD1]) simp_all
  show "unat (f_pos (buf_append data n e)) = unat (f_pos e) + n" using p by (simp add: buf_append_def)
  have len: "length b = 4096" using ok b by (simp add: buffer_ok_def WRITE_BUFFER_def)
  show "buffer_ok (buf_append data n e)"
    using ok b n(2) p z by (simp add: buffer_ok_def buf_append_def word_le_nat_alt)
  have "pending (buf_append data n e) = pending e @ take n data"
    using b n len z by (simp add: pending_def buf_append_def memcopy_splice)
  moreover have "unat (f_pos e) = unat (f_pos e) - unat (f_write_buffer_size e) + length (pending e)"
    using pending_length [OF ok] buffer_base(2) [OF ok] by simp
  ultimately show "file_view c k (buf_append data n e) = overlay (file_view c k e) (unat (f_pos e)) (take n data)"
    using p z overlay_append [of "c k" "unat (f_pos e) - unat (f_write_buffer_size e)" "pending e" "take n data"]
    by (simp add: file_view_def buf_append_def)
qed

lemma with_buffer_ok:
  assumes "buffer_ok e"
  shows "buffer_ok (with_buffer e)" "f_pos (with_buffer e) = f_pos e" "f_write_buffer (with_buffer e) \<noteq> None"
    "file_view c k (with_buffer e) = file_view c k e"
  using assms by (auto simp: with_buffer_def buffer_ok_def file_view_def pending_def split: option.splits)

section \<open>Writes through the buffer\<close>

definition written ::
    "(kernel \<Rightarrow> nat \<Rightarrow> u8) \<Rightarrow> ptr \<Rightarrow> file_descriptor \<Rightarrow> u8 list \<Rightarrow> kernel \<Rightarrow> kernel \<Rightarrow> bool" where
  "written c f e data k k' \<longleftrightarrow>
     (\<exists>e'. k_files k' = (k_files k)(f \<mapsto> e') \<and> buffer_ok e' \<and>
        (f_write_buffer e' = None \<longrightarrow> f_write_buffer e = None) \<and> unat (f_pos e') = unat (f_pos e) + length data \<and>
        file_view c k' e' = overlay (file_view c k e) (unat (f_pos e)) data)"

lemma store_files: "store_law c w \<Longrightarrow> c (set_file f g k) = c k"
  by (simp add: store_law_def set_file_def)

lemma view_files: "store_law c w \<Longrightarrow> file_view c (set_file f g k) e = file_view c k e"
  by (simp add: file_view_def store_files)

lemma store_write:
  assumes "store_law c (w v)" "w v data off k = (k', s)"
  shows "s = int (length data)" "k_files k' = k_files k" "c k' = overlay (c k) (unat off) data"
  using assms unfolding store_law_def by (metis fst_conv snd_conv)+

text \<open>Writing past an empty buffer.\<close>

lemma direct_write:
  assumes st: "store_law c (w v)" and f: "k_files k f = Some e" and ok: "buffer_ok e" and z: "f_write_buffer_size e = 0"
    and pos: "unat (f_pos e) + length data < 2 ^ 64"
    and w: "w v data (f_pos e) k = (k', s)"
  shows "s = int (length data)" "written c f e data k (set_file f (f_pos_update (\<lambda>p. p + word_of_int s)) k')"
proof -
  note sw = store_write [of c w v, OF st w]
  show s: "s = int (length data)" by (rule sw(1))
  have n: "length data < 2 ^ 64" using pos by simp
  have u: "unat (word_of_nat (length data) :: u64) = length data" using n by (simp add: unat_of_nat take_bit_nat_eq_self)
  have p: "unat (f_pos e + word_of_nat (length data)) = unat (f_pos e) + length data"
    using pos u by (subst unat_add_lem [THEN iffD1]) simp_all
  let ?e = "f_pos_update (\<lambda>p. p + word_of_int s) e"
  have "k_files (set_file f (f_pos_update (\<lambda>p. p + word_of_int s)) k') = (k_files k)(f \<mapsto> ?e)"
    using f sw(2) by (simp add: set_file_def)
  moreover have "buffer_ok ?e" using ok z by (simp add: buffer_ok_def split: option.splits)
  moreover have "file_view c (set_file f (f_pos_update (\<lambda>p. p + word_of_int s)) k') ?e = overlay (file_view c k e) (unat (f_pos e)) data"
    using z sw(3) by (simp add: view_empty store_files [OF st])
  ultimately show "written c f e data k (set_file f (f_pos_update (\<lambda>p. p + word_of_int s)) k')"
    using p unfolding written_def by (intro exI [of _ ?e]) (simp add: s)
qed

text \<open>Flushing leaves an empty buffer and the same view.\<close>

lemma flush_step:
  assumes st: "store_law c (w v)" and f: "k_files k f = Some e" and ok: "buffer_ok e"
    and w: "buf_write w v e k = (k', s)"
  shows "k_files (set_file f (f_write_buffer_size_update (\<lambda>_. 0)) k') = (k_files k)(f \<mapsto> e\<lparr>f_write_buffer_size := 0\<rparr>)"
    "file_view c (set_file f (f_write_buffer_size_update (\<lambda>_. 0)) k') (e\<lparr>f_write_buffer_size := 0\<rparr>) = file_view c k e"
    "s = 0 \<longleftrightarrow> f_write_buffer_size e = 0"
proof -
  note bw = buf_write_ok [of c w v, OF st ok w]
  show "k_files (set_file f (f_write_buffer_size_update (\<lambda>_. 0)) k') = (k_files k)(f \<mapsto> e\<lparr>f_write_buffer_size := 0\<rparr>)"
    using bw(2) f by (simp add: set_file_def)
  show "file_view c (set_file f (f_write_buffer_size_update (\<lambda>_. 0)) k') (e\<lparr>f_write_buffer_size := 0\<rparr>) = file_view c k e"
    using bw(3) by (simp add: view_empty store_files [OF st])
  show "s = 0 \<longleftrightarrow> f_write_buffer_size e = 0" using bw(1) by (simp add: unat_eq_0 del: of_nat_unat)
qed

lemma flush_written:
  assumes st: "store_law c (w v)" and f: "k_files k f = Some e" and ok: "buffer_ok e"
    and w: "buf_write w v e k = (k', s)"
  shows "written c f e [] k (set_file f (f_write_buffer_size_update (\<lambda>_. 0)) k')"
  using flush_step [of c w v, OF assms] buffer_ok_empty [OF ok] unfolding written_def
  by (intro exI [of _ "e\<lparr>f_write_buffer_size := 0\<rparr>"]) simp

lemma written_trans:
  assumes "written c f e xs k k1" "k_files k1 f = Some e1" "written c f e1 ys k1 k2"
  shows "written c f e (xs @ ys) k k2"
proof -
  have e1: "k_files k1 = (k_files k)(f \<mapsto> e1)" "f_write_buffer e1 = None \<longrightarrow> f_write_buffer e = None"
    "unat (f_pos e1) = unat (f_pos e) + length xs" "file_view c k1 e1 = overlay (file_view c k e) (unat (f_pos e)) xs"
    using assms(1,2) by (auto simp: written_def)
  obtain e2 where e2: "k_files k2 = (k_files k1)(f \<mapsto> e2)" "buffer_ok e2"
    "f_write_buffer e2 = None \<longrightarrow> f_write_buffer e1 = None" "unat (f_pos e2) = unat (f_pos e1) + length ys"
    "file_view c k2 e2 = overlay (file_view c k1 e1) (unat (f_pos e1)) ys"
    using assms(3) by (auto simp: written_def)
  show ?thesis
    unfolding written_def using e1 e2 by (intro exI [of _ e2]) (simp add: overlay_append)
qed

lemma written_file: "written c f e data k k' \<Longrightarrow> \<exists>e'. k_files k' f = Some e' \<and> buffer_ok e' \<and>
   (f_write_buffer e' = None \<longrightarrow> f_write_buffer e = None) \<and> unat (f_pos e') = unat (f_pos e) + length data"
  by (auto simp: written_def)

lemma append_step:
  assumes st: "store_law c (w v)" and f: "k_files k f = Some e" and ok: "buffer_ok e" and b: "f_write_buffer e \<noteq> None"
    and n: "n \<le> length data" "unat (f_write_buffer_size e) + n \<le> 4096" and pos: "unat (f_pos e) + n < 2 ^ 64"
  shows "written c f e (take n data) k (set_file f (buf_append data n) k)"
proof -
  obtain buf where "f_write_buffer e = Some buf" using b by blast
  note a = buf_append_ok [OF ok this n pos]
  have "k_files (set_file f (buf_append data n) k) = (k_files k)(f \<mapsto> buf_append data n e)"
    using f by (simp add: set_file_def)
  then show ?thesis
    using a n(1) b unfolding written_def
    by (intro exI [of _ "buf_append data n e"]) (simp add: view_files [OF st] buf_append_def)
qed

lemma write_file_ok:
  assumes st: "store_law c (w v)" and f: "k_files k f = Some e" and ok: "buffer_ok e"
    and mem: "io_kalloc env WRITE_BUFFER k" and pos: "unat (f_pos e) + length data < 2 ^ 63"
  obtains k' where "write_file env w v f e data k = Some (k', int (length data))" "written c f e data k k'"
proof -
  define e1 k1 where "e1 = with_buffer e" and "k1 = set_file f (\<lambda>_. e1) k"
  have k1: "k_files k1 = (k_files k)(f \<mapsto> e1)" using f by (simp add: k1_def set_file_def)
  note wb = with_buffer_ok [OF ok, folded e1_def]
  have v1: "file_view c k1 e1 = file_view c k e" using wb(4) by (simp add: k1_def view_files [OF st])
  have n63: "length data < 2 ^ 63" using pos by simp
  have u: "unat (word_of_nat (length data) :: u64) = length data" using n63 by (simp add: unat_of_nat take_bit_nat_eq_self)
  have sum: "f_write_buffer_size e1 + word_of_nat (length data) > 4096 \<longleftrightarrow>
      unat (f_write_buffer_size e1) + length data > 4096"
  proof -
    have "unat (f_write_buffer_size e1 + word_of_nat (length data)) = unat (f_write_buffer_size e1) + length data"
      using n63 u buffer_base(3) [OF wb(1)] by (subst unat_add_lem [THEN iffD1]) simp_all
    then show ?thesis by (simp add: word_less_nat_alt)
  qed
  obtain k2 e2 where k2: "(if f_write_buffer_size e1 + word_of_nat (length data) > 4096
             then case buf_write w v e1 k1 of (ka, s) \<Rightarrow>
                    if s = 0 \<and> f_write_buffer_size e1 > 0 then (ka, True)
                    else (set_file f (f_write_buffer_size_update (\<lambda>_. 0)) ka, False)
             else (k1, False)) = (k2, False)"
    "k_files k2 = (k_files k)(f \<mapsto> e2)" "buffer_ok e2" "f_write_buffer e2 \<noteq> None" "f_pos e2 = f_pos e"
    "file_view c k2 e2 = file_view c k e" "length data > 4096 \<longrightarrow> f_write_buffer_size e2 = 0"
    "length data \<le> 4096 \<longrightarrow> unat (f_write_buffer_size e2) + length data \<le> 4096"
  proof (cases "unat (f_write_buffer_size e1) + length data > 4096")
    case False
    then show thesis using that [of k1 e1] sum k1 wb v1 by simp
  next
    case True
    obtain ka s where w: "buf_write w v e1 k1 = (ka, s)" by fastforce
    note fl = flush_step [of c w v k1 f e1, OF st _ wb(1) w]
    show thesis
      using that [of "set_file f (f_write_buffer_size_update (\<lambda>_. 0)) ka" "e1\<lparr>f_write_buffer_size := 0\<rparr>"]
        True sum w fl k1 wb v1 buffer_ok_empty [OF wb(1)] by auto
  qed
  have wr: "written c f e data k k'" if "written c f e2 data k2 k'" for k'
    using that k2(2,4,5,6) by (auto simp: written_def)
  have f2: "k_files k2 f = Some e2" using k2(2) by simp
  have p2: "unat (f_pos e2) + length data < 2 ^ 64" using pos k2(5) by simp
  have body: "write_file env w v f e data k =
     (if length data > WRITE_BUFFER then
           (case w v data (f_pos e2) k2 of (k3, s) \<Rightarrow>
              if s > 0 then Some (set_file f (f_pos_update (\<lambda>p. p + word_of_int s)) k3, s)
              else if s = 0 then Some (k3, - ENOSPC)
              else Some (k3, s))
         else Some (set_file f (buf_append data (length data)) k2, int (length data)))"
    using mem f2 by (simp only: write_file_def Let_def e1_def [symmetric] k1_def [symmetric] k2(1) prod.case if_False
        simp_thms option.case)
  show thesis
  proof (cases "length data > WRITE_BUFFER")
    case True
    obtain k3 s where w: "w v data (f_pos e2) k2 = (k3, s)" by fastforce
    have z: "f_write_buffer_size e2 = 0" using True k2(7) by (simp add: WRITE_BUFFER_def)
    note d = direct_write [of c w v, OF st f2 k2(3) z p2 w]
    show thesis by (rule that) (use body True w d wr in \<open>auto simp: WRITE_BUFFER_def\<close>)
  next
    case False
    then have n: "unat (f_write_buffer_size e2) + length data \<le> 4096" using k2(8) by (simp add: WRITE_BUFFER_def)
    show thesis
      by (rule that) (use body False append_step [of c w v, OF st f2 k2(3,4) order_refl n p2] wr in simp_all)
  qed
qed

lemma writev_file_ok:
  assumes st: "store_law c (w v)"
  shows "k_files k f = Some e \<Longrightarrow> buffer_ok e \<Longrightarrow> f_write_buffer e \<noteq> None \<Longrightarrow> unat (f_pos e) + length data < 2 ^ 63 \<Longrightarrow>
    \<exists>k'. writev_file w v f data tot k = Some (k', tot + int (length data), None) \<and> written c f e data k k'"
proof (induction "length data" arbitrary: data tot k e rule: less_induct)
  case less
  show ?case
  proof (cases "data = []")
    case True
    have "written c f e [] k k" unfolding written_def using less.prems by (intro exI [of _ e]) auto
    then show ?thesis using True by (simp add: writev_file.simps)
  next
    case False
    obtain k1 where k1: "(if f_write_buffer_size e = 4096
            then case buf_write w v e k of (ka, s) \<Rightarrow>
                   if s = 0 then (ka, True) else (set_file f (f_write_buffer_size_update (\<lambda>_. 0)) ka, False)
            else (k, False)) = (k1, False)" "written c f e [] k k1"
      "\<exists>e1. k_files k1 f = Some e1 \<and> f_write_buffer_size e1 \<noteq> 4096"
    proof (cases "f_write_buffer_size e = 4096")
      case True
      obtain ka s where w: "buf_write w v e k = (ka, s)" by fastforce
      show thesis
        using that [of "set_file f (f_write_buffer_size_update (\<lambda>_. 0)) ka"] True w
          flush_step [of c w v, OF st less.prems(1,2) w] flush_written [of c w v, OF st less.prems(1,2) w] by auto
    next
      case False
      have "written c f e [] k k" unfolding written_def using less.prems by (intro exI [of _ e]) auto
      then show thesis using that [of k] False less.prems(1) by simp
    qed
    obtain e1 where e1: "k_files k1 f = Some e1" "buffer_ok e1" "f_write_buffer e1 \<noteq> None" "unat (f_pos e1) = unat (f_pos e)"
      "f_write_buffer_size e1 \<noteq> 4096"
      using written_file [OF k1(2)] k1(3) less.prems(3) by auto
    have next_step: "\<exists>k'. writev_file w v f (drop n data) tot' k2 = Some (k', tot' + int (length (drop n data)), None) \<and>
        written c f e data k k'" if h: "written c f e1 (take n data) k1 k2" "0 < n" "n \<le> length data" for k2 n tot'
    proof -
      have t: "written c f e (take n data) k k2" using written_trans [OF k1(2) e1(1) h(1)] by simp
      then obtain e2 where e2: "k_files k2 f = Some e2" "buffer_ok e2" "f_write_buffer e2 \<noteq> None"
        "unat (f_pos e2) = unat (f_pos e) + n"
        using written_file [OF t] less.prems(3) h(3) by auto
      obtain k' where "writev_file w v f (drop n data) tot' k2 = Some (k', tot' + int (length (drop n data)), None)"
        "written c f e2 (drop n data) k2 k'"
        using less.hyps [of "drop n data" k2 e2 tot'] h e2 less.prems(4) False by auto
      then show ?thesis using written_trans [OF t e2(1)] by fastforce
    qed
    note step = writev_file.simps [of w v f data tot k, unfolded less.prems(1) k1(1) option.case prod.case bool.case e1(1)]
    show ?thesis
    proof (cases "f_write_buffer_size e1 = 0 \<and> length data \<ge> 4096")
      case True
      obtain k2 s where w: "w v data (f_pos e1) k1 = (k2, s)" by fastforce
      have p: "unat (f_pos e1) + length data < 2 ^ 64" using less.prems(4) e1(4) by simp
      note d = direct_write [of c w v, OF st e1(1,2) _ p w]
      have "written c f e1 (take (length data) data) k1 (set_file f (f_pos_update (\<lambda>p. p + word_of_int s)) k2)"
        using d(2) True by simp
      from next_step [OF this, of "tot + s"] show ?thesis
        using True step w d(1) False by simp
    next
      case room: False
      define n where "n = (if unat (4096 - f_write_buffer_size e1) > length data then length data
        else unat (4096 - f_write_buffer_size e1))"
      have le: "f_write_buffer_size e1 \<le> 4096" using e1(2) by (simp add: buffer_ok_def)
      then have u: "unat (4096 - f_write_buffer_size e1) = 4096 - unat (f_write_buffer_size e1)" by (simp add: unat_sub)
      have "unat (f_write_buffer_size e1) \<noteq> unat (4096 :: u64)" using e1(5) unsigned_word_eqI by blast
      then have n: "0 < n" "n \<le> length data" "unat (f_write_buffer_size e1) + n \<le> 4096"
        using u buffer_base(3) [OF e1(2)] False by (auto simp: n_def)
      have "unat (f_pos e1) + n < 2 ^ 64" using less.prems(4) e1(4) n(2) by simp
      from append_step [of c w v, OF st e1(1,2,3) n(2,3) this]
      show ?thesis
        using next_step [OF _ n(1,2), of _ "tot + int n"] step room False n by (simp add: Let_def n_def [symmetric] of_nat_diff)
    qed
  qed
qed

definition iov_bytes :: "u8 list option list \<Rightarrow> u8 list" where
  "iov_bytes iov = concat (map (\<lambda>x. case x of None \<Rightarrow> [] | Some data \<Rightarrow> data) iov)"

lemma with_buffer_written:
  assumes st: "store_law c (w v)" and f: "k_files k f = Some e" and ok: "buffer_ok e"
  shows "written c f e [] k (set_file f with_buffer k)" "k_files (set_file f with_buffer k) f = Some (with_buffer e)"
proof -
  show "k_files (set_file f with_buffer k) f = Some (with_buffer e)" using f by (simp add: set_file_def)
  show "written c f e [] k (set_file f with_buffer k)"
    unfolding written_def using with_buffer_ok [OF ok] f
    by (intro exI [of _ "with_buffer e"]) (auto simp: view_files [OF st], simp add: set_file_def)
qed

lemma writev_loop_ok:
  assumes st: "store_law c (w v)" and mem: "\<And>k. io_kalloc env WRITE_BUFFER k"
  shows "k_files k f = Some e \<Longrightarrow> buffer_ok e \<Longrightarrow> unat (f_pos e) + length (iov_bytes iov) < 2 ^ 63 \<Longrightarrow>
    \<exists>k'. writev_loop env w True v f iov tot k = Some (k', tot + int (length (iov_bytes iov))) \<and>
      written c f e (iov_bytes iov) k k'"
proof (induction iov arbitrary: k e tot)
  case Nil
  have "written c f e [] k k" unfolding written_def using Nil by (intro exI [of _ e]) auto
  then show ?case by (simp add: iov_bytes_def)
next
  case (Cons x iov)
  show ?case
  proof (cases "x = None \<or> x = Some []")
    case True
    then show ?thesis using Cons.IH [of k e tot] Cons.prems by (auto simp: iov_bytes_def)
  next
    case False
    then obtain data where x: "x = Some data" "data \<noteq> []" by (cases x) auto
    have b: "iov_bytes (x # iov) = data @ iov_bytes iov" by (simp add: iov_bytes_def x)
    note wb = with_buffer_written [of c w v, OF st Cons.prems(1,2)]
    note ok = with_buffer_ok [OF Cons.prems(2)]
    obtain k1 where k1: "writev_file w v f data tot (set_file f with_buffer k) = Some (k1, tot + int (length data), None)"
      "written c f (with_buffer e) data (set_file f with_buffer k) k1"
      using writev_file_ok [of c w v "set_file f with_buffer k" f "with_buffer e" data tot, OF st wb(2) ok(1,3)]
        Cons.prems(3) b ok(2) by auto
    have w1: "written c f e data k k1" using written_trans [OF wb(1,2) k1(2)] by simp
    obtain e1 where e1: "k_files k1 f = Some e1" "buffer_ok e1" "unat (f_pos e1) = unat (f_pos e) + length data"
      using written_file [OF w1] by blast
    obtain k2 where k2: "writev_loop env w True v f iov (tot + int (length data)) k1 =
        Some (k2, tot + int (length data) + int (length (iov_bytes iov)))" "written c f e1 (iov_bytes iov) k1 k2"
      using Cons.IH [OF e1(1,2)] e1(3) Cons.prems(3) b by fastforce
    show ?thesis
      using written_trans [OF w1 e1(1) k2(2)] k1(1) k2(1) Cons.prems(1) x mem by (simp add: b [unfolded x(1)])
  qed
qed

section \<open>The calls leave the descriptor invariant alone\<close>

definition io_ok :: "(ptr \<Rightarrow> fs_driver option) \<Rightarrow> io_env \<Rightarrow> bool" where
  "io_ok fss env \<longleftrightarrow> env_ok fss (io_ops env) \<and>
     (\<forall>tbl rd v n off k. fo_read (io_ops env) tbl = Some rd \<longrightarrow> same_fd k (fst (rd v n off k))) \<and>
     (\<forall>fd n k. same_fd k (fst (io_recvfrom env fd n k))) \<and> (\<forall>fd data k. same_fd k (fst (io_sendto env fd data k)))"

lemma io_ok_env: "io_ok fss env \<Longrightarrow> env_ok fss (io_ops env)"
  by (simp add: io_ok_def)

lemma io_ok_read:
  "io_ok fss env \<Longrightarrow> fo_read (io_ops env) tbl = Some rd \<Longrightarrow> rd v n off k = (k', r) \<Longrightarrow> fd_inv k \<Longrightarrow> fd_inv k'"
  unfolding io_ok_def by (metis fst_conv same_fd_inv)

lemma io_ok_write:
  "io_ok fss env \<Longrightarrow> fo_write (io_ops env) tbl = Some w \<Longrightarrow> w v data off k = (k', s) \<Longrightarrow> fd_inv k \<Longrightarrow> fd_inv k'"
  using env_write(1) [OF io_ok_env] same_fd_inv by blast

lemma io_ok_recv: "io_ok fss env \<Longrightarrow> io_recvfrom env fd n k = (k', r) \<Longrightarrow> fd_inv k \<Longrightarrow> fd_inv k'"
  unfolding io_ok_def by (metis fst_conv same_fd_inv)

lemma io_ok_send: "io_ok fss env \<Longrightarrow> io_sendto env fd data k = (k', r) \<Longrightarrow> fd_inv k \<Longrightarrow> fd_inv k'"
  unfolding io_ok_def by (metis fst_conv same_fd_inv)

lemma fd_inv_pos [intro]: "fd_inv k \<Longrightarrow> fd_inv (set_file f (f_pos_update g) k)"
  by (rule fd_inv_set_file) auto

lemma fd_inv_size [intro]: "fd_inv k \<Longrightarrow> fd_inv (set_file f (f_write_buffer_size_update g) k)"
  by (rule fd_inv_set_file) auto

lemma fd_inv_append [intro]: "fd_inv k \<Longrightarrow> fd_inv (set_file f (buf_append data n) k)"
  by (rule fd_inv_set_file) (auto simp: buf_append_def)

lemma fd_inv_with_buffer [intro]: "fd_inv k \<Longrightarrow> fd_inv (set_file f with_buffer k)"
  by (rule fd_inv_set_file) (auto simp: with_buffer_def split: option.splits)

lemma syscall_read_inv:
  "io_ok fss env \<Longrightarrow> fd_inv k \<Longrightarrow> syscall_read env pid fd n k = Some (k', r) \<Longrightarrow> fd_inv k'"
  by (auto simp: syscall_read_def split: option.splits if_splits prod.splits dest: io_ok_read io_ok_recv)

lemma readv_loop_inv:
  assumes "io_ok fss env" "fo_read (io_ops env) tbl = Some rd"
  shows "fd_inv k \<Longrightarrow> readv_loop env rd v iov off tot k = (k', r) \<Longrightarrow> fd_inv k'"
proof (induction iov arbitrary: off tot k r)
  case (Cons x iov)
  show ?case
  proof (cases "x = None \<or> x = Some 0")
    case True
    then have "readv_loop env rd v iov off tot k = (k', r)" using Cons.prems(2) by auto
    then show ?thesis by (rule Cons.IH [OF Cons.prems(1)])
  next
    case False
    then obtain len where x: "x = Some len" "len \<noteq> 0" by (cases x) auto
    obtain k1 kbuf n where rd: "rd v (word_of_nat len) off k = (k1, kbuf, n)" by (metis prod_cases3)
    have k1: "fd_inv k1" by (rule io_ok_read [OF assms rd Cons.prems(1)])
    show ?thesis
      using Cons.prems Cons.IH [OF k1] k1 x rd
      by (auto simp: Let_def split: if_splits prod.splits)
  qed
qed auto

lemma writev_file_inv:
  assumes w: "\<And>data off k k' s. w v data off k = (k', s) \<Longrightarrow> fd_inv k \<Longrightarrow> fd_inv k'"
  shows "fd_inv k \<Longrightarrow> writev_file w v f data tot k = Some (k', r) \<Longrightarrow> fd_inv k'"
proof (induction "length data" arbitrary: data tot k rule: less_induct)
  case less
  show ?case
  proof (cases "data = []")
    case True
    then show ?thesis using less.prems by (simp add: writev_file.simps)
  next
    case False
    have bw: "fd_inv kb" if "buf_write w v e ka = (kb, s)" "fd_inv ka" for e ka kb s
      using that w by (auto simp: buf_write_def)
    have IH: "fd_inv k'" if "writev_file w v f (drop n data) t k2 = Some (k', r)" "0 < n" "fd_inv k2" for n t k2
      using less.hyps [of "drop n data" k2 t] that False by simp
    obtain e where e: "k_files k f = Some e"
      using less.prems(2) False by (cases "k_files k f") (auto simp: writev_file.simps [of w v f data tot k])
    obtain k1 b where fl: "(if f_write_buffer_size e = 4096
            then case buf_write w v e k of (ka, s) \<Rightarrow>
                   if s = 0 then (ka, True) else (set_file f (f_write_buffer_size_update (\<lambda>_. 0)) ka, False)
            else (k, False)) = (k1, b)" by fastforce
    have k1: "fd_inv k1" using fl bw less.prems(1) by (auto split: if_splits prod.splits)
    note step = less.prems(2) [unfolded writev_file.simps [of w v f data tot k] e option.case fl prod.case]
    show ?thesis
    proof (cases b)
      case True
      then show ?thesis using step k1 False by simp
    next
      case nb: False
      then obtain e1 where e1: "k_files k1 f = Some e1" using step False by (cases "k_files k1 f") auto
      show ?thesis
      proof (cases "f_write_buffer_size e1 = 0 \<and> length data \<ge> 4096")
        case True
        obtain k2 s where k2: "w v data (f_pos e1) k1 = (k2, s)" by fastforce
        then have "fd_inv k2" using w k1 by blast
        then show ?thesis
          using step nb e1 True k2 False IH [of "nat s", OF _ _ fd_inv_pos] by (auto split: if_splits)
      next
        case room: False
        define n where "n = (if unat (4096 - f_write_buffer_size e1) > length data then length data
          else unat (4096 - f_write_buffer_size e1))"
        show ?thesis
          using step nb e1 room False IH [of n, OF _ _ fd_inv_append [OF k1]]
          by (simp add: Let_def n_def [symmetric] split: if_splits)
      qed
    qed
  qed
qed

lemma writev_loop_inv:
  assumes w: "\<And>data off k k' s. w v data off k = (k', s) \<Longrightarrow> fd_inv k \<Longrightarrow> fd_inv k'"
  shows "fd_inv k \<Longrightarrow> writev_loop env w is_file v f iov tot k = Some (k', r) \<Longrightarrow> fd_inv k'"
proof (induction iov arbitrary: tot k)
  case (Cons x iov)
  show ?case
  proof (cases "x = None \<or> x = Some []")
    case True
    then have "writev_loop env w is_file v f iov tot k = Some (k', r)" using Cons.prems(2) by auto
    then show ?thesis by (rule Cons.IH [OF Cons.prems(1)])
  next
    case False
    then obtain data where x: "x = Some data" "data \<noteq> []" by (cases x) auto
    obtain e where e: "k_files k f = Some e" using Cons.prems(2) x by (cases "k_files k f") auto
    have fil: "fd_inv k1" if "writev_file w v f data tot (set_file f with_buffer k) = Some (k1, z)" for k1 z
      by (rule writev_file_inv [OF w fd_inv_with_buffer [OF Cons.prems(1)] that])
    obtain k1 s where k1: "w v data (f_pos e) k = (k1, s)" by fastforce
    then have inv1: "fd_inv k1" using w Cons.prems(1) by blast
    show ?thesis
      using Cons.prems x e k1 inv1 fil Cons.IH [OF fil] Cons.IH [OF fd_inv_pos [OF inv1]]
      by (auto split: if_splits option.splits prod.splits)
  qed
qed simp

lemma syscall_readv_inv:
  assumes io: "io_ok fss env" and inv: "fd_inv k" and r: "syscall_readv env pid fd iov n k = Some (k', r)"
  shows "fd_inv k'"
proof -
  have loop: "fd_inv k1" if "fo_read (io_ops env) tbl = Some rd" "readv_loop env rd v io off 0 k = (k1, z)" for tbl rd v io off k1 z
    using readv_loop_inv [OF io that(1) inv that(2)] .
  show ?thesis
    using r inv loop by (fastforce simp: syscall_readv_def split: option.splits if_splits prod.splits sum.splits)
qed

lemma write_file_inv:
  assumes w: "\<And>data off k k' s. w v data off k = (k', s) \<Longrightarrow> fd_inv k \<Longrightarrow> fd_inv k'"
    and f: "k_files k f = Some e" and inv: "fd_inv k" and r: "write_file env w v f e data k = Some (k', r)"
  shows "fd_inv k'"
proof -
  have "set_file f (\<lambda>_. with_buffer e) k = set_file f with_buffer k" using f by (simp add: set_file_def)
  then have k1: "fd_inv (set_file f (\<lambda>_. with_buffer e) k)" using inv by auto
  have bw: "fd_inv kb" if "buf_write w v d ka = (kb, s)" "fd_inv ka" for d ka kb s
    using that w by (auto simp: buf_write_def)
  obtain k2 full where k2: "(if f_write_buffer_size (with_buffer e) + word_of_nat (length data) > 4096
             then case buf_write w v (with_buffer e) (set_file f (\<lambda>_. with_buffer e) k) of (ka, s) \<Rightarrow>
                    if s = 0 \<and> f_write_buffer_size (with_buffer e) > 0 then (ka, True)
                    else (set_file f (f_write_buffer_size_update (\<lambda>_. 0)) ka, False)
             else (set_file f (\<lambda>_. with_buffer e) k, False)) = (k2, full)" by fastforce
  then have inv2: "fd_inv k2" using bw k1 by (auto split: if_splits prod.splits)
  show ?thesis
  proof (cases "f_write_buffer e = None \<and> \<not> io_kalloc env WRITE_BUFFER k")
    case True
    then show ?thesis using r inv by (simp add: write_file_def)
  next
    case False
    note r' = r [unfolded write_file_def if_not_P [OF False] Let_def k2 prod.case]
    show ?thesis
      using r' inv2 fd_inv_append [OF inv2] w [OF _ inv2]
      by (auto split: if_splits option.splits prod.splits)
  qed
qed

lemma syscall_write_inv:
  assumes io: "io_ok fss env" and inv: "fd_inv k" and r: "syscall_write env pid fd data k = Some (k', r)"
  shows "fd_inv k'"
proof -
  have wf: "fd_inv k1" if "fo_write (io_ops env) tbl = Some w" "k_files k f = Some e"
    "write_file env w v f e data k = Some (k1, z)" for tbl w v f e k1 z
    using write_file_inv [OF io_ok_write [OF io that(1)] that(2) inv that(3)] .
  show ?thesis
    using r inv wf io_ok_write [OF io] io_ok_send [OF io]
    by (auto simp: syscall_write_def split: option.splits if_splits prod.splits)
qed

lemma syscall_writev_inv:
  assumes io: "io_ok fss env" and inv: "fd_inv k" and r: "syscall_writev env pid fd iov n k = Some (k', r)"
  shows "fd_inv k'"
proof -
  have loop: "fd_inv k1" if "fo_write (io_ops env) tbl = Some w" "writev_loop env w b v f io 0 k = Some (k1, z)" for tbl w b v f io k1 z
    using writev_loop_inv [OF io_ok_write [OF io that(1)] inv that(2)] .
  show ?thesis
    using r inv loop by (fastforce simp: syscall_writev_def split: option.splits if_splits)
qed

end
