(* ===== verification/Fd_Props.thy ===== *)
theory Fd_Props
  imports Fd_Io
begin

text \<open>
  What the calls on descriptors guarantee, on top of \<^verbatim>\<open>Fd_Table\<close> and \<^verbatim>\<open>Fd_Io\<close>:
  the effect of each call, the invariant over every sequence of calls, and the
  content of files under buffered writes.
\<close>

lemma fork_tables:
  "fork_fdtable parent child k = Some k' \<Longrightarrow> \<exists>t. k_fdtables k' = (k_fdtables k)(child \<mapsto> t)"
proof -
  have "k_fdtables (share_slots fds k) = k_fdtables k" for fds k
    by (induction fds k rule: share_slots.induct) (simp_all add: set_file_def)
  then show "fork_fdtable parent child k = Some k' \<Longrightarrow> \<exists>t. k_fdtables k' = (k_fdtables k)(child \<mapsto> t)"
    by (auto simp: fork_fdtable_def Let_def set_fdtable_def split: option.splits)
qed

section \<open>Properties of the calls\<close>

lemma scan_two_complete:
  assumes "i < j" "j < length fds" "fds ! i = None" "fds ! j = None"
  shows "\<exists>r w. scan_two fds n None = (Some r, Some w)"
proof -
  have second: "\<exists>w. scan_two fds n (Some r) = (Some r, Some w)" if "j < length fds" "fds ! j = None" for fds n r j
    using that
  proof (induction fds arbitrary: n j)
    case (Cons a fds)
    then show ?case by (cases a; cases j) auto
  qed simp
  show ?thesis
    using assms
  proof (induction fds arbitrary: n i j)
    case (Cons a fds)
    show ?case
    proof (cases a)
      case None
      then show ?thesis using Cons.prems second [of "j - 1" fds "Suc n" n] by (cases j) auto
    next
      case (Some f)
      then have "0 < i" using Cons.prems(3) by (cases i) auto
      then show ?thesis using Some Cons.prems Cons.IH [of "i - 1" "j - 1" "Suc n"] by (cases i; cases j) auto
    qed
  qed simp
qed

lemma syscall_pipe2_enough:
  assumes "k_fdtables k pid = Some fdt" "5 \<le> length (k_pool k)"
    "scan_two (take (unat (fdt_max_fds fdt)) (fdt_fds fdt)) 0 None = (Some rfd, Some wfd)"
  shows "\<exists>k' res. syscall_pipe2 pid flags k = Some (k', res)"
proof -
  obtain p a b c d rest where "k_pool k = p # a # b # c # d # rest"
    using assms(2) by (auto simp: numeral_eq_Suc Suc_le_length_iff)
  then show ?thesis
    using assms(1,3)
    by (simp add: syscall_pipe2_def Let_def kernel_alloc_def alloc_fd_def create_and_attach_vnode_def create_vnode_def
        set_file_def set_vnode_def)
qed

lemma empty_ring:
  "pipe_ring_inv \<lparr>pr_buf = replicate 4096 0, pr_head = 0, pr_tail = 0\<rparr>"
  "pipe_ring_list \<lparr>pr_buf = replicate 4096 0, pr_head = 0, pr_tail = 0\<rparr> = []"
  by (simp_all add: pipe_ring_inv_def pipe_ring_list_def ring_view_def)

lemma counts_determined:
  assumes "fd_inv k" "fd_inv k'" "k_fdtables k' = k_fdtables k"
  shows "map_option f_count (k_files k' f) = map_option f_count (k_files k f)"
proof -
  have c: "map_option f_count (k_files k f) =
      (if slots (k_fdtables k) f = {} then None else Some (int (card (slots (k_fdtables k) f))))" if "fd_inv k" for k
  proof (cases "k_files k f")
    case None
    then show ?thesis using fd_inv_files [OF that] by (simp add: files_ok_def)
  next
    case (Some e)
    then show ?thesis using files_ok_count [OF fd_inv_files [OF that] Some] by auto
  qed
  show ?thesis using c [OF assms(1)] c [OF assms(2)] assms(3) by simp
qed

text \<open>
  Closing: the slot becomes free, no other file changes, the reference counts
  stay exact, and the file is released exactly when this was its last slot in any
  process. The call never touches freed memory.
\<close>

lemma close_releases_last:
  assumes "env_ok fss ops" and "fd_inv k" and "k_fdtables k pid = Some fdt"
    and "fd_in_range fdt fd" and "fd_slot fdt fd = Some f"
  shows "\<exists>k'. syscall_close fss ops pid fd k = Some (k', 0) \<and> fd_inv k' \<and>
    k_fdtables k' = (k_fdtables k)(pid \<mapsto> fdt\<lparr>fdt_fds := (fdt_fds fdt)[nat fd := None]\<rparr>) \<and>
    (\<forall>g. g \<noteq> f \<longrightarrow> k_files k' g = k_files k g) \<and>
    (k_files k' f = None \<longleftrightarrow> slots (k_fdtables k) f = {(pid, nat fd)})"
  using syscall_close_ok [OF assms] by metis

text \<open>
  \<^verbatim>\<open>dup\<close> returns the lowest free descriptor and makes it refer to the same open
  file; when the table is full it fails with \<^verbatim>\<open>EMFILE\<close> and changes nothing.
\<close>

lemma dup_lowest_free:
  assumes "fd_inv k" and "k_fdtables k pid = Some fdt" and "fd_in_range fdt fd" and "fd_slot fdt fd = Some f"
  shows "case syscall_dup pid fd k of (k', r) \<Rightarrow>
    if None \<in> set (fdt_fds fdt)
    then \<exists>n fdt'. r = int n \<and> n < length (fdt_fds fdt) \<and> fdt_fds fdt ! n = None \<and> (\<forall>j<n. fdt_fds fdt ! j \<noteq> None) \<and>
      k_fdtables k' pid = Some fdt' \<and> fdt_fds fdt' = (fdt_fds fdt)[n := Some f] \<and> fd_inv k'
    else r = - EMFILE \<and> k' = k"
proof -
  have ok: "table_ok fdt" by (rule fd_inv_table [OF assms(1,2)])
  show ?thesis
  proof (cases "find_free fdt 0")
    case None
    then have "None \<notin> set (fdt_fds fdt)" using find_free_None [OF ok None] by (metis in_set_conv_nth le0)
    then show ?thesis using assms None by (simp add: syscall_dup_def)
  next
    case (Some n)
    note ff = find_free_Some [OF ok Some]
    have "None \<in> set (fdt_fds fdt)" using ff(2,3) by (metis nth_mem)
    moreover have "syscall_dup pid fd k = (share_fd pid fdt n f 0 k, int n)" using assms Some by (simp add: syscall_dup_def)
    moreover have "k_fdtables (share_fd pid fdt n f 0 k) pid = Some (install_fd fdt n f 0)"
      "fdt_fds (install_fd fdt n f 0) = (fdt_fds fdt)[n := Some f]"
      by (simp_all add: share_fd_def set_fdtable_def install_fd_def)
    moreover have "fd_inv (share_fd pid fdt n f 0 k)" by (rule share_free_inv [OF assms Some])
    ultimately show ?thesis using ff(2,3,4) by auto
  qed
qed

text \<open>
  \<^verbatim>\<open>dup2\<close>: after the call the target refers to the file of the source, whatever it
  referred to before, every other descriptor is as it was, and the counts stay exact.
\<close>

lemma dup2_redirects:
  assumes "env_ok fss ops" and "fd_inv k" and "k_fdtables k pid = Some fdt"
    and "fd_in_range fdt oldfd" and "fd_slot fdt oldfd = Some f" and "fd_in_range fdt newfd"
  shows "\<exists>k' fdt'. syscall_dup2 fss ops pid oldfd newfd k = Some (k', newfd) \<and> fd_inv k' \<and>
    k_fdtables k' pid = Some fdt' \<and> fdt_fds fdt' = (fdt_fds fdt)[nat newfd := Some f]"
  by (rule syscall_dup2_ok [OF assms]) blast

text \<open>
  (C25) \<^verbatim>\<open>fork\<close> gives the child a copy of the table that shares every open file, and when
  the child exits all reference counts are back where they were.
\<close>

theorem fork_exit_restores:
  assumes "env_ok fss ops" and "fd_inv k" and "k_fdtables k parent = Some fdt" and "k_fdtables k child = None"
  shows "\<exists>k1 k2. fork_fdtable parent child k = Some k1 \<and> fd_inv k1 \<and>
    map_option fdt_fds (k_fdtables k1 child) = Some (fdt_fds fdt) \<and>
    free_fdtable ops child k1 = Some k2 \<and> fd_inv k2 \<and> k_fdtables k2 = k_fdtables k \<and>
    (\<forall>f. map_option f_count (k_files k2 f) = map_option f_count (k_files k f))"
proof -
  obtain k1 where k1: "fork_fdtable parent child k = Some k1" "fd_inv k1"
    "map_option fdt_fds (k_fdtables k1 child) = Some (fdt_fds fdt)"
    by (rule fork_fdtable_ok [OF assms(2-4)]) blast
  obtain k2 where k2: "free_fdtable ops child k1 = Some k2" "fd_inv k2" "k_fdtables k2 = (k_fdtables k1)(child := None)"
    by (rule free_fdtable_ok [OF assms(1) k1(2)])
  have T: "k_fdtables k2 = k_fdtables k" using fork_tables [OF k1(1)] k2(3) assms(4) by (auto simp: fun_upd_idem)
  then show ?thesis using k1 k2 counts_determined [OF assms(2) k2(2) T] by blast
qed

text \<open>
  \<^verbatim>\<open>pipe2\<close>: with two free descriptors and memory for its five objects the call
  succeeds, keeps the counts exact, and leaves a pipe in the state from which the
  stream and wake-up properties of pipes hold; with fewer than two free descriptors
  it fails with \<^verbatim>\<open>EMFILE\<close> and changes nothing.
\<close>

lemma pipe2_makes_pipe:
  assumes "fd_inv k" and "k_fdtables k pid = Some fdt" and "5 \<le> length (k_pool k)"
    and "i < j" and "j < length (fdt_fds fdt)" and "fdt_fds fdt ! i = None" and "fdt_fds fdt ! j = None"
  shows "\<exists>k' rfd wfd fdt' e. syscall_pipe2 pid flags k = Some (k', 0, Some (rfd, wfd)) \<and> rfd \<noteq> wfd \<and> fd_inv k' \<and>
    k_fdtables k' pid = Some fdt' \<and>
    fdt_fds fdt' = (fdt_fds fdt)[rfd := Some (pe_rfile e), wfd := Some (pe_wfile e)] \<and>
    (let s = \<lparr>ps_kernel = k', ps_calls = Map.empty, ps_ropen = True, ps_wopen = True, ps_sent = [], ps_received = []\<rparr>
     in pipe_inv e s \<and> sleep_inv e s)"
proof -
  have ok: "table_ok fdt" "objs_ok k" using fd_inv_table [OF assms(1,2)] assms(1) by (simp_all add: fd_inv_def)
  then have t: "take (unat (fdt_max_fds fdt)) (fdt_fds fdt) = fdt_fds fdt" by (simp add: table_ok_def)
  obtain rfd wfd where s: "scan_two (take (unat (fdt_max_fds fdt)) (fdt_fds fdt)) 0 None = (Some rfd, Some wfd)"
    using scan_two_complete [OF assms(4-7)] unfolding t by blast
  obtain k' res where r: "syscall_pipe2 pid flags k = Some (k', res)"
    using syscall_pipe2_enough [OF assms(2,3) s] by blast
  obtain p rfl wfl rv wv c where m: "res = (0, Some (rfd, wfd))" "pipe_made flags k p rfl wfl rv wv k'"
    "k_fdtables k' = (k_fdtables k)(pid \<mapsto> install_fd (install_fd fdt rfd rfl c) wfd wfl c)"
    by (rule syscall_pipe2_made [OF ok(2) assms(2) s r])
  let ?e = "\<lparr>pe_pipe = p, pe_rvnode = rv, pe_wvnode = wv, pe_rfile = rfl, pe_wfile = wfl\<rparr>"
  have inv: "fd_inv k'" by (rule syscall_pipe2_inv [OF assms(1,2) s m(2,3)])
  have ne: "rfd \<noteq> wfd" using scan_two_Some [OF s] by auto
  have d: "distinct [p, rfl, wfl, rv, wv]" using ok(2) m(2) by (auto simp: objs_ok_def pipe_made_def Let_def)
  have "pipe_inv ?e \<lparr>ps_kernel = k', ps_calls = Map.empty, ps_ropen = True, ps_wopen = True, ps_sent = [], ps_received = []\<rparr>"
    using m(2) d by (auto simp: pipe_inv_def pipe_linked_def pipe_made_def Let_def pipe_file_def pipe_vnode_def new_pipe_def
        empty_ring)
  moreover have "sleep_inv ?e \<lparr>ps_kernel = k', ps_calls = Map.empty, ps_ropen = True, ps_wopen = True, ps_sent = [], ps_received = []\<rparr>"
    by (simp add: sleep_inv_def)
  ultimately show ?thesis
    using r m inv ne
    by (intro exI [of _ k'] exI [of _ rfd] exI [of _ wfd]
        exI [of _ "install_fd (install_fd fdt rfd rfl c) wfd wfl c"] exI [of _ ?e])
      (simp add: Let_def install_fd_def)
qed


section \<open>Every sequence of calls\<close>

text \<open>One call by some process. A fork names the pid of the child, which is new.\<close>

inductive fd_step :: "(ptr \<Rightarrow> fs_driver option) \<Rightarrow> io_env \<Rightarrow> kernel \<Rightarrow> kernel \<Rightarrow> bool" for fss env where
  do_dup: "syscall_dup pid fd k = (k', r) \<Longrightarrow> fd_step fss env k k'"
| do_dup2: "syscall_dup2 fss (io_ops env) pid a b k = Some (k', r) \<Longrightarrow> fd_step fss env k k'"
| do_close: "syscall_close fss (io_ops env) pid fd k = Some (k', r) \<Longrightarrow> fd_step fss env k k'"
| do_fcntl: "syscall_fcntl pid fd cmd arg k = Some (k', r) \<Longrightarrow> fd_step fss env k k'"
| do_lseek: "syscall_lseek (io_ops env) pid fd off wh k = Some (k', r) \<Longrightarrow> fd_step fss env k k'"
| do_pipe: "syscall_pipe2 pid flags k = Some (k', r) \<Longrightarrow> fd_step fss env k k'"
| do_read: "syscall_read env pid fd n k = Some (k', r) \<Longrightarrow> fd_step fss env k k'"
| do_readv: "syscall_readv env pid fd iov n k = Some (k', r) \<Longrightarrow> fd_step fss env k k'"
| do_write: "syscall_write env pid fd data k = Some (k', r) \<Longrightarrow> fd_step fss env k k'"
| do_writev: "syscall_writev env pid fd wiov n k = Some (k', r) \<Longrightarrow> fd_step fss env k k'"
| do_fork: "k_fdtables k child = None \<Longrightarrow> fork_fdtable pid child k = Some k' \<Longrightarrow> fd_step fss env k k'"
| do_exit: "free_fdtable (io_ops env) pid k = Some k' \<Longrightarrow> fd_step fss env k k'"

lemma syscall_close_inv:
  assumes env: "env_ok fss ops" and inv: "fd_inv k" and r: "syscall_close fss ops pid fd k = Some (k', res)"
  shows "fd_inv k'"
proof (cases "\<exists>fdt f. k_fdtables k pid = Some fdt \<and> fd_in_range fdt fd \<and> fd_slot fdt fd = Some f")
  case True
  then obtain fdt f where "k_fdtables k pid = Some fdt" "fd_in_range fdt fd" "fd_slot fdt fd = Some f" by blast
  then obtain k1 where "syscall_close fss ops pid fd k = Some (k1, 0)" "fd_inv k1"
    using syscall_close_ok [OF env inv] by metis
  then show ?thesis using r by simp
next
  case False
  then show ?thesis using r inv by (auto simp: syscall_close_def split: option.splits if_splits)
qed

lemma syscall_dup2_total:
  assumes env: "env_ok fss ops" and inv: "fd_inv k"
  shows "\<exists>k' r. syscall_dup2 fss ops pid a b k = Some (k', r) \<and> fd_inv k'"
proof (cases "\<exists>fdt f. k_fdtables k pid = Some fdt \<and> fd_in_range fdt a \<and> fd_slot fdt a = Some f \<and> fd_in_range fdt b")
  case True
  then obtain fdt f where "k_fdtables k pid = Some fdt" "fd_in_range fdt a" "fd_slot fdt a = Some f" "fd_in_range fdt b"
    by blast
  then show ?thesis using syscall_dup2_ok [OF env inv] by metis
next
  case False
  then have "syscall_dup2 fss ops pid a b k = Some (k, - EBADF)"
    by (auto simp: syscall_dup2_def split: option.splits)
  then show ?thesis using inv by blast
qed

lemma syscall_pipe2_keeps:
  assumes inv: "fd_inv k" and r: "syscall_pipe2 pid flags k = Some (k', res)"
  shows "fd_inv k'"
proof -
  obtain fdt where t: "k_fdtables k pid = Some fdt" using r by (auto simp: syscall_pipe2_def split: option.splits)
  show ?thesis
  proof (cases "\<exists>rfd wfd. scan_two (take (unat (fdt_max_fds fdt)) (fdt_fds fdt)) 0 None = (Some rfd, Some wfd)")
    case True
    then obtain rfd wfd where s: "scan_two (take (unat (fdt_max_fds fdt)) (fdt_fds fdt)) 0 None = (Some rfd, Some wfd)" by blast
    have "objs_ok k" using inv by (simp add: fd_inv_def)
    from syscall_pipe2_made [OF this t s r] syscall_pipe2_inv [OF inv t s] show ?thesis by metis
  next
    case False
    then show ?thesis using r t inv by (auto simp: syscall_pipe2_def split: option.splits prod.splits)
  qed
qed

lemma fd_step_inv:
  assumes io: "io_ok fss env"
  shows "fd_step fss env k k' \<Longrightarrow> fd_inv k \<Longrightarrow> fd_inv k'"
proof (induction rule: fd_step.induct)
  case (do_dup pid fd k k' r)
  then show ?case using syscall_dup_inv [of k pid fd] by simp
next
  case (do_dup2 pid a b k k' r)
  then show ?case using syscall_dup2_total [OF io_ok_env [OF io] do_dup2(2), of pid a b] by auto
next
  case (do_fcntl pid fd cmd arg k k' r)
  then show ?case using syscall_fcntl_inv [OF do_fcntl(2), of pid fd cmd arg] by auto
next
  case (do_fork k child pid k')
  then obtain fdt where "k_fdtables k pid = Some fdt" by (auto simp: fork_fdtable_def split: option.splits)
  then show ?case using fork_fdtable_ok [OF do_fork(3) _ do_fork(1)] do_fork(2) by (metis option.inject)
next
  case (do_exit pid k k')
  then show ?case using free_fdtable_ok [OF io_ok_env [OF io] do_exit(2), of pid] by (metis option.inject)
qed (use io in \<open>blast intro: syscall_close_inv syscall_lseek_inv syscall_pipe2_keeps syscall_read_inv syscall_readv_inv
    syscall_write_inv syscall_writev_inv io_ok_env\<close>)+

lemma fd_reach_inv:
  assumes "io_ok fss env" "rtranclp (fd_step fss env) k0 k" "fd_inv k0"
  shows "fd_inv k"
  using assms(2,3) by (induction rule: rtranclp_induct) (auto intro: fd_step_inv [OF assms(1)])



section \<open>Properties of buffered files\<close>


text \<open>
  Nothing buffered is lost on release: the flush that \<^verbatim>\<open>close\<close> and process exit make
  leaves in the store exactly the content the user saw.
\<close>

lemma release_stores_view:
  assumes "f_vnode e = Some v" and "f_ops e = Some tbl" and "fo_write ops tbl = Some w"
    and "k_vnodes k v = Some vn" and "vn_type vn = VNODE_TYPE_FILE"
    and "store_law c (w v)" and "buffer_ok e"
  shows "c (flush_on_close ops e k) = file_view c k e"
proof (cases "f_write_buffer_size e = 0")
  case True
  then show ?thesis by (simp add: flush_on_close_def view_empty split: option.splits)
next
  case False
  then obtain b where b: "f_write_buffer e = Some b" using assms(7) by (auto simp: buffer_ok_def split: option.splits)
  obtain k' s where w: "buf_write w v e k = (k', s)" by fastforce
  have "0 < f_write_buffer_size e" using False by (simp add: word_gt_0)
  then have "flush_on_close ops e k = k'" using assms(1-5) b w by (simp add: flush_on_close_def buf_write_def)
  then show ?thesis using buf_write_ok(3) [of c w v, OF assms(6,7) w] by simp
qed

text \<open>
  (C39) A read that returns bytes moves what is still buffered: the position advances but
  the buffered bytes stay, and since they are stored relative to the position they
  end up as many bytes further on as were read.
\<close>

theorem read_displaces_buffered:
  assumes "k_fdtables k pid = Some fdt" and "fd_in_range fdt fd" and "fd_slot fdt fd = Some f"
    and "k_files k f = Some e" and "f_vnode e = Some v" and "f_ops e = Some tbl" and "fo_read (io_ops env) tbl = Some rd"
    and "k_vnodes k v = Some vn" and "vn_type vn \<noteq> VNODE_TYPE_DIR" and "io_kalloc env (unat count) k"
    and "rd v count (f_pos e) k = (k1, kbuf, n)" and "k_files k1 f = Some e" and "0 < n"
  shows "\<exists>k' e'. syscall_read env pid fd count k = Some (k', take (nat n) kbuf, n) \<and> k_files k' f = Some e' \<and>
    pending e' = pending e \<and>
    f_pos e' - f_write_buffer_size e' = (f_pos e - f_write_buffer_size e) + word_of_int n"
  using assms by (simp add: syscall_read_def routed_to_socket_def set_file_def pending_def algebra_simps split: option.splits)

section \<open>A process with one open file\<close>

text \<open>
  Process 7 has a table of four slots and one open regular file in slot 0, on a
  driver that keeps the bytes of the file on the disk.
\<close>

definition sample_table :: fdtable where
  "sample_table = \<lparr>fdt_max_fds = 4, fdt_fds = [Some 5, None, None, None], fdt_fd_flags = [0, 0, 0, 0], fdt_next_fd = 1\<rparr>"

definition sample_file :: file_descriptor where
  "sample_file = zero_file\<lparr>f_count := 1, f_ops := Some (Fs_ops 0), f_vnode := Some 6\<rparr>"

definition sample_vnode :: vnode where
  "sample_vnode = zero_vnode\<lparr>vn_type := VNODE_TYPE_FILE, vn_size := 100, vn_fs_instance := Some 9\<rparr>"

definition sample_fds :: kernel where
  "sample_fds = (empty_kernel [20, 21, 22, 23, 24, 25])
     \<lparr>k_files := [5 \<mapsto> sample_file], k_vnodes := [6 \<mapsto> sample_vnode], k_fdtables := [7 \<mapsto> sample_table]\<rparr>"

definition disk_write :: "ptr \<Rightarrow> u8 list \<Rightarrow> u64 \<Rightarrow> kernel \<Rightarrow> kernel \<times> int" where
  "disk_write v data off k = (k\<lparr>k_disk := overlay (k_disk k) (unat off) data\<rparr>, int (length data))"

definition disk_read :: "ptr \<Rightarrow> u64 \<Rightarrow> u64 \<Rightarrow> kernel \<Rightarrow> kernel \<times> u8 list \<times> int" where
  "disk_read v n off k = (k, map (k_disk k) [unat off ..< unat off + unat n], uint n)"

definition disk_env :: io_env where
  "disk_env = \<lparr>io_ops = \<lparr>fo_write = (\<lambda>_. Some disk_write), fo_read = (\<lambda>_. Some disk_read)\<rparr>,
     io_kalloc = (\<lambda>_ _. True), io_socket = (\<lambda>_ _. False), io_recvfrom = (\<lambda>_ _ k. (k, [], 0)),
     io_sendto = (\<lambda>_ _ k. (k, 0))\<rparr>"

lemmas sample_fd_defs = sample_fds_def sample_table_def sample_file_def sample_vnode_def

lemma disk_env_ok: "io_ok (\<lambda>_. None) disk_env"
  by (auto simp: io_ok_def env_ok_def disk_env_def same_fd_def disk_write_def disk_read_def objs_ok_def)

lemma disk_store: "store_law k_disk (disk_write v)"
  by (simp add: store_law_def disk_write_def)

lemma sample_slots: "slots (k_fdtables sample_fds) f = (if f = 5 then {(7, 0)} else {})"
proof -
  have "fdt_fds sample_table ! i = Some f \<longleftrightarrow> i = 0 \<and> f = 5" if "i < 4" for i
    using that by (auto simp: sample_table_def numeral_eq_Suc less_Suc_eq)
  then show ?thesis
    by (auto simp: slots_def sample_fds_def sample_table_def split: if_splits)
qed

lemma sample_table_ok: "table_ok sample_table"
  by (auto simp: table_ok_def sample_table_def nth_Cons' split: if_splits)

lemma sample_fds_inv: "fd_inv sample_fds"
proof -
  have F: "k_files sample_fds = [5 \<mapsto> sample_file]" "k_fdtables sample_fds = [7 \<mapsto> sample_table]"
    by (simp_all add: sample_fds_def)
  have "files_ok (\<lambda>_. 0) (k_fdtables sample_fds) (k_files sample_fds)"
    unfolding files_ok_def sample_slots using sample_table_ok by (auto simp: F sample_file_def)
  moreover have "pipes_ok sample_fds"
    by (auto simp: pipes_ok_def sample_fd_defs empty_kernel_def is_fifo_def pipe_file_of_def VNODE_TYPE_FILE_def
        VNODE_TYPE_FIFO_def zero_file_def)
  moreover have "objs_ok sample_fds" by (auto simp: objs_ok_def sample_fd_defs empty_kernel_def)
  ultimately show ?thesis by (simp add: fd_inv_def)
qed

lemma sample_slot0:
  "k_fdtables sample_fds 7 = Some sample_table" "fd_in_range sample_table 0" "fd_in_range sample_table 2"
  "fd_slot sample_table 0 = Some 5" "k_files sample_fds 5 = Some sample_file" "k_vnodes sample_fds 6 = Some sample_vnode"
  "fdt_fds sample_table = [Some 5, None, None, None]" "k_fdtables sample_fds 8 = None"
  by (simp_all add: sample_fds_def sample_table_def fd_in_range_def fd_slot_def)

lemma sample_file_count: "f_count sample_file = 1"
  by (simp add: sample_file_def)

lemma close_releases_last_example:
  "\<exists>k'. syscall_close (\<lambda>_. None) (io_ops disk_env) 7 0 sample_fds = Some (k', 0) \<and> fd_inv k' \<and> k_files k' 5 = None"
  using close_releases_last [OF io_ok_env [OF disk_env_ok] sample_fds_inv sample_slot0(1,2,4)] sample_slots by auto

lemma dup_lowest_free_example:
  "\<exists>k'. syscall_dup 7 0 sample_fds = (k', 1) \<and> fd_inv k'"
proof -
  obtain k' r where d: "syscall_dup 7 0 sample_fds = (k', r)" by fastforce
  have "\<exists>n. r = int n \<and> n < 4 \<and> [Some 5, None, None, None :: ptr option] ! n = None \<and>
      (\<forall>j<n. [Some 5, None, None, None :: ptr option] ! j \<noteq> None) \<and> fd_inv k'"
    using dup_lowest_free [OF sample_fds_inv sample_slot0(1,2,4)] unfolding d sample_slot0(7) by auto
  then obtain n where n: "r = int n" "[Some 5, None, None, None :: ptr option] ! n = None"
    "\<forall>j<n. [Some 5, None, None, None :: ptr option] ! j \<noteq> None" "fd_inv k'" by blast
  have "\<not> 1 < n" using n(3) by (metis nth_Cons_0 nth_Cons_Suc One_nat_def)
  moreover have "n \<noteq> 0" using n(2) by (metis nth_Cons_0 option.distinct(1))
  ultimately show ?thesis using d n by simp
qed

lemma dup2_redirects_example:
  "\<exists>k' fdt'. syscall_dup2 (\<lambda>_. None) (io_ops disk_env) 7 0 2 sample_fds = Some (k', 2) \<and> fd_inv k' \<and>
     k_fdtables k' 7 = Some fdt' \<and> fdt_fds fdt' = [Some 5, None, Some 5, None]"
  using dup2_redirects [OF io_ok_env [OF disk_env_ok] sample_fds_inv sample_slot0(1,2,4,3)]
  by (simp add: sample_slot0(7))

theorem fork_exit_restores_witness:
  "\<exists>k1 k2. fork_fdtable 7 8 sample_fds = Some k1 \<and> free_fdtable (io_ops disk_env) 8 k1 = Some k2 \<and>
     fd_inv k2 \<and> map_option f_count (k_files k2 5) = Some 1"
  using fork_exit_restores [OF io_ok_env [OF disk_env_ok] sample_fds_inv sample_slot0(1,8)]
  by (metis option.simps(9) sample_file_count sample_slot0(5))

lemma pipe2_makes_pipe_example:
  "\<exists>k' rfd wfd e. syscall_pipe2 7 0 sample_fds = Some (k', 0, Some (rfd, wfd)) \<and> fd_inv k' \<and>
     pipe_inv e \<lparr>ps_kernel = k', ps_calls = Map.empty, ps_ropen = True, ps_wopen = True, ps_sent = [], ps_received = []\<rparr>"
proof -
  have "5 \<le> length (k_pool sample_fds)" by (simp add: sample_fds_def empty_kernel_def)
  from pipe2_makes_pipe [OF sample_fds_inv sample_slot0(1) this, of 1 2 0] show ?thesis
    by (auto simp: sample_slot0(7) Let_def)
qed




lemma sample_buffer_ok: "buffer_ok sample_file"
  by (simp add: buffer_ok_def sample_file_def zero_file_def)


lemma release_stores_view_example:
  "let e = buf_append [7, 8] 2 (with_buffer sample_file)
   in k_disk (flush_on_close (io_ops disk_env) e sample_fds) 1 = 8 \<and> k_disk sample_fds 1 = 0"
proof -
  let ?e = "buf_append [7, 8] 2 (with_buffer sample_file)"
  have w: "buffer_ok (with_buffer sample_file)" "f_pos (with_buffer sample_file) = 0"
    "f_write_buffer_size (with_buffer sample_file) = 0" "f_write_buffer (with_buffer sample_file) = Some (replicate WRITE_BUFFER 0)"
    by (simp_all add: with_buffer_def sample_file_def zero_file_def buffer_ok_def)
  have ok: "buffer_ok ?e" and v: "file_view k_disk sample_fds ?e =
      overlay (file_view k_disk sample_fds (with_buffer sample_file)) 0 [7, 8]"
    using buf_append_ok [OF w(1,4), of 2 "[7, 8]"] w(2,3) by simp_all
  have "f_vnode ?e = Some 6" "f_ops ?e = Some (Fs_ops 0)" "fo_write (io_ops disk_env) (Fs_ops 0) = Some disk_write"
    "vn_type sample_vnode = VNODE_TYPE_FILE"
    by (simp_all add: buf_append_def with_buffer_def sample_file_def zero_file_def disk_env_def sample_vnode_def)
  from release_stores_view [OF this(1-3) sample_slot0(6) this(4) disk_store ok] v show ?thesis
    by (simp add: Let_def overlay_def sample_fds_def empty_kernel_def)
qed

theorem read_displaces_buffered_witness:
  "let e = buf_append [7, 8] 2 (with_buffer sample_file); k = set_file 5 (\<lambda>_. e) sample_fds
   in f_pos e - f_write_buffer_size e = 0 \<and>
      (\<exists>k' e'. syscall_read disk_env 7 0 3 k = Some (k', [0, 0, 0], 3) \<and> k_files k' 5 = Some e' \<and>
         pending e' = pending e \<and> f_pos e' - f_write_buffer_size e' = 3)"
proof -
  let ?e = "buf_append [7, 8] 2 (with_buffer sample_file)" and ?k = "set_file 5 (\<lambda>_. buf_append [7, 8] 2 (with_buffer sample_file)) sample_fds"
  have e: "f_vnode ?e = Some 6" "f_ops ?e = Some (Fs_ops 0)" "f_pos ?e = 2" "f_write_buffer_size ?e = 2"
    by (simp_all add: buf_append_def with_buffer_def sample_file_def zero_file_def)
  have k: "k_fdtables ?k 7 = Some sample_table" "k_files ?k 5 = Some ?e" "k_vnodes ?k 6 = Some sample_vnode" "k_disk ?k = (\<lambda>_. 0)"
    using sample_slot0 by (simp_all add: set_file_def) (simp_all add: sample_fds_def empty_kernel_def)
  have d: "fo_read (io_ops disk_env) (Fs_ops 0) = Some disk_read" "io_kalloc disk_env (unat (3 :: u64)) ?k"
    "vn_type sample_vnode \<noteq> VNODE_TYPE_DIR" "disk_read 6 3 (f_pos ?e) ?k = (?k, [0, 0, 0], 3)"
    by (simp_all add: disk_env_def sample_vnode_def VNODE_TYPE_FILE_def VNODE_TYPE_DIR_def disk_read_def k(4) e(3) upt_rec)
  from read_displaces_buffered [OF k(1) sample_slot0(2,4) k(2) e(1,2) d(1) k(3) d(3,2,4) k(2)] show ?thesis
    by (simp add: Let_def e(3,4))
qed

end
