(* ===== verification/Net_Util.thy ===== *)
theory Net_Util
  imports Voxia_Prelude
begin

text \<open>
  Byte order, checksums and dotted addresses: \<^verbatim>\<open>kernel/net/netutils.h\<close> and
  \<^verbatim>\<open>kernel/net/netutils.c\<close>. Memory is a list of bytes; a word in memory is little
  endian, as on the machine. A network-order field is a word whose bytes in memory
  are in transmission order.
\<close>

unbundle bit_operations_syntax

section \<open>Words in memory\<close>

definition le16 :: "u16 \<Rightarrow> u8 list" where
  "le16 w = [ucast w, ucast (drop_bit 8 w)]"

definition le32 :: "u32 \<Rightarrow> u8 list" where
  "le32 w = [ucast w, ucast (drop_bit 8 w), ucast (drop_bit 16 w), ucast (drop_bit 24 w)]"

definition rd16 :: "u8 \<Rightarrow> u8 \<Rightarrow> u16" where
  "rd16 a b = ucast a OR push_bit 8 (ucast b)"

definition rd32 :: "u8 \<Rightarrow> u8 \<Rightarrow> u8 \<Rightarrow> u8 \<Rightarrow> u32" where
  "rd32 a b c d = ucast a OR push_bit 8 (ucast b) OR push_bit 16 (ucast c) OR push_bit 24 (ucast d)"

section \<open>Byte order\<close>

definition vxHtons :: "u16 \<Rightarrow> u16" where
  "vxHtons value = push_bit 8 value OR drop_bit 8 value"

definition vxNtohs :: "u16 \<Rightarrow> u16" where
  "vxNtohs netshort = drop_bit 8 netshort OR push_bit 8 netshort"

definition vxHtonl :: "u32 \<Rightarrow> u32" where
  "vxHtonl value =
     drop_bit 24 (value AND 0xFF000000) OR drop_bit 8 (value AND 0x00FF0000) OR
     push_bit 8 (value AND 0x0000FF00) OR push_bit 24 (value AND 0x000000FF)"

definition vxNtohl :: "u32 \<Rightarrow> u32" where
  "vxNtohl netlong =
     drop_bit 24 (netlong AND 0xFF000000) OR drop_bit 8 (netlong AND 0x00FF0000) OR
     push_bit 8 (netlong AND 0x0000FF00) OR push_bit 24 (netlong AND 0x000000FF)"

section \<open>Checksums\<close>

text \<open>
  One round of the assembly loop of \<^verbatim>\<open>checksum16_adc\<close>: \<^verbatim>\<open>addw\<close> adds to the low 16 bits
  of the 64-bit accumulator and sets the carry, \<^verbatim>\<open>adcq $0\<close> adds the carry to all of it.
\<close>

definition add_adc :: "u64 \<Rightarrow> u16 \<Rightarrow> u64" where
  "add_adc acc w =
     (let low = (ucast acc :: u16) + w;
          carry = unat (ucast acc :: u16) + unat w \<ge> 2 ^ 16;
          acc1 = (acc AND NOT 0xFFFF) OR ucast low
      in acc1 + (if carry then 1 else 0))"

fun adc_loop :: "u64 \<Rightarrow> u8 list \<Rightarrow> u64" where
  "adc_loop acc (a # b # data) = adc_loop (add_adc acc (rd16 a b)) data"
| "adc_loop acc [a] = acc + ucast a"
| "adc_loop acc [] = acc"

definition checksum16_adc :: "u8 list \<Rightarrow> u16" where
  "checksum16_adc data =
     (let acc = adc_loop 0 data;
          acc1 = (acc AND 0xFFFF) + drop_bit 16 acc;
          acc2 = (acc1 AND 0xFFFF) + drop_bit 16 acc1
      in ucast (NOT acc2))"

fun raw_loop :: "u32 \<Rightarrow> u8 list \<Rightarrow> u32" where
  "raw_loop acc (a # b # data) = raw_loop (acc + ucast (rd16 a b)) data"
| "raw_loop acc [a] = acc + ucast a"
| "raw_loop acc [] = acc"

definition checksum16_raw :: "u8 list \<Rightarrow> u32" where
  "checksum16_raw data = raw_loop 0 data"

lemma mask16: "unat (w AND 0xFFFF) = unat w mod 65536" for w :: "'a::len word"
proof -
  have "w AND 0xFFFF = take_bit 16 w" by (simp add: take_bit_eq_mask mask_eq_exp_minus_1)
  then show ?thesis by (simp only: unsigned_take_bit_eq) (simp add: take_bit_eq_mod)
qed

lemma unat_drop16: "unat (drop_bit 16 w) = unat w div 65536" for w :: "'a::len word"
  by (simp only: unat_drop_bit_eq) (simp add: drop_bit_eq_div)

lemma fold_step_unat:
  "unat ((acc AND 0xFFFF) + drop_bit 16 acc) = unat acc mod 65536 + unat acc div 65536" for acc :: u32
proof -
  have "unat acc < 2 ^ 32" using unsigned_less [of acc] by simp
  then have "unat acc mod 65536 + unat acc div 65536 < 2 ^ 32" by (auto simp: less_mult_imp_div_less)
  then show ?thesis by (subst unat_add_lem [THEN iffD1]) (simp_all add: mask16 unat_drop16)
qed

text \<open>\<^verbatim>\<open>while (sum >> 16) sum = (sum & 0xFFFF) + (sum >> 16);\<close> as the TCP code folds.\<close>

function fold_sum :: "u32 \<Rightarrow> u32" where
  "fold_sum acc = (if drop_bit 16 acc = 0 then acc else fold_sum ((acc AND 0xFFFF) + drop_bit 16 acc))"
  by pat_completeness auto
termination
proof (relation "measure unat")
  fix acc :: u32
  assume "drop_bit 16 acc \<noteq> 0"
  then have "unat acc div 65536 \<noteq> 0" by (metis unat_drop16 unat_eq_zero)
  moreover have "unat acc = 65536 * (unat acc div 65536) + unat acc mod 65536" by simp
  ultimately show "((acc AND 0xFFFF) + drop_bit 16 acc, acc) \<in> measure unat"
    by (simp only: in_measure fold_step_unat)
qed simp

section \<open>Dotted addresses\<close>

fun is_digit :: "char \<Rightarrow> bool" where
  "is_digit c \<longleftrightarrow> of_char c \<ge> (48 :: nat) \<and> of_char c \<le> (57 :: nat)"

fun octet_loop :: "u32 \<Rightarrow> string \<Rightarrow> u32 \<times> string" where
  "octet_loop octet (c # s) =
     (if is_digit c then octet_loop (octet * 10 + (word_of_nat (of_char c) - 48)) s else (octet, c # s))"
| "octet_loop octet [] = (octet, [])"

text \<open>
  The loop of \<^verbatim>\<open>vxInetAddr\<close> with \<open>n\<close> octets still to read; \<open>b\<close> is the four bytes of
  the result. A missing octet before the last ends the whole call with 0.
\<close>

fun inet_loop :: "nat \<Rightarrow> u8 list \<Rightarrow> string \<Rightarrow> u32" where
  "inet_loop 0 b s = rd32 (b ! 0) (b ! 1) (b ! 2) (b ! 3)"
| "inet_loop (Suc n) b s =
     (case octet_loop 0 s of (octet, s1) \<Rightarrow>
        let b1 = b[3 - n := ucast octet]
        in case s1 of
             [] \<Rightarrow> if n > 0 then 0 else inet_loop n b1 s1
           | c # s2 \<Rightarrow> if c = CHR ''.'' then inet_loop n b1 s2 else inet_loop n b1 s1)"

definition vxInetAddr :: "string \<Rightarrow> u32" where
  "vxInetAddr addr = inet_loop 4 [0, 0, 0, 0] addr"

definition digit :: "u8 \<Rightarrow> char" where
  "digit d = char_of (48 + unat d)"

definition u8_to_str :: "u8 \<Rightarrow> string" where
  "u8_to_str val =
     (if val \<ge> 100 then
        let rest = val mod 100
        in [digit (val div 100), digit (rest div 10), digit (rest mod 10)]
      else if val \<ge> 10 then [digit (val div 10), digit (val mod 10)]
      else [digit val])"

definition vxInetNtoa :: "u32 \<Rightarrow> string" where
  "vxInetNtoa ip =
     (case le32 ip of
        [a, b, c, d] \<Rightarrow> u8_to_str a @ ''.'' @ u8_to_str b @ ''.'' @ u8_to_str c @ ''.'' @ u8_to_str d
      | _ \<Rightarrow> [])"

declare fold_sum.simps [simp del]

section \<open>Byte order is byte reversal\<close>

lemma bit_u8 [simp]: "8 \<le> n \<Longrightarrow> \<not> bit (a :: u8) n"
  using bit_imp_le_length [of a n] by auto

lemma byte_masks:
  "(0xFF000000 :: u32) = push_bit 24 (mask 8)" "(0x00FF0000 :: u32) = push_bit 16 (mask 8)"
  "(0x0000FF00 :: u32) = push_bit 8 (mask 8)" "(0x000000FF :: u32) = mask 8"
  by (simp_all add: mask_eq_exp_minus_1 push_bit_eq_mult)

lemma unat_rd16: "unat (rd16 a b) = unat a + 256 * unat b"
proof -
  have "rd16 a b = ucast a + push_bit 8 (ucast b)"
    unfolding rd16_def by (subst disjunctive_add) (auto simp: bit_simps dest: bit_imp_le_length)
  then have r: "rd16 a b = word_of_nat (unat a + 256 * unat b)"
    by (simp add: push_bit_eq_mult)
  have "unat a < 2 ^ LENGTH(8)" "unat b < 2 ^ LENGTH(8)" by (rule unsigned_less)+
  then have "unat a + 256 * unat b < 2 ^ 16" by simp
  then show ?thesis unfolding r unat_of_nat by (simp add: take_bit_nat_eq_self)
qed

lemma rd16_le16: "le16 w = [a, b] \<Longrightarrow> rd16 a b = w"
  by (auto simp: le16_def rd16_def intro!: bit_word_eqI simp: bit_simps)

lemma rd32_le32: "le32 w = [a, b, c, d] \<Longrightarrow> rd32 a b c d = w"
proof -
  assume h: "le32 w = [a, b, c, d]"
  have "bit (rd32 a b c d) n = bit w n" if n: "n < 32" for n
  proof -
    consider "n < 8" | "8 \<le> n" "n < 16" | "16 \<le> n" "n < 24" | "24 \<le> n" using n by linarith
    then show ?thesis
      using h n by cases (auto simp: le32_def rd32_def bit_simps)
  qed
  then show ?thesis by (intro bit_word_eqI) simp
qed

lemma le32_rd32: "le32 (rd32 a b c d) = [a, b, c, d]"
  by (auto simp: le32_def rd32_def intro!: bit_word_eqI simp: bit_simps dest: bit_imp_le_length)

lemma htons_rev: "le16 (vxHtons w) = rev (le16 w)" "vxNtohs = vxHtons"
  by (auto simp: le16_def vxHtons_def vxNtohs_def or.commute intro!: bit_word_eqI ext simp: bit_simps)

lemma htonl_rev: "le32 (vxHtonl w) = rev (le32 w)" "vxNtohl = vxHtonl"
proof -
  have "ucast (vxHtonl w) = (ucast (drop_bit 24 w) :: u8)" "ucast (drop_bit 8 (vxHtonl w)) = (ucast (drop_bit 16 w) :: u8)"
    "ucast (drop_bit 16 (vxHtonl w)) = (ucast (drop_bit 8 w) :: u8)" "ucast (drop_bit 24 (vxHtonl w)) = (ucast w :: u8)"
    unfolding vxHtonl_def byte_masks by (auto intro!: bit_word_eqI simp: bit_simps)
  then show "le32 (vxHtonl w) = rev (le32 w)" by (simp add: le32_def)
qed (auto simp: vxHtonl_def vxNtohl_def)

section \<open>The one's complement sum\<close>

text \<open>The sum of the 16-bit words of a byte list, and its normal form modulo \<open>2 ^ 16 - 1\<close>.\<close>

fun wsum :: "u8 list \<Rightarrow> nat" where
  "wsum (a # b # data) = unat (rd16 a b) + wsum data"
| "wsum [a] = unat a"
| "wsum [] = 0"

definition norm16 :: "nat \<Rightarrow> nat" where
  "norm16 n = (if n = 0 then 0 else (n - 1) mod 65535 + 1)"

lemma norm16_small: "n \<le> 65535 \<Longrightarrow> norm16 n = n"
  by (simp add: norm16_def)

lemma norm16_le: "norm16 n \<le> 65535"
proof -
  have "(n - 1) mod 65535 < 65535" by simp
  then have "(n - 1) mod 65535 + 1 \<le> 65535" by linarith
  then show ?thesis unfolding norm16_def by (cases "n = 0") simp_all
qed

lemma norm16_cong:
  assumes "n mod 65535 = m mod 65535" "n = 0 \<longleftrightarrow> m = 0"
  shows "norm16 n = norm16 m"
proof -
  have "(n - 1) mod 65535 = (n + 65534) mod 65535" if "n \<noteq> 0" for n :: nat
  proof -
    have "n + 65534 = (n - 1) + 65535" using that by simp
    then show ?thesis by (metis mod_add_self2)
  qed
  moreover have "(n + 65534) mod 65535 = (m + 65534) mod 65535" using assms(1) by (metis mod_add_left_eq)
  ultimately show ?thesis using assms(2) unfolding norm16_def by metis
qed

lemma norm16_mod: "norm16 n mod 65535 = n mod 65535" "norm16 n = 0 \<longleftrightarrow> n = 0"
  by (simp_all add: norm16_def mod_simps)

lemma norm16_fold: "norm16 (n mod 65536 + n div 65536) = norm16 n"
proof (rule norm16_cong)
  have "n = 65536 * (n div 65536) + n mod 65536" by simp
  then have "n = 65535 * (n div 65536) + (n mod 65536 + n div 65536)" by linarith
  then show "(n mod 65536 + n div 65536) mod 65535 = n mod 65535" by (metis mod_mult_self4)
  show "(n mod 65536 + n div 65536 = 0) = (n = 0)" by (auto simp: div_eq_0_iff)
qed

lemma norm16_add: "norm16 (norm16 a + b) = norm16 (a + b)"
proof (rule norm16_cong)
  show "(norm16 a + b) mod 65535 = (a + b) mod 65535" by (metis mod_add_left_eq norm16_mod(1))
  show "(norm16 a + b = 0) = (a + b = 0)" using norm16_mod(2) [of a] by simp
qed

lemma unat_fold_sum: "unat (fold_sum s) = norm16 (unat s)"
proof (induction s rule: fold_sum.induct)
  case (1 acc)
  show ?case
  proof (cases "drop_bit 16 acc = 0")
    case True
    then have "unat acc div 65536 = 0" using unat_drop16 [of acc] by simp
    then have "unat acc \<le> 65535" by (simp add: div_eq_0_iff)
    then show ?thesis using True by (simp add: fold_sum.simps norm16_small)
  next
    case False
    then show ?thesis using 1 by (simp add: fold_sum.simps [of acc] fold_step_unat norm16_fold)
  qed
qed

lemma unat_raw: "unat acc + wsum data < 2 ^ 32 \<Longrightarrow> unat (raw_loop acc data) = unat acc + wsum data"
proof (induction acc data rule: raw_loop.induct)
  case (1 acc a b data)
  have "unat (acc + ucast (rd16 a b)) = unat acc + unat (rd16 a b)"
    using "1.prems" by (subst unat_add_lem [THEN iffD1]) (simp_all add: unsigned_ucast_eq take_bit_nat_eq_self)
  then show ?case using 1 by simp
next
  case (2 acc a)
  then show ?case by (subst raw_loop.simps, subst unat_add_lem [THEN iffD1]) (simp_all add: unsigned_ucast_eq take_bit_nat_eq_self)
qed simp

lemma unat_not16: "unat (NOT y) = 65535 - unat y" for y :: u16
proof -
  have "NOT y = - 1 - y" by (simp add: not_eq_complement)
  moreover have "unat (- 1 - y) = unat (- 1 :: u16) - unat y" by (rule unat_sub) simp
  ultimately show ?thesis by (simp add: unsigned_minus_1_eq_mask mask_eq_exp_minus_1)
qed

lemma unat_ucast16: "unat (ucast (x :: 'a::len word) :: u16) = unat x mod 65536"
  by (simp add: unsigned_ucast_eq take_bit_eq_mod)

lemma add_adc_unat:
  assumes "unat acc \<le> 65535"
  shows "unat (add_adc acc w) = norm16 (unat acc + unat w)"
proof -
  have w: "unat w < 65536" using unsigned_less [of w, where ?'a = nat] by simp
  have a: "unat (ucast acc :: u16) = unat acc" using assms by (simp add: unat_ucast16)
  have "acc AND NOT 0xFFFF = 0"
  proof -
    have "unat (acc AND 0xFFFF) = unat acc" using assms by (simp add: mask16)
    then have "acc AND 0xFFFF = acc" by (rule unsigned_word_eqI)
    then show ?thesis by (metis and.assoc and.right_neutral and_zero_eq bit.conj_cancel_right)
  qed
  then have r: "add_adc acc w = ucast ((ucast acc :: u16) + w) + (if unat acc + unat w \<ge> 65536 then 1 else 0)"
    by (simp add: add_adc_def Let_def a)
  have low: "unat (ucast ((ucast acc :: u16) + w) :: u64) = (unat acc + unat w) mod 65536"
    using assms by (simp add: unsigned_ucast_eq take_bit_nat_eq_self unat_word_ariths a)
  show ?thesis
  proof (cases "unat acc + unat w \<ge> 65536")
    case False
    then show ?thesis using r low by (simp add: norm16_small)
  next
    case True
    have m: "(unat acc + unat w) mod 65536 = unat acc + unat w - 65536"
      using True w assms by (simp add: mod_if)
    have "unat (add_adc acc w) = unat acc + unat w - 65536 + 1"
      unfolding r using True low m w assms by (subst unat_add_lem [THEN iffD1]) simp_all
    also have "\<dots> = norm16 (unat acc + unat w - 65535)" using True w assms by (subst norm16_small) simp_all
    also have "\<dots> = norm16 (unat acc + unat w)"
    proof (rule norm16_cong)
      have "unat acc + unat w = (unat acc + unat w - 65535) + 65535" using True by simp
      then show "(unat acc + unat w - 65535) mod 65535 = (unat acc + unat w) mod 65535" by (metis mod_add_self2)
    qed (use True in linarith)
    finally show ?thesis .
  qed
qed

lemma adc_loop_unat:
  "unat acc \<le> 65535 \<Longrightarrow>
   norm16 (unat (adc_loop acc data)) = norm16 (unat acc + wsum data) \<and> unat (adc_loop acc data) \<le> 65535 + 255"
proof (induction acc data rule: adc_loop.induct)
  case (1 acc a b data)
  have n: "unat (add_adc acc (rd16 a b)) = norm16 (unat acc + unat (rd16 a b))" by (rule add_adc_unat [OF "1.prems"])
  then have "norm16 (unat (adc_loop acc (a # b # data))) = norm16 (norm16 (unat acc + unat (rd16 a b)) + wsum data)"
    using 1 norm16_le by simp
  then show ?case using 1 n norm16_le by (simp add: norm16_add add.assoc)
next
  case (2 acc a)
  have "unat a < 256" using unsigned_less [of a, where ?'a = nat] by simp
  moreover have "unat (acc + ucast a) = unat acc + unat a"
    using 2 \<open>unat a < 256\<close> by (subst unat_add_lem [THEN iffD1]) (simp_all add: unsigned_ucast_eq take_bit_nat_eq_self)
  ultimately show ?case using 2 by simp
qed simp

lemma unat_checksum: "unat (checksum16_adc data) = 65535 - norm16 (wsum data)"
proof -
  let ?s = "adc_loop 0 data"
  have s: "norm16 (unat ?s) = norm16 (wsum data)" "unat ?s \<le> 65535 + 255"
    using adc_loop_unat [of 0 data] by simp_all
  define t where "t = (?s AND 0xFFFF) + drop_bit 16 ?s"
  define u where "u = (t AND 0xFFFF) + drop_bit 16 t"
  have step: "unat ((x AND 0xFFFF) + drop_bit 16 x) = unat x mod 65536 + unat x div 65536" if "unat x < 2 ^ 32" for x :: u64
  proof -
    have "unat x mod 65536 + unat x div 65536 < 2 ^ 64" using that by (auto simp: less_mult_imp_div_less)
    then show ?thesis by (subst unat_add_lem [THEN iffD1]) (simp_all add: mask16 unat_drop16)
  qed
  have t: "unat t = unat ?s mod 65536 + unat ?s div 65536" unfolding t_def using s(2) by (intro step) simp
  have "unat ?s div 65536 \<le> 1" using s(2) by (simp add: div_le_mono [of _ "65535 + 255" 65536, simplified])
  moreover have "unat ?s mod 65536 \<le> 65535" using mod_less_divisor [of 65536 "unat ?s"] by linarith
  ultimately have t2: "unat t \<le> 65536" using t by linarith
  then have u: "unat u = unat t mod 65536 + unat t div 65536" unfolding u_def by (intro step) simp
  have "unat u \<le> 65535"
  proof (cases "unat t = 65536")
    case False
    then have "unat t < 65536" using t2 by linarith
    then show ?thesis using u by simp
  qed (use u in simp)
  moreover have "norm16 (unat u) = norm16 (wsum data)" using u t s(1) norm16_fold by simp
  ultimately have un: "unat u = norm16 (wsum data)" by (simp add: norm16_small)
  have "checksum16_adc data = ucast (NOT u)" by (simp add: checksum16_adc_def Let_def t_def u_def)
  also have "\<dots> = NOT (ucast u)" by (rule bit_word_eqI) (simp add: bit_simps)
  finally show ?thesis using un norm16_le [of "wsum data"] by (simp add: unat_not16 unat_ucast16)
qed

lemma wsum_append: "even (length xs) \<Longrightarrow> wsum (xs @ ys) = wsum xs + wsum ys"
  by (induction xs rule: wsum.induct) simp_all

lemma wsum_le16 [simp]: "wsum (le16 w) = unat w"
  using rd16_le16 [of w] by (simp add: le16_def)

lemma length_le16 [simp]: "length (le16 w) = 2" "length (le32 v) = 4"
  by (simp_all add: le16_def le32_def)

lemma wsum_bound: "wsum data \<le> 65535 * ((length data + 1) div 2)"
proof (induction data rule: wsum.induct)
  case (1 a b data)
  have "unat (rd16 a b) < 65536" using unsigned_less [of "rd16 a b", where ?'a = nat] by simp
  then show ?case using 1 by simp
next
  case (2 a)
  have "unat a < 256" using unsigned_less [of a, where ?'a = nat] by simp
  then show ?case by simp
qed simp

text \<open>
  Storing the checksum of a block, computed with its field zero, into the field makes
  the sum of the block the all-ones word.
\<close>

lemma checksum_verifies:
  assumes "even (length pre)" "norm16 (wsum (pre @ le16 0 @ post)) = n" "unat c = 65535 - n"
  shows "norm16 (wsum (pre @ le16 c @ post)) = 65535"
proof -
  let ?w = "wsum pre + wsum post"
  have w: "wsum (pre @ le16 x @ post) = ?w + unat x" for x using assms(1) by (simp add: wsum_append)
  have n: "n = norm16 ?w" using assms(2) w [of 0] by simp
  have "(norm16 ?w + (65535 - norm16 ?w)) mod 65535 = (?w + (65535 - norm16 ?w)) mod 65535"
    by (metis mod_add_left_eq norm16_mod(1))
  then have z: "(?w + unat c) mod 65535 = 65535 mod 65535"
    using assms(3) n norm16_le [of ?w] by simp
  have "?w + unat c \<noteq> 0" using assms(3) n norm16_le [of ?w] norm16_small [of 0] by (cases "?w = 0") auto
  then have "norm16 (?w + unat c) = norm16 65535" using z by (intro norm16_cong) simp_all
  then show ?thesis by (simp add: w norm16_small)
qed

section \<open>Dotted addresses round trip\<close>

lemma digit_char: "k < 10 \<Longrightarrow> of_char (char_of (48 + k) :: char) = 48 + (k :: nat)"
  by (simp add: of_char_of)

lemma octet_digit:
  "k < 10 \<Longrightarrow> octet_loop (word_of_nat a) (char_of (48 + k) # s) = octet_loop (word_of_nat (a * 10 + k)) s"
  using digit_char [of k] by (simp del: char_of_eq_iff add: algebra_simps)

lemma three_digits: "n = 100 * h + m \<Longrightarrow> m = 10 * t + u \<Longrightarrow> (h * 10 + t) * 10 + u = n" for n :: nat
  by simp

lemma octet_str:
  assumes "s = [] \<or> \<not> is_digit (hd s)"
  shows "octet_loop 0 (u8_to_str v @ s) = (word_of_nat (unat v), s)"
proof -
  have stop: "octet_loop a s = (a, s)" for a using assms by (cases s) auto
  have v: "unat v < 256" using unsigned_less [of v, where ?'a = nat] by simp
  have c: "v \<ge> 100 \<longleftrightarrow> unat v \<ge> 100" "v \<ge> 10 \<longleftrightarrow> unat v \<ge> 10" by (simp_all add: word_le_nat_alt)
  have d: "unat (v div 100) = unat v div 100" "unat (v mod 100 div 10) = unat v mod 100 div 10"
    "unat (v mod 100 mod 10) = unat v mod 100 mod 10" "unat (v div 10) = unat v div 10" "unat (v mod 10) = unat v mod 10"
    by (simp_all add: unat_div unat_mod)
  have zero: "octet_loop 0 = octet_loop (word_of_nat 0)" by simp
  consider "unat v \<ge> 100" | "unat v < 100" "unat v \<ge> 10" | "unat v < 10" by linarith
  then show ?thesis
  proof cases
    case 1
    have n: "((0 * 10 + unat v div 100) * 10 + unat v mod 100 div 10) * 10 + unat v mod 100 mod 10 = unat v"
      by (simp only: mult_0 add_0, rule three_digits [of _ _ "unat v mod 100"]) simp_all
    have "u8_to_str v = [char_of (48 + unat v div 100), char_of (48 + unat v mod 100 div 10), char_of (48 + unat v mod 100 mod 10)]"
      using 1 by (simp only: u8_to_str_def Let_def digit_def c d if_True)
    moreover have "unat v div 100 < 10" "unat v mod 100 div 10 < 10" "unat v mod 100 mod 10 < 10" using v by auto
    ultimately show ?thesis by (simp only: append_Cons append_Nil zero octet_digit n stop)
  next
    case 2
    have n: "(0 * 10 + unat v div 10) * 10 + unat v mod 10 = unat v" by simp
    have "u8_to_str v = [char_of (48 + unat v div 10), char_of (48 + unat v mod 10)]"
      using 2 by (simp add: u8_to_str_def digit_def c d)
    moreover have "unat v div 10 < 10" "unat v mod 10 < 10" using 2 by auto
    ultimately show ?thesis by (simp only: append_Cons append_Nil zero octet_digit n stop)
  next
    case 3
    have "u8_to_str v = [char_of (48 + unat v)]" using 3 by (simp add: u8_to_str_def digit_def c)
    then show ?thesis using 3 by (simp only: append_Cons append_Nil zero octet_digit mult_0 add_0 stop)
  qed
qed

lemma inet_octet:
  "octet_loop 0 (u8_to_str v @ ''.'' @ s) = (word_of_nat (unat v), CHR ''.'' # s)"
  "octet_loop 0 (u8_to_str v) = (word_of_nat (unat v), [])"
  using octet_str [of "''.'' @ s" v] octet_str [of "[]" v] by simp_all

lemma inet_roundtrip: "vxInetAddr (vxInetNtoa ip) = ip"
proof -
  obtain a b c d where le: "le32 ip = [a, b, c, d]" by (simp add: le32_def)
  have u: "(ucast (ucast v :: u32) :: u8) = v" for v :: u8
    by (rule bit_word_eqI) (simp add: bit_simps)
  have four: "(4 :: nat) = Suc (Suc (Suc (Suc 0)))" by simp
  have "vxInetAddr (vxInetNtoa ip) = inet_loop 4 [0, 0, 0, 0]
      (u8_to_str a @ ''.'' @ u8_to_str b @ ''.'' @ u8_to_str c @ ''.'' @ u8_to_str d)"
    by (simp add: vxInetAddr_def vxInetNtoa_def le)
  also have "\<dots> = rd32 a b c d"
    unfolding four inet_loop.simps inet_octet prod.case Let_def by (simp add: inet_octet [simplified] u Let_def)
  finally show ?thesis using rd32_le32 [OF le] by simp
qed

end
