(* ===== verification/Net.thy ===== *)
theory Net
  imports Net_Util Kstr
begin

text \<open>
  The network stack under \<^verbatim>\<open>kernel/net/\<close>: packet buffers (\<^verbatim>\<open>netbuff.c\<close>), frames
  (\<^verbatim>\<open>ethernet.c\<close>), IPv4 (\<^verbatim>\<open>ipv4.c\<close>), ICMP echo (\<^verbatim>\<open>icmp.c\<close>), and ARP replies (\<^verbatim>\<open>arp.c\<close>).

  A packet buffer is its 2048 bytes of DMA memory with the offsets of \<^verbatim>\<open>data\<close> and \<^verbatim>\<open>tail\<close>
  from \<^verbatim>\<open>head\<close>. The state holds the recycled buffers, the counter for identifications
  and the frames handed to the network card. A received packet is the list of bytes
  from its IP header on. None is the result of a handler that would access memory
  outside a buffer or would not return. The allocation of a new buffer is taken to succeed.
\<close>

unbundle bit_operations_syntax

section \<open>Packet buffers\<close>

definition NETBUFF_DATA_SIZE :: nat where "NETBUFF_DATA_SIZE = 2048"
definition NETBUFF_MAX_HEADROOM :: int where "NETBUFF_MAX_HEADROOM = 64"
definition NETBUFF_MAX_TEMP :: nat where "NETBUFF_MAX_TEMP = 32"

record netbuff =
  nb_mem :: "u8 list"
  nb_data :: int
  nb_tail :: int
  nb_length :: u16

record net =
  n_temp :: "netbuff list"
  n_mac :: "u8 list"
  n_mtu :: u16
  n_ip_id :: u16
  n_sent :: "u8 list list"

text \<open>The most recently freed buffer is reused first, with whatever it contains.\<close>

definition create_netbuff :: "net \<Rightarrow> net \<times> netbuff" where
  "create_netbuff n =
     (let (n1, mem) = (case n_temp n of
            [] \<Rightarrow> (n, replicate NETBUFF_DATA_SIZE 0)
          | nb # rest \<Rightarrow> (n\<lparr>n_temp := rest\<rparr>, nb_mem nb))
      in (n1, \<lparr>nb_mem = mem, nb_data = NETBUFF_MAX_HEADROOM, nb_tail = NETBUFF_MAX_HEADROOM, nb_length = 0\<rparr>))"

definition netbuff_put :: "netbuff \<Rightarrow> nat \<Rightarrow> netbuff \<times> int" where
  "netbuff_put nb len =
     (nb\<lparr>nb_tail := nb_tail nb + int len, nb_length := nb_length nb + word_of_nat len\<rparr>, nb_tail nb)"

definition netbuff_push :: "netbuff \<Rightarrow> nat \<Rightarrow> netbuff \<times> int" where
  "netbuff_push nb len =
     (nb\<lparr>nb_data := nb_data nb - int len, nb_length := nb_length nb + word_of_nat len\<rparr>, nb_data nb - int len)"

definition free_netbuff :: "netbuff \<Rightarrow> net \<Rightarrow> net" where
  "free_netbuff nb n =
     (if length (n_temp n) \<ge> NETBUFF_MAX_TEMP then n else n\<lparr>n_temp := nb # n_temp n\<rparr>)"

text \<open>Stores to and loads from the memory of a buffer; None outside of it.\<close>

definition poke :: "int \<Rightarrow> u8 list \<Rightarrow> netbuff \<Rightarrow> netbuff option" where
  "poke off bs nb =
     (if 0 \<le> off \<and> nat off + length bs \<le> length (nb_mem nb)
      then Some (nb\<lparr>nb_mem := memcopy (nb_mem nb) (nat off) bs 0 (length bs)\<rparr>)
      else None)"

definition peek :: "int \<Rightarrow> nat \<Rightarrow> u8 list \<Rightarrow> u8 list option" where
  "peek off n mem =
     (if 0 \<le> off \<and> nat off + n \<le> length mem then Some (take n (drop (nat off) mem)) else None)"

section \<open>Ethernet\<close>

definition ETHER_TYPE_ARP :: u16 where "ETHER_TYPE_ARP = 0x0806"
definition ETHER_TYPE_IP :: u16 where "ETHER_TYPE_IP = 0x0800"

definition pad_frame :: "netbuff \<Rightarrow> netbuff option" where
  "pad_frame nb =
     (if nb_length nb < 60
      then let pad_len = 60 - unat (nb_length nb)
           in case netbuff_put nb pad_len of (nb1, area) \<Rightarrow> poke area (replicate pad_len 0) nb1
      else Some nb)"

text \<open>
  The driver gets the physical address and the length of the frame; \<open>n_sent\<close> records the bytes that are there when it is called.
  That the card has read them before the buffer is used again is up to the driver.
\<close>

definition ethernet_send_frame :: "netbuff \<Rightarrow> u16 \<Rightarrow> u8 list \<Rightarrow> net \<Rightarrow> (net \<times> netbuff) option" where
  "ethernet_send_frame nb ethertype dst_mac n =
     (case netbuff_push nb 14 of (nb1, eth) \<Rightarrow>
      case poke eth (take 6 dst_mac @ take 6 (n_mac n) @ le16 ethertype) nb1 of None \<Rightarrow> None | Some nb2 \<Rightarrow>
      case pad_frame nb2 of None \<Rightarrow> None | Some nb3 \<Rightarrow>
      case peek (nb_data nb3) (unat (nb_length nb3)) (nb_mem nb3) of None \<Rightarrow> None
      | Some frame \<Rightarrow> Some (n\<lparr>n_sent := n_sent n @ [frame]\<rparr>, nb3))"

section \<open>IPv4\<close>

definition ip_header :: "u16 \<Rightarrow> u8 \<Rightarrow> u32 \<Rightarrow> u32 \<Rightarrow> u16 \<Rightarrow> u8 list" where
  "ip_header total_length protocol src_ip dst_ip checksum =
     [0x45, 0] @ le16 (vxHtons total_length) @ le16 0 @ le16 0 @ [64, protocol] @ le16 checksum @
     le32 src_ip @ le32 dst_ip"

definition fill_ip_header :: "u16 \<Rightarrow> u8 \<Rightarrow> u32 \<Rightarrow> u32 \<Rightarrow> u8 list" where
  "fill_ip_header total_length protocol src_ip dst_ip =
     ip_header total_length protocol src_ip dst_ip
       (checksum16_adc (ip_header total_length protocol src_ip dst_ip 0))"

definition MYIP :: string where "MYIP = ''192.168.100.80''"

definition get_next_ip_id :: "net \<Rightarrow> net \<times> u16" where
  "get_next_ip_id n = (n\<lparr>n_ip_id := n_ip_id n + 1\<rparr>, n_ip_id n)"

text \<open>The loop that sends a payload in pieces; \<open>sent\<close> bytes are out already.\<close>

function ip_fragments ::
    "netbuff \<Rightarrow> nat \<Rightarrow> nat \<Rightarrow> nat \<Rightarrow> u32 \<Rightarrow> u32 \<Rightarrow> u8 \<Rightarrow> u8 list \<Rightarrow> net \<Rightarrow> net option" where
  "ip_fragments nb max_ip_payload total_payload_len sent src_ip dst_ip protocol mac_dest n =
     (if \<not> sent < total_payload_len then Some n else
      let chunk_size = (if total_payload_len - sent > max_ip_payload then max_ip_payload
                        else total_payload_len - sent)
      in if chunk_size = 0 then None else
         case create_netbuff n of (n1, frag) \<Rightarrow>
         case netbuff_put frag chunk_size of (frag1, dest) \<Rightarrow>
         case peek (nb_data nb + int sent) chunk_size (nb_mem nb) of None \<Rightarrow> None | Some piece \<Rightarrow>
         case poke dest piece frag1 of None \<Rightarrow> None | Some frag2 \<Rightarrow>
         case netbuff_push frag2 20 of (frag3, ip_hdr) \<Rightarrow>
         case poke ip_hdr (fill_ip_header (nb_length frag3) protocol src_ip dst_ip) frag3 of
           None \<Rightarrow> None
         | Some frag4 \<Rightarrow>
             (case ethernet_send_frame frag4 (vxHtons ETHER_TYPE_IP) mac_dest n1 of None \<Rightarrow> None
              | Some (n2, frag5) \<Rightarrow>
                  ip_fragments nb max_ip_payload total_payload_len (sent + chunk_size) src_ip dst_ip protocol
                    mac_dest (free_netbuff frag5 n2)))"
  by pat_completeness auto
termination
  by (relation "measure (\<lambda>(nb, mx, tot, sent, rest). tot - sent)") auto

declare ip_fragments.simps [simp del]

definition ipv4_send :: "netbuff \<Rightarrow> u32 \<Rightarrow> u8 \<Rightarrow> u8 list \<Rightarrow> net \<Rightarrow> (net \<times> netbuff) option" where
  "ipv4_send nb dst_ip protocol mac_dest n =
     (case get_next_ip_id n of (n1, ip_id) \<Rightarrow>
      let max_ip_payload = n_mtu n - 20;
          ip_addr = vxInetAddr MYIP
      in if nb_length nb \<le> max_ip_payload then
           (case netbuff_push nb 20 of (nb1, ip_hdr) \<Rightarrow>
            case poke ip_hdr (fill_ip_header (nb_length nb + 20) protocol ip_addr dst_ip) nb1 of None \<Rightarrow> None
            | Some nb2 \<Rightarrow> ethernet_send_frame nb2 (vxHtons ETHER_TYPE_IP) mac_dest n1)
         else
           map_option (\<lambda>n2. (n2, nb))
             (ip_fragments nb (unat max_ip_payload) (unat (nb_length nb)) 0 ip_addr dst_ip protocol mac_dest n1))"

section \<open>ICMP\<close>

text \<open>Fields of a received packet, at their offsets.\<close>

definition u8_at :: "nat \<Rightarrow> u8 list \<Rightarrow> u8 option" where
  "u8_at i p = (if i < length p then Some (p ! i) else None)"

definition u16_at :: "nat \<Rightarrow> u8 list \<Rightarrow> u16 option" where
  "u16_at i p = (if i + 1 < length p then Some (rd16 (p ! i) (p ! (i + 1))) else None)"

definition u32_at :: "nat \<Rightarrow> u8 list \<Rightarrow> u32 option" where
  "u32_at i p =
     (if i + 3 < length p then Some (rd32 (p ! i) (p ! (i + 1)) (p ! (i + 2)) (p ! (i + 3))) else None)"

definition ip_hdr_len :: "u8 \<Rightarrow> nat" where
  "ip_hdr_len version_ihl = unat (version_ihl AND 0x0F) * 4"

text \<open>The reply: the request with type 0 and a new checksum.\<close>

definition echo_reply :: "u8 list \<Rightarrow> u8 list" where
  "echo_reply req =
     (let zeroed = [0, req ! 1] @ le16 0 @ drop 4 req
      in [0, req ! 1] @ le16 (checksum16_adc zeroed) @ drop 4 req)"

definition handle_icmp :: "u8 list \<Rightarrow> u8 list \<Rightarrow> net \<Rightarrow> net option" where
  "handle_icmp ip mac_dst n =
     (case (u8_at 0 ip, u16_at 2 ip, u16_at 6 ip, u32_at 12 ip) of
        (Some version_ihl, Some tot, Some flags_fragment, Some src_ip) \<Rightarrow>
          let hl = ip_hdr_len version_ihl; total_len = unat (vxNtohs tot)
          in if total_len < hl + 8 then Some n
             else let icmp_len = total_len - hl; frag_field = vxNtohs flags_fragment
                  in if frag_field AND 0x2000 \<noteq> 0 \<or> frag_field AND 0x1FFF > 0 then Some n
                     else (case u8_at hl ip of None \<Rightarrow> None | Some ty \<Rightarrow>
                           if ty \<noteq> 8 then Some n else
                           case create_netbuff n of (n1, nb) \<Rightarrow>
                           case netbuff_put nb icmp_len of (nb1, area) \<Rightarrow>
                           case peek (int hl) icmp_len ip of None \<Rightarrow> None | Some req \<Rightarrow>
                           case poke area (echo_reply req) nb1 of None \<Rightarrow> None | Some nb2 \<Rightarrow>
                           case ipv4_send nb2 src_ip 1 mac_dst n1 of None \<Rightarrow> None
                           | Some (n2, nb3) \<Rightarrow> Some (free_netbuff nb3 n2))
      | _ \<Rightarrow> None)"

section \<open>ARP\<close>

definition arp_packet :: "u8 list \<Rightarrow> u32 \<Rightarrow> u8 list \<Rightarrow> u32 \<Rightarrow> u8 list" where
  "arp_packet sender_mac sender_ip target_mac target_ip =
     le16 0x0100 @ le16 0x0008 @ [6, 4] @ le16 0x0200 @ take 6 sender_mac @ le32 sender_ip @
     take 6 target_mac @ le32 target_ip"

definition arp_reply :: "u32 \<Rightarrow> u8 list \<Rightarrow> net \<Rightarrow> net option" where
  "arp_reply ip out_mac n =
     (case create_netbuff n of (n1, nb) \<Rightarrow>
      case netbuff_put nb 28 of (nb1, area) \<Rightarrow>
      case poke area (arp_packet (n_mac n) (vxInetAddr MYIP) out_mac ip) nb1 of None \<Rightarrow> None | Some nb2 \<Rightarrow>
      case ethernet_send_frame nb2 0x0608 out_mac n1 of None \<Rightarrow> None
      | Some (n2, nb3) \<Rightarrow> Some (free_netbuff nb3 n2))"

section \<open>The bytes of a buffer\<close>

definition nb_view :: "netbuff \<Rightarrow> u8 list" where
  "nb_view nb = take (unat (nb_length nb)) (drop (nat (nb_data nb)) (nb_mem nb))"

definition nb_wf :: "netbuff \<Rightarrow> bool" where
  "nb_wf nb \<longleftrightarrow> length (nb_mem nb) = NETBUFF_DATA_SIZE \<and> 0 \<le> nb_data nb \<and>
     0 \<le> nb_tail nb \<and> nat (nb_tail nb) = nat (nb_data nb) + unat (nb_length nb) \<and>
     nat (nb_tail nb) \<le> NETBUFF_DATA_SIZE"

definition net_ok :: "net \<Rightarrow> bool" where
  "net_ok n \<longleftrightarrow> (\<forall>nb \<in> set (n_temp n). length (nb_mem nb) = NETBUFF_DATA_SIZE) \<and> length (n_mac n) = 6"

lemma create_netbuff_ok:
  assumes "net_ok n" and "create_netbuff n = (n1, nb)"
  shows "nb_wf nb \<and> nb_data nb = 64 \<and> nb_length nb = 0 \<and> nb_view nb = [] \<and> net_ok n1 \<and>
    n_mac n1 = n_mac n \<and> n_mtu n1 = n_mtu n \<and> n_ip_id n1 = n_ip_id n \<and> n_sent n1 = n_sent n"
  using assms
  by (auto simp: create_netbuff_def net_ok_def nb_wf_def nb_view_def NETBUFF_MAX_HEADROOM_def
      NETBUFF_DATA_SIZE_def split: list.splits)

lemma nb_length_view: "nb_wf nb \<Longrightarrow> length (nb_view nb) = unat (nb_length nb)"
  by (auto simp: nb_wf_def nb_view_def)

lemma free_netbuff_ok: "net_ok n \<Longrightarrow> length (nb_mem nb) = NETBUFF_DATA_SIZE \<Longrightarrow> net_ok (free_netbuff nb n)"
  and free_netbuff_sent [simp]: "n_sent (free_netbuff nb n) = n_sent n"
  by (auto simp: net_ok_def free_netbuff_def)

lemma unat_add16:
  assumes "unat (a :: u16) + k \<le> 2048"
  shows "unat (a + word_of_nat k) = unat a + k"
  using assms by (simp add: unat_word_ariths unat_of_nat take_bit_nat_eq_self)

lemma push_poke:
  assumes "nb_wf nb" and "int (length bs) \<le> nb_data nb" and "netbuff_push nb (length bs) = (nb1, off)"
  shows "\<exists>nb2. poke off bs nb1 = Some nb2 \<and> nb_wf nb2 \<and> nb_view nb2 = bs @ nb_view nb \<and>
    nb_data nb2 = nb_data nb - int (length bs) \<and> nb_length nb2 = nb_length nb + word_of_nat (length bs)"
proof -
  define d where "d = nat (nb_data nb) - length bs"
  have wf: "length (nb_mem nb) = 2048" "0 \<le> nb_data nb" "nat (nb_data nb) + unat (nb_length nb) \<le> 2048"
    using assms(1) by (auto simp: nb_wf_def NETBUFF_DATA_SIZE_def)
  have dd: "nat (nb_data nb) = d + length bs" "nat (nb_data nb - int (length bs)) = d"
    using assms(2) wf(2) by (auto simp: d_def)
  have l: "unat (nb_length nb + word_of_nat (length bs)) = unat (nb_length nb) + length bs"
    by (rule unat_add16) (use wf assms(2) in linarith)
  have m: "memcopy (nb_mem nb) d bs 0 (length bs) = take d (nb_mem nb) @ bs @ drop (d + length bs) (nb_mem nb)"
    using wf(1,3) dd(1) by (subst memcopy_splice) simp_all
  let ?nb = "nb\<lparr>nb_data := nb_data nb - int (length bs), nb_length := nb_length nb + word_of_nat (length bs),
      nb_mem := take d (nb_mem nb) @ bs @ drop (d + length bs) (nb_mem nb)\<rparr>"
  have "d + length bs \<le> 2048" using wf(3) dd(1) by linarith
  then have "nb_view ?nb = bs @ nb_view nb" by (simp add: nb_view_def dd l wf(1))
  moreover have "nb_wf ?nb" using assms(1,2) wf dd l by (simp add: nb_wf_def NETBUFF_DATA_SIZE_def)
  moreover have "poke off bs nb1 = Some ?nb"
    using assms(2,3) \<open>d + length bs \<le> 2048\<close> by (auto simp: netbuff_push_def poke_def dd(2) m wf(1))
  ultimately show ?thesis by (intro exI [of _ ?nb]) simp
qed

lemma put_poke:
  assumes "nb_wf nb" and "nb_tail nb + int (length bs) \<le> 2048" and "netbuff_put nb (length bs) = (nb1, off)"
  shows "\<exists>nb2. poke off bs nb1 = Some nb2 \<and> nb_wf nb2 \<and> nb_view nb2 = nb_view nb @ bs \<and>
    nb_data nb2 = nb_data nb \<and> nb_length nb2 = nb_length nb + word_of_nat (length bs)"
proof -
  define d where "d = nat (nb_data nb)"
  define k where "k = unat (nb_length nb)"
  have wf: "length (nb_mem nb) = 2048" "0 \<le> nb_data nb" "nat (nb_tail nb) = nat (nb_data nb) + k" "0 \<le> nb_tail nb"
    using assms(1) by (auto simp: nb_wf_def NETBUFF_DATA_SIZE_def k_def)
  have t: "nat (nb_tail nb) = d + k" "d + k + length bs \<le> 2048" "nat (nb_tail nb + int (length bs)) = d + k + length bs"
    using assms(2) wf by (auto simp: d_def)
  have l: "unat (nb_length nb + word_of_nat (length bs)) = k + length bs"
    unfolding k_def by (rule unat_add16) (use t k_def in linarith)
  have m: "memcopy (nb_mem nb) (d + k) bs 0 (length bs) = take (d + k) (nb_mem nb) @ bs @ drop (d + k + length bs) (nb_mem nb)"
    using wf(1) t by (subst memcopy_splice) simp_all
  show ?thesis
    using assms wf t l
    by (auto simp: netbuff_put_def poke_def nb_wf_def nb_view_def NETBUFF_DATA_SIZE_def m k_def [symmetric]
        d_def [symmetric] drop_take)
qed

lemma peek_view:
  assumes "nb_wf nb"
  shows "peek (nb_data nb) (unat (nb_length nb)) (nb_mem nb) = Some (nb_view nb)"
  using assms by (auto simp: nb_wf_def peek_def nb_view_def)

section \<open>The frames that are sent\<close>

definition eth_frame :: "u8 list \<Rightarrow> u8 list \<Rightarrow> u16 \<Rightarrow> u8 list \<Rightarrow> u8 list" where
  "eth_frame dst src ethertype payload =
     take 6 dst @ take 6 src @ le16 ethertype @ payload @ replicate (60 - (14 + length payload)) 0"

lemma pad_frame_ok:
  assumes "nb_wf nb" and "nb_data nb \<le> 64"
  shows "\<exists>nb1. pad_frame nb = Some nb1 \<and> nb_wf nb1 \<and>
    nb_view nb1 = nb_view nb @ replicate (60 - unat (nb_length nb)) 0"
proof (cases "nb_length nb < 60")
  case True
  let ?bs = "replicate (60 - unat (nb_length nb)) (0 :: u8)"
  have l: "unat (nb_length nb) < 60" using True by (simp add: word_less_nat_alt)
  obtain nb1 off where p: "netbuff_put nb (length ?bs) = (nb1, off)" by fastforce
  have "nat (nb_tail nb) + length ?bs \<le> 124" using assms l by (simp add: nb_wf_def)
  then have "nb_tail nb + int (length ?bs) \<le> 2048" by linarith
  from put_poke [OF assms(1) this p] p True show ?thesis by (auto simp: pad_frame_def Let_def)
next
  case False
  then have "60 \<le> unat (nb_length nb)" by (simp add: word_less_nat_alt)
  then show ?thesis using False assms by (auto simp: pad_frame_def)
qed

lemma ethernet_sends:
  assumes "nb_wf nb" "14 \<le> nb_data nb" "nb_data nb \<le> 78" "length (n_mac n) = 6" "length mac = 6"
  shows "\<exists>nb1. ethernet_send_frame nb et mac n =
      Some (n\<lparr>n_sent := n_sent n @ [eth_frame mac (n_mac n) et (nb_view nb)]\<rparr>, nb1) \<and> nb_wf nb1"
proof -
  let ?h = "take 6 mac @ take 6 (n_mac n) @ le16 et"
  have h: "length ?h = 14" using assms(4,5) by simp
  obtain nb1 off where p: "netbuff_push nb (length ?h) = (nb1, off)" by fastforce
  obtain nb2 where k: "poke off ?h nb1 = Some nb2" "nb_wf nb2" "nb_view nb2 = ?h @ nb_view nb" "nb_data nb2 = nb_data nb - 14"
    using push_poke [OF assms(1) _ p] assms(2) h by auto
  obtain nb3 where d: "pad_frame nb2 = Some nb3" "nb_wf nb3"
      "nb_view nb3 = nb_view nb2 @ replicate (60 - unat (nb_length nb2)) 0"
    using pad_frame_ok [OF k(2)] k(4) assms(3) by auto
  have "unat (nb_length nb2) = 14 + length (nb_view nb)"
    using nb_length_view [OF k(2)] k(3) h by simp
  then have "nb_view nb3 = eth_frame mac (n_mac n) et (nb_view nb)" using d(3) k(3) by (simp add: eth_frame_def)
  then show ?thesis using p k(1) d peek_view [OF d(2)] h by (auto simp: ethernet_send_frame_def)
qed

lemma length_fill_ip_header [simp]: "length (fill_ip_header len proto src dst) = 20"
  by (simp add: fill_ip_header_def ip_header_def)

lemma ipv4_sends:
  assumes "nb_wf nb" "34 \<le> nb_data nb" "nb_data nb \<le> 98" "length (n_mac n) = 6" "length mac = 6"
    and "nb_length nb \<le> n_mtu n - 20"
  shows "\<exists>n1 nb1. ipv4_send nb dst proto mac n = Some (n1, nb1) \<and> nb_wf nb1 \<and>
    n1 = n\<lparr>n_ip_id := n_ip_id n + 1, n_sent := n_sent n @ [eth_frame mac (n_mac n) 8
      (fill_ip_header (nb_length nb + 20) proto (vxInetAddr MYIP) dst @ nb_view nb)]\<rparr>"
proof -
  let ?h = "fill_ip_header (nb_length nb + 20) proto (vxInetAddr MYIP) dst"
  let ?n = "n\<lparr>n_ip_id := n_ip_id n + 1\<rparr>"
  obtain nb1 off where p: "netbuff_push nb (length ?h) = (nb1, off)" by fastforce
  obtain nb2 where k: "poke off ?h nb1 = Some nb2" "nb_wf nb2" "nb_view nb2 = ?h @ nb_view nb" "nb_data nb2 = nb_data nb - 20"
    using push_poke [OF assms(1) _ p] assms(2) by auto
  have et: "vxHtons ETHER_TYPE_IP = 8" by (simp add: ETHER_TYPE_IP_def vxHtons_def)
  obtain nb3 where "ethernet_send_frame nb2 8 mac ?n =
      Some (?n\<lparr>n_sent := n_sent ?n @ [eth_frame mac (n_mac ?n) 8 (nb_view nb2)]\<rparr>, nb3)" "nb_wf nb3"
    using ethernet_sends [OF k(2), of ?n mac 8] k(4) assms(2-5) by auto
  then show ?thesis using p k assms(6) by (auto simp: ipv4_send_def get_next_ip_id_def et)
qed

end
