(* ===== verification/Tcp.thy ===== *)
theory Tcp
  imports Net
begin

text \<open>
  The TCP responder \<^verbatim>\<open>kernel/net/tcp.c\<close>: it answers a connection request with a
  synchronise-acknowledge segment, a request that starts with \<^verbatim>\<open>GET\<close> with a fixed page, and
  acknowledges the end of a connection.
\<close>

unbundle bit_operations_syntax

section \<open>TCP\<close>

definition FLAG_FIN :: u8 where "FLAG_FIN = 0x01"
definition FLAG_SYN :: u8 where "FLAG_SYN = 0x02"
definition FLAG_PSH :: u8 where "FLAG_PSH = 0x08"
definition FLAG_ACK :: u8 where "FLAG_ACK = 0x10"
definition TCP_PROTOCOL :: u8 where "TCP_PROTOCOL = 6"

record tcp_options =
  to_mss :: u16
  to_has_wscale :: u8
  to_wscale :: u8
  to_sack_permitted :: u8
  to_has_timestamp :: u8
  to_ts_val :: u32
  to_ts_ecr :: u32

definition tcp_hdr_len :: "u8 \<Rightarrow> nat" where
  "tcp_hdr_len offset = unat ((drop_bit 4 offset) AND 0x0F) * 4"

definition be32 :: "u8 \<Rightarrow> u8 \<Rightarrow> u8 \<Rightarrow> u8 \<Rightarrow> u32" where
  "be32 a b c d =
     push_bit 24 (ucast a) OR push_bit 16 (ucast b) OR push_bit 8 (ucast c) OR ucast d"

text \<open>
  One round of the option loop at \<open>opt\<close>: the options after it and the next position,
  or no position when the loop ends. None is a load beyond the packet.
\<close>

definition tcp_option ::
    "u8 list \<Rightarrow> nat \<Rightarrow> tcp_options \<Rightarrow> (tcp_options \<times> nat option) option" where
  "tcp_option tcp opt out =
     (case u8_at opt tcp of None \<Rightarrow> None | Some kind \<Rightarrow>
      if kind = 0 then Some (out, None)
      else if kind = 1 then Some (out, Some (opt + 1))
      else case u8_at (opt + 1) tcp of None \<Rightarrow> None | Some len \<Rightarrow>
        let next = opt + unat len
        in if kind = 2 then
             (if len = 4
              then (case (u8_at (opt + 2) tcp, u8_at (opt + 3) tcp) of
                      (Some a, Some b) \<Rightarrow> Some (out\<lparr>to_mss := push_bit 8 (ucast a) OR ucast b\<rparr>, Some next)
                    | _ \<Rightarrow> None)
              else Some (out, Some next))
           else if kind = 3 then
             (case u8_at (opt + 2) tcp of None \<Rightarrow> None | Some w \<Rightarrow>
              Some ((if len = 3 then out\<lparr>to_has_wscale := 1\<rparr> else out)\<lparr>to_wscale := w\<rparr>, Some next))
           else if kind = 4 then Some (out\<lparr>to_sack_permitted := 1\<rparr>, Some next)
           else if kind = 8 then
             (if len = 10
              then (if opt + 9 < length tcp
                    then Some (out\<lparr>to_has_timestamp := 1,
                           to_ts_val := be32 (tcp ! (opt + 2)) (tcp ! (opt + 3)) (tcp ! (opt + 4)) (tcp ! (opt + 5)),
                           to_ts_ecr := be32 (tcp ! (opt + 6)) (tcp ! (opt + 7)) (tcp ! (opt + 8)) (tcp ! (opt + 9))\<rparr>,
                         Some next)
                    else None)
              else Some (out, Some next))
           else if len = 0 then Some (out, None)
           else Some (out, Some next))"

text \<open>
  The loop. The outer option is None when the loop does not end, the inner one when
  it loads beyond the packet.
\<close>

partial_function (option) option_loop ::
    "u8 list \<Rightarrow> nat \<Rightarrow> nat \<Rightarrow> tcp_options \<Rightarrow> tcp_options option option" where
  "option_loop tcp stop opt out =
     (if opt < stop then
        (case tcp_option tcp opt out of
           None \<Rightarrow> Some None
         | Some (out1, None) \<Rightarrow> Some (Some out1)
         | Some (out1, Some opt1) \<Rightarrow> option_loop tcp stop opt1 out1)
      else Some (Some out))"

definition default_options :: tcp_options where
  "default_options = \<lparr>to_mss = 536, to_has_wscale = 0, to_wscale = 0, to_sack_permitted = 0,
     to_has_timestamp = 0, to_ts_val = 0, to_ts_ecr = 0\<rparr>"

definition parse_tcp_options :: "u8 list \<Rightarrow> u8 \<Rightarrow> tcp_options option option" where
  "parse_tcp_options tcp offset = option_loop tcp (tcp_hdr_len offset) 20 default_options"

definition build_synack_options :: "net \<Rightarrow> tcp_options \<Rightarrow> u8 list" where
  "build_synack_options n client_opts =
     (let our_mss = n_mtu n - 20 - 20;
          mss = (if to_mss client_opts < our_mss then to_mss client_opts else our_mss)
      in [2, 4, ucast (drop_bit 8 mss AND 0xFF), ucast (mss AND 0xFF), 1])"

definition tcp_header ::
    "u16 \<Rightarrow> u16 \<Rightarrow> u32 \<Rightarrow> u32 \<Rightarrow> u8 \<Rightarrow> u8 \<Rightarrow> u16 \<Rightarrow> u16 \<Rightarrow> u8 list \<Rightarrow> u8 list" where
  "tcp_header source_port destination_port sequence acknowledgment offset flags window checksum urgent_ptr =
     le16 source_port @ le16 destination_port @ le32 sequence @ le32 acknowledgment @ [offset, flags] @
     le16 window @ le16 checksum @ urgent_ptr"

definition pseudo_header :: "u32 \<Rightarrow> u32 \<Rightarrow> u16 \<Rightarrow> u8 list" where
  "pseudo_header src_ip dst_ip tcp_length =
     le32 src_ip @ le32 dst_ip @ [0, TCP_PROTOCOL] @ le16 (vxHtons tcp_length)"

text \<open>
  \<^verbatim>\<open>send_command\<close>: the reply carries the five option bytes. \<^verbatim>\<open>urgent_ptr\<close> is never
  stored, so the two bytes in the buffer stay. \<open>rnd\<close> is the value \<^verbatim>\<open>vxRand\<close> returns.
\<close>

definition send_command ::
    "u32 \<Rightarrow> u8 list \<Rightarrow> u8 list \<Rightarrow> tcp_options \<Rightarrow> u8 \<Rightarrow> u8 list \<Rightarrow> net \<Rightarrow> net option" where
  "send_command rnd ip tcp opt flags mac_dst n =
     (case (u32_at 12 ip, u32_at 16 ip, u16_at 0 tcp, u16_at 2 tcp, u32_at 4 tcp) of
        (Some src_ip, Some dst_ip, Some sport, Some dport, Some seq) \<Rightarrow>
          let opt_buf = build_synack_options n opt; opt_len = length opt_buf; reply_len = 20 + opt_len
          in case create_netbuff n of (n1, nb) \<Rightarrow>
             case netbuff_push nb reply_len of (nb1, reply) \<Rightarrow>
             case peek (reply + 18) 2 (nb_mem nb1) of None \<Rightarrow> None | Some urgent \<Rightarrow>
             let hdr = (\<lambda>checksum. tcp_header dport sport (vxHtonl rnd) (vxHtonl (vxNtohl seq + 1))
                          (word_of_nat ((5 + opt_len div 4) * 16)) flags (vxHtons 65535) checksum urgent);
                 acc = checksum16_raw (pseudo_header dst_ip src_ip (word_of_nat reply_len)) +
                       checksum16_raw (hdr 0 @ opt_buf)
             in case poke reply (hdr (ucast (NOT (fold_sum acc))) @ opt_buf) nb1 of None \<Rightarrow> None | Some nb2 \<Rightarrow>
                case ipv4_send nb2 src_ip TCP_PROTOCOL mac_dst n1 of None \<Rightarrow> None
                | Some (n2, nb3) \<Rightarrow> Some (free_netbuff nb3 n2)
      | _ \<Rightarrow> None)"

definition send_tcp_data :: "u8 list \<Rightarrow> u8 list \<Rightarrow> u8 list \<Rightarrow> u8 list \<Rightarrow> net \<Rightarrow> net option" where
  "send_tcp_data ip tcp data mac_dst n =
     (case (u8_at 0 ip, u16_at 2 ip, u32_at 12 ip, u32_at 16 ip) of
        (Some version_ihl, Some tot, Some src_ip, Some dst_ip) \<Rightarrow>
          (case (u16_at 0 tcp, u16_at 2 tcp, u32_at 4 tcp, u32_at 8 tcp, u8_at 12 tcp) of
             (Some sport, Some dport, Some seq, Some ack, Some offset) \<Rightarrow>
               let incoming_data_len =
                     (vxNtohs tot - word_of_nat (ip_hdr_len version_ihl) - word_of_nat (tcp_hdr_len offset) :: u16)
               in case create_netbuff n of (n1, nb) \<Rightarrow>
                  case netbuff_put nb (length data) of (nb1, payload) \<Rightarrow>
                  case poke payload data nb1 of None \<Rightarrow> None | Some nb2 \<Rightarrow>
                  case netbuff_push nb2 20 of (nb3, reply) \<Rightarrow>
                  case peek (reply + 18) 2 (nb_mem nb3) of None \<Rightarrow> None | Some urgent \<Rightarrow>
                  let hdr = (\<lambda>checksum. tcp_header dport sport ack (vxHtonl (vxNtohl seq + ucast incoming_data_len))
                               0x50 (FLAG_ACK OR FLAG_FIN OR FLAG_PSH) (vxHtons 65535) checksum urgent);
                      acc = checksum16_raw (pseudo_header dst_ip src_ip (20 + word_of_nat (length data))) +
                            checksum16_raw (hdr 0) + checksum16_raw data
                  in case poke reply (hdr (ucast (NOT (fold_sum acc)))) nb3 of None \<Rightarrow> None | Some nb4 \<Rightarrow>
                     case ipv4_send nb4 src_ip TCP_PROTOCOL mac_dst n1 of None \<Rightarrow> None
                     | Some (n2, nb5) \<Rightarrow> Some (free_netbuff nb5 n2)
           | _ \<Rightarrow> None)
      | _ \<Rightarrow> None)"

definition bytes_of :: "string \<Rightarrow> u8 list" where
  "bytes_of s = map (\<lambda>c. word_of_nat (of_char c)) s"

definition CRLF :: string where "CRLF = [CHR 0x0D, CHR 0x0A]"

definition http_resp :: string where
  "http_resp = ''HTTP/1.1 200 OK'' @ CRLF @ ''Content-Length: 13'' @ CRLF @ ''Connection: close'' @ CRLF @ CRLF @
     ''Hello, World!''"

definition handle_tcp :: "u32 \<Rightarrow> u8 list \<Rightarrow> u8 list \<Rightarrow> net \<Rightarrow> net option" where
  "handle_tcp rnd ip mac_dst n =
     (case (u8_at 0 ip, u16_at 2 ip) of
        (Some version_ihl, Some tot) \<Rightarrow>
          let hl = ip_hdr_len version_ihl; total_len = unat (vxNtohs tot); tcp = drop hl ip
          in (case u8_at 12 tcp of None \<Rightarrow> None | Some offset \<Rightarrow>
              let thl = tcp_hdr_len offset
              in if thl < 20 \<or> total_len < hl + thl then Some n
                 else case (u8_at 13 tcp, parse_tcp_options tcp offset) of
                   (Some flags, Some (Some client_opts)) \<Rightarrow>
                     let syn = flags AND FLAG_SYN \<noteq> 0; ack = flags AND FLAG_ACK \<noteq> 0; fin = flags AND FLAG_FIN \<noteq> 0
                     in if syn \<and> \<not> ack then send_command rnd ip tcp client_opts (FLAG_SYN OR FLAG_ACK) mac_dst n
                        else if ack \<and> \<not> syn then
                          let data_len = total_len - hl - thl
                          in if data_len > 0 \<and> flags AND FLAG_PSH \<noteq> 0 then
                               (if data_len \<ge> 4
                                then (case peek (int thl) 4 tcp of None \<Rightarrow> None | Some req \<Rightarrow>
                                      if req = bytes_of ''GET ''
                                      then send_tcp_data ip tcp (bytes_of http_resp) mac_dst n
                                      else Some n)
                                else Some n)
                             else if fin then send_command rnd ip tcp client_opts FLAG_ACK mac_dst n
                             else Some n
                        else Some n
                 | _ \<Rightarrow> None)
      | _ \<Rightarrow> None)"

section \<open>The option loop\<close>

text \<open>The positions at which the loop looks, and those it never leaves.\<close>

inductive option_pos :: "u8 list \<Rightarrow> nat \<Rightarrow> nat \<Rightarrow> bool" for tcp stop where
  start: "option_pos tcp stop 20"
| step: "\<lbrakk>option_pos tcp stop p; p < stop; tcp_option tcp p default_options = Some (out, Some q)\<rbrakk> \<Longrightarrow>
    option_pos tcp stop q"

definition option_stuck :: "u8 list \<Rightarrow> nat \<Rightarrow> nat \<Rightarrow> bool" where
  "option_stuck tcp stop p \<longleftrightarrow> p < stop \<and> p + 1 < length tcp \<and> tcp ! p \<in> {2, 3, 4, 8} \<and> tcp ! (p + 1) = 0 \<and>
     (tcp ! p = 3 \<longrightarrow> p + 2 < length tcp)"

lemma option_next_indep:
  "tcp_option tcp p o1 = Some (r, x) \<Longrightarrow> \<exists>r'. tcp_option tcp p o2 = Some (r', x)"
  by (auto simp: tcp_option_def Let_def split: option.splits if_splits)

lemma option_stuck_step:
  "option_stuck tcp stop p \<Longrightarrow> \<exists>r. tcp_option tcp p out = Some (r, Some p)"
  by (auto simp: option_stuck_def tcp_option_def u8_at_def Let_def)

lemma option_progress:
  assumes "tcp_option tcp p out = Some (r, Some q)" and "p < stop" and "\<not> option_stuck tcp stop p"
  shows "p < q"
proof (cases "p + 1 < length tcp \<and> tcp ! (p + 1) \<noteq> 0")
  case True
  then have "0 < unat (tcp ! (p + 1))" using unat_eq_0 [of "tcp ! (p + 1)"] by auto
  with assms(1) show ?thesis by (auto simp: tcp_option_def u8_at_def Let_def split: option.splits if_splits)
next
  case False
  with assms show ?thesis
    by (auto simp: tcp_option_def u8_at_def option_stuck_def Let_def split: option.splits if_splits)
qed

lemma option_loop_stuck:
  assumes "option_loop tcp stop p out = Some y"
  shows "\<not> option_stuck tcp stop p"
proof (rule option_loop.raw_induct [OF _ assms])
  fix loop tcp stop p out y
  assume ih: "\<And>tcp stop p out y. loop tcp stop p out = Some y \<Longrightarrow> \<not> option_stuck tcp stop p"
    and body: "(if p < stop then case tcp_option tcp p out of None \<Rightarrow> Some None
        | Some (out1, None) \<Rightarrow> Some (Some out1) | Some (out1, Some opt1) \<Rightarrow> loop tcp stop opt1 out1
      else Some (Some out)) = Some y"
  show "\<not> option_stuck tcp stop p"
  proof
    assume st: "option_stuck tcp stop p"
    then obtain r where "tcp_option tcp p out = Some (r, Some p)" using option_stuck_step by blast
    with body st have "loop tcp stop p r = Some y" by (simp add: option_stuck_def)
    with ih st show False by blast
  qed
qed

lemma option_loop_reaches:
  assumes "option_pos tcp stop p"
  shows "\<exists>out. option_loop tcp stop 20 default_options = option_loop tcp stop p out"
  using assms
proof induction
  case (step p o1 q)
  then obtain out where out: "option_loop tcp stop 20 default_options = option_loop tcp stop p out" by blast
  obtain r where "tcp_option tcp p out = Some (r, Some q)" using option_next_indep [OF step(3)] by blast
  then have "option_loop tcp stop p out = option_loop tcp stop q r" using step(2) by (subst option_loop.simps) simp
  then show ?case using out by metis
qed blast

lemma option_loop_returns:
  assumes "option_pos tcp stop p" and "\<And>q. option_pos tcp stop q \<Longrightarrow> \<not> option_stuck tcp stop q"
  shows "option_loop tcp stop p out \<noteq> None"
  using assms(1)
proof (induction "stop - p" arbitrary: p out rule: less_induct)
  case less
  show ?case
  proof (cases "p < stop")
    case True
    have "option_loop tcp stop q r \<noteq> None" if t: "tcp_option tcp p out = Some (r, Some q)" for r q
    proof -
      obtain r' where "tcp_option tcp p default_options = Some (r', Some q)" using option_next_indep [OF t] by blast
      then have "option_pos tcp stop q" by (rule option_pos.step [OF less.prems True])
      moreover have "p < q" using option_progress [OF t True] assms(2) [OF less.prems] by blast
      ultimately show ?thesis using less.hyps True by (meson diff_less_mono2)
    qed
    then show ?thesis using True by (subst option_loop.simps) (auto split: option.splits)
  qed (subst option_loop.simps, simp)
qed

section \<open>Checksums of segments\<close>

lemma checksum16_raw_small: "length data \<le> 4096 \<Longrightarrow> unat (checksum16_raw data) = wsum data"
  using wsum_bound [of data] unat_raw [of 0 data] by (simp add: checksum16_raw_def)

lemma raw_append:
  assumes "even (length a)" and "length a + length b \<le> 4096"
  shows "checksum16_raw a + checksum16_raw b = checksum16_raw (a @ b)"
proof -
  have "unat (checksum16_raw (a @ b)) = unat (checksum16_raw a) + unat (checksum16_raw b)"
    using assms by (simp add: checksum16_raw_small wsum_append)
  moreover have "unat (checksum16_raw (a @ b)) < 2 ^ 32"
    using unsigned_less [of "checksum16_raw (a @ b)", where ?'a = nat] by simp
  ultimately have "unat (checksum16_raw a + checksum16_raw b) = unat (checksum16_raw (a @ b))"
    using unat_add_lem [of "checksum16_raw a" "checksum16_raw b"] by simp
  then show ?thesis by (metis unsigned_word_eqI)
qed

lemma fold_verifies:
  assumes "even (length pre)" and "length pre + length post \<le> 4000"
  shows "norm16 (wsum (pre @ le16 (ucast (NOT (fold_sum (checksum16_raw (pre @ le16 0 @ post))))) @ post)) = 65535"
proof -
  let ?f = "fold_sum (checksum16_raw (pre @ le16 0 @ post))"
  have f: "unat ?f = norm16 (wsum (pre @ le16 0 @ post))"
    using assms by (simp add: unat_fold_sum checksum16_raw_small)
  have "(ucast (NOT ?f) :: u16) = NOT (ucast ?f)" by (rule bit_word_eqI) (simp add: bit_simps)
  then have "unat (ucast (NOT ?f) :: u16) = 65535 - norm16 (wsum (pre @ le16 0 @ post))"
    using norm16_le [of "wsum (pre @ le16 0 @ post)"] by (simp add: unat_not16 unat_ucast16 f)
  then show ?thesis by (rule checksum_verifies [OF assms(1) refl])
qed

definition synack :: "u32 \<Rightarrow> u16 \<Rightarrow> u16 \<Rightarrow> u32 \<Rightarrow> u8 \<Rightarrow> u8 list \<Rightarrow> u8 list \<Rightarrow> u16 \<Rightarrow> u8 list" where
  "synack rnd sport dport seq flags opts urgent checksum =
     tcp_header dport sport (vxHtonl rnd) (vxHtonl (vxNtohl seq + 1)) 0x60 flags (vxHtons 65535) checksum urgent @ opts"

lemma length_synack_options [simp]: "length (build_synack_options n opts) = 5"
  by (simp add: build_synack_options_def Let_def)

lemma synack_verifies:
  assumes "length urgent = 2" and "length opts = 5"
    and "c = ucast (NOT (fold_sum (checksum16_raw (pseudo_header dst src 25) +
           checksum16_raw (synack rnd sport dport seq flags opts urgent 0))))"
  shows "norm16 (wsum (pseudo_header dst src 25 @ synack rnd sport dport seq flags opts urgent c)) = 65535"
proof -
  let ?pre = "pseudo_header dst src 25 @ le16 dport @ le16 sport @ le32 (vxHtonl rnd) @ le32 (vxHtonl (vxNtohl seq + 1)) @
    [0x60, flags] @ le16 (vxHtons 65535)"
  have sp: "pseudo_header dst src 25 @ synack rnd sport dport seq flags opts urgent x = ?pre @ le16 x @ urgent @ opts" for x
    by (simp add: synack_def tcp_header_def)
  have "c = ucast (NOT (fold_sum (checksum16_raw (?pre @ le16 0 @ urgent @ opts))))"
    using assms by (simp add: raw_append pseudo_header_def synack_def tcp_header_def)
  then show ?thesis
    unfolding sp using fold_verifies [of ?pre "urgent @ opts"] assms(1,2) by (simp add: pseudo_header_def)
qed

lemma send_command_sends:
  assumes "net_ok n" and "length mac = 6" and "25 \<le> n_mtu n - 20"
    and flds: "u32_at 12 ip = Some src" "u32_at 16 ip = Some dst"
      "u16_at 0 tcp = Some sport" "u16_at 2 tcp = Some dport" "u32_at 4 tcp = Some seq"
  shows "\<exists>n1 urgent c. let seg = synack rnd sport dport seq flags (build_synack_options n opts) urgent c in
    send_command rnd ip tcp opts flags mac n = Some n1 \<and> net_ok n1 \<and> length urgent = 2 \<and>
    n_sent n1 = n_sent n @ [eth_frame mac (n_mac n) 8 (fill_ip_header 45 6 (vxInetAddr MYIP) src @ seg)] \<and>
    norm16 (wsum (pseudo_header dst src 25 @ seg)) = 65535"
proof -
  let ?o = "build_synack_options n opts"
  obtain n1 nb where c: "create_netbuff n = (n1, nb)" by fastforce
  have nb: "nb_wf nb" "nb_data nb = 64" "nb_length nb = 0" "nb_view nb = []" "net_ok n1"
    and n1: "n_mac n1 = n_mac n" "n_mtu n1 = n_mtu n" "n_sent n1 = n_sent n"
    using create_netbuff_ok [OF assms(1) c] by auto
  obtain nb1 off where p: "netbuff_push nb 25 = (nb1, off)" by fastforce
  have off: "off = 39" "length (nb_mem nb1) = 2048"
    using p nb(1,2) by (auto simp: netbuff_push_def nb_wf_def NETBUFF_DATA_SIZE_def)
  define urgent where "urgent = take 2 (drop 57 (nb_mem nb1))"
  have u: "peek (off + 18) 2 (nb_mem nb1) = Some urgent" "length urgent = 2"
    using off by (auto simp: peek_def urgent_def)
  define ck where "ck = (ucast (NOT (fold_sum (checksum16_raw (pseudo_header dst src 25) +
      checksum16_raw (synack rnd sport dport seq flags ?o urgent 0)))) :: u16)"
  define seg where "seg = synack rnd sport dport seq flags ?o urgent ck"
  have seg: "length seg = 25" by (simp add: seg_def synack_def tcp_header_def u(2))
  then obtain nb2 where k: "poke off seg nb1 = Some nb2" "nb_wf nb2" "nb_view nb2 = seg" "nb_data nb2 = 39" "nb_length nb2 = 25"
    using push_poke [OF nb(1), of seg nb1 off] nb p by auto
  have mac: "length (n_mac n1) = 6" using nb(5) by (simp add: net_ok_def)
  obtain n2 nb3 where s: "ipv4_send nb2 src 6 mac n1 = Some (n2, nb3)" "nb_wf nb3"
      "n2 = n1\<lparr>n_ip_id := n_ip_id n1 + 1, n_sent := n_sent n1 @ [eth_frame mac (n_mac n1) 8
        (fill_ip_header (nb_length nb2 + 20) 6 (vxInetAddr MYIP) src @ nb_view nb2)]\<rparr>"
    using ipv4_sends [OF k(2) _ _ mac assms(2), of src 6] k(4,5) assms(3) n1 by auto
  have "send_command rnd ip tcp opts flags mac n = Some (free_netbuff nb3 n2)"
    using flds c p u(1) k(1) s(1)
    by (simp add: send_command_def Let_def TCP_PROTOCOL_def seg_def ck_def synack_def)
  moreover have "net_ok (free_netbuff nb3 n2)"
    using nb(5) s(2,3) by (intro free_netbuff_ok) (auto simp: net_ok_def nb_wf_def)
  moreover have "norm16 (wsum (pseudo_header dst src 25 @ seg)) = 65535"
    unfolding seg_def by (rule synack_verifies [OF u(2) _ ck_def]) simp
  ultimately show ?thesis
    using s(3) n1 k(3,5) u(2) by (intro exI [of _ "free_netbuff nb3 n2"] exI [of _ urgent] exI [of _ ck])
      (simp add: Let_def seg_def)
qed

end
