(* ===== verification/Net_Props.thy ===== *)
theory Net_Props
  imports Tcp
begin

text \<open>
  What the network stack sends and how it treats what it receives: the two checksum
  routines agree, dotted addresses survive a round trip, an echo request is answered by
  one correct frame, and the sizes that the echo and option code does not check.
\<close>

unbundle bit_operations_syntax

section \<open>Checksums and addresses\<close>

lemma raw_unat:
  assumes "length data \<le> 131072"
  shows "unat (checksum16_raw data) = wsum data"
proof -
  have "(length data + 1) div 2 \<le> 65536" using assms by linarith
  then have "wsum data \<le> 65535 * 65536" using wsum_bound [of data] by linarith
  then show ?thesis by (simp add: checksum16_raw_def unat_raw)
qed

text \<open>
  (C28) The assembly checksum routine, which adds 16-bit words and feeds the carry back, and the
  plain sum of 16-bit words, folded and complemented as the TCP code does, give the same
  checksum for every packet up to 128 KiB.
\<close>

theorem checksum_routines_agree:
  assumes "length data \<le> 131072"
  shows "checksum16_adc data = ucast (NOT (fold_sum (checksum16_raw data)))"
proof -
  let ?f = "fold_sum (checksum16_raw data)"
  have f: "unat ?f = norm16 (wsum data)" by (simp add: unat_fold_sum raw_unat [OF assms])
  have "(ucast (NOT ?f) :: u16) = NOT (ucast ?f)" by (rule bit_word_eqI) (simp add: bit_simps)
  then have "unat (ucast (NOT ?f) :: u16) = 65535 - norm16 (wsum data)"
    using norm16_le [of "wsum data"] by (simp add: unat_not16 unat_ucast16 f)
  then show ?thesis using unat_checksum [of data] unsigned_word_eqI by metis
qed

theorem checksum_routines_agree_witness:
  "checksum16_adc [0x45, 0, 0, 0x54, 0x1c] = ucast (NOT (fold_sum (checksum16_raw [0x45, 0, 0, 0x54, 0x1c])))"
  by (rule checksum_routines_agree) simp

text \<open>Printing an address and parsing the text gives the address back.\<close>

lemma inet_ntoa_addr: "vxInetAddr (vxInetNtoa ip) = ip"
  by (rule inet_roundtrip)

section \<open>Echo\<close>

lemma checksum_zero: "checksum16_adc data = 0 \<longleftrightarrow> norm16 (wsum data) = 65535"
  using unat_checksum [of data] norm16_le [of "wsum data"] unat_eq_0 [of "checksum16_adc data"] by auto

lemma adc_verifies:
  assumes "even (length pre)"
  shows "checksum16_adc (pre @ le16 (checksum16_adc (pre @ le16 0 @ post)) @ post) = 0"
  unfolding checksum_zero by (rule checksum_verifies [OF assms refl]) (rule unat_checksum)

lemma ip_header_verifies: "checksum16_adc (fill_ip_header len proto src dst) = 0"
  using adc_verifies [of "[0x45, 0] @ le16 (vxHtons len) @ le16 0 @ le16 0 @ [64, proto]" "le32 src @ le32 dst"]
  by (simp add: fill_ip_header_def ip_header_def)

lemma echo_reply_verifies: "checksum16_adc (echo_reply req) = 0"
  using adc_verifies [of "[0, req ! 1]" "drop 4 req"] by (simp add: echo_reply_def Let_def)

lemma length_echo_reply: "8 \<le> length req \<Longrightarrow> length (echo_reply req) = length req"
  by (simp add: echo_reply_def Let_def)

lemma field_append:
  "u8_at i p = Some b \<Longrightarrow> u8_at i (p @ q) = Some b"
  "u16_at i p = Some w \<Longrightarrow> u16_at i (p @ q) = Some w"
  "u32_at i p = Some v \<Longrightarrow> u32_at i (p @ q) = Some v"
  by (auto simp: u8_at_def u16_at_def u32_at_def nth_append split: if_splits)

text \<open>
  (C22) An unfragmented echo request whose reply fits a packet buffer and the MTU is answered by
  exactly one frame: it goes to the sender's hardware address, its IP header and its ICMP
  message pass the receiver's checksum test, and the message is the request with type 0.
\<close>

theorem ping_reply:
  assumes "net_ok n" and "length mac = 6"
    and "ip = hdr @ icmp @ rest" and "length hdr = ip_hdr_len (hdr ! 0)" and "20 \<le> length hdr"
    and "u16_at 2 hdr = Some tot" and "unat (vxNtohs tot) = length hdr + length icmp"
    and "u16_at 6 hdr = Some frag" and "vxNtohs frag AND 0x2000 = 0" and "vxNtohs frag AND 0x1FFF = 0"
    and "u32_at 12 hdr = Some src"
    and "icmp ! 0 = 8" and "8 \<le> length icmp" and "length icmp \<le> 1984"
    and "word_of_nat (length icmp) \<le> n_mtu n - 20"
  shows "\<exists>n1 iph. handle_icmp ip mac n = Some n1 \<and> net_ok n1 \<and>
    n_sent n1 = n_sent n @ [eth_frame mac (n_mac n) 8 (iph @ echo_reply icmp)] \<and>
    iph = fill_ip_header (word_of_nat (length icmp) + 20) 1 (vxInetAddr MYIP) src \<and>
    checksum16_adc iph = 0 \<and> checksum16_adc (echo_reply icmp) = 0"
proof -
  let ?hl = "length hdr" and ?il = "length icmp"
  obtain n1 nb where c: "create_netbuff n = (n1, nb)" by fastforce
  have nb: "nb_wf nb" "nb_data nb = 64" "nb_length nb = 0" "nb_view nb = []" "net_ok n1"
    and n1: "n_mac n1 = n_mac n" "n_mtu n1 = n_mtu n" "n_sent n1 = n_sent n"
    using create_netbuff_ok [OF assms(1) c] by auto
  have er: "length (echo_reply icmp) = ?il" by (rule length_echo_reply) fact
  obtain nb1 off where p: "netbuff_put nb (length (echo_reply icmp)) = (nb1, off)" by fastforce
  have "nat (nb_tail nb) = 64" using nb by (simp add: nb_wf_def)
  then have "nb_tail nb + int (length (echo_reply icmp)) \<le> 2048" using er assms(14) by linarith
  from put_poke [OF nb(1) this p] obtain nb2 where k: "poke off (echo_reply icmp) nb1 = Some nb2" "nb_wf nb2"
      "nb_view nb2 = echo_reply icmp" "nb_data nb2 = 64" "nb_length nb2 = word_of_nat ?il"
    using nb(2-4) er by auto
  have mac: "length (n_mac n1) = 6" using nb(5) by (simp add: net_ok_def)
  obtain n2 nb3 where s: "ipv4_send nb2 src 1 mac n1 = Some (n2, nb3)" "nb_wf nb3"
      "n2 = n1\<lparr>n_ip_id := n_ip_id n1 + 1, n_sent := n_sent n1 @ [eth_frame mac (n_mac n1) 8
        (fill_ip_header (nb_length nb2 + 20) 1 (vxInetAddr MYIP) src @ nb_view nb2)]\<rparr>"
    using ipv4_sends [OF k(2) _ _ mac assms(2), of src 1] k(4,5) assms(15) n1 by auto
  have flds: "u8_at 0 ip = Some (hdr ! 0)" "u16_at 2 ip = Some tot" "u16_at 6 ip = Some frag" "u32_at 12 ip = Some src"
    using assms(3,5,6,8,11) field_append by (auto simp: u8_at_def nth_append)
  have ty: "u8_at ?hl ip = Some 8" "peek (int ?hl) ?il ip = Some icmp"
    using assms(3,12,13) by (auto simp: u8_at_def nth_append peek_def)
  have "handle_icmp ip mac n = Some (free_netbuff nb3 n2)"
    using flds ty c p k(1) s(1) assms(4) [symmetric] assms(7,9,10,13) er
    by (simp add: handle_icmp_def Let_def)
  moreover have "net_ok (free_netbuff nb3 n2)"
    using nb(5) s(2,3) by (intro free_netbuff_ok) (auto simp: net_ok_def nb_wf_def)
  ultimately show ?thesis
    using s(3) n1 k(3,5) ip_header_verifies echo_reply_verifies by auto
qed

text \<open>
  (C38) The length of the echo data comes from the packet and is not checked against the buffer:
  an unfragmented echo request that claims more than 1984 bytes makes the handler
  store beyond the 2048 bytes of the buffer or load beyond the packet.
\<close>

theorem ping_overflow:
  assumes "u8_at 0 ip = Some v" and "u16_at 2 ip = Some tot" and "u16_at 6 ip = Some frag" and "u32_at 12 ip = Some src"
    and "vxNtohs frag AND 0x2000 = 0" and "vxNtohs frag AND 0x1FFF = 0"
    and "u8_at (ip_hdr_len v) ip = Some 8" and "ip_hdr_len v + 1984 < unat (vxNtohs tot)" and "net_ok n"
  shows "handle_icmp ip mac n = None"
proof -
  let ?il = "unat (vxNtohs tot) - ip_hdr_len v"
  obtain n1 nb where c: "create_netbuff n = (n1, nb)" by fastforce
  have nb: "nb_wf nb" "nb_data nb = 64" "nb_length nb = 0" using create_netbuff_ok [OF assms(9) c] by auto
  then have t: "nb_tail nb = 64" "length (nb_mem nb) = 2048" by (auto simp: nb_wf_def NETBUFF_DATA_SIZE_def)
  have "poke (nb_tail nb) (echo_reply req) (fst (netbuff_put nb ?il)) = None" if "peek (int (ip_hdr_len v)) ?il ip = Some req" for req
  proof -
    have "length req = ?il" using that by (auto simp: peek_def split: if_splits)
    then have "length (echo_reply req) = ?il" using assms(8) by (intro length_echo_reply [THEN trans]) auto
    then show ?thesis using t assms(8) by (simp add: poke_def netbuff_put_def)
  qed
  then show ?thesis
    using assms(1-8) c by (auto simp: handle_icmp_def Let_def netbuff_put_def split: option.splits)
qed

definition sample_net :: net where
  "sample_net = \<lparr>n_temp = [], n_mac = [2, 0, 0, 0, 0, 1], n_mtu = 15000, n_ip_id = 0, n_sent = []\<rparr>"

text \<open>An IP header from 10.0.0.1 for a packet of \<open>len\<close> bytes, and an echo request.\<close>

definition sample_ip :: "u16 \<Rightarrow> u8 \<Rightarrow> u8 list" where
  "sample_ip len proto = [0x45, 0, ucast (drop_bit 8 len), ucast len, 0, 0, 0, 0, 64, proto, 0, 0, 10, 0, 0, 1, 192, 168, 100, 80]"

definition sample_mac :: "u8 list" where "sample_mac = [2, 0, 0, 0, 0, 9]"

definition sample_echo :: "u8 list" where "sample_echo = [8, 0, 0, 0, 0, 1, 0, 1]"

theorem ping_reply_witness:
  "\<exists>n1. handle_icmp (sample_ip 28 1 @ sample_echo) sample_mac sample_net = Some n1 \<and> length (n_sent n1) = 1"
proof -
  have "\<exists>n1 iph. handle_icmp (sample_ip 28 1 @ sample_echo) sample_mac sample_net = Some n1 \<and> net_ok n1 \<and>
    n_sent n1 = n_sent sample_net @ [eth_frame sample_mac (n_mac sample_net) 8 (iph @ echo_reply sample_echo)] \<and>
    iph = fill_ip_header (word_of_nat (length sample_echo) + 20) 1 (vxInetAddr MYIP) 0x0100000A \<and>
    checksum16_adc iph = 0 \<and> checksum16_adc (echo_reply sample_echo) = 0"
    by (rule ping_reply [where hdr = "sample_ip 28 1" and rest = "[]" and tot = "0x1C00" and frag = "0"])
       (simp_all add: net_ok_def sample_net_def sample_mac_def sample_ip_def sample_echo_def ip_hdr_len_def
        u16_at_def u32_at_def rd16_def rd32_def vxNtohs_def)
  then show ?thesis by (auto simp: sample_net_def)
qed

theorem ping_overflow_witness:
  "handle_icmp (sample_ip 4096 1 @ sample_echo) sample_mac sample_net = None"
  by (rule ping_overflow [where v = "0x45" and tot = "0x0010" and frag = "0" and src = "0x0100000A"])
     (simp_all add: net_ok_def sample_net_def sample_ip_def sample_echo_def ip_hdr_len_def
      u8_at_def u16_at_def u32_at_def rd16_def rd32_def vxNtohs_def)

section \<open>TCP\<close>

text \<open>
  (C26) The loop over the options of a segment returns, possibly by loading beyond the packet,
  exactly when it never comes to an option of kind 2, 3, 4 or 8 whose length byte is 0; at
  such an option it stays for ever.
\<close>

theorem tcp_options_return:
  "(\<exists>r. parse_tcp_options tcp offset = Some r) \<longleftrightarrow>
   (\<nexists>p. option_pos tcp (tcp_hdr_len offset) p \<and> option_stuck tcp (tcp_hdr_len offset) p)"
proof
  assume "\<exists>r. parse_tcp_options tcp offset = Some r"
  then show "\<nexists>p. option_pos tcp (tcp_hdr_len offset) p \<and> option_stuck tcp (tcp_hdr_len offset) p"
    unfolding parse_tcp_options_def by (metis option_loop_reaches option_loop_stuck)
next
  assume "\<nexists>p. option_pos tcp (tcp_hdr_len offset) p \<and> option_stuck tcp (tcp_hdr_len offset) p"
  then show "\<exists>r. parse_tcp_options tcp offset = Some r"
    unfolding parse_tcp_options_def using option_loop_returns [OF option_pos.start] by blast
qed

text \<open>
  (C30) A connection request to the address of this machine is answered by one frame whose IP header and whose segment pass the
  receiver's checksum tests, the latter with the addresses of that IP header; ports are swapped and the client's number plus one is
  acknowledged. The segment is 25 bytes long, though its offset field says 24. The code does not compare the destination of a request with
  its own address, so the hypothesis on it is needed.
\<close>

theorem tcp_syn_reply:
  assumes "net_ok n" and "length mac = 6" and "25 \<le> n_mtu n - 20"
    and "u8_at 0 ip = Some v" and "u16_at 2 ip = Some tot"
    and "u32_at 12 ip = Some src" and "u32_at 16 ip = Some (vxInetAddr MYIP)" and "tcp = drop (ip_hdr_len v) ip"
    and "u16_at 0 tcp = Some sport" and "u16_at 2 tcp = Some dport" and "u32_at 4 tcp = Some seq"
    and "u8_at 12 tcp = Some offset" and "u8_at 13 tcp = Some flags"
    and "20 \<le> tcp_hdr_len offset" and "ip_hdr_len v + tcp_hdr_len offset \<le> unat (vxNtohs tot)"
    and "flags AND FLAG_SYN \<noteq> 0" and "flags AND FLAG_ACK = 0"
    and "parse_tcp_options tcp offset = Some (Some opts)"
  shows "\<exists>n1 iph urgent c. let seg = synack rnd sport dport seq 0x12 (build_synack_options n opts) urgent c in
    handle_tcp rnd ip mac n = Some n1 \<and> net_ok n1 \<and> length seg = 25 \<and>
    n_sent n1 = n_sent n @ [eth_frame mac (n_mac n) 8 (iph @ seg)] \<and>
    iph = fill_ip_header 45 6 (vxInetAddr MYIP) src \<and> checksum16_adc iph = 0 \<and>
    checksum16_adc (pseudo_header (vxInetAddr MYIP) src 25 @ seg) = 0"
proof -
  have h: "handle_tcp rnd ip mac n = send_command rnd ip tcp opts 0x12 mac n"
    using assms(4,5,8,12-18) by (simp add: handle_tcp_def Let_def FLAG_SYN_def FLAG_ACK_def)
  obtain n1 urgent c where "let seg = synack rnd sport dport seq 0x12 (build_synack_options n opts) urgent c in
      send_command rnd ip tcp opts 0x12 mac n = Some n1 \<and> net_ok n1 \<and> length urgent = 2 \<and>
      n_sent n1 = n_sent n @ [eth_frame mac (n_mac n) 8 (fill_ip_header 45 6 (vxInetAddr MYIP) src @ seg)] \<and>
      norm16 (wsum (pseudo_header (vxInetAddr MYIP) src 25 @ seg)) = 65535"
    using send_command_sends [OF assms(1-3,6,7,9-11)] by blast
  then show ?thesis
    unfolding h by (intro exI [of _ n1] exI [of _ "fill_ip_header 45 6 (vxInetAddr MYIP) src"] exI [of _ urgent] exI [of _ c])
      (simp add: Let_def checksum_zero [symmetric] ip_header_verifies synack_def tcp_header_def)
qed

text \<open>A segment of 20 bytes from port 1024 to port 80 with the synchronise flag.\<close>

definition sample_syn :: "u8 list" where
  "sample_syn = [4, 0, 0, 80, 0, 0, 0, 7, 0, 0, 0, 0, 0x50, 2, 255, 255, 0, 0, 0, 0]"

lemma my_address: "vxInetAddr MYIP = 0x5064A8C0"
  by code_simp

theorem tcp_syn_reply_witness:
  "\<exists>n1. handle_tcp 99 (sample_ip 40 6 @ sample_syn) sample_mac sample_net = Some n1 \<and> length (n_sent n1) = 1"
proof -
  have p: "parse_tcp_options sample_syn 0x50 = Some (Some default_options)"
    by (simp add: parse_tcp_options_def tcp_hdr_len_def option_loop.simps)
  have ip: "drop (ip_hdr_len 0x45) (sample_ip 40 6 @ sample_syn) = sample_syn"
    by (simp add: ip_hdr_len_def sample_ip_def)
  have "\<exists>n1 iph urgent c. let seg = synack 99 4 0x5000 0x07000000 0x12 (build_synack_options sample_net default_options) urgent c in
    handle_tcp 99 (sample_ip 40 6 @ sample_syn) sample_mac sample_net = Some n1 \<and> net_ok n1 \<and> length seg = 25 \<and>
    n_sent n1 = n_sent sample_net @ [eth_frame sample_mac (n_mac sample_net) 8 (iph @ seg)] \<and>
    iph = fill_ip_header 45 6 (vxInetAddr MYIP) 0x0100000A \<and> checksum16_adc iph = 0 \<and>
    checksum16_adc (pseudo_header (vxInetAddr MYIP) 0x0100000A 25 @ seg) = 0"
    by (rule tcp_syn_reply [where v = "0x45" and tot = "0x2800" and offset = "0x50" and flags = "2" and tcp = sample_syn])
       (simp_all only: p ip, simp_all add: net_ok_def sample_net_def sample_mac_def sample_ip_def sample_syn_def ip_hdr_len_def tcp_hdr_len_def
        FLAG_SYN_def FLAG_ACK_def u8_at_def u16_at_def u32_at_def rd16_def rd32_def vxNtohs_def my_address)
  then show ?thesis by (auto simp: sample_net_def Let_def)
qed

end
