(* ===== verification/Item_Queue.thy ===== *)
theory Item_Queue
  imports Byte_Ring
begin

text \<open>
  Bounded queues of items kept in a circular array: the receive queue of a network
  card (\<^verbatim>\<open>kernel/sys/ioforge/ioforge_nic.c\<close>) and the backlog of a listening Unix socket
  (\<^verbatim>\<open>pending[]\<close> in \<^verbatim>\<open>struct unix_socket\<close>). The interface \<open>item_queue\<close> is the contract both
  implement; the lemmas on arrays carry the two implementations.
\<close>

section \<open>One store and one load in a circular array\<close>

lemma ring_view_cong:
  assumes "\<And>i. i < n \<Longrightarrow> b ! ((t + i) mod cap) = b' ! ((t + i) mod cap)"
  shows "ring_view cap b t n = ring_view cap b' t n"
  by (rule nth_equalityI) (auto simp: assms)

lemma mod_shift_neq:
  assumes "i < n" and "n < (cap :: nat)"
  shows "(t + i) mod cap \<noteq> (t + n) mod cap"
proof
  assume "(t + i) mod cap = (t + n) mod cap"
  then have "cap dvd (t + n) - (t + i)"
    using assms mod_eq_dvd_iff_nat [of "t + i" "t + n" cap] by (simp add: eq_commute)
  then have "cap dvd n - i" by simp
  with assms show False by (simp add: nat_dvd_not_less)
qed

lemma ring_view_Suc: "ring_view cap b t (Suc n) = b ! (t mod cap) # ring_view cap b (Suc t) n"
  by (rule nth_equalityI) (auto simp: nth_Cons split: nat.split)

lemma ring_view_snoc: "ring_view cap b t (Suc n) = ring_view cap b t n @ [b ! ((t + n) mod cap)]"
  by (simp add: ring_view_def)

lemma ring_view_enq:
  assumes "n < cap" and "length b = cap"
  shows "ring_view cap (b[(t + n) mod cap := x]) t (Suc n) = ring_view cap b t n @ [x]"
proof -
  have "(t + n) mod cap < length b" using assms by simp
  moreover have "ring_view cap (b[(t + n) mod cap := x]) t n = ring_view cap b t n"
    by (rule ring_view_cong) (metis assms(1) mod_shift_neq nth_list_update_neq)
  ultimately show ?thesis by (simp add: ring_view_snoc)
qed

lemma ring_view_clear:
  assumes "n < cap"
  shows "ring_view cap (b[t mod cap := z]) (Suc t) n = ring_view cap b (Suc t) n"
proof (rule ring_view_cong)
  fix i assume "i < n"
  have "(t + 0) mod cap \<noteq> (t + Suc i) mod cap" by (rule mod_shift_neq) (use \<open>i < n\<close> assms in auto)
  then show "b[t mod cap := z] ! ((Suc t + i) mod cap) = b ! ((Suc t + i) mod cap)" by simp
qed

section \<open>The contract\<close>

datatype 'a queue_op = Enq 'a | Deq

text \<open>
  An item is accepted while there is room and dropped otherwise; items leave in the
  order they came.
\<close>

locale item_queue =
  fixes invar :: "'q \<Rightarrow> bool"
    and contents :: "'q \<Rightarrow> 'a list"
    and room :: nat
    and admissible :: "'a \<Rightarrow> bool"
    and enq :: "'a \<Rightarrow> 'q \<Rightarrow> 'q"
    and deq :: "'q \<Rightarrow> ('q \<times> 'a) option"
  assumes within: "invar q \<Longrightarrow> length (contents q) \<le> room"
    and enq_law: "\<lbrakk>invar q; admissible x\<rbrakk> \<Longrightarrow> invar (enq x q) \<and>
      contents (enq x q) = (if length (contents q) < room then contents q @ [x] else contents q)"
    and deq_empty: "\<lbrakk>invar q; contents q = []\<rbrakk> \<Longrightarrow> deq q = None"
    and deq_law: "\<lbrakk>invar q; contents q = x # xs\<rbrakk> \<Longrightarrow>
      \<exists>q'. deq q = Some (q', x) \<and> invar q' \<and> contents q' = xs"
begin

text \<open>A run of the queue with the items it hands out, and the same run of a plain list.\<close>

fun run_queue :: "'q \<Rightarrow> 'a queue_op list \<Rightarrow> 'q \<times> 'a list" where
  "run_queue q [] = (q, [])"
| "run_queue q (Enq x # ops) = run_queue (enq x q) ops"
| "run_queue q (Deq # ops) =
     (case deq q of None \<Rightarrow> run_queue q ops
      | Some (q1, x) \<Rightarrow> (case run_queue q1 ops of (q2, out) \<Rightarrow> (q2, x # out)))"

fun run_list :: "'a list \<Rightarrow> 'a queue_op list \<Rightarrow> 'a list \<times> 'a list" where
  "run_list xs [] = (xs, [])"
| "run_list xs (Enq x # ops) = run_list (if length xs < room then xs @ [x] else xs) ops"
| "run_list [] (Deq # ops) = run_list [] ops"
| "run_list (x # xs) (Deq # ops) = (case run_list xs ops of (ys, out) \<Rightarrow> (ys, x # out))"

lemma run_refines:
  assumes "invar q" and "\<forall>x. Enq x \<in> set ops \<longrightarrow> admissible x" and "run_queue q ops = (q', out)"
  shows "invar q' \<and> run_list (contents q) ops = (contents q', out)"
  using assms
proof (induction q ops arbitrary: q' out rule: run_queue.induct)
  case (2 q x ops)
  have e: "invar (enq x q)"
    "contents (enq x q) = (if length (contents q) < room then contents q @ [x] else contents q)"
    using enq_law "2.prems" by auto
  have "invar q' \<and> run_list (contents (enq x q)) ops = (contents q', out)"
    by (rule "2.IH" [OF e(1)]) (use "2.prems" in auto)
  then show ?case by (simp add: e(2))
next
  case (3 q ops)
  show ?case
  proof (cases "contents q")
    case Nil
    then have "deq q = None" using deq_empty "3.prems"(1) by blast
    with 3 Nil show ?thesis by simp
  next
    case (Cons x xs)
    obtain q1 where d: "deq q = Some (q1, x)" "invar q1" "contents q1 = xs"
      using deq_law [OF "3.prems"(1) Cons] by blast
    obtain q2 out2 where r: "run_queue q1 ops = (q2, out2)" by fastforce
    have "invar q2 \<and> run_list (contents q1) ops = (contents q2, out2)"
      by (rule "3.IH"(2) [OF d(1) refl d(2) _ r]) (use "3.prems" in auto)
    with 3 Cons d r show ?thesis by auto
  qed
qed simp

end

end
