(* ===== verification/Nic_Queue.thy ===== *)
theory Nic_Queue
  imports Item_Queue
begin

text \<open>
  The receive queue of a network card, \<^verbatim>\<open>kernel/sys/ioforge/ioforge_nic.c\<close>: the driver's
  interrupt handler appends received buffers with \<open>ioforge_nic_rx\<close>, the socket layer takes
  them with \<open>ioforge_receive_pending_queue\<close> and hands the buffer back to the driver with
  \<open>ioforge_clear_rx_queue\<close>. A buffer is an address; \<open>nic_returned\<close> lists what
  \<^verbatim>\<open>storeBufferToPool\<close> was called with.
\<close>

unbundle bit_operations_syntax

definition PENDING_QUEUE_SIZE :: u32 where "PENDING_QUEUE_SIZE = 128"
definition PENDING_QUEUE_MASK :: u32 where "PENDING_QUEUE_MASK = PENDING_QUEUE_SIZE - 1"

record pending_rx =
  rx_id :: int
  rx_data :: "u64 option"
  rx_len :: u64

record nic =
  nic_queue :: "pending_rx list"
  pq_head :: u32
  pq_tail :: u32
  nic_returned :: "(int \<times> u64 option) list"

definition no_rx :: pending_rx where "no_rx = \<lparr>rx_id = 0, rx_data = None, rx_len = 0\<rparr>"

definition ioforge_nic_rx :: "u64 option \<Rightarrow> u64 \<Rightarrow> int \<Rightarrow> nic option \<Rightarrow> nic option" where
  "ioforge_nic_rx buffer len rxid nic =
     (case nic of None \<Rightarrow> None | Some q \<Rightarrow>
      if buffer = None \<or> len = 0 then Some q
      else let head = pq_head q; next = (head + 1) AND PENDING_QUEUE_MASK
           in if next \<noteq> pq_tail q
              then Some (q\<lparr>nic_queue := (nic_queue q)[unat head := \<lparr>rx_id = rxid, rx_data = buffer, rx_len = len\<rparr>],
                           pq_head := next\<rparr>)
              else Some q)"

definition ioforge_receive_pending_queue :: "nic \<Rightarrow> (nic \<times> pending_rx) option" where
  "ioforge_receive_pending_queue q =
     (if pq_tail q = pq_head q then None
      else Some (q\<lparr>nic_queue := (nic_queue q)[unat (pq_tail q) := no_rx],
                   pq_tail := (pq_tail q + 1) mod PENDING_QUEUE_SIZE\<rparr>,
                 nic_queue q ! unat (pq_tail q)))"

definition ioforge_clear_rx_queue :: "pending_rx \<Rightarrow> nic \<Rightarrow> nic \<times> pending_rx" where
  "ioforge_clear_rx_queue rx q =
     (q\<lparr>nic_returned := nic_returned q @ [(rx_id rx, rx_data rx)]\<rparr>, no_rx)"

section \<open>The queue as a list\<close>

definition nic_inv :: "nic \<Rightarrow> bool" where
  "nic_inv q \<longleftrightarrow> length (nic_queue q) = 128 \<and> pq_head q < 128 \<and> pq_tail q < 128"

definition nic_count :: "nic \<Rightarrow> nat" where
  "nic_count q = (unat (pq_head q) + 128 - unat (pq_tail q)) mod 128"

definition nic_list :: "nic \<Rightarrow> pending_rx list" where
  "nic_list q = ring_view 128 (nic_queue q) (unat (pq_tail q)) (nic_count q)"

definition rx_ok :: "pending_rx \<Rightarrow> bool" where
  "rx_ok rx \<longleftrightarrow> rx_data rx \<noteq> None \<and> rx_len rx \<noteq> 0"

definition nic_put :: "pending_rx \<Rightarrow> nic \<Rightarrow> nic" where
  "nic_put rx q = the (ioforge_nic_rx (rx_data rx) (rx_len rx) (rx_id rx) (Some q))"

lemma length_nic_list [simp]: "length (nic_list q) = nic_count q"
  by (simp add: nic_list_def)

lemma nic_count_bound: "nic_count q < 128"
  by (simp add: nic_count_def)

lemma u32_eq_unat: "a = b \<longleftrightarrow> unat a = unat b" for a b :: u32
  by (metis unsigned_word_eqI)

lemma unat_wrap_and:
  assumes "h < (128 :: u32)"
  shows "unat ((h + 1) AND PENDING_QUEUE_MASK) = (unat h + 1) mod 128"
proof -
  have h: "unat h < 128" using assms by (simp add: word_less_nat_alt)
  have m: "PENDING_QUEUE_MASK = mask 7" by (simp add: PENDING_QUEUE_MASK_def PENDING_QUEUE_SIZE_def mask_eq_exp_minus_1)
  have "unat (take_bit 7 (h + 1)) = take_bit 7 (unat (h + 1))" by (rule unsigned_take_bit_eq)
  also have "unat (h + 1) = unat h + 1" using h by (simp add: unat_word_ariths)
  finally show ?thesis by (simp add: m flip: take_bit_eq_mask) (simp add: take_bit_eq_mod)
qed

lemma unat_wrap_mod:
  assumes "h < (128 :: u32)"
  shows "unat ((h + 1) mod PENDING_QUEUE_SIZE) = (unat h + 1) mod 128"
proof -
  have "unat h < 128" using assms by (simp add: word_less_nat_alt)
  then show ?thesis by (simp add: PENDING_QUEUE_SIZE_def unat_mod_distrib unat_word_ariths)
qed

lemma ring_count_put:
  assumes "h < (128 :: nat)" and "t < 128"
  shows "((h + 1) mod 128 = t) = ((h + 128 - t) mod 128 = 127)"
    and "(h + 1) mod 128 \<noteq> t \<Longrightarrow> ((h + 1) mod 128 + 128 - t) mod 128 = Suc ((h + 128 - t) mod 128)"
    and "(t + (h + 128 - t) mod 128) mod 128 = h"
  using assms by (auto simp: mod_if)

lemma ring_count_get:
  assumes "h < (128 :: nat)" and "t < 128" and "t \<noteq> h"
  shows "(h + 128 - t) mod 128 = Suc ((h + 128 - (t + 1) mod 128) mod 128)"
  using assms by (auto simp: mod_if)

lemma nic_put_inv:
  assumes "nic_inv q" and "rx_ok rx"
  shows "nic_inv (nic_put rx q) \<and>
    nic_list (nic_put rx q) = (if length (nic_list q) < 127 then nic_list q @ [rx] else nic_list q)"
proof -
  let ?h = "pq_head q" and ?t = "pq_tail q"
  let ?n = "(?h + 1) AND PENDING_QUEUE_MASK"
  have b: "unat ?h < 128" "unat ?t < 128" "length (nic_queue q) = 128"
    using assms(1) by (auto simp: nic_inv_def word_less_nat_alt)
  have n: "unat ?n = (unat ?h + 1) mod 128" using assms(1) by (simp add: unat_wrap_and nic_inv_def)
  have full: "?n = ?t \<longleftrightarrow> nic_count q = 127"
    using n ring_count_put(1) [OF b(1,2)] by (simp add: nic_count_def u32_eq_unat)
  have put: "nic_put rx q = (if ?n \<noteq> ?t then q\<lparr>nic_queue := (nic_queue q)[unat ?h := rx], pq_head := ?n\<rparr> else q)"
    using assms(2) by (cases rx) (auto simp: nic_put_def ioforge_nic_rx_def rx_ok_def Let_def)
  show ?thesis
  proof (cases "?n = ?t")
    case True
    with full put assms(1) show ?thesis by simp
  next
    case False
    let ?q = "q\<lparr>nic_queue := (nic_queue q)[unat ?h := rx], pq_head := ?n\<rparr>"
    have lt: "nic_count q < 127" using False full nic_count_bound [of q] by linarith
    have at: "(unat ?t + nic_count q) mod 128 = unat ?h"
      using ring_count_put(3) [OF b(1,2)] by (simp add: nic_count_def)
    have "nic_count ?q = Suc (nic_count q)"
      using False n ring_count_put(2) [OF b(1,2)] by (auto simp: nic_count_def u32_eq_unat)
    then have "nic_list ?q = nic_list q @ [rx]"
      using ring_view_enq [of "nic_count q" 128 "nic_queue q" "unat ?t" rx] lt b(3)
      by (simp add: nic_list_def at)
    moreover have "?n < 128" using n by (simp add: word_less_nat_alt)
    ultimately show ?thesis using put False lt assms(1) by (simp add: nic_inv_def)
  qed
qed

lemma nic_get_empty:
  assumes "nic_inv q" and "nic_list q = []"
  shows "ioforge_receive_pending_queue q = None"
proof -
  have b: "unat (pq_head q) < 128" "unat (pq_tail q) < 128"
    using assms(1) by (auto simp: nic_inv_def word_less_nat_alt)
  have "nic_count q = 0" using assms(2) length_nic_list by (metis list.size(3))
  then have "unat (pq_head q) = unat (pq_tail q)" using ring_count_get [OF b] by (metis nic_count_def nat.distinct(1))
  then show ?thesis by (simp add: ioforge_receive_pending_queue_def u32_eq_unat)
qed

lemma nic_get_inv:
  assumes inv: "nic_inv q" and xs: "nic_list q = x # xs"
  shows "\<exists>q'. ioforge_receive_pending_queue q = Some (q', x) \<and> nic_inv q' \<and> nic_list q' = xs"
proof -
  let ?t = "(pq_tail q + 1) mod PENDING_QUEUE_SIZE"
  let ?q = "q\<lparr>nic_queue := (nic_queue q)[unat (pq_tail q) := no_rx], pq_tail := ?t\<rparr>"
  have b: "unat (pq_head q) < 128" "unat (pq_tail q) < 128" "length (nic_queue q) = 128"
    using inv by (auto simp: nic_inv_def word_less_nat_alt)
  have t: "unat ?t = (unat (pq_tail q) + 1) mod 128" using inv by (simp add: unat_wrap_mod nic_inv_def)
  have ne: "pq_tail q \<noteq> pq_head q"
  proof
    assume "pq_tail q = pq_head q"
    then have "nic_count q = 0" by (simp add: nic_count_def)
    with xs show False using length_nic_list [of q] by simp
  qed
  then have c: "nic_count q = Suc (nic_count ?q)"
    using ring_count_get [OF b(1,2)] t by (auto simp: nic_count_def u32_eq_unat)
  have "nic_list q = nic_queue q ! unat (pq_tail q) # ring_view 128 (nic_queue q) (Suc (unat (pq_tail q))) (nic_count ?q)"
    using b by (simp add: nic_list_def c ring_view_Suc)
  moreover have "nic_list ?q = ring_view 128 (nic_queue q) (Suc (unat (pq_tail q))) (nic_count ?q)"
  proof -
    have "nic_list ?q = ring_view 128 ((nic_queue q)[unat (pq_tail q) mod 128 := no_rx])
        (Suc (unat (pq_tail q)) mod 128) (nic_count ?q)"
      using b(2) by (simp add: nic_list_def t)
    also have "\<dots> = ring_view 128 (nic_queue q) (Suc (unat (pq_tail q))) (nic_count ?q)"
      unfolding ring_view_mod by (rule ring_view_clear) (rule nic_count_bound)
    finally show ?thesis .
  qed
  moreover have "nic_inv ?q" using inv t by (simp add: nic_inv_def word_less_nat_alt)
  ultimately show ?thesis using xs ne by (simp add: ioforge_receive_pending_queue_def)
qed

interpretation nicq: item_queue nic_inv nic_list 127 rx_ok nic_put ioforge_receive_pending_queue
proof unfold_locales
  show "length (nic_list q) \<le> 127" if "nic_inv q" for q using nic_count_bound [of q] by simp
qed (use nic_put_inv nic_get_empty nic_get_inv in auto)

section \<open>Properties\<close>

text \<open>
  (C29) The receive queue of a card is a first-in first-out queue of 127 buffers: over any
  sequence of receive interrupts and of takes by the socket layer, the buffers handed
  out and those left are what a list gives, and buffers that arrive at a full queue are
  the only ones dropped.
\<close>

theorem nic_queue_fifo:
  assumes "nic_inv q" and "\<forall>x. Enq x \<in> set ops \<longrightarrow> rx_ok x" and "nicq.run_queue q ops = (q', out)"
  shows "nic_inv q' \<and> nicq.run_list (nic_list q) ops = (nic_list q', out)"
  by (rule nicq.run_refines [OF assms])

definition sample_nic :: nic where
  "sample_nic = \<lparr>nic_queue = replicate 128 no_rx, pq_head = 127, pq_tail = 127, nic_returned = []\<rparr>"

definition sample_rx :: "int \<Rightarrow> pending_rx" where
  "sample_rx i = \<lparr>rx_id = i, rx_data = Some 4096, rx_len = 60\<rparr>"

theorem nic_queue_fifo_witness:
  "snd (nicq.run_queue sample_nic [Enq (sample_rx 1), Enq (sample_rx 2), Deq, Deq, Deq]) =
     [sample_rx 1, sample_rx 2]"
proof -
  let ?ops = "[Enq (sample_rx 1), Enq (sample_rx 2), Deq, Deq, Deq]"
  obtain q out where r: "nicq.run_queue sample_nic ?ops = (q, out)" by fastforce
  have "nic_list sample_nic = []" by (simp add: nic_list_def nic_count_def sample_nic_def)
  then show ?thesis
    using nic_queue_fifo [OF _ _ r] r by (simp add: nic_inv_def sample_nic_def rx_ok_def sample_rx_def)
qed

end
