(* ===== verification/Net_Socket.thy ===== *)
theory Net_Socket
  imports Tcp Nic_Queue
begin

text \<open>
  The devices of \<^verbatim>\<open>kernel/net/netdev.c\<close>, kept in a hash table of 512 chains, and the internet
  sockets of \<^verbatim>\<open>kernel/net/socket.c\<close>, which dispatch a received frame to the ARP, ICMP and
  TCP handlers and give its buffer back to the driver.
\<close>

unbundle bit_operations_syntax

section \<open>Devices\<close>

definition NETDEV_HASHMAP_MAX_ENTRY :: u64 where "NETDEV_HASHMAP_MAX_ENTRY = 512"
definition NETDEV_NAME_MAX_LEN :: nat where "NETDEV_NAME_MAX_LEN = 64"
definition NETDEV_TYPE_ETHERNET :: int where "NETDEV_TYPE_ETHERNET = 0"

record netdev =
  nd_hash :: u64
  nd_is_up :: bool
  nd_type :: int
  nd_name :: string
  nd_mac :: "u8 list"
  nd_mtu :: u16
  nd_nic :: "u64 option"
  nd_ethernet_ops :: bool
  nd_ip_id_counter :: u16
  nd_next :: "u64 option"

text \<open>The chains, the devices by address and the addresses the slab cache hands out.\<close>

record netdevs =
  ndv_lists :: "u64 \<Rightarrow> u64 option"
  ndv_mem :: "u64 \<Rightarrow> netdev"
  ndv_pool :: "u64 list"

text \<open>
  \<^verbatim>\<open>create_netdev\<close>: the object keeps what the slab held in the fields that are not set. None is
  a failed allocation, which the code does not test, or a name longer than its field.
\<close>

definition create_netdev :: "string \<Rightarrow> int \<Rightarrow> netdevs \<Rightarrow> (netdevs \<times> int) option" where
  "create_netdev name type s =
     (case ndv_pool s of [] \<Rightarrow> None | a # pool \<Rightarrow>
      if length name > NETDEV_NAME_MAX_LEN then None else
      let old = ndv_mem s a;
          dev = old\<lparr>nd_name := name @ drop (length name) (nd_name old), nd_mtu := 15000, nd_is_up := False, nd_type := type\<rparr>;
          s1 = s\<lparr>ndv_pool := pool, ndv_mem := (ndv_mem s)(a := dev)\<rparr>
      in if type \<noteq> NETDEV_TYPE_ETHERNET then Some (s1, - 1)
         else let hash_name = hash name NETDEV_HASHMAP_MAX_ENTRY;
                  dev1 = dev\<lparr>nd_ethernet_ops := True, nd_hash := hash_name\<rparr>;
                  dev2 = (case ndv_lists s hash_name of None \<Rightarrow> dev1 | Some b \<Rightarrow> dev1\<lparr>nd_next := Some b\<rparr>)
              in Some (s1\<lparr>ndv_mem := (ndv_mem s)(a := dev2), ndv_lists := (ndv_lists s)(hash_name \<mapsto> a)\<rparr>, 0))"

text \<open>The walk along a chain; None is a chain that does not end.\<close>

partial_function (option) netdev_walk :: "u64 \<Rightarrow> (u64 \<Rightarrow> netdev) \<Rightarrow> u64 option \<Rightarrow> u64 option option" where
  "netdev_walk hash_name mem p =
     (case p of None \<Rightarrow> Some None
      | Some a \<Rightarrow> if nd_hash (mem a) = hash_name then Some (Some a)
                  else netdev_walk hash_name mem (nd_next (mem a)))"

definition lookup_netdev :: "string \<Rightarrow> netdevs \<Rightarrow> u64 option option" where
  "lookup_netdev name s =
     (let hash_name = hash name NETDEV_HASHMAP_MAX_ENTRY
      in case ndv_lists s hash_name of None \<Rightarrow> Some None
         | Some b \<Rightarrow> netdev_walk hash_name (ndv_mem s) (Some b))"

definition bind_nic :: "u64 \<Rightarrow> u64 \<Rightarrow> u8 list \<Rightarrow> netdevs \<Rightarrow> netdevs" where
  "bind_nic a nic mac s =
     s\<lparr>ndv_mem := (ndv_mem s)(a := (ndv_mem s a)\<lparr>nd_nic := Some nic, nd_mac := mac\<rparr>)\<rparr>"

section \<open>Internet sockets\<close>

definition SOCK_ERR_NODEV :: int where "SOCK_ERR_NODEV = - 3"
definition SOCK_ERR_NOTCONN :: int where "SOCK_ERR_NOTCONN = - 6"
definition SOL_SOCKET :: u32 where "SOL_SOCKET = 1"
definition SO_BINDTODEVICE :: u32 where "SO_BINDTODEVICE = 25"
definition ICMP_PROTOCOL :: u8 where "ICMP_PROTOCOL = 1"

text \<open>The device of the socket after the call, and the result.\<close>

definition socket_set_sockopt ::
    "u32 \<Rightarrow> u32 \<Rightarrow> string \<Rightarrow> netdevs \<Rightarrow> u64 option \<Rightarrow> (u64 option \<times> int) option" where
  "socket_set_sockopt level optname optval s dev =
     (if level = SOL_SOCKET \<and> optname = SO_BINDTODEVICE
      then (case lookup_netdev optval s of None \<Rightarrow> None
            | Some None \<Rightarrow> Some (None, SOCK_ERR_NODEV)
            | Some (Some a) \<Rightarrow> Some (Some a, 0))
      else Some (dev, SOCK_ERR_NOTCONN))"

text \<open>
  A device that sockets receive from: the state of its stack and its card. \<open>mem\<close> gives the
  bytes at the address of a receive buffer and \<open>rnd\<close> what \<^verbatim>\<open>vxRand\<close> returns.
\<close>

record inet_dev =
  dev_net :: net
  dev_nic :: "nic option"

definition dispatch_frame :: "u32 \<Rightarrow> u8 list \<Rightarrow> net \<Rightarrow> net option" where
  "dispatch_frame rnd frame n =
     (case u16_at 12 frame of None \<Rightarrow> None | Some et \<Rightarrow>
      let ethertype = vxHtons et; src_mac = take 6 (drop 6 frame); body = drop 14 frame
      in if ethertype = ETHER_TYPE_IP then
           (case (u32_at 12 body, u8_at 9 body) of
              (Some src_ip, Some protocol) \<Rightarrow>
                if protocol = ICMP_PROTOCOL then handle_icmp body src_mac n
                else if protocol = TCP_PROTOCOL then handle_tcp rnd body src_mac n
                else Some n
            | _ \<Rightarrow> None)
         else if ethertype = ETHER_TYPE_ARP then
           (case (u32_at 14 body, u32_at 24 body) of
              (Some sender_ip, Some target_ip) \<Rightarrow>
                if vxInetAddr MYIP = target_ip then arp_reply sender_ip src_mac n else Some n
            | _ \<Rightarrow> None)
         else Some n)"

definition socket_receive ::
    "u32 \<Rightarrow> (u64 \<Rightarrow> u8 list) \<Rightarrow> u64 \<Rightarrow> inet_dev option \<Rightarrow> (inet_dev option \<times> u8 list \<times> int) option" where
  "socket_receive rnd mem sz dev =
     (case dev of None \<Rightarrow> Some (None, [], SOCK_ERR_NODEV) | Some d \<Rightarrow>
      case dev_nic d of None \<Rightarrow> None | Some q \<Rightarrow>
      if pq_tail q = pq_head q then Some (Some d, [], 0) else
      case ioforge_receive_pending_queue q of None \<Rightarrow> Some (Some d, [], 0) | Some (q1, rx) \<Rightarrow>
      case rx_data rx of None \<Rightarrow> None | Some a \<Rightarrow>
      case dispatch_frame rnd (mem a) (dev_net d) of None \<Rightarrow> None | Some n1 \<Rightarrow>
      case peek 0 (unat (if rx_len rx < sz then rx_len rx else sz)) (mem a) of None \<Rightarrow> None | Some copied \<Rightarrow>
      case ioforge_clear_rx_queue rx q1 of (q2, _) \<Rightarrow>
        Some (Some \<lparr>dev_net = n1, dev_nic = Some q2\<rparr>, copied, 1))"

section \<open>Lookup of devices\<close>

text \<open>
  A chain holds devices of one hash value, so the walk stops at its first device: the name
  itself is never compared.
\<close>

definition netdevs_ok :: "netdevs \<Rightarrow> bool" where
  "netdevs_ok s \<longleftrightarrow> (\<forall>h a. ndv_lists s h = Some a \<longrightarrow> nd_hash (ndv_mem s a) = h \<and> a \<notin> set (ndv_pool s)) \<and>
     distinct (ndv_pool s)"

lemma lookup_first:
  assumes "netdevs_ok s"
  shows "lookup_netdev name s = Some (ndv_lists s (hash name NETDEV_HASHMAP_MAX_ENTRY))"
  using assms by (auto simp: lookup_netdev_def netdevs_ok_def Let_def netdev_walk.simps split: option.splits)

lemma create_netdev_ok:
  assumes "netdevs_ok s" and "create_netdev name type s = Some (s1, r)"
  shows "netdevs_ok s1"
  using assms
  by (auto simp: create_netdev_def netdevs_ok_def Let_def split: list.splits if_splits option.splits)

section \<open>Properties\<close>

text \<open>
  Creating an Ethernet device keeps the table consistent and makes it the one that a lookup
  of its name returns, and also the one that a lookup of any other name with the same
  hash value returns; lookups of names with other hash values are unaffected.
\<close>

lemma create_lookup_netdev:
  assumes "netdevs_ok s" and "ndv_pool s = a # pool" and "length name \<le> NETDEV_NAME_MAX_LEN"
  shows "\<exists>s1. create_netdev name NETDEV_TYPE_ETHERNET s = Some (s1, 0) \<and> netdevs_ok s1 \<and>
    lookup_netdev other s1 =
      (if hash other NETDEV_HASHMAP_MAX_ENTRY = hash name NETDEV_HASHMAP_MAX_ENTRY then Some (Some a)
       else lookup_netdev other s)"
proof -
  obtain s1 where c: "create_netdev name NETDEV_TYPE_ETHERNET s = Some (s1, 0)"
      "ndv_lists s1 = (ndv_lists s)(hash name NETDEV_HASHMAP_MAX_ENTRY \<mapsto> a)"
    using assms(2,3) by (simp add: create_netdev_def Let_def)
  then show ?thesis
    using create_netdev_ok [OF assms(1) c(1)] lookup_first [of s1 other] lookup_first [OF assms(1), of other]
    by simp
qed

definition sample_devs :: netdevs where
  "sample_devs = \<lparr>ndv_lists = Map.empty,
     ndv_mem = (\<lambda>_. \<lparr>nd_hash = 0, nd_is_up = False, nd_type = 0, nd_name = replicate 64 (CHR 0x00), nd_mac = [],
       nd_mtu = 0, nd_nic = None, nd_ethernet_ops = False, nd_ip_id_counter = 0, nd_next = None\<rparr>),
     ndv_pool = [4096, 8192]\<rparr>"

lemma create_lookup_netdev_example:
  "\<exists>s1. create_netdev ''eth0'' NETDEV_TYPE_ETHERNET sample_devs = Some (s1, 0) \<and> lookup_netdev ''eth0'' s1 = Some (Some 4096)"
  using create_lookup_netdev [of sample_devs 4096 "[8192]" "''eth0''" "''eth0''"]
  by (auto simp: netdevs_ok_def sample_devs_def NETDEV_NAME_MAX_LEN_def)

text \<open>
  A receive call that delivers takes the buffer that has waited longest, gives it back to the
  driver once and leaves the rest of the queue in order; a call on an empty queue changes
  nothing.
\<close>

lemma receive_oldest:
  assumes "dev_nic d = Some q" and "nic_inv q" and "socket_receive rnd mem sz (Some d) = Some (dev1, copied, r)"
  shows "case nic_list q of
      [] \<Rightarrow> dev1 = Some d \<and> r = 0 \<and> copied = []
    | rx # rest \<Rightarrow> \<exists>a d1 q1. rx_data rx = Some a \<and> r = 1 \<and> dev1 = Some d1 \<and> dev_nic d1 = Some q1 \<and>
        nic_inv q1 \<and> nic_list q1 = rest \<and> nic_returned q1 = nic_returned q @ [(rx_id rx, Some a)] \<and>
        copied = take (unat (min (rx_len rx) sz)) (mem a) \<and>
        dispatch_frame rnd (mem a) (dev_net d) = Some (dev_net d1)"
proof (cases "nic_list q")
  case Nil
  then have "ioforge_receive_pending_queue q = None" using assms(2) by (rule nic_get_empty [rotated])
  with Nil assms(1,3) show ?thesis by (auto simp: socket_receive_def split: if_splits)
next
  case (Cons rx rest)
  obtain q1 where q1: "ioforge_receive_pending_queue q = Some (q1, rx)" "nic_inv q1" "nic_list q1 = rest"
    using nic_get_inv [OF assms(2) Cons] by blast
  then have ne: "pq_tail q \<noteq> pq_head q" and ret: "nic_returned q1 = nic_returned q"
    by (auto simp: ioforge_receive_pending_queue_def split: if_splits)
  have keep: "nic_inv (q1\<lparr>nic_returned := l\<rparr>)" "nic_list (q1\<lparr>nic_returned := l\<rparr>) = rest" for l
    using q1(2,3) by (simp_all add: nic_inv_def nic_list_def nic_count_def)
  from assms(1,3) q1(1) ne ret keep Cons show ?thesis
    by (auto simp: socket_receive_def ioforge_clear_rx_queue_def peek_def min_def split: option.splits if_splits)
qed

definition sample_card :: nic where
  "sample_card = \<lparr>nic_queue = sample_rx 5 # replicate 127 no_rx, pq_head = 1, pq_tail = 0, nic_returned = []\<rparr>"

definition sample_dev :: inet_dev where
  "sample_dev = \<lparr>dev_net = \<lparr>n_temp = [], n_mac = [2, 0, 0, 0, 0, 1], n_mtu = 15000, n_ip_id = 0, n_sent = []\<rparr>,
     dev_nic = Some sample_card\<rparr>"

lemma receive_oldest_example:
  "\<exists>d1 q1. socket_receive 0 (\<lambda>_. replicate 60 1) 16 (Some sample_dev) = Some (Some d1, replicate 16 1, 1) \<and>
     dev_nic d1 = Some q1 \<and> nic_returned q1 = [(5, Some 4096)]"
proof -
  have r: "\<exists>dev1 copied. socket_receive 0 (\<lambda>_. replicate 60 1) 16 (Some sample_dev) = Some (dev1, copied, 1)"
    by (simp add: socket_receive_def sample_dev_def sample_card_def sample_rx_def ioforge_receive_pending_queue_def
        dispatch_frame_def u16_at_def rd16_def vxHtons_def ETHER_TYPE_IP_def ETHER_TYPE_ARP_def peek_def
        ioforge_clear_rx_queue_def)
  then obtain dev1 copied where d: "socket_receive 0 (\<lambda>_. replicate 60 1) 16 (Some sample_dev) = Some (dev1, copied, 1)"
    by blast
  have q: "dev_nic sample_dev = Some sample_card" "nic_inv sample_card" "nic_list sample_card = [sample_rx 5]"
    by (simp_all add: sample_dev_def sample_card_def nic_inv_def nic_list_def nic_count_def ring_view_def)
  show ?thesis
    using receive_oldest [OF q(1,2) d] d q(3) by (simp add: sample_rx_def sample_card_def) blast
qed

end
