(* ===== verification/Unix_Ring.thy ===== *)
theory Unix_Ring
  imports Item_Queue
begin

text \<open>
  The two circular arrays of \<^verbatim>\<open>struct unix_socket\<close> in \<^verbatim>\<open>kernel/net/socket.h\<close>: the receive ring that
  \<^verbatim>\<open>sendto\<close> fills and \<^verbatim>\<open>recvfrom\<close> empties byte by byte, and the backlog of connections that
  wait for \<^verbatim>\<open>accept\<close>. Each implements the interface of its kind, \<open>byte_fifo\<close> and
  \<open>item_queue\<close>.
\<close>

section \<open>The receive ring\<close>

definition UNIX_BUF_SIZE :: nat where "UNIX_BUF_SIZE = 4096"
definition UNIX_BACKLOG_MAX :: nat where "UNIX_BACKLOG_MAX = 128"

record unix_ring =
  ur_buf :: "u8 list"
  ur_head :: nat
  ur_tail :: nat
  ur_count :: nat

text \<open>The loops of \<^verbatim>\<open>sendto\<close> and \<^verbatim>\<open>recvfrom\<close>, with the number of bytes still wanted.\<close>

fun unix_put :: "unix_ring \<Rightarrow> u8 list \<Rightarrow> nat \<Rightarrow> unix_ring \<times> nat" where
  "unix_put r xs 0 = (r, 0)"
| "unix_put r [] (Suc n) = (r, 0)"
| "unix_put r (x # xs) (Suc n) =
     (if ur_count r < UNIX_BUF_SIZE
      then (case unix_put (r\<lparr>ur_buf := (ur_buf r)[ur_tail r := x],
                              ur_tail := (ur_tail r + 1) mod UNIX_BUF_SIZE, ur_count := ur_count r + 1\<rparr>) xs n of
              (r1, written) \<Rightarrow> (r1, written + 1))
      else (r, 0))"

fun unix_get :: "unix_ring \<Rightarrow> nat \<Rightarrow> unix_ring \<times> u8 list" where
  "unix_get r 0 = (r, [])"
| "unix_get r (Suc n) =
     (if ur_count r > 0
      then (case unix_get (r\<lparr>ur_head := (ur_head r + 1) mod UNIX_BUF_SIZE, ur_count := ur_count r - 1\<rparr>) n of
              (r1, bs) \<Rightarrow> (r1, ur_buf r ! ur_head r # bs))
      else (r, []))"

definition ur_inv :: "unix_ring \<Rightarrow> bool" where
  "ur_inv r \<longleftrightarrow> length (ur_buf r) = 4096 \<and> ur_head r < 4096 \<and> ur_count r \<le> 4096 \<and>
     ur_tail r = (ur_head r + ur_count r) mod 4096"

definition ur_list :: "unix_ring \<Rightarrow> u8 list" where
  "ur_list r = ring_view 4096 (ur_buf r) (ur_head r) (ur_count r)"

lemma length_ur_list [simp]: "length (ur_list r) = ur_count r"
  by (simp add: ur_list_def)

lemma unix_put_law:
  assumes "ur_inv r" and "n \<le> length xs" and "unix_put r xs n = (r', k)"
  shows "ur_inv r' \<and> k = min n (4096 - ur_count r) \<and> ur_list r' = ur_list r @ take k xs"
  using assms
proof (induction r xs n arbitrary: r' k rule: unix_put.induct)
  case (3 r x xs n)
  show ?case
  proof (cases "ur_count r < 4096")
    case True
    let ?r = "r\<lparr>ur_buf := (ur_buf r)[ur_tail r := x], ur_tail := (ur_tail r + 1) mod UNIX_BUF_SIZE, ur_count := ur_count r + 1\<rparr>"
    obtain r1 w where u: "unix_put ?r xs n = (r1, w)" by fastforce
    have i: "ur_inv ?r" using "3.prems"(1) True by (auto simp: ur_inv_def UNIX_BUF_SIZE_def mod_simps)
    have "ur_list ?r = ur_list r @ [x]"
      using ring_view_enq [OF True, of "ur_buf r" "ur_head r" x] "3.prems"(1) by (simp add: ur_inv_def ur_list_def)
    moreover have "ur_inv r1 \<and> w = min n (4096 - ur_count ?r) \<and> ur_list r1 = ur_list ?r @ take w xs"
      by (rule "3.IH" [OF _ i _ u]) (use True "3.prems"(2) in \<open>auto simp: UNIX_BUF_SIZE_def\<close>)
    ultimately show ?thesis using "3.prems"(3) u True by (auto simp: UNIX_BUF_SIZE_def)
  qed (use 3 in \<open>auto simp: UNIX_BUF_SIZE_def ur_inv_def\<close>)
qed auto

lemma unix_get_law:
  assumes "ur_inv r" and "unix_get r n = (r', bs)"
  shows "ur_inv r' \<and> bs = take n (ur_list r) \<and> ur_list r' = drop n (ur_list r)"
  using assms
proof (induction r n arbitrary: r' bs rule: unix_get.induct)
  case (2 r n)
  show ?case
  proof (cases "ur_count r")
    case (Suc c)
    let ?r = "r\<lparr>ur_head := (ur_head r + 1) mod UNIX_BUF_SIZE, ur_count := ur_count r - 1\<rparr>"
    obtain r1 b where u: "unix_get ?r n = (r1, b)" by fastforce
    have i: "ur_inv ?r" using "2.prems"(1) Suc by (auto simp: ur_inv_def UNIX_BUF_SIZE_def mod_simps)
    have "ur_list r = ur_buf r ! ur_head r # ur_list ?r"
      using "2.prems"(1) Suc ring_view_mod [of 4096 "ur_buf r" "Suc (ur_head r)" c]
      by (simp add: ur_list_def ring_view_Suc ur_inv_def UNIX_BUF_SIZE_def)
    moreover have "ur_inv r1 \<and> b = take n (ur_list ?r) \<and> ur_list r1 = drop n (ur_list ?r)"
      by (rule "2.IH" [OF _ i u]) (simp add: Suc)
    ultimately show ?thesis using "2.prems"(2) u Suc by auto
  next
    case 0
    then have "ur_list r = []" by (metis length_0_conv length_ur_list)
    with 0 2 show ?thesis by simp
  qed
qed auto

text \<open>The interface of the byte rings, with the buffer that the caller passes to a read.\<close>

definition unix_ring_write :: "unix_ring \<Rightarrow> u8 list \<Rightarrow> u64 \<Rightarrow> unix_ring \<times> int" where
  "unix_ring_write r xs len = (case unix_put r xs (unat len) of (r1, k) \<Rightarrow> (r1, int k))"

definition unix_ring_read :: "unix_ring \<Rightarrow> u8 list \<Rightarrow> u64 \<Rightarrow> unix_ring \<times> u8 list \<times> int" where
  "unix_ring_read r buf len =
     (case unix_get r (unat len) of (r1, bs) \<Rightarrow> (r1, bs @ drop (length bs) buf, int (length bs)))"

interpretation uring: byte_fifo ur_inv ur_list 4096 unix_ring_write unix_ring_read
proof unfold_locales
  show "length (ur_list r) \<le> 4096" if "ur_inv r" for r using that by (simp add: ur_inv_def)
next
  fix r :: unix_ring and len :: u64 and xs r' k
  assume a: "ur_inv r" "unat len \<le> length xs" "unix_ring_write r xs len = (r', k)"
  obtain r1 w where u: "unix_put r xs (unat len) = (r1, w)" by fastforce
  then show "ur_inv r' \<and> k = int (min (unat len) (4096 - length (ur_list r))) \<and>
      ur_list r' = ur_list r @ take (nat k) xs"
    using unix_put_law [OF a(1,2) u] a(3) by (auto simp: unix_ring_write_def)
next
  fix r :: unix_ring and len :: u64 and buf r' buf' k
  assume a: "ur_inv r" "unat len \<le> length buf" "unix_ring_read r buf len = (r', buf', k)"
  obtain r1 bs where u: "unix_get r (unat len) = (r1, bs)" by fastforce
  then show "ur_inv r' \<and> k = int (min (unat len) (length (ur_list r))) \<and>
      buf' = take (nat k) (ur_list r) @ drop (nat k) buf \<and> ur_list r' = drop (nat k) (ur_list r)"
    using unix_get_law [OF a(1) u] a(3) by (auto simp: unix_ring_read_def min_def)
qed

section \<open>The backlog\<close>

record backlog =
  bl_pending :: "u64 option list"
  bl_head :: nat
  bl_tail :: nat
  bl_count :: nat

definition backlog_push :: "u64 \<Rightarrow> backlog \<Rightarrow> backlog" where
  "backlog_push p b =
     b\<lparr>bl_pending := (bl_pending b)[bl_tail b := Some p], bl_tail := (bl_tail b + 1) mod UNIX_BACKLOG_MAX,
       bl_count := bl_count b + 1\<rparr>"

definition backlog_pop :: "backlog \<Rightarrow> backlog \<times> u64 option" where
  "backlog_pop b =
     (b\<lparr>bl_head := (bl_head b + 1) mod UNIX_BACKLOG_MAX, bl_count := bl_count b - 1\<rparr>, bl_pending b ! bl_head b)"

definition bl_inv :: "backlog \<Rightarrow> bool" where
  "bl_inv b \<longleftrightarrow> length (bl_pending b) = 128 \<and> bl_head b < 128 \<and> bl_count b \<le> 128 \<and>
     bl_tail b = (bl_head b + bl_count b) mod 128 \<and>
     None \<notin> set (ring_view 128 (bl_pending b) (bl_head b) (bl_count b))"

definition bl_list :: "backlog \<Rightarrow> u64 list" where
  "bl_list b = map the (ring_view 128 (bl_pending b) (bl_head b) (bl_count b))"

text \<open>
  The contract of the backlog at its largest size: \<^verbatim>\<open>connect\<close> refuses when the backlog is
  full, \<^verbatim>\<open>accept\<close> waits when it is empty.
\<close>

definition backlog_offer :: "u64 \<Rightarrow> backlog \<Rightarrow> backlog" where
  "backlog_offer p b = (if bl_count b \<ge> UNIX_BACKLOG_MAX then b else backlog_push p b)"

definition backlog_take :: "backlog \<Rightarrow> (backlog \<times> u64) option" where
  "backlog_take b = (if bl_count b = 0 then None else case backlog_pop b of (b1, p) \<Rightarrow> map_option (Pair b1) p)"

lemma length_bl_list [simp]: "length (bl_list b) = bl_count b"
  by (simp add: bl_list_def)

lemma backlog_push_law:
  assumes "bl_inv b" and "bl_count b < 128"
  shows "bl_inv (backlog_push p b) \<and> bl_list (backlog_push p b) = bl_list b @ [p]"
proof -
  let ?b = "backlog_push p b"
  have "ring_view 128 (bl_pending ?b) (bl_head ?b) (bl_count ?b) =
      ring_view 128 (bl_pending b) (bl_head b) (bl_count b) @ [Some p]"
    using ring_view_enq [OF assms(2), of "bl_pending b" "bl_head b" "Some p"] assms(1)
    by (simp add: backlog_push_def bl_inv_def)
  then show ?thesis
    using assms by (auto simp: bl_inv_def bl_list_def backlog_push_def UNIX_BACKLOG_MAX_def mod_simps)
qed

lemma backlog_pop_law:
  assumes "bl_inv b" and "bl_list b = p # ps"
  shows "\<exists>b1. backlog_pop b = (b1, Some p) \<and> bl_inv b1 \<and> bl_list b1 = ps"
proof -
  obtain c where c: "bl_count b = Suc c" using assms(2) length_bl_list [of b] by (cases "bl_count b") auto
  let ?b = "fst (backlog_pop b)"
  have v: "ring_view 128 (bl_pending b) (bl_head b) (bl_count b) =
      bl_pending b ! bl_head b # ring_view 128 (bl_pending ?b) (bl_head ?b) (bl_count ?b)"
    using assms(1) c ring_view_mod [of 128 "bl_pending b" "Suc (bl_head b)" c]
    by (simp add: ring_view_Suc backlog_pop_def bl_inv_def UNIX_BACKLOG_MAX_def)
  have "bl_inv ?b" using assms(1) v c by (auto simp: bl_inv_def backlog_pop_def UNIX_BACKLOG_MAX_def mod_simps)
  moreover have "bl_pending b ! bl_head b \<noteq> None" using assms(1) v by (metis bl_inv_def list.set_intros(1))
  ultimately show ?thesis using v assms(2) by (auto simp: bl_list_def backlog_pop_def)
qed

interpretation bl: item_queue bl_inv bl_list 128 "\<lambda>_. True" backlog_offer backlog_take
proof unfold_locales
  show "length (bl_list q) \<le> 128" if "bl_inv q" for q using that by (simp add: bl_inv_def)
next
  fix q x assume "bl_inv q"
  then show "bl_inv (backlog_offer x q) \<and>
      bl_list (backlog_offer x q) = (if length (bl_list q) < 128 then bl_list q @ [x] else bl_list q)"
    using backlog_push_law [of q x] by (simp add: backlog_offer_def UNIX_BACKLOG_MAX_def)
next
  fix q assume "bl_inv q" "bl_list q = []"
  then show "backlog_take q = None" using length_bl_list [of q] by (simp add: backlog_take_def)
next
  fix q x xs assume a: "bl_inv q" "bl_list q = x # xs"
  then have "bl_count q \<noteq> 0" using length_bl_list [of q] by auto
  with backlog_pop_law [OF a] show "\<exists>q'. backlog_take q = Some (q', x) \<and> bl_inv q' \<and> bl_list q' = xs"
    by (auto simp: backlog_take_def)
qed

end
