(* ===== verification/Unix_Socket.thy ===== *)
theory Unix_Socket
  imports Unix_Ring Fd_Table
begin

text \<open>
  Sockets of family \<^verbatim>\<open>AF_UNIX\<close>: \<^verbatim>\<open>create_socket\<close> of \<^verbatim>\<open>kernel/net/socket.c\<close>, the calls \<^verbatim>\<open>socket\<close>, \<^verbatim>\<open>bind\<close>,
  \<^verbatim>\<open>listen\<close>, \<^verbatim>\<open>connect\<close>, \<^verbatim>\<open>accept\<close>, \<^verbatim>\<open>sendto\<close> and \<^verbatim>\<open>recvfrom\<close> under \<^verbatim>\<open>kernel/sys/syscall/\<close>, and the path walk
  \<^verbatim>\<open>vxnamei\<close> of \<^verbatim>\<open>kernel/vfs/dentry.c\<close> that \<^verbatim>\<open>bind\<close> and \<^verbatim>\<open>connect\<close> use.

  The sockets live in a store of their own beside the kernel's objects; their addresses
  come from the same allocator. A call that may block is a pass through its loop, as for
  pipes. None and \<open>Faults\<close> are a use of memory that holds no such object, for instance of
  the private data of a descriptor that is no socket.
\<close>

unbundle bit_operations_syntax

section \<open>Sockets\<close>

definition AF_UNIX :: int where "AF_UNIX = 1"
definition AF_INET :: int where "AF_INET = 2"
definition SOCK_STREAM :: int where "SOCK_STREAM = 1"
definition SOCK_SEQPACKET :: int where "SOCK_SEQPACKET = 5"
definition SOCK_NONBLOCK :: int where "SOCK_NONBLOCK = 2048"
definition SOCK_CLOEXEC :: int where "SOCK_CLOEXEC = 524288"
definition SOMAXCONN :: int where "SOMAXCONN = 128"

datatype sock_state = SOCK_STATE_CLOSED | SOCK_STATE_BOUND | SOCK_STATE_LISTENING | SOCK_STATE_CONNECTED

record sock =
  so_family :: int
  so_type :: int
  so_protocol :: u16
  so_flags :: u32
  so_backlog :: int
  so_state :: sock_state
  so_ops :: bool
  us_backlog :: backlog
  us_ring :: unix_ring
  us_peer :: "ptr option"
  us_accept_thread :: "nat option"
  us_recv_thread :: "nat option"

record sys =
  s_k :: kernel
  s_socks :: "ptr \<Rightarrow> sock option"

text \<open>What \<^verbatim>\<open>memset\<close> leaves in a new \<^verbatim>\<open>struct unix_socket\<close>.\<close>

definition zero_sock :: sock where
  "zero_sock = \<lparr>so_family = 0, so_type = 0, so_protocol = 0, so_flags = 0, so_backlog = 0,
     so_state = SOCK_STATE_CLOSED, so_ops = False,
     us_backlog = \<lparr>bl_pending = replicate UNIX_BACKLOG_MAX None, bl_head = 0, bl_tail = 0, bl_count = 0\<rparr>,
     us_ring = \<lparr>ur_buf = replicate UNIX_BUF_SIZE 0, ur_head = 0, ur_tail = 0, ur_count = 0\<rparr>,
     us_peer = None, us_accept_thread = None, us_recv_thread = None\<rparr>"

definition set_sock :: "ptr \<Rightarrow> (sock \<Rightarrow> sock) \<Rightarrow> sys \<Rightarrow> sys" where
  "set_sock p g s = s\<lparr>s_socks := (s_socks s)(p := map_option g (s_socks s p))\<rparr>"

definition new_sock :: "ptr \<Rightarrow> sock \<Rightarrow> kernel \<Rightarrow> sys \<Rightarrow> sys" where
  "new_sock p so k s = s\<lparr>s_k := k, s_socks := (s_socks s)(p \<mapsto> so)\<rparr>"

text \<open>The result of \<^verbatim>\<open>create_socket\<close>: the new socket or an error; None when \<^verbatim>\<open>kalloc\<close> fails.\<close>

definition create_socket :: "int \<Rightarrow> int \<Rightarrow> u16 \<Rightarrow> sys \<Rightarrow> (sys \<times> (int + ptr)) option" where
  "create_socket family type protocol s =
     (if family \<noteq> AF_INET \<and> family \<noteq> AF_UNIX then Some (s, Inl (- EAFNOSUPPORT))
      else case kernel_alloc (s_k s) of (_, None) \<Rightarrow> None | (k1, Some p) \<Rightarrow>
        Some (new_sock p (zero_sock\<lparr>so_family := family, so_type := type, so_protocol := protocol,
                so_state := SOCK_STATE_CLOSED, so_ops := (family = AF_INET)\<rparr>) k1 s, Inr p))"

text \<open>The entry under \<^verbatim>\<open>/proc\<close> that \<^verbatim>\<open>socket\<close> and \<^verbatim>\<open>accept\<close> make for a new descriptor.\<close>

definition open_proc_entry :: "(ptr \<Rightarrow> fs_driver option) \<Rightarrow> nat \<Rightarrow> nat \<Rightarrow> kernel \<Rightarrow> kernel" where
  "open_proc_entry fss pid fd k =
     (case resolve_dentry fss ''/proc'' None 0 k of
        (k1, Found p) \<Rightarrow>
          (case resolve_dentry fss (itoa (int pid) 10) (Some p) CREATE_MISSING_ENTRY k1 of
             (k2, Found q) \<Rightarrow>
               let k3 = (case k_dentries k2 q of None \<Rightarrow> k2 | Some e \<Rightarrow>
                         case d_vnode e of None \<Rightarrow> k2 | Some v \<Rightarrow>
                           set_vnode v (\<lambda>vn. vn\<lparr>vn_type := VNODE_TYPE_DIR, vn_permission := 365\<rparr>) k2)
               in (case resolve_dentry fss (itoa (int fd) 10) (Some q) CREATE_MISSING_ENTRY k3 of
                     (k4, Found d) \<Rightarrow> dentry_put (Some p) (dentry_put (Some q) (dentry_put (Some d) k4))
                   | (k4, _) \<Rightarrow> dentry_put (Some p) (dentry_put (Some q) k4))
           | (k2, _) \<Rightarrow> dentry_put (Some p) k2)
      | (k1, _) \<Rightarrow> k1)"

section \<open>Making a descriptor\<close>

definition syscall_socket ::
    "(ptr \<Rightarrow> fs_driver option) \<Rightarrow> nat \<Rightarrow> int \<Rightarrow> int \<Rightarrow> int \<Rightarrow> sys \<Rightarrow> (sys \<times> int) option" where
  "syscall_socket fss pid domain type protocol s =
     (let nonblock_flag = (if type AND SOCK_NONBLOCK \<noteq> 0 then O_NONBLOCK else 0);
          cloexec_flag = (if type AND SOCK_CLOEXEC \<noteq> 0 then 1 else 0);
          ty = type AND NOT (SOCK_NONBLOCK OR SOCK_CLOEXEC)
      in case create_socket domain ty (word_of_int protocol) s of
           None \<Rightarrow> None
         | Some (s1, Inl err) \<Rightarrow> Some (s1, - ENOENT)
         | Some (s1, Inr p) \<Rightarrow>
             (case k_fdtables (s_k s1) pid of None \<Rightarrow> Some (s1, - ENOENT) | Some fdt \<Rightarrow>
              case find_free fdt 0 of None \<Rightarrow> Some (s1, - EMFILE) | Some n \<Rightarrow>
              case alloc_fd (s_k s1) of None \<Rightarrow> None | Some (k2, f) \<Rightarrow>
                let k3 = set_file f (\<lambda>e. e\<lparr>f_flags := nonblock_flag, f_private_data := Some p\<rparr>) k2;
                    k4 = set_fdtable pid (install_fd fdt n f cloexec_flag) k3
                in Some (s1\<lparr>s_k := open_proc_entry fss pid n k4\<rparr>, int n)))"

text \<open>
  The checks with which the other calls find the socket of a descriptor. None is a
  private pointer to something else.
\<close>

definition fd_socket :: "nat \<Rightarrow> int \<Rightarrow> sys \<Rightarrow> (int + file_descriptor \<times> ptr \<times> sock) option" where
  "fd_socket pid fd s =
     (case k_fdtables (s_k s) pid of None \<Rightarrow> Some (Inl (- ENOENT)) | Some fdt \<Rightarrow>
      if fd < 0 \<or> fd \<ge> uint (fdt_max_fds fdt) then Some (Inl (- EBADF)) else
      case fd_slot fdt fd of None \<Rightarrow> Some (Inl (- EBADF)) | Some f \<Rightarrow>
      case k_files (s_k s) f of None \<Rightarrow> None | Some e \<Rightarrow>
      case f_private_data e of None \<Rightarrow> Some (Inl (- ENOENT)) | Some p \<Rightarrow>
      case s_socks s p of None \<Rightarrow> None | Some so \<Rightarrow> Some (Inr (e, p, so)))"

definition nonblocking :: "file_descriptor \<Rightarrow> bool" where
  "nonblocking e \<longleftrightarrow> f_flags e AND O_NONBLOCK \<noteq> 0"

section \<open>The path walk of bind and connect\<close>

text \<open>
  Unlike \<^verbatim>\<open>resolve_dentry\<close> it asks no file system and makes an entry with a directory vnode
  for every name that is not in the cache.
\<close>

definition vxnamei_new :: "string \<Rightarrow> ptr \<Rightarrow> kernel \<Rightarrow> kernel \<times> walk" where
  "vxnamei_new cname cur k =
     (case create_dentry cname None (Some cur) k of
        (k1, None) \<Rightarrow> (dentry_put (Some cur) k1, Missing)
      | (k1, Some new) \<Rightarrow>
          (case create_and_attach_vnode k1 of
             (k2, None) \<Rightarrow> (k2, Wild)
           | (k2, Some v) \<Rightarrow>
               (descend_new new cur
                  (set_vnode v (\<lambda>vn. vn\<lparr>vn_type := VNODE_TYPE_DIR, vn_permission := 493\<rparr>)
                    (set_dentry new (d_vnode_update (\<lambda>_. Some v)) k2)), Found new)))"

function vxnamei_loop :: "string option \<Rightarrow> ptr \<Rightarrow> kernel \<Rightarrow> kernel \<times> walk" where
  "vxnamei_loop path cur k =
     (case path of None \<Rightarrow> (k, Found cur) | Some s \<Rightarrow>
      if s = '''' then (k, Found cur) else
      case strsep2 s ''/'' of (cname, rest) \<Rightarrow>
        if cname = '''' then vxnamei_loop rest cur k
        else case cache_lookup (Some cur) cname k of
          (k1, Some next) \<Rightarrow> vxnamei_loop rest next (dentry_put (Some cur) k1)
        | (k1, None) \<Rightarrow>
            (case vxnamei_new cname cur k1 of
               (k2, Found next) \<Rightarrow> vxnamei_loop rest next k2
             | r \<Rightarrow> r))"
  by pat_completeness auto
termination
  by (relation "measure (\<lambda>(path, _, _). case path of None \<Rightarrow> 0 | Some s \<Rightarrow> Suc (length s))")
     (use strsep2_rest in \<open>fastforce+\<close>)

declare vxnamei_loop.simps [simp del]

definition vxnamei :: "string \<Rightarrow> kernel \<Rightarrow> kernel \<times> walk" where
  "vxnamei path k =
     (if path = '''' then (k, Missing)
      else case k_root k of None \<Rightarrow> (k, Missing)
      | Some root \<Rightarrow> vxnamei_loop (Some path) root (dentry_get (Some root) k))"

section \<open>Naming and connecting\<close>

text \<open>The address is the path of the \<^verbatim>\<open>sockaddr_un\<close>, None for a NULL pointer.\<close>

definition syscall_bind :: "nat \<Rightarrow> int \<Rightarrow> string option \<Rightarrow> u32 \<Rightarrow> sys \<Rightarrow> (sys \<times> int) option" where
  "syscall_bind pid fd addr len s =
     (case addr of None \<Rightarrow> Some (s, - EINVAL) | Some path \<Rightarrow>
      if len = 0 then Some (s, - EINVAL) else
      case fd_socket pid fd s of None \<Rightarrow> None | Some (Inl err) \<Rightarrow> Some (s, err)
      | Some (Inr (e, p, so)) \<Rightarrow>
          if so_family so \<noteq> AF_UNIX then Some (s, - ENOSYS)
          else (case vxnamei path (s_k s) of
                  (k1, Found d) \<Rightarrow>
                    (case k_dentries k1 d of None \<Rightarrow> None | Some de \<Rightarrow>
                     case d_vnode de of None \<Rightarrow> None | Some v \<Rightarrow>
                     case k_vnodes k1 v of None \<Rightarrow> None | Some vn \<Rightarrow>
                     if vn_fs_instance vn \<noteq> None then Some (s\<lparr>s_k := k1\<rparr>, - EADDRINUSE)
                     else Some (set_sock p (so_state_update (\<lambda>_. SOCK_STATE_BOUND))
                                 (s\<lparr>s_k := set_vnode v (vn_private_update (\<lambda>_. Some p)) k1\<rparr>), 0))
                | (k1, _) \<Rightarrow> None))"

definition syscall_listen :: "nat \<Rightarrow> int \<Rightarrow> int \<Rightarrow> sys \<Rightarrow> (sys \<times> int) option" where
  "syscall_listen pid fd backlog s =
     (if fd < 0 then Some (s, - EBADF) else
      case fd_socket pid fd s of None \<Rightarrow> None | Some (Inl err) \<Rightarrow> Some (s, err)
      | Some (Inr (e, p, so)) \<Rightarrow>
          if so_state so \<noteq> SOCK_STATE_BOUND \<and> so_state so \<noteq> SOCK_STATE_LISTENING then Some (s, - EINVAL)
          else if so_type so \<noteq> SOCK_STREAM \<and> so_type so \<noteq> SOCK_SEQPACKET then Some (s, - EINVAL)
          else Some (set_sock p (\<lambda>x. x\<lparr>so_state := SOCK_STATE_LISTENING,
                                        so_backlog := min (max backlog 0) SOMAXCONN\<rparr>) s, 0))"

definition server_side :: "ptr \<Rightarrow> sock \<Rightarrow> sock" where
  "server_side client so =
     zero_sock\<lparr>so_family := so_family so, so_type := so_type so, so_protocol := so_protocol so,
       so_flags := so_flags so, so_backlog := so_backlog so, so_state := so_state so, so_ops := so_ops so,
       us_peer := Some client\<rparr>"

definition wake_opt :: "nat option \<Rightarrow> kernel \<Rightarrow> kernel" where
  "wake_opt t k = (case t of None \<Rightarrow> k | Some t' \<Rightarrow> vxThreadWake t' k)"

definition syscall_connect :: "nat \<Rightarrow> int \<Rightarrow> string option \<Rightarrow> u32 \<Rightarrow> sys \<Rightarrow> (sys \<times> int) option" where
  "syscall_connect pid fd addr len s =
     (case addr of None \<Rightarrow> Some (s, - EINVAL) | Some path \<Rightarrow>
      if len = 0 then Some (s, - EINVAL) else
      case fd_socket pid fd s of None \<Rightarrow> None | Some (Inl err) \<Rightarrow> Some (s, err)
      | Some (Inr (e, client, so)) \<Rightarrow>
          if so_family so \<noteq> AF_UNIX then Some (s, - EAFNOSUPPORT)
          else (case vxnamei path (s_k s) of
                  (k1, Missing) \<Rightarrow> Some (s\<lparr>s_k := k1\<rparr>, - ENOENT)
                | (k1, Wild) \<Rightarrow> None
                | (k1, Found d) \<Rightarrow>
                    (case k_dentries k1 d of None \<Rightarrow> None | Some de \<Rightarrow>
                     case d_vnode de of None \<Rightarrow> Some (s\<lparr>s_k := k1\<rparr>, - ENOENT) | Some v \<Rightarrow>
                     case k_vnodes k1 v of None \<Rightarrow> None | Some vn \<Rightarrow>
                     case vn_private vn of None \<Rightarrow> Some (s\<lparr>s_k := k1\<rparr>, - ECONNREFUSED) | Some us \<Rightarrow>
                     case s_socks s us of None \<Rightarrow> None | Some server \<Rightarrow>
                     if so_state server \<noteq> SOCK_STATE_LISTENING then Some (s\<lparr>s_k := k1\<rparr>, - ECONNREFUSED)
                     else if int (bl_count (us_backlog server)) \<ge> so_backlog server
                     then Some (s\<lparr>s_k := k1\<rparr>, - ECONNREFUSED)
                     else (case kernel_alloc k1 of
                             (k2, None) \<Rightarrow> Some (s\<lparr>s_k := k2\<rparr>, - ENOMEM)
                           | (k2, Some ss) \<Rightarrow>
                               let s1 = new_sock ss (server_side client so) k2 s;
                                   s2 = set_sock client (us_peer_update (\<lambda>_. Some ss)) s1;
                                   s3 = set_sock us (us_backlog_update (backlog_push ss)) s2
                               in Some (s3\<lparr>s_k := wake_opt (us_accept_thread server) (s_k s3)\<rparr>, 0)))))"

section \<open>Accepting\<close>

text \<open>
  The rest of \<^verbatim>\<open>accept\<close> once a connection waits: it is taken from the backlog, also when there is
  no descriptor for it. The flags of the new descriptor stay as the slot had them.
\<close>

definition accept_take ::
    "(ptr \<Rightarrow> fs_driver option) \<Rightarrow> nat \<Rightarrow> ptr \<Rightarrow> sock \<Rightarrow> sys \<Rightarrow> sys \<times> pass" where
  "accept_take fss pid us so s =
     (case backlog_pop (us_backlog so) of (b1, client) \<Rightarrow>
      let s1 = set_sock us (us_backlog_update (\<lambda>_. b1)) s
      in case k_fdtables (s_k s1) pid of None \<Rightarrow> (s1, Faults) | Some fdt \<Rightarrow>
         case find_free fdt 0 of None \<Rightarrow> (s1, Returns (- EMFILE)) | Some n \<Rightarrow>
         case alloc_fd (s_k s1) of None \<Rightarrow> (s1, Faults) | Some (k2, f) \<Rightarrow>
           let k3 = set_fdtable pid (install_fd fdt n f (fdt_fd_flags fdt ! n))
                      (set_file f (f_private_data_update (\<lambda>_. client)) k2);
               s2 = s1\<lparr>s_k := open_proc_entry fss pid n k3\<rparr>
           in case client of None \<Rightarrow> (s2, Faults) | Some c \<Rightarrow>
              case s_socks s2 c of None \<Rightarrow> (s2, Faults)
              | Some _ \<Rightarrow> (set_sock c (so_state_update (\<lambda>_. SOCK_STATE_CONNECTED)) s2, Returns (int n)))"

definition accept_pass ::
    "(ptr \<Rightarrow> fs_driver option) \<Rightarrow> nat \<Rightarrow> nat \<Rightarrow> ptr \<Rightarrow> bool \<Rightarrow> sys \<Rightarrow> sys \<times> pass" where
  "accept_pass fss cur pid us is_nonblock s =
     (case s_socks s us of None \<Rightarrow> (s, Faults) | Some so \<Rightarrow>
      if bl_count (us_backlog so) = 0 then
        if is_nonblock then (s, Returns (- EAGAIN))
        else let s1 = set_sock us (us_accept_thread_update (\<lambda>_. Some cur)) s
             in (case block_pass cur (s_k s1) of
                   (k1, Again) \<Rightarrow> (set_sock us (us_accept_thread_update (\<lambda>_. None)) (s1\<lparr>s_k := k1\<rparr>), Again)
                 | (k1, r) \<Rightarrow> (s1\<lparr>s_k := k1\<rparr>, r))
      else accept_take fss pid us so s)"

text \<open>What happens when the scheduler switches back to a thread that blocked in \<^verbatim>\<open>accept\<close>.\<close>

definition accept_wake :: "nat \<Rightarrow> ptr \<Rightarrow> sys \<Rightarrow> sys" where
  "accept_wake cur us s =
     set_sock us (us_accept_thread_update (\<lambda>_. None)) (s\<lparr>s_k := thread_block_return cur (s_k s)\<rparr>)"

definition syscall_accept ::
    "(ptr \<Rightarrow> fs_driver option) \<Rightarrow> nat \<Rightarrow> nat \<Rightarrow> int \<Rightarrow> sys \<Rightarrow> sys \<times> pass" where
  "syscall_accept fss cur pid fd s =
     (case fd_socket pid fd s of None \<Rightarrow> (s, Faults) | Some (Inl err) \<Rightarrow> (s, Returns err)
      | Some (Inr (e, us, server)) \<Rightarrow>
          if so_family server \<noteq> AF_UNIX then (s, Returns (- EAFNOSUPPORT))
          else if so_state server \<noteq> SOCK_STATE_LISTENING then (s, Returns (- EINVAL))
          else accept_pass fss cur pid us (nonblocking e) s)"

section \<open>Transferring bytes\<close>

text \<open>
  \<open>data\<close> holds the \<open>len\<close> bytes of the buffer, None is a NULL pointer. The loops compare with
  \<^verbatim>\<open>(int) len\<close>.
\<close>

definition wanted :: "u32 \<Rightarrow> nat" where
  "wanted len = nat (sint len)"

definition send_pass :: "nat \<Rightarrow> ptr \<Rightarrow> bool \<Rightarrow> u8 list \<Rightarrow> u32 \<Rightarrow> sys \<Rightarrow> sys \<times> pass" where
  "send_pass cur dest is_nonblock data len s =
     (case s_socks s dest of None \<Rightarrow> (s, Faults) | Some d \<Rightarrow>
      if ur_count (us_ring d) \<ge> UNIX_BUF_SIZE then
        if is_nonblock then (s, Returns (- EAGAIN))
        else (case block_pass cur (s_k s) of (k1, r) \<Rightarrow> (s\<lparr>s_k := k1\<rparr>, r))
      else (case unix_put (us_ring d) data (wanted len) of (r1, written) \<Rightarrow>
              let s1 = set_sock dest (us_ring_update (\<lambda>_. r1)) s
              in (s1\<lparr>s_k := wake_opt (us_recv_thread d) (s_k s1)\<rparr>, Returns (int written))))"

definition syscall_sendto :: "nat \<Rightarrow> nat \<Rightarrow> int \<Rightarrow> u8 list option \<Rightarrow> u32 \<Rightarrow> sys \<Rightarrow> sys \<times> pass" where
  "syscall_sendto cur pid fd buf len s =
     (case buf of None \<Rightarrow> (s, Returns (- EINVAL)) | Some data \<Rightarrow>
      if fd < 0 \<or> len = 0 then (s, Returns (- EINVAL)) else
      case fd_socket pid fd s of None \<Rightarrow> (s, Faults) | Some (Inl err) \<Rightarrow> (s, Returns err)
      | Some (Inr (e, us, so)) \<Rightarrow>
          if so_family so \<noteq> AF_UNIX then (s, Returns (- EAFNOSUPPORT))
          else let dest = (case us_peer so of Some p \<Rightarrow> p | None \<Rightarrow> us)
               in send_pass cur dest (nonblocking e) data len s)"

definition recv_pass :: "nat \<Rightarrow> ptr \<Rightarrow> bool \<Rightarrow> u32 \<Rightarrow> sys \<Rightarrow> sys \<times> u8 list \<times> pass" where
  "recv_pass cur us is_nonblock len s =
     (case s_socks s us of None \<Rightarrow> (s, [], Faults) | Some so \<Rightarrow>
      if ur_count (us_ring so) = 0 then
        if is_nonblock then (s, [], Returns (- EAGAIN))
        else let s1 = set_sock us (us_recv_thread_update (\<lambda>_. Some cur)) s
             in (case block_pass cur (s_k s1) of
                   (k1, Again) \<Rightarrow> (set_sock us (us_recv_thread_update (\<lambda>_. None)) (s1\<lparr>s_k := k1\<rparr>), [], Again)
                 | (k1, r) \<Rightarrow> (s1\<lparr>s_k := k1\<rparr>, [], r))
      else (case unix_get (us_ring so) (wanted len) of (r1, bs) \<Rightarrow>
              (set_sock us (us_ring_update (\<lambda>_. r1)) s, bs, Returns (int (length bs)))))"

definition recv_wake :: "nat \<Rightarrow> ptr \<Rightarrow> sys \<Rightarrow> sys" where
  "recv_wake cur us s =
     set_sock us (us_recv_thread_update (\<lambda>_. None)) (s\<lparr>s_k := thread_block_return cur (s_k s)\<rparr>)"

definition syscall_recvfrom :: "nat \<Rightarrow> nat \<Rightarrow> int \<Rightarrow> bool \<Rightarrow> u32 \<Rightarrow> sys \<Rightarrow> sys \<times> u8 list \<times> pass" where
  "syscall_recvfrom cur pid fd has_buf len s =
     (if fd < 0 \<or> \<not> has_buf \<or> len = 0 then (s, [], Returns (- EINVAL)) else
      case fd_socket pid fd s of None \<Rightarrow> (s, [], Faults) | Some (Inl err) \<Rightarrow> (s, [], Returns err)
      | Some (Inr (e, us, so)) \<Rightarrow>
          if so_family so \<noteq> AF_UNIX then (s, [], Returns (- EAFNOSUPPORT))
          else recv_pass cur us (nonblocking e) len s)"

end
