(* ===== verification/Unix_Frame.thy ===== *)
theory Unix_Frame
  imports Unix_Socket
begin

text \<open>
  What the path walks of the socket calls leave alone: descriptors, open files and the
  memory in use.
\<close>

unbundle bit_operations_syntax

section \<open>What path walks leave alone\<close>

definition keeps_fds :: "kernel \<Rightarrow> kernel \<Rightarrow> bool" where
  "keeps_fds k k' \<longleftrightarrow> k_files k' = k_files k \<and> k_fdtables k' = k_fdtables k \<and>
     set (k_pool k') \<subseteq> set (k_pool k) \<and> (distinct (k_pool k) \<longrightarrow> distinct (k_pool k'))"

text \<open>The assumption on file system drivers: look-ups and creations keep descriptors and return no memory in use.\<close>

definition drivers_keep :: "(ptr \<Rightarrow> fs_driver option) \<Rightarrow> bool" where
  "drivers_keep fss \<longleftrightarrow> (\<forall>f d. fss f = Some d \<longrightarrow>
     (\<forall>l name c k. fs_lookup d = Some l \<longrightarrow> keeps_fds k (fst (l name c k))) \<and>
     (\<forall>cr name c n k. fs_create d = Some cr \<longrightarrow> keeps_fds k (fst (cr name c n k))))"

lemma keeps_refl [simp]: "keeps_fds k k"
  by (simp add: keeps_fds_def)

lemma keeps_trans: "keeps_fds a b \<Longrightarrow> keeps_fds b c \<Longrightarrow> keeps_fds a c"
  by (auto simp: keeps_fds_def)

lemma keeps_dentry [simp]:
  "keeps_fds k (dentry_get d k)" "keeps_fds k (dentry_put d k)" "keeps_fds k (set_dentry a g k)"
  "keeps_fds k (vfs_cache_insert a k)" "keeps_fds k (set_vnode a h k)"
  by (simp_all add: keeps_fds_def dentry_get_def dentry_put_def set_dentry_def set_vnode_def call_rcu_def
      vfs_cache_insert_def set_bucket_def Let_def split: option.splits)

lemma keeps_descend: "keeps_fds k (descend_new n c k)"
  unfolding descend_new_def by (metis keeps_dentry keeps_trans)

lemma keeps_lookup: "cache_lookup p n k = (k', r) \<Longrightarrow> keeps_fds k k'"
  by (auto simp: cache_lookup_def Let_def split: option.splits)

lemma keeps_alloc: "kernel_alloc k = (k', r) \<Longrightarrow> keeps_fds k k'"
  by (auto simp: kernel_alloc_def keeps_fds_def split: list.splits)

lemma keeps_create:
  "create_dentry n v p k = (k', r) \<Longrightarrow> keeps_fds k k'"
  "create_and_attach_vnode k = (k', w) \<Longrightarrow> keeps_fds k k'"
proof -
  assume c: "create_dentry n v p k = (k', r)"
  obtain k1 a where al: "kernel_alloc k = (k1, a)" by fastforce
  have "keeps_fds k1 (dentry_get p (k1\<lparr>k_dentries := D\<rparr>))" for D
    by (rule keeps_trans [OF _ keeps_dentry(1)]) (simp add: keeps_fds_def)
  then show "keeps_fds k k'" using c al keeps_trans [OF keeps_alloc [OF al]]
    by (auto simp: create_dentry_def Let_def keeps_alloc [OF al] split: option.splits)
next
  assume "create_and_attach_vnode k = (k', w)"
  then show "keeps_fds k k'"
    by (auto simp: create_and_attach_vnode_def create_vnode_def kernel_alloc_def keeps_fds_def split: list.splits)
qed

lemma keeps_resolve_create:
  assumes "drivers_keep fss" and "fs = None \<or> (\<exists>f. fs = fss f)" and "resolve_create fs n c k = (k', r)"
  shows "keeps_fds k k'"
proof -
  obtain k1 new where cd: "create_dentry n None (Some c) k = (k1, new)" by fastforce
  have k1: "keeps_fds k k1" using cd by (rule keeps_create)
  have cr: "keeps_fds k1 k2" if "fs = Some d" "fs_create d = Some create" "create n c a k1 = (k2, x)" for d create a k2 x
    using assms(1,2) that unfolding drivers_keep_def by (metis fst_conv option.distinct(1))
  have "keeps_fds k1 k'"
  proof (cases "\<exists>a. new = Some a \<and> fs = None")
    case True
    then obtain a k2 vn where "new = Some a" "fs = None" "create_and_attach_vnode k1 = (k2, vn)" by fastforce
    with assms(3) cd have "k' = descend_new a c (set_dentry a (d_vnode_update (\<lambda>_. vn)) k2)"
      by (simp add: resolve_create_def)
    then show ?thesis
      using keeps_create(2) [OF \<open>create_and_attach_vnode k1 = (k2, vn)\<close>] keeps_descend keeps_dentry(3) keeps_trans by metis
  next
    case False
    then show ?thesis using assms(3) cd
      by (auto simp: resolve_create_def split: option.splits prod.splits if_splits
          intro: cr keeps_trans [OF cr keeps_descend])
  qed
  then show ?thesis by (rule keeps_trans [OF k1])
qed

lemma keeps_component:
  assumes env: "drivers_keep fss" and r: "resolve_component fss flag n c e k = (k', r)"
  shows "keeps_fds k k'"
proof -
  obtain k1 hit where l: "cache_lookup (Some c) n k = (k1, hit)" by fastforce
  have k1: "keeps_fds k k1" using l by (rule keeps_lookup)
  let ?fs = "dentry_fs fss k1 e"
  have fs: "?fs = None \<or> (\<exists>f. ?fs = fss f)" by (auto simp: dentry_fs_def split: option.splits)
  obtain k2 found where look: "(case ?fs of None \<Rightarrow> (k1, None)
     | Some d \<Rightarrow> if fs_has_cdev d then (case fs_lookup d of None \<Rightarrow> (k1, None)
          | Some lookup \<Rightarrow> lookup n c k1) else (k1, None)) = (k2, found)" by fastforce
  have lk: "keeps_fds k1 k2" if "?fs = Some d" "fs_lookup d = Some lookup" "lookup n c k1 = (k2, found)" for d lookup
    using env fs that unfolding drivers_keep_def by (metis fst_conv option.distinct(1))
  have "keeps_fds k1 k2" using look lk by (auto split: option.splits if_splits)
  then have k2: "keeps_fds k k2" by (rule keeps_trans [OF k1])
  have r': "(case hit of Some next \<Rightarrow> (dentry_put (Some c) k1, Some next) | None \<Rightarrow>
      case found of Some next \<Rightarrow> (descend_new next c k2, Some next)
      | None \<Rightarrow> if flag AND CREATE_MISSING_ENTRY \<noteq> 0 then resolve_create ?fs n c k2 else (k2, None)) = (k', r)"
    using r unfolding resolve_component_def l Let_def prod.case look
    by (cases hit) (simp_all only: option.case prod.case)
  show ?thesis
  proof (cases hit)
    case (Some x)
    then show ?thesis using r' keeps_trans [OF k1 keeps_dentry(2)] by auto
  next
    case None
    then show ?thesis using r' k2 keeps_trans [OF k2 keeps_descend] keeps_trans [OF k2 keeps_resolve_create [OF env fs]]
      by (auto split: option.splits if_splits)
  qed
qed

lemma keeps_resolve:
  assumes "drivers_keep fss" and "resolve_dentry fss path parent flag k = (k', w)"
  shows "keeps_fds k k'"
proof -
  have l: "keeps_fds a b" if "resolve_loop fss flag p c a = (b, x)" for p c a b x
    by (rule resolve_loop_frame [where R = keeps_fds, OF _ _ _ _ _ that])
       (use keeps_trans keeps_component [OF assms(1)] in auto)
  note keeps_trans [OF keeps_dentry(1) l]
  then show ?thesis using assms(2) by (auto simp: resolve_dentry_def split: option.splits if_splits)
qed

lemma keeps_open_proc_entry:
  assumes "drivers_keep fss"
  shows "keeps_fds k (open_proc_entry fss pid fd k)"
proof -
  note r = keeps_resolve [OF assms]
  have p: "keeps_fds a b \<Longrightarrow> keeps_fds a (dentry_put x b)" for a b x by (rule keeps_trans) auto
  have v: "keeps_fds a (case k_dentries a q of None \<Rightarrow> a | Some e \<Rightarrow> case d_vnode e of None \<Rightarrow> a | Some v \<Rightarrow> set_vnode v g a)"
    for a q g by (auto split: option.splits)
  show ?thesis
    unfolding open_proc_entry_def Let_def
    by (auto split: prod.splits walk.splits intro!: p dest!: r) (blast intro: keeps_trans v)+
qed

lemma keeps_vxnamei_new: "vxnamei_new n c k = (k', w) \<Longrightarrow> keeps_fds k k'"
proof -
  assume v: "vxnamei_new n c k = (k', w)"
  obtain k1 new where cd: "create_dentry n None (Some c) k = (k1, new)" by fastforce
  obtain k2 vn where cv: "create_and_attach_vnode k1 = (k2, vn)" by fastforce
  have k1: "keeps_fds k k1" and k12: "keeps_fds k1 k2" using keeps_create cd cv by blast+
  have k2: "keeps_fds k k2" by (rule keeps_trans [OF k1 k12])
  have "keeps_fds k2 (descend_new x y (set_vnode v g (set_dentry z h k2)))" for x y v g z h
    by (rule keeps_trans [OF keeps_trans [OF keeps_dentry(3) keeps_dentry(5)] keeps_descend])
  note keeps_trans [OF k2 this] keeps_trans [OF k1 keeps_dentry(2)]
  then show ?thesis using v cd cv k2 by (cases new; cases vn) (simp_all add: vxnamei_new_def, auto)
qed

lemma keeps_vxnamei_loop: "vxnamei_loop path c k = (k', w) \<Longrightarrow> keeps_fds k k'"
proof (induction "case path of None \<Rightarrow> 0 | Some s \<Rightarrow> Suc (length s)" arbitrary: path c k rule: less_induct)
  case less
  show ?case
  proof (cases "path = None \<or> path = Some []")
    case True
    then show ?thesis using less.prems by (auto simp: vxnamei_loop.simps)
  next
    case False
    then obtain s where s: "path = Some s" "s \<noteq> []" by auto
    obtain tok rest where sep: "strsep2 s ''/'' = (tok, rest)" by fastforce
    have IH: "keeps_fds kk k'" if "vxnamei_loop rest c' kk = (k', w)" for c' kk
      using less.hyps [OF _ that] strsep2_rest [OF sep [symmetric]] s(1) by simp
    obtain k1 hit where l: "cache_lookup (Some c) tok k = (k1, hit)" by fastforce
    obtain k2 made where n: "vxnamei_new tok c k1 = (k2, made)" by fastforce
    have k1: "keeps_fds k (dentry_put (Some c) k1)" and k2: "keeps_fds k k2"
      using keeps_lookup [OF l] keeps_vxnamei_new [OF n] keeps_trans keeps_dentry(2) by blast+
    have step: "vxnamei_loop (Some s) c k = (if tok = [] then vxnamei_loop rest c k
        else case hit of Some next \<Rightarrow> vxnamei_loop rest next (dentry_put (Some c) k1)
          | None \<Rightarrow> (case made of Found next \<Rightarrow> vxnamei_loop rest next k2 | _ \<Rightarrow> (k2, made)))"
      using s(2) sep l n by (subst vxnamei_loop.simps) (simp split: option.splits walk.splits)
    show ?thesis
      using less.prems [unfolded s(1) step] IH keeps_trans [OF k1 IH] keeps_trans [OF k2 IH] k2
      by (simp split: if_splits option.splits walk.splits)
  qed
qed

lemma keeps_vxnamei: "vxnamei path k = (k', w) \<Longrightarrow> keeps_fds k k'"
  using keeps_trans [OF keeps_dentry(1) keeps_vxnamei_loop]
  by (auto simp: vxnamei_def split: option.splits if_splits)

end
