(* ===== verification/Unix_Props.thy ===== *)
theory Unix_Props
  imports Unix_Frame
begin

text \<open>
  Correctness of Unix sockets: the invariant of rings, backlogs and peers under every call,
  what \<^verbatim>\<open>sendto\<close> and \<^verbatim>\<open>recvfrom\<close> transfer, the connection that \<^verbatim>\<open>connect\<close> and \<^verbatim>\<open>accept\<close> make, and
  the wake-up that a blocked sender never gets.
\<close>

unbundle bit_operations_syntax

section \<open>The invariant\<close>

definition sock_wf :: "ptr set \<Rightarrow> sock \<Rightarrow> bool" where
  "sock_wf D so \<longleftrightarrow> ur_inv (us_ring so) \<and> bl_inv (us_backlog so) \<and> so_backlog so \<le> 128 \<and>
     set_option (us_peer so) \<subseteq> D \<and> set (bl_list (us_backlog so)) \<subseteq> D"

definition sock_inv :: "sys \<Rightarrow> bool" where
  "sock_inv s \<longleftrightarrow> (\<forall>p so. s_socks s p = Some so \<longrightarrow> sock_wf (dom (s_socks s)) so) \<and>
     dom (s_socks s) \<inter> set (k_pool (s_k s)) = {} \<and> distinct (k_pool (s_k s))"

text \<open>The memory the allocator may hand out does not grow.\<close>

definition shrinks :: "kernel \<Rightarrow> kernel \<Rightarrow> bool" where
  "shrinks k k' \<longleftrightarrow> set (k_pool k') \<subseteq> set (k_pool k) \<and> (distinct (k_pool k) \<longrightarrow> distinct (k_pool k'))"

lemma shrinks_trans: "shrinks a b \<Longrightarrow> shrinks b c \<Longrightarrow> shrinks a c"
  by (auto simp: shrinks_def)

lemma shrinks_keeps: "keeps_fds k k' \<Longrightarrow> shrinks k k'"
  by (simp add: keeps_fds_def shrinks_def)

lemma shrinks_simps [simp]:
  "shrinks k k" "shrinks k (wake_opt t k)" "shrinks k (thread_block_return c k)" "shrinks k (set_fdtable i T k)"
  "shrinks k (set_file f g k)" "shrinks k (set_vnode v h k)"
  by (simp_all add: shrinks_def wake_opt_def vxThreadWake_def thread_block_return_def set_fdtable_def set_file_def
      set_vnode_def Let_def split: option.splits)

lemma shrinks_block: "block_pass c k = (k', r) \<Longrightarrow> shrinks k k'"
  by (auto simp: block_pass_def thread_block_def shrinks_def Let_def split: if_splits)

lemma shrinks_alloc_fd: "alloc_fd k = Some (k', f) \<Longrightarrow> shrinks k k'"
  by (auto simp: alloc_fd_def kernel_alloc_def shrinks_def split: list.splits)

lemma sock_inv_kernel: "sock_inv s \<Longrightarrow> shrinks (s_k s) k \<Longrightarrow> sock_inv (s\<lparr>s_k := k\<rparr>)"
  by (auto simp: sock_inv_def shrinks_def)

lemma sock_inv_set:
  assumes "sock_inv s" and "\<And>so. s_socks s p = Some so \<Longrightarrow> sock_wf (dom (s_socks s)) so \<Longrightarrow> sock_wf (dom (s_socks s)) (g so)"
  shows "sock_inv (set_sock p g s)"
proof -
  have "dom ((s_socks s)(p := map_option g (s_socks s p))) = dom (s_socks s)" by (auto simp: map_option_case split: option.splits)
  then show ?thesis using assms by (auto simp: sock_inv_def set_sock_def)
qed

lemma sock_wf_mono: "sock_wf D so \<Longrightarrow> D \<subseteq> E \<Longrightarrow> sock_wf E so"
  by (auto simp: sock_wf_def)

lemma sock_inv_new:
  assumes "sock_inv s" and "p \<in> set (k_pool (s_k s))" and "shrinks (s_k s) k" and "p \<notin> set (k_pool k)"
    and "sock_wf (insert p (dom (s_socks s))) so"
  shows "sock_inv (new_sock p so k s)"
proof -
  let ?D = "dom (s_socks s)"
  have inv: "?D \<inter> set (k_pool (s_k s)) = {}" "distinct (k_pool (s_k s))" using assms(1) by (auto simp: sock_inv_def)
  have "sock_wf (insert p ?D) so'" if "((s_socks s)(p \<mapsto> so)) q = Some so'" for q so'
  proof (cases "q = p")
    case False
    then have "sock_wf ?D so'" using assms(1) that unfolding sock_inv_def by auto
    then show ?thesis by (rule sock_wf_mono) auto
  qed (use that assms(5) in simp)
  moreover have "insert p ?D \<inter> set (k_pool k) = {}" "distinct (k_pool k)" using assms(3,4) inv by (auto simp: shrinks_def)
  ultimately show ?thesis unfolding sock_inv_def new_sock_def by simp
qed

lemma zero_wf: "us_ring so = us_ring zero_sock \<Longrightarrow> us_backlog so = us_backlog zero_sock \<Longrightarrow> so_backlog so \<le> 128 \<Longrightarrow>
    set_option (us_peer so) \<subseteq> D \<Longrightarrow> sock_wf D so"
  by (simp add: sock_wf_def zero_sock_def ur_inv_def bl_inv_def bl_list_def UNIX_BUF_SIZE_def UNIX_BACKLOG_MAX_def)

lemma alloc_fresh:
  assumes "kernel_alloc k = (k', Some p)" and "distinct (k_pool k)"
  shows "p \<in> set (k_pool k)" "p \<notin> set (k_pool k')" "shrinks k k'"
  using assms by (auto simp: kernel_alloc_def shrinks_def split: list.splits)

lemma fd_socketD: "fd_socket pid fd s = Some (Inr (e, p, so)) \<Longrightarrow> s_socks s p = Some so"
  by (auto simp: fd_socket_def split: option.splits if_splits)

section \<open>Every call keeps it\<close>

lemma create_socket_inv:
  assumes "sock_inv s" and "create_socket f t pr s = Some (s1, r)"
  shows "sock_inv s1"
proof (cases "r = Inl (- EAFNOSUPPORT)")
  case False
  then obtain k1 p where al: "kernel_alloc (s_k s) = (k1, Some p)" and s1: "s1 = new_sock p
      (zero_sock\<lparr>so_family := f, so_type := t, so_protocol := pr, so_state := SOCK_STATE_CLOSED, so_ops := (f = AF_INET)\<rparr>) k1 s"
    using assms(2) by (auto simp: create_socket_def split: prod.splits option.splits if_splits)
  have "distinct (k_pool (s_k s))" using assms(1) by (simp add: sock_inv_def)
  note fr = alloc_fresh [OF al this]
  show ?thesis unfolding s1
    by (rule sock_inv_new [OF assms(1) fr(1,3,2)]) (rule zero_wf; simp add: zero_sock_def)
qed (use assms in \<open>auto simp: create_socket_def split: prod.splits option.splits if_splits\<close>)

lemma syscall_socket_inv:
  assumes "sock_inv s" and "drivers_keep fss" and "syscall_socket fss pid family ty pr s = Some (s', r)"
  shows "sock_inv s'"
proof -
  let ?ty = "ty AND NOT (SOCK_NONBLOCK OR SOCK_CLOEXEC)"
  obtain s1 x where c: "create_socket family ?ty (word_of_int pr) s = Some (s1, x)"
    using assms(3) by (auto simp: syscall_socket_def Let_def split: option.splits)
  have i: "sock_inv s1" by (rule create_socket_inv [OF assms(1) c])
  have k: "sock_inv (s1\<lparr>s_k := open_proc_entry fss pid n (set_fdtable pid T (set_file f g k2))\<rparr>)"
    if "alloc_fd (s_k s1) = Some (k2, f)" for n T g k2 f
  proof -
    have "shrinks (s_k s1) (set_fdtable pid T (set_file f g k2))"
      using shrinks_trans [OF shrinks_alloc_fd [OF that]] shrinks_trans [OF shrinks_simps(5) shrinks_simps(4)] by blast
    then have "shrinks (s_k s1) (open_proc_entry fss pid n (set_fdtable pid T (set_file f g k2)))"
      by (rule shrinks_trans) (rule shrinks_keeps [OF keeps_open_proc_entry [OF assms(2)]])
    then show ?thesis by (rule sock_inv_kernel [OF i])
  qed
  show ?thesis using assms(3) c i k
    by (auto simp: syscall_socket_def Let_def split: option.splits sum.splits prod.splits)
qed

lemma syscall_listen_inv:
  assumes "sock_inv s" and "syscall_listen pid fd b s = Some (s', r)"
  shows "sock_inv s'"
proof -
  have "sock_inv (set_sock p (\<lambda>x. x\<lparr>so_state := SOCK_STATE_LISTENING, so_backlog := min (max b 0) SOMAXCONN\<rparr>) s)" for p
    by (rule sock_inv_set [OF assms(1)]) (auto simp: sock_wf_def SOMAXCONN_def)
  then show ?thesis using assms by (auto simp: syscall_listen_def split: option.splits sum.splits if_splits)
qed

lemma syscall_bind_inv:
  assumes "sock_inv s" and "syscall_bind pid fd a len s = Some (s', r)"
  shows "sock_inv s'"
proof -
  have k: "sock_inv (s\<lparr>s_k := k1\<rparr>)" "sock_inv (set_sock p (so_state_update (\<lambda>_. SOCK_STATE_BOUND)) (s\<lparr>s_k := set_vnode v g k1\<rparr>))"
    if "vxnamei path (s_k s) = (k1, w)" for path k1 w p v g
  proof -
    have sh: "shrinks (s_k s) k1" by (rule shrinks_keeps [OF keeps_vxnamei [OF that]])
    then show "sock_inv (s\<lparr>s_k := k1\<rparr>)" by (rule sock_inv_kernel [OF assms(1)])
    have "sock_inv (s\<lparr>s_k := set_vnode v g k1\<rparr>)"
      by (rule sock_inv_kernel [OF assms(1) shrinks_trans [OF sh shrinks_simps(6)]])
    then show "sock_inv (set_sock p (so_state_update (\<lambda>_. SOCK_STATE_BOUND)) (s\<lparr>s_k := set_vnode v g k1\<rparr>))"
      by (rule sock_inv_set) (simp add: sock_wf_def)
  qed
  show ?thesis using assms k
    by (auto simp: syscall_bind_def split: option.splits sum.splits if_splits prod.splits walk.splits)
qed

lemma s_socks_set [simp]: "dom (s_socks (set_sock p g s)) = dom (s_socks s)" "s_k (set_sock p g s) = s_k s"
  by (auto simp: set_sock_def map_option_case split: option.splits if_splits)

lemma s_k_new [simp]: "s_k (new_sock p so k s) = k"
  by (simp add: new_sock_def)

text \<open>The state after a successful connection, before the server is woken.\<close>

definition connected :: "ptr \<Rightarrow> ptr \<Rightarrow> sock \<Rightarrow> ptr \<Rightarrow> kernel \<Rightarrow> sys \<Rightarrow> sys" where
  "connected client us so ss k s =
     set_sock us (us_backlog_update (backlog_push ss)) (set_sock client (us_peer_update (\<lambda>_. Some ss))
       (new_sock ss (server_side client so) k s))"

lemma connected_inv:
  assumes inv: "sock_inv s" and al: "kernel_alloc k1 = (k2, Some ss)" and k1: "shrinks (s_k s) k1"
    and c: "s_socks s client = Some so" and u: "s_socks s us = Some server" and room: "bl_count (us_backlog server) < 128"
  shows "sock_inv (connected client us so ss k2 s)"
proof -
  let ?s1 = "new_sock ss (server_side client so) k2 s"
  let ?s2 = "set_sock client (us_peer_update (\<lambda>_. Some ss)) ?s1"
  have d: "distinct (k_pool k1)" using inv k1 by (simp add: sock_inv_def shrinks_def)
  note fr = alloc_fresh [OF al d]
  have mem: "ss \<in> set (k_pool (s_k s))" using fr(1) k1 by (auto simp: shrinks_def)
  have cD: "client \<in> dom (s_socks s)" using c by blast
  then have ne: "ss \<notin> dom (s_socks s)" using mem inv by (auto simp: sock_inv_def)
  have "so_backlog so \<le> 128" using inv c by (auto simp: sock_inv_def sock_wf_def)
  then have "sock_inv ?s1"
    using cD by (intro sock_inv_new [OF inv mem shrinks_trans [OF k1 fr(3)] fr(2)])
      (rule zero_wf; simp add: server_side_def zero_sock_def)
  then have s2: "sock_inv ?s2"
    by (rule sock_inv_set) (simp add: sock_wf_def new_sock_def)
  have "us \<noteq> ss" using u ne by blast
  then have bl: "us_backlog x = us_backlog server" if "s_socks ?s2 us = Some x" for x
    using that u by (auto simp: set_sock_def new_sock_def split: if_splits)
  have ssD: "ss \<in> dom (s_socks ?s2)" by (simp add: new_sock_def)
  show ?thesis unfolding connected_def
  proof (rule sock_inv_set [OF s2])
    fix x assume x: "s_socks ?s2 us = Some x" "sock_wf (dom (s_socks ?s2)) x"
    have "bl_inv (backlog_push ss (us_backlog x)) \<and> bl_list (backlog_push ss (us_backlog x)) = bl_list (us_backlog x) @ [ss]"
      by (rule backlog_push_law) (use x(2) bl [OF x(1)] room in \<open>auto simp: sock_wf_def\<close>)
    then show "sock_wf (dom (s_socks ?s2)) (us_backlog_update (backlog_push ss) x)"
      using x(2) ssD by (simp add: sock_wf_def)
  qed
qed

lemma syscall_connect_inv:
  assumes inv: "sock_inv s" and r: "syscall_connect pid fd a len s = Some (s', x)"
  shows "sock_inv s'"
proof -
  have sh: "shrinks (s_k s) k1" if "vxnamei path (s_k s) = (k1, w)" for path k1 w
    by (rule shrinks_keeps [OF keeps_vxnamei [OF that]])
  have k: "sock_inv (s\<lparr>s_k := k1\<rparr>)" if "vxnamei path (s_k s) = (k1, w)" for path k1 w
    by (rule sock_inv_kernel [OF inv sh [OF that]])
  have full: "so_backlog server \<le> 128" if "s_socks s us = Some server" for us server
    using inv that by (auto simp: sock_inv_def sock_wf_def)
  have w: "sock_inv ((connected client us so ss k2 s)\<lparr>s_k := wake_opt t k2\<rparr>)"
    if "vxnamei path (s_k s) = (k1, w)" "kernel_alloc k1 = (k2, Some ss)" "fd_socket pid fd s = Some (Inr (e, client, so))"
      "s_socks s us = Some server" "\<not> int (bl_count (us_backlog server)) \<ge> so_backlog server" for path k1 w k2 ss e client so us server t
  proof -
    have "sock_inv (connected client us so ss k2 s)"
      by (rule connected_inv [OF inv that(2) sh [OF that(1)] fd_socketD [OF that(3)] that(4)])
         (use full [OF that(4)] that(5) in linarith)
    moreover have "s_k (connected client us so ss k2 s) = k2" by (simp add: connected_def new_sock_def)
    ultimately show ?thesis by (intro sock_inv_kernel) simp_all
  qed
  have none: "sock_inv (s\<lparr>s_k := k2\<rparr>)" if "vxnamei path (s_k s) = (k1, w)" "kernel_alloc k1 = (k2, None)" for path k1 w k2
    using k [OF that(1)] that(2) by (auto simp: kernel_alloc_def split: list.splits)
  show ?thesis
    using r inv k w none
    by (auto simp: syscall_connect_def Let_def connected_def [symmetric]
        split: option.splits sum.splits if_splits prod.splits walk.splits)
qed

lemma accept_take_inv:
  assumes inv: "sock_inv s" and env: "drivers_keep fss" and u: "s_socks s us = Some so" and ne: "bl_count (us_backlog so) \<noteq> 0"
    and r: "accept_take fss pid us so s = (s', x)"
  shows "sock_inv s'"
proof -
  have wf: "sock_wf (dom (s_socks s)) so" using inv u by (auto simp: sock_inv_def)
  obtain c cs where l: "bl_list (us_backlog so) = c # cs" using ne length_bl_list by (metis length_0_conv neq_Nil_conv)
  obtain b1 where b: "backlog_pop (us_backlog so) = (b1, Some c)" "bl_inv b1" "bl_list b1 = cs"
    using backlog_pop_law [OF _ l] wf by (auto simp: sock_wf_def)
  let ?s1 = "set_sock us (us_backlog_update (\<lambda>_. b1)) s"
  have s1: "sock_inv ?s1"
    by (rule sock_inv_set [OF inv]) (use b l wf in \<open>auto simp: sock_wf_def\<close>)
  have k: "sock_inv (?s1\<lparr>s_k := open_proc_entry fss pid n (set_fdtable pid T (set_file f g k2))\<rparr>)"
    if "alloc_fd (s_k s) = Some (k2, f)" for n T g k2 f
  proof -
    have "shrinks (s_k s) (set_fdtable pid T (set_file f g k2))"
      using shrinks_trans [OF shrinks_alloc_fd [OF that]] shrinks_trans [OF shrinks_simps(5) shrinks_simps(4)] by blast
    then have "shrinks (s_k ?s1) (open_proc_entry fss pid n (set_fdtable pid T (set_file f g k2)))"
      using shrinks_trans shrinks_keeps [OF keeps_open_proc_entry [OF env]] by (metis s_socks_set(2))
    then show ?thesis by (rule sock_inv_kernel [OF s1])
  qed
  have st: "sock_inv (set_sock c (so_state_update (\<lambda>_. SOCK_STATE_CONNECTED)) z)" if "sock_inv z" for z
    by (rule sock_inv_set [OF that]) (simp add: sock_wf_def)
  show ?thesis
    using r b(1) s1 k st by (auto simp: accept_take_def Let_def split: option.splits prod.splits)
qed

lemma accept_pass_inv:
  assumes inv: "sock_inv s" and env: "drivers_keep fss" and r: "accept_pass fss cur pid us nb s = (s', x)"
  shows "sock_inv s'"
proof (cases "s_socks s us")
  case (Some so)
  have t: "sock_inv (set_sock us (us_accept_thread_update f) z)" if "sock_inv z" for z f
    by (rule sock_inv_set [OF that]) (simp add: sock_wf_def)
  have k: "sock_inv ((set_sock us (us_accept_thread_update f) s)\<lparr>s_k := k1\<rparr>)" if "block_pass cur (s_k s) = (k1, w)" for f k1 w
    using sock_inv_kernel [OF t [OF inv]] shrinks_block [OF that] by simp
  show ?thesis
    using r Some inv t k accept_take_inv [OF inv env Some]
    by (auto simp: accept_pass_def Let_def split: if_splits prod.splits pass.splits)
qed (use inv r in \<open>simp add: accept_pass_def\<close>)

lemma syscall_accept_inv:
  "sock_inv s \<Longrightarrow> drivers_keep fss \<Longrightarrow> syscall_accept fss cur pid fd s = (s', x) \<Longrightarrow> sock_inv s'"
  using accept_pass_inv by (auto simp: syscall_accept_def split: option.splits sum.splits if_splits)

lemma wake_inv: "sock_inv s \<Longrightarrow> sock_inv (accept_wake cur us s)" "sock_inv s \<Longrightarrow> sock_inv (recv_wake cur us s)"
  unfolding accept_wake_def recv_wake_def
  by (rule sock_inv_set; simp add: sock_inv_kernel sock_wf_def)+

lemma send_pass_inv:
  assumes inv: "sock_inv s" and len: "wanted len \<le> length data" and r: "send_pass cur dest nb data len s = (s', x)"
  shows "sock_inv s'"
proof (cases "s_socks s dest")
  case (Some d)
  have wf: "ur_inv (us_ring d)" using inv Some by (auto simp: sock_inv_def sock_wf_def)
  obtain r1 w where p: "unix_put (us_ring d) data (wanted len) = (r1, w)" by fastforce
  have "sock_inv (set_sock dest (us_ring_update (\<lambda>_. r1)) s)"
    by (rule sock_inv_set [OF inv]) (use unix_put_law [OF wf len p] in \<open>simp add: sock_wf_def\<close>)
  then have "sock_inv ((set_sock dest (us_ring_update (\<lambda>_. r1)) s)\<lparr>s_k := wake_opt t (s_k s)\<rparr>)" for t
    by (rule sock_inv_kernel) simp
  then show ?thesis
    using r Some inv p sock_inv_kernel [OF inv shrinks_block]
    by (auto simp: send_pass_def Let_def split: if_splits prod.splits)
qed (use inv r in \<open>simp add: send_pass_def\<close>)

lemma recv_pass_inv:
  assumes inv: "sock_inv s" and r: "recv_pass cur us nb len s = (s', bs, x)"
  shows "sock_inv s'"
proof (cases "s_socks s us")
  case (Some d)
  have wf: "ur_inv (us_ring d)" using inv Some by (auto simp: sock_inv_def sock_wf_def)
  obtain r1 w where p: "unix_get (us_ring d) (wanted len) = (r1, w)" by fastforce
  have g: "sock_inv (set_sock us (us_ring_update (\<lambda>_. r1)) s)"
    by (rule sock_inv_set [OF inv]) (use unix_get_law [OF wf p] in \<open>simp add: sock_wf_def\<close>)
  have t: "sock_inv (set_sock us (us_recv_thread_update f) z)" if "sock_inv z" for z f
    by (rule sock_inv_set [OF that]) (simp add: sock_wf_def)
  have k: "sock_inv ((set_sock us (us_recv_thread_update f) s)\<lparr>s_k := k1\<rparr>)" if "block_pass cur (s_k s) = (k1, w)" for f k1 w
    using sock_inv_kernel [OF t [OF inv]] shrinks_block [OF that] by simp
  show ?thesis
    using r Some inv p g t k by (auto simp: recv_pass_def Let_def split: if_splits prod.splits pass.splits)
qed (use inv r in \<open>simp add: recv_pass_def\<close>)

section \<open>A new connection\<close>

lemma accept_takes:
  assumes inv: "sock_inv s" and env: "drivers_keep fss"
    and srv: "fd_socket pid fd s = Some (Inr (e, us, server))" "so_family server = AF_UNIX" "so_state server = SOCK_STATE_LISTENING"
    and first: "bl_list (us_backlog server) = c # cs"
    and tab: "k_fdtables (s_k s) pid = Some fdt" "table_ok fdt" "find_free fdt 0 = Some n" and mem: "k_pool (s_k s) \<noteq> []"
  shows "\<exists>s' e' so so'. syscall_accept fss cur pid fd s = (s', Returns (int n)) \<and> s_socks s c = Some so \<and>
    fd_socket pid (int n) s' = Some (Inr (e', c, so')) \<and> so_state so' = SOCK_STATE_CONNECTED \<and> us_peer so' = us_peer so \<and>
    (\<forall>q x. s_socks s q = Some x \<longrightarrow> (\<exists>x'. s_socks s' q = Some x' \<and> us_peer x' = us_peer x))"
proof -
  have u: "s_socks s us = Some server" by (rule fd_socketD [OF srv(1)])
  have wf: "sock_wf (dom (s_socks s)) server" using inv u by (auto simp: sock_inv_def)
  obtain b1 where b: "backlog_pop (us_backlog server) = (b1, Some c)" using backlog_pop_law [OF _ first] wf by (auto simp: sock_wf_def)
  obtain so where so: "s_socks s c = Some so" using wf first by (auto simp: sock_wf_def)
  obtain k2 f where al: "alloc_fd (s_k s) = Some (k2, f)" "k_files k2 f = Some (zero_file\<lparr>f_count := 1\<rparr>)" "k_fdtables k2 = k_fdtables (s_k s)"
    using mem by (auto simp: alloc_fd_def kernel_alloc_def neq_Nil_conv)
  let ?T = "install_fd fdt n f (fdt_fd_flags fdt ! n)"
  define k3 where "k3 = set_fdtable pid ?T (set_file f (f_private_data_update (\<lambda>_. Some c)) k2)"
  define k4 where "k4 = open_proc_entry fss pid n k3"
  define s1 where "s1 = (set_sock us (us_backlog_update (\<lambda>_. b1)) s)\<lparr>s_k := k4\<rparr>"
  define s' where "s' = set_sock c (so_state_update (\<lambda>_. SOCK_STATE_CONNECTED)) s1"
  have k4: "k_files k4 f = Some (zero_file\<lparr>f_count := 1, f_private_data := Some c\<rparr>)" "k_fdtables k4 pid = Some ?T"
    using keeps_open_proc_entry [OF env, of k3 pid n] al(2)
    by (simp_all add: keeps_fds_def k4_def k3_def set_fdtable_def set_file_def)
  have n: "n < length (fdt_fds fdt)" "n < unat (fdt_max_fds fdt)" using find_free_Some [OF tab(2,3)] tab(2) by (auto simp: table_ok_def)
  have ne: "bl_count (us_backlog server) \<noteq> 0" using first length_bl_list [of "us_backlog server"] by auto
  obtain x where x: "s_socks s1 c = Some x" "us_peer x = us_peer so"
    using so u by (cases "c = us") (auto simp: s1_def set_sock_def)
  have acc: "syscall_accept fss cur pid fd s = (s', Returns (int n))"
    using srv u ne b tab al(1,3) x(1)
    by (simp add: syscall_accept_def accept_pass_def accept_take_def Let_def s'_def s1_def k4_def k3_def)
  have "fd_socket pid (int n) s' =
      Some (Inr (zero_file\<lparr>f_count := 1, f_private_data := Some c\<rparr>, c, x\<lparr>so_state := SOCK_STATE_CONNECTED\<rparr>))"
    using k4 n x(1) uint_compare(2) [of "fdt_max_fds fdt" n]
    by (simp add: fd_socket_def s'_def s1_def set_sock_def fd_slot_def install_fd_def)
  moreover have "\<exists>y'. s_socks s' q = Some y' \<and> us_peer y' = us_peer y" if "s_socks s q = Some y" for q y
    using that by (cases "q = c"; cases "q = us") (auto simp: s'_def s1_def set_sock_def)
  ultimately show ?thesis using acc so x(2) by fastforce
qed

text \<open>What a successful \<^verbatim>\<open>connect\<close> did.\<close>

lemma connect_links:
  assumes inv: "sock_inv s" and con: "syscall_connect pid fd (Some path) len s = Some (s1, 0)"
    and cl: "fd_socket pid fd s = Some (Inr (e, client, so))"
  shows "\<exists>us server ss. s_socks s us = Some server \<and> so_state server = SOCK_STATE_LISTENING \<and> ss \<notin> dom (s_socks s) \<and>
    s_socks s1 ss = Some (server_side client so) \<and>
    (\<exists>c'. s_socks s1 client = Some c' \<and> us_peer c' = Some ss) \<and>
    (\<forall>q x x'. s_socks s q = Some x \<longrightarrow> s_socks s1 q = Some x' \<longrightarrow>
       bl_list (us_backlog x') = (if q = us then bl_list (us_backlog x) @ [ss] else bl_list (us_backlog x)))"
proof -
  obtain k1 d de v vn us server k2 ss where r: "vxnamei path (s_k s) = (k1, Found d)" "k_dentries k1 d = Some de"
      "d_vnode de = Some v" "k_vnodes k1 v = Some vn" "vn_private vn = Some us" "s_socks s us = Some server"
      "so_state server = SOCK_STATE_LISTENING" "\<not> int (bl_count (us_backlog server)) \<ge> so_backlog server"
      "kernel_alloc k1 = (k2, Some ss)"
      and s1: "s1 = (connected client us so ss k2 s)\<lparr>s_k := wake_opt (us_accept_thread server) k2\<rparr>"
    using con cl
    by (auto simp: syscall_connect_def Let_def connected_def errno_defs
        split: option.splits sum.splits if_splits prod.splits walk.splits)
  have sh: "shrinks (s_k s) k1" by (rule shrinks_keeps [OF keeps_vxnamei [OF r(1)]])
  have "distinct (k_pool k1)" using inv sh by (simp add: sock_inv_def shrinks_def)
  then have "ss \<in> set (k_pool k1)" by (rule alloc_fresh(1) [OF r(9)])
  then have fresh: "ss \<notin> dom (s_socks s)" using sh inv by (auto simp: sock_inv_def shrinks_def)
  note c = fd_socketD [OF cl]
  have ne: "client \<noteq> ss" "us \<noteq> ss" using c r(6) fresh by auto
  have wf: "bl_inv (us_backlog server)" "so_backlog server \<le> 128" using inv r(6) by (auto simp: sock_inv_def sock_wf_def)
  have "bl_list (backlog_push ss (us_backlog server)) = bl_list (us_backlog server) @ [ss]"
    using backlog_push_law [OF wf(1)] wf(2) r(8) by simp
  then have "\<forall>q x x'. s_socks s q = Some x \<longrightarrow> s_socks s1 q = Some x' \<longrightarrow>
      bl_list (us_backlog x') = (if q = us then bl_list (us_backlog x) @ [ss] else bl_list (us_backlog x))"
    using fresh r(6) by (auto simp: s1 connected_def set_sock_def new_sock_def split: if_splits)
  moreover have "s_socks s1 ss = Some (server_side client so)" "\<exists>c'. s_socks s1 client = Some c' \<and> us_peer c' = Some ss"
    using ne c by (auto simp: s1 connected_def set_sock_def new_sock_def)
  ultimately show ?thesis using r(6,7) fresh by blast
qed

section \<open>Reachable states\<close>

text \<open>
  The calls of any threads and processes, interleaved at their passes, and the return of
  a blocked thread.
\<close>

inductive sock_step :: "(ptr \<Rightarrow> fs_driver option) \<Rightarrow> sys \<Rightarrow> sys \<Rightarrow> bool" for fss where
  socket: "syscall_socket fss pid family ty pr s = Some (s', r) \<Longrightarrow> sock_step fss s s'"
| bind: "syscall_bind pid fd a len s = Some (s', r) \<Longrightarrow> sock_step fss s s'"
| listen: "syscall_listen pid fd b s = Some (s', r) \<Longrightarrow> sock_step fss s s'"
| connect: "syscall_connect pid fd a len s = Some (s', r) \<Longrightarrow> sock_step fss s s'"
| accept: "syscall_accept fss cur pid fd s = (s', x) \<Longrightarrow> sock_step fss s s'"
| accept_again: "accept_pass fss cur pid us nb (accept_wake cur us s) = (s', x) \<Longrightarrow> sock_step fss s s'"
| send: "wanted len \<le> length data \<Longrightarrow> send_pass cur dest nb data len s = (s', x) \<Longrightarrow> sock_step fss s s'"
| send_wake: "sock_step fss s (s\<lparr>s_k := thread_block_return cur (s_k s)\<rparr>)"
| recv: "recv_pass cur us nb len s = (s', bs, x) \<Longrightarrow> sock_step fss s s'"
| recv_again: "recv_pass cur us nb len (recv_wake cur us s) = (s', bs, x) \<Longrightarrow> sock_step fss s s'"

inductive sock_reach :: "(ptr \<Rightarrow> fs_driver option) \<Rightarrow> sys \<Rightarrow> sys \<Rightarrow> bool" for fss where
  refl: "sock_reach fss s s"
| step: "sock_reach fss s s1 \<Longrightarrow> sock_step fss s1 s2 \<Longrightarrow> sock_reach fss s s2"

lemma sock_step_inv:
  assumes "drivers_keep fss" and "sock_inv s" and "sock_step fss s s'"
  shows "sock_inv s'"
  using assms(3) assms(1,2)
proof cases
  case (send_wake cur)
  then show ?thesis using sock_inv_kernel [OF assms(2) shrinks_simps(3)] by simp
qed (blast intro: syscall_socket_inv syscall_bind_inv syscall_listen_inv syscall_connect_inv syscall_accept_inv
      accept_pass_inv wake_inv send_pass_inv recv_pass_inv)+

lemma sock_reach_inv:
  assumes "sock_reach fss s s'" and "drivers_keep fss" and "sock_inv s"
  shows "sock_inv s'"
  using assms by induction (blast intro: sock_step_inv)+

section \<open>Properties\<close>


lemma wanted_small: "unat len < 2 ^ 31 \<Longrightarrow> wanted len = unat len"
proof -
  assume "unat len < 2 ^ 31"
  then have "uint len < 2 ^ 31" using uint_compare(2) [of len "2 ^ 31 - 1"] by simp
  then have "signed_take_bit 31 (uint len) = uint len"
    by (intro signed_take_bit_int_eq_self) (auto intro: order_trans [OF _ uint_ge_0])
  then show ?thesis by (simp add: wanted_def sint_uint)
qed

text \<open>
  (C14) What \<^verbatim>\<open>sendto\<close> reports as sent is appended, in order, to what its peer has not read, and a
  \<^verbatim>\<open>recvfrom\<close> of the peer with enough room gets all of it and leaves the ring empty.
\<close>

theorem unix_send_recv:
  assumes inv: "sock_inv s" and fd: "0 \<le> fd" "0 \<le> fd2"
    and snd: "fd_socket pid fd s = Some (Inr (e, us, so))" "so_family so = AF_UNIX" "us_peer so = Some dest"
    and peer: "s_socks s dest = Some d" "so_family d = AF_UNIX"
    and buf: "length data = unat len" "len \<noteq> 0" "unat len < 2 ^ 31"
    and sent: "syscall_sendto cur pid fd (Some data) len s = (s1, Returns n)" "0 \<le> n"
    and rcv: "fd_socket pid2 fd2 s1 = Some (Inr (e2, dest, d1))" and room: "4096 \<le> unat len2" "unat len2 < 2 ^ 31"
  shows "n = int (min (unat len) (4096 - ur_count (us_ring d))) \<and> 0 < n \<and>
    (\<exists>s2 d2. syscall_recvfrom cur2 pid2 fd2 True len2 s1 =
        (s2, ur_list (us_ring d) @ take (nat n) data, Returns (int (ur_count (us_ring d)) + n)) \<and>
      s_socks s2 dest = Some d2 \<and> ur_list (us_ring d2) = [])"
proof -
  have wf: "ur_inv (us_ring d)" using inv peer(1) by (auto simp: sock_inv_def sock_wf_def)
  obtain r1 w where p: "unix_put (us_ring d) data (wanted len) = (r1, w)" by fastforce
  have pl: "ur_inv r1" "w = min (unat len) (4096 - ur_count (us_ring d))" "ur_list r1 = ur_list (us_ring d) @ take w data"
    using unix_put_law [OF wf _ p] buf by (auto simp: wanted_small)
  have free: "ur_count (us_ring d) < 4096" and s1: "s_socks s1 dest = Some (d\<lparr>us_ring := r1\<rparr>)" and n: "n = int w"
    using sent snd peer fd(1) buf(2) p
    by (auto simp: syscall_sendto_def send_pass_def set_sock_def Let_def UNIX_BUF_SIZE_def EAGAIN_def block_pass_def
        split: if_splits prod.splits)
  have "0 < unat len" using buf(2) by (simp add: unat_gt_0)
  then have w0: "0 < w" using pl(2) free by simp
  have d1: "d1 = d\<lparr>us_ring := r1\<rparr>" using fd_socketD [OF rcv] s1 by simp
  have lr: "length (ur_list r1) = ur_count (us_ring d) + w" using pl(2,3) buf(1) by simp
  have c: "ur_count r1 = ur_count (us_ring d) + w" using lr by simp
  then have le: "ur_count r1 \<le> unat len2" using pl(1) room(1) by (simp add: ur_inv_def)
  obtain r2 bs where g: "unix_get r1 (unat len2) = (r2, bs)" by fastforce
  have gl: "bs = ur_list r1" "ur_list r2 = []" using unix_get_law [OF pl(1) g] le by auto
  have "len2 \<noteq> 0" using room(1) by auto
  then have "syscall_recvfrom cur2 pid2 fd2 True len2 s1 =
      (set_sock dest (us_ring_update (\<lambda>_. r2)) s1, bs, Returns (int (length bs)))"
    using rcv fd(2) d1 peer(2) s1 c w0 g room(2)
    by (simp add: syscall_recvfrom_def recv_pass_def wanted_small)
  then show ?thesis using n pl(2,3) w0 gl lr s1 by (simp add: set_sock_def)
qed



section \<open>Samples\<close>

text \<open>
  A process with two sockets on descriptors 0 and 1; the first is attached to the vnode
  of the root directory.
\<close>

definition sample_fdt :: fdtable where
  "sample_fdt = \<lparr>fdt_max_fds = 4, fdt_fds = [Some 0x1000, Some 0x1100, None, None], fdt_fd_flags = [0, 0, 0, 0], fdt_next_fd = 2\<rparr>"

definition sample_kernel :: kernel where
  "sample_kernel = (empty_kernel [0x5000, 0x5100])\<lparr>
     k_files := [0x1000 \<mapsto> zero_file\<lparr>f_count := 1, f_private_data := Some 0x2000\<rparr>,
                 0x1100 \<mapsto> zero_file\<lparr>f_count := 1, f_private_data := Some 0x2100\<rparr>],
     k_fdtables := [7 \<mapsto> sample_fdt], k_root := Some 0x3000,
     k_dentries := [0x3000 \<mapsto> \<lparr>d_children = [], d_refcount = 1, d_hash = 0, d_flags = 0, d_name = ''/'', d_vnode = Some 0x3200, d_parent = None\<rparr>],
     k_vnodes := [0x3200 \<mapsto> zero_vnode\<lparr>vn_private := Some 0x2000\<rparr>]\<rparr>"

definition sample_unix :: "sock \<Rightarrow> sock \<Rightarrow> sys" where
  "sample_unix a b = \<lparr>s_k = sample_kernel, s_socks = [0x2000 \<mapsto> a, 0x2100 \<mapsto> b]\<rparr>"

definition sample_sock :: "sock_state \<Rightarrow> int \<Rightarrow> ptr option \<Rightarrow> sock" where
  "sample_sock st b peer = zero_sock\<lparr>so_family := 1, so_type := 1, so_state := st, so_backlog := b, us_peer := peer\<rparr>"

lemmas sample_defs = sample_unix_def sample_kernel_def sample_fdt_def empty_kernel_def

lemma sample_unix_inv:
  assumes "b \<le> 128" "b' \<le> 128" "set_option p \<subseteq> {0x2000, 0x2100}" "set_option p' \<subseteq> {0x2000, 0x2100}"
  shows "sock_inv (sample_unix (sample_sock st b p) (sample_sock st' b' p'))"
proof -
  have "sock_wf {0x2000, 0x2100} (sample_sock st b p)" "sock_wf {0x2000, 0x2100} (sample_sock st' b' p')"
    by (rule zero_wf; use assms in \<open>simp add: sample_sock_def zero_sock_def\<close>)+
  moreover have "dom (s_socks (sample_unix (sample_sock st b p) (sample_sock st' b' p'))) = {0x2000, 0x2100}"
    by (auto simp: sample_unix_def)
  ultimately show ?thesis
    unfolding sock_inv_def by (auto simp: sample_unix_def sample_kernel_def empty_kernel_def)
qed

lemma sample_kernel_simps [simp]:
  "k_fdtables sample_kernel 7 = Some sample_fdt" "k_root sample_kernel = Some 0x3000" "k_pool sample_kernel = [0x5000, 0x5100]"
  "k_files sample_kernel 0x1000 = Some (zero_file\<lparr>f_count := 1, f_private_data := Some 0x2000\<rparr>)"
  "k_files sample_kernel 0x1100 = Some (zero_file\<lparr>f_count := 1, f_private_data := Some 0x2100\<rparr>)"
  "k_vnodes sample_kernel 0x3200 = Some (zero_vnode\<lparr>vn_private := Some 0x2000\<rparr>)"
  by (simp_all add: sample_kernel_def empty_kernel_def)

lemma sample_unix_simps [simp]:
  "s_k (sample_unix a b) = sample_kernel" "(sample_unix a b)\<lparr>s_k := sample_kernel\<rparr> = sample_unix a b"
  "s_socks (sample_unix a b) 0x2000 = Some a" "s_socks (sample_unix a b) 0x2100 = Some b"
  "set_sock 0x2100 g (sample_unix a b) = sample_unix a (g b)"
  by (auto simp: sample_unix_def set_sock_def)

lemma sample_sock_simps [simp]:
  "so_family (sample_sock st n p) = AF_UNIX" "us_peer (sample_sock st n p) = p" "so_state (sample_sock st n p) = st"
  "so_backlog (sample_sock st n p) = n" "ur_list (us_ring (sample_sock st n p)) = []"
  "ur_count (us_ring (sample_sock st n p)) = 0" "us_recv_thread (sample_sock st n p) = None"
  "us_accept_thread (sample_sock st n p) = None" "bl_count (us_backlog (sample_sock st n p)) = 0"
  "bl_list (us_backlog (sample_sock st n p)) = []"
  by (simp_all add: sample_sock_def zero_sock_def ur_list_def bl_list_def AF_UNIX_def)

lemma sample_fd_socket:
  assumes "k_fdtables (s_k s) 7 = Some sample_fdt" and "k_files (s_k s) = k_files sample_kernel"
  shows "s_socks s 0x2000 = Some a \<Longrightarrow>
      fd_socket 7 0 s = Some (Inr (zero_file\<lparr>f_count := 1, f_private_data := Some 0x2000\<rparr>, 0x2000, a))"
    and "s_socks s 0x2100 = Some b \<Longrightarrow>
      fd_socket 7 1 s = Some (Inr (zero_file\<lparr>f_count := 1, f_private_data := Some 0x2100\<rparr>, 0x2100, b))"
  using assms by (simp_all add: fd_socket_def sample_fdt_def fd_slot_def)

lemma sample_unix_socket:
  "fd_socket 7 0 (sample_unix a b) = Some (Inr (zero_file\<lparr>f_count := 1, f_private_data := Some 0x2000\<rparr>, 0x2000, a))"
  "fd_socket 7 1 (sample_unix a b) = Some (Inr (zero_file\<lparr>f_count := 1, f_private_data := Some 0x2100\<rparr>, 0x2100, b))"
  by (rule sample_fd_socket; simp)+

lemma no_drivers: "drivers_keep (\<lambda>_. None)"
  by (simp add: drivers_keep_def)


theorem unix_send_recv_witness:
  "let s = sample_unix (sample_sock SOCK_STATE_CONNECTED 0 (Some 0x2100)) (sample_sock SOCK_STATE_CONNECTED 0 (Some 0x2000)) in
   \<exists>s1 s2. syscall_sendto 3 7 0 (Some [10, 20, 30]) 3 s = (s1, Returns 3) \<and>
     syscall_recvfrom 4 7 1 True 4096 s1 = (s2, [10, 20, 30], Returns 3)"
proof -
  let ?a = "sample_sock SOCK_STATE_CONNECTED 0 (Some 0x2100)" and ?b = "sample_sock SOCK_STATE_CONNECTED 0 (Some 0x2000)"
  let ?s = "sample_unix ?a ?b"
  have i: "sock_inv ?s" by (rule sample_unix_inv) simp_all
  have wf: "ur_inv (us_ring ?b)" using i by (auto simp: sock_inv_def sock_wf_def dest: spec [of _ "0x2100"])
  have wt: "wanted 3 = 3" by (simp add: wanted_small)
  obtain r1 w where p: "unix_put (us_ring ?b) [10, 20, 30] 3 = (r1, w)" by fastforce
  have "w = 3" using unix_put_law [OF wf _ p] by simp
  then have s: "syscall_sendto 3 7 0 (Some [10, 20, 30]) 3 ?s = (sample_unix ?a (?b\<lparr>us_ring := r1\<rparr>), Returns 3)"
    using p wt by (simp add: syscall_sendto_def sample_unix_socket send_pass_def UNIX_BUF_SIZE_def wake_opt_def)
  have "\<exists>s2 d2. syscall_recvfrom 4 7 1 True 4096 (sample_unix ?a (?b\<lparr>us_ring := r1\<rparr>)) =
        (s2, ur_list (us_ring ?b) @ take (nat 3) [10, 20, 30], Returns (int (ur_count (us_ring ?b)) + 3)) \<and>
      s_socks s2 0x2100 = Some d2 \<and> ur_list (us_ring d2) = []"
    using unix_send_recv [OF i _ _ sample_unix_socket(1) _ _ _ _ _ _ _ s _ sample_unix_socket(2), where ?len2.0 = "4096" and d = ?b]
    by simp
  then show ?thesis using s by auto
qed



end
