(* ===== verification/Pty.thy ===== *)
theory Pty
  imports Pipe_Ring Fd_Table
begin

text \<open>
  Pseudo terminals, \<^verbatim>\<open>kernel/tty/pty.c\<close>: the two rings between master and slave, the line
  discipline that \<^verbatim>\<open>pty_master_write\<close> applies to every byte, the blocking reads as passes,
  \<^verbatim>\<open>ioctl\<close>, \<^verbatim>\<open>poll\<close>, the close functions and the opening of \<^verbatim>\<open>/dev/ptmx\<close>. Signals are recorded in the
  order they are sent; whether a process has pending signals is an argument.
\<close>

unbundle bit_operations_syntax

section \<open>The rings\<close>

definition PTY_MAX_RING_BUFFER :: u64 where "PTY_MAX_RING_BUFFER = 4096"

record pty_ring =
  yr_buf :: "u8 list"
  yr_head :: u64
  yr_tail :: u64

definition pty_ring_write :: "pty_ring \<Rightarrow> u8 list \<Rightarrow> u64 \<Rightarrow> pty_ring \<times> int" where
  "pty_ring_write ring buf len0 =
     (let mask = PTY_MAX_RING_BUFFER - 1;
          head = yr_head ring;
          tail = yr_tail ring;
          avail = PTY_MAX_RING_BUFFER - (head - tail);
          len = (if len0 > avail then avail else len0)
      in if len = 0 then (ring, 0)
         else
           let offset = head AND mask;
               part0 = PTY_MAX_RING_BUFFER - offset;
               first_part = (if part0 > len then len else part0);
               b1 = memcopy (yr_buf ring) (unat offset) buf 0 (unat first_part);
               b2 = (if len > first_part
                     then memcopy b1 0 buf (unat first_part) (unat (len - first_part))
                     else b1)
           in (ring\<lparr>yr_buf := b2, yr_head := head + len\<rparr>, sint len))"

definition pty_ring_read :: "pty_ring \<Rightarrow> u8 list \<Rightarrow> u64 \<Rightarrow> pty_ring \<times> u8 list \<times> int" where
  "pty_ring_read ring buf len0 =
     (let mask = PTY_MAX_RING_BUFFER - 1;
          tail = yr_tail ring;
          head = yr_head ring;
          avail = head - tail;
          len = (if len0 > avail then avail else len0)
      in if len = 0 then (ring, buf, 0)
         else
           let offset = tail AND mask;
               part0 = PTY_MAX_RING_BUFFER - offset;
               first_part = (if part0 > len then len else part0);
               c1 = memcopy buf 0 (yr_buf ring) (unat offset) (unat first_part);
               c2 = (if len > first_part
                     then memcopy c1 (unat first_part) (yr_buf ring) 0 (unat (len - first_part))
                     else c1)
           in (ring\<lparr>yr_tail := tail + len\<rparr>, c2, sint len))"

text \<open>The code is the pipe's once more, so its contract carries over.\<close>

definition as_pipe :: "pty_ring \<Rightarrow> pipe_ring" where
  "as_pipe r = \<lparr>pr_buf = yr_buf r, pr_head = yr_head r, pr_tail = yr_tail r\<rparr>"

definition pty_ring_inv :: "pty_ring \<Rightarrow> bool" where
  "pty_ring_inv r \<longleftrightarrow> pipe_ring_inv (as_pipe r)"

definition pty_ring_list :: "pty_ring \<Rightarrow> u8 list" where
  "pty_ring_list r = pipe_ring_list (as_pipe r)"

lemmas pty_as_pipe = pty_ring_write_def pipe_ring_write_def pty_ring_read_def pipe_ring_read_def as_pipe_def Let_def
  PTY_MAX_RING_BUFFER_def PIPE_MAX_RING_BUFFER_def

lemma pty_ring_write_pipe:
  "pty_ring_write r buf len = (r', k) \<Longrightarrow> pipe_ring_write (as_pipe r) buf len = (as_pipe r', k)"
proof -
  have "pipe_ring_write (as_pipe r) buf len = (case pty_ring_write r buf len of (r1, k1) \<Rightarrow> (as_pipe r1, k1))"
    by (simp only: pty_as_pipe pty_ring.simps pipe_ring.simps prod.case split: if_split) simp
  then show "pty_ring_write r buf len = (r', k) \<Longrightarrow> pipe_ring_write (as_pipe r) buf len = (as_pipe r', k)" by simp
qed

lemma pty_ring_read_pipe:
  "pty_ring_read r buf len = (r', buf', k) \<Longrightarrow> pipe_ring_read (as_pipe r) buf len = (as_pipe r', buf', k)"
proof -
  have "pipe_ring_read (as_pipe r) buf len = (case pty_ring_read r buf len of (r1, b1, k1) \<Rightarrow> (as_pipe r1, b1, k1))"
    by (simp only: pty_as_pipe pty_ring.simps pipe_ring.simps prod.case split: if_split) simp
  then show "pty_ring_read r buf len = (r', buf', k) \<Longrightarrow> pipe_ring_read (as_pipe r) buf len = (as_pipe r', buf', k)" by simp
qed

interpretation pty_fifo: byte_fifo pty_ring_inv pty_ring_list 4096 pty_ring_write pty_ring_read
proof unfold_locales
  show "length (pty_ring_list r) \<le> 4096" if "pty_ring_inv r" for r
    using that pipe_fifo.bounded by (simp add: pty_ring_inv_def pty_ring_list_def)
qed (unfold pty_ring_inv_def pty_ring_list_def,
     use pipe_ring_put_law pty_ring_write_pipe in blast, use pipe_ring_get_law pty_ring_read_pipe in blast)

section \<open>State\<close>

record termios =
  c_iflag :: u32
  c_oflag :: u32
  c_cflag :: u32
  c_lflag :: u32
  c_line :: u8
  c_cc :: "u8 list"
  c_ispeed :: u32
  c_ospeed :: u32

record win_size =
  ws_row :: u16
  ws_col :: u16
  ws_xpixel :: u16
  ws_ypixel :: u16

record internal_pty =
  py_id :: u32
  py_locked :: int
  py_termios :: termios
  py_foreground :: int
  py_owner_pid :: int
  py_m2s :: pty_ring
  py_s2m :: pty_ring
  py_master_waiter :: "nat option"
  py_slave_waiter :: "nat option"
  py_ws :: win_size
  py_master_closed :: bool
  py_slave_closed :: bool
  py_eof_pending :: bool

record pty_sys =
  ps_k :: kernel
  ps_ptys :: "ptr \<Rightarrow> internal_pty option"
  ps_signals :: "(int \<times> int) list"
  ps_slave_id :: u32

definition ISIG :: u32 where "ISIG = 1"
definition ICANON :: u32 where "ICANON = 2"
definition ECHO :: u32 where "ECHO = 8"
definition ICRNL :: u32 where "ICRNL = 256"
definition SIGINT :: int where "SIGINT = 2"
definition SIGQUIT :: int where "SIGQUIT = 3"
definition SIGTSTP :: int where "SIGTSTP = 20"
definition SIGWINCH :: int where "SIGWINCH = 28"
definition VFS_ENOENT :: int where "VFS_ENOENT = - 2"

definition set_pty :: "ptr \<Rightarrow> internal_pty \<Rightarrow> pty_sys \<Rightarrow> pty_sys" where
  "set_pty p x s = s\<lparr>ps_ptys := (ps_ptys s)(p \<mapsto> x)\<rparr>"

text \<open>The pty behind the vnode of a master (through its open file) and of a slave.\<close>

datatype pty_ref = No_file | No_pty | Bad_pty | Pty_at file_descriptor ptr internal_pty

definition master_pty :: "ptr \<Rightarrow> pty_sys \<Rightarrow> pty_ref" where
  "master_pty v s =
     (case k_vnodes (ps_k s) v of None \<Rightarrow> Bad_pty | Some vn \<Rightarrow>
      case vn_private vn of None \<Rightarrow> No_file | Some f \<Rightarrow>
      case k_files (ps_k s) f of None \<Rightarrow> Bad_pty | Some fd \<Rightarrow>
      case f_private_data fd of None \<Rightarrow> No_pty | Some p \<Rightarrow>
      case ps_ptys s p of None \<Rightarrow> Bad_pty | Some x \<Rightarrow> Pty_at fd p x)"

definition slave_pty :: "ptr \<Rightarrow> pty_sys \<Rightarrow> (ptr \<times> internal_pty) option option" where
  "slave_pty v s =
     (case k_vnodes (ps_k s) v of None \<Rightarrow> None | Some vn \<Rightarrow>
      case vn_private vn of None \<Rightarrow> Some None | Some p \<Rightarrow>
      case ps_ptys s p of None \<Rightarrow> None | Some x \<Rightarrow> Some (Some (p, x)))"

definition wake_slave :: "internal_pty \<times> kernel \<Rightarrow> internal_pty \<times> kernel" where
  "wake_slave xk =
     (case py_slave_waiter (fst xk) of None \<Rightarrow> xk
      | Some t \<Rightarrow> ((fst xk)\<lparr>py_slave_waiter := None\<rparr>, vxThreadWake t (snd xk)))"

definition wake_master :: "internal_pty \<times> kernel \<Rightarrow> internal_pty \<times> kernel" where
  "wake_master xk =
     (case py_master_waiter (fst xk) of None \<Rightarrow> xk
      | Some t \<Rightarrow> ((fst xk)\<lparr>py_master_waiter := None\<rparr>, vxThreadWake t (snd xk)))"

section \<open>The line discipline\<close>

definition signal_of :: "u32 \<Rightarrow> u8 \<Rightarrow> int" where
  "signal_of lflag c =
     (if lflag AND ISIG \<noteq> 0
      then if c = 3 then SIGINT else if c = 26 then SIGTSTP else if c = 28 then SIGQUIT else 0
      else 0)"

text \<open>One byte from the master, with the signals sent so far.\<close>

definition master_byte ::
    "u8 \<Rightarrow> internal_pty \<times> kernel \<times> (int \<times> int) list \<Rightarrow> internal_pty \<times> kernel \<times> (int \<times> int) list" where
  "master_byte c st =
     (case st of (x, k, sigs) \<Rightarrow>
      let lflag = c_lflag (py_termios x); sig = signal_of lflag c
      in if sig > 0 then
           let x1 = x\<lparr>py_m2s := (py_m2s x)\<lparr>yr_head := yr_tail (py_m2s x)\<rparr>\<rparr>;
               sigs1 = (if py_foreground x > 0 then sigs @ [(py_foreground x, sig)] else sigs);
               x2 = x1\<lparr>py_s2m := fst (pty_ring_write (py_s2m x1) [94, c + 0x40, 13, 10] 4)\<rparr>
           in (case wake_slave (x2, k) of (x3, k3) \<Rightarrow> (x3, k3, sigs1))
         else if c = 4 \<and> lflag AND ICANON \<noteq> 0 then
           (case wake_slave (x\<lparr>py_eof_pending := True\<rparr>, k) of (x3, k3) \<Rightarrow> (x3, k3, sigs))
         else
           let x1 = x\<lparr>py_m2s := fst (pty_ring_write (py_m2s x) [c] 1)\<rparr>;
               x2 = (if lflag AND ECHO \<noteq> 0 then x1\<lparr>py_s2m := fst (pty_ring_write (py_s2m x1) [c] 1)\<rparr> else x1)
           in (x2, k, sigs))"

definition pty_master_write :: "ptr \<Rightarrow> u8 list \<Rightarrow> pty_sys \<Rightarrow> (pty_sys \<times> int) option" where
  "pty_master_write v buf s =
     (case master_pty v s of
        Bad_pty \<Rightarrow> None
      | No_file \<Rightarrow> Some (s, - EINVAL)
      | No_pty \<Rightarrow> Some (s, - EPIPE)
      | Pty_at fd p x \<Rightarrow>
          if py_slave_closed x then Some (s, - EPIPE)
          else (case fold master_byte buf (x, ps_k s, ps_signals s) of (x1, k1, sigs) \<Rightarrow>
                case wake_master (wake_slave (x1, k1)) of (x2, k2) \<Rightarrow>
                  Some (set_pty p x2 (s\<lparr>ps_k := k2, ps_signals := sigs\<rparr>), int (length buf))))"

section \<open>Reading and writing\<close>

text \<open>
  A pass of the loop in \<^verbatim>\<open>pty_master_read\<close>; \<open>pending\<close> tells whether the process of a given number
  has a pending signal.
\<close>

definition pty_master_read ::
    "(int \<Rightarrow> bool) \<Rightarrow> nat \<Rightarrow> ptr \<Rightarrow> u8 list \<Rightarrow> u64 \<Rightarrow> pty_sys \<Rightarrow> pty_sys \<times> u8 list \<times> pass" where
  "pty_master_read pending cur v buf len s =
     (case master_pty v s of
        Bad_pty \<Rightarrow> (s, buf, Faults)
      | No_file \<Rightarrow> (s, buf, Returns (- EINVAL))
      | No_pty \<Rightarrow> (s, buf, Returns (- EINVAL))
      | Pty_at fd p x \<Rightarrow>
          (case pty_ring_read (py_s2m x) buf len of (r1, buf1, ret) \<Rightarrow>
             let x1 = x\<lparr>py_s2m := r1\<rparr>; s1 = set_pty p x1 s
             in if ret > 0 \<or> len = 0 then (s1, buf1, Returns ret)
                else if py_slave_closed x then (s1, buf1, Returns 0)
                else if pending (py_foreground x) then (s1, buf1, Returns (- EINTR))
                else if f_flags fd AND O_NONBLOCK \<noteq> 0 then (s1, buf1, Returns (- EAGAIN))
                else (case block_pass cur (ps_k s) of (k1, r) \<Rightarrow>
                        (set_pty p (x1\<lparr>py_master_waiter := Some cur\<rparr>) (s\<lparr>ps_k := k1\<rparr>), buf1, r))))"

definition pty_slave_read ::
    "bool \<Rightarrow> nat \<Rightarrow> ptr \<Rightarrow> u8 list \<Rightarrow> u64 \<Rightarrow> pty_sys \<Rightarrow> pty_sys \<times> u8 list \<times> pass" where
  "pty_slave_read pending cur v buf len s =
     (case slave_pty v s of
        None \<Rightarrow> (s, buf, Faults)
      | Some None \<Rightarrow> (s, buf, Returns (- EINVAL))
      | Some (Some (p, x)) \<Rightarrow>
          (case pty_ring_read (py_m2s x) buf len of (r1, buf1, ret) \<Rightarrow>
             let x1 = x\<lparr>py_m2s := r1\<rparr>
             in if ret > 0 \<or> len = 0 then (set_pty p (x1\<lparr>py_eof_pending := False\<rparr>) s, buf1, Returns ret)
                else if py_eof_pending x then (set_pty p (x1\<lparr>py_eof_pending := False\<rparr>) s, buf1, Returns 0)
                else if py_master_closed x then (set_pty p x1 s, buf1, Returns 0)
                else if pending then (set_pty p x1 s, buf1, Returns (- EINTR))
                else (case block_pass cur (ps_k s) of (k1, r) \<Rightarrow>
                        (set_pty p (x1\<lparr>py_slave_waiter := Some cur\<rparr>) (s\<lparr>ps_k := k1\<rparr>), buf1, r))))"

definition pty_slave_write :: "ptr \<Rightarrow> u8 list \<Rightarrow> u64 \<Rightarrow> pty_sys \<Rightarrow> (pty_sys \<times> int) option" where
  "pty_slave_write v buf len s =
     (case slave_pty v s of
        None \<Rightarrow> None
      | Some None \<Rightarrow> Some (s, - EPIPE)
      | Some (Some (p, x)) \<Rightarrow>
          if py_master_closed x then Some (s, - EPIPE)
          else (case pty_ring_write (py_s2m x) buf len of (r1, ret) \<Rightarrow>
                case wake_master (x\<lparr>py_s2m := r1\<rparr>, ps_k s) of (x2, k2) \<Rightarrow>
                  Some (set_pty p x2 (s\<lparr>ps_k := k2\<rparr>), ret)))"

section \<open>poll and close\<close>

definition pty_master_poll :: "ptr \<Rightarrow> nat option \<Rightarrow> pty_sys \<Rightarrow> (pty_sys \<times> bool) option" where
  "pty_master_poll v waiter s =
     (case master_pty v s of
        Bad_pty \<Rightarrow> None
      | Pty_at fd p x \<Rightarrow>
          let used = yr_head (py_s2m x) - yr_tail (py_s2m x);
              x1 = (if used = 0 \<and> waiter \<noteq> None then x\<lparr>py_master_waiter := waiter\<rparr> else x)
          in Some (set_pty p x1 s, used > 0 \<or> py_slave_closed x)
      | _ \<Rightarrow> Some (s, False))"

definition pty_slave_poll :: "ptr \<Rightarrow> nat option \<Rightarrow> pty_sys \<Rightarrow> (pty_sys \<times> bool) option" where
  "pty_slave_poll v waiter s =
     (case slave_pty v s of
        None \<Rightarrow> None
      | Some None \<Rightarrow> Some (s, False)
      | Some (Some (p, x)) \<Rightarrow>
          let used = yr_head (py_m2s x) - yr_tail (py_m2s x);
              x1 = (if used = 0 \<and> waiter \<noteq> None then x\<lparr>py_slave_waiter := waiter\<rparr> else x)
          in Some (set_pty p x1 s, used > 0 \<or> py_master_closed x))"

definition pty_master_close :: "ptr \<Rightarrow> pty_sys \<Rightarrow> (pty_sys \<times> int) option" where
  "pty_master_close v s =
     (case master_pty v s of
        Bad_pty \<Rightarrow> None
      | No_file \<Rightarrow> Some (s, - EINVAL)
      | No_pty \<Rightarrow> Some (s, 0)
      | Pty_at fd p x \<Rightarrow>
          (case wake_slave (x\<lparr>py_master_closed := True\<rparr>, ps_k s) of (x1, k1) \<Rightarrow> Some (set_pty p x1 (s\<lparr>ps_k := k1\<rparr>), 0)))"

definition pty_slave_close :: "ptr \<Rightarrow> pty_sys \<Rightarrow> (pty_sys \<times> int) option" where
  "pty_slave_close v s =
     (case slave_pty v s of
        None \<Rightarrow> None
      | Some None \<Rightarrow> Some (s, 0)
      | Some (Some (p, x)) \<Rightarrow>
          (case wake_master (x\<lparr>py_slave_closed := True\<rparr>, ps_k s) of (x1, k1) \<Rightarrow> Some (set_pty p x1 (s\<lparr>ps_k := k1\<rparr>), 0)))"

section \<open>ioctl\<close>

definition TCGETS :: u32 where "TCGETS = 0x5401"
definition TCSETS :: u32 where "TCSETS = 0x5402"
definition TCSETSW :: u32 where "TCSETSW = 0x5403"
definition TCSETSF :: u32 where "TCSETSF = 0x5404"
definition TIOCSCTTY :: u32 where "TIOCSCTTY = 0x540E"
definition TIOCGPGRP :: u32 where "TIOCGPGRP = 0x540F"
definition TIOCSPGRP :: u32 where "TIOCSPGRP = 0x5410"
definition TIOCGWINSZ :: u32 where "TIOCGWINSZ = 0x5413"
definition TIOCSWINSZ :: u32 where "TIOCSWINSZ = 0x5414"
definition TIOCGPTN :: u32 where "TIOCGPTN = 0x80045430"
definition TIOCSPTLCK :: u32 where "TIOCSPTLCK = 0x40045431"

text \<open>
  The object the argument points to, read as the type that the request uses; a store
  through the pointer gives its new contents.
\<close>

record ioctl_arg =
  ia_termios :: termios
  ia_ws :: win_size
  ia_word :: int

definition pty_master_ioctl ::
    "ptr \<Rightarrow> u32 \<Rightarrow> ioctl_arg option \<Rightarrow> pty_sys \<Rightarrow> (pty_sys \<times> ioctl_arg option \<times> int) option" where
  "pty_master_ioctl v req arg s =
     (case master_pty v s of
        Bad_pty \<Rightarrow> None
      | Pty_at fd p x \<Rightarrow>
          if req = TIOCSPTLCK then Some (set_pty p (x\<lparr>py_locked := 0\<rparr>) s, arg, 0)
          else if req = TIOCGPTN then
            (case arg of None \<Rightarrow> None | Some a \<Rightarrow> Some (s, Some (a\<lparr>ia_word := uint (py_id x)\<rparr>), 0))
          else Some (s, arg, - ENOTTY)
      | _ \<Rightarrow> Some (s, arg, - VFS_ENOENT))"

text \<open>
  \<open>cur_pid\<close> and \<open>cur_pgid\<close> are the numbers of the calling process; \<open>has_signal\<close> tells whether a
  process exists and takes signals.
\<close>

definition pty_slave_ioctl ::
    "(int \<Rightarrow> bool) \<Rightarrow> int \<Rightarrow> int \<Rightarrow> ptr \<Rightarrow> u32 \<Rightarrow> ioctl_arg option \<Rightarrow> pty_sys \<Rightarrow>
     (pty_sys \<times> ioctl_arg option \<times> int) option" where
  "pty_slave_ioctl has_signal cur_pid cur_pgid v req arg s =
     (case slave_pty v s of
        None \<Rightarrow> None
      | Some None \<Rightarrow> Some (s, arg, - VFS_ENOENT)
      | Some (Some (p, x)) \<Rightarrow>
          (case arg of
             None \<Rightarrow> if req = TIOCSCTTY then Some (s, None, 0) else Some (s, None, - EINVAL)
           | Some a \<Rightarrow>
               if req = TCGETS then Some (s, Some (a\<lparr>ia_termios := py_termios x\<rparr>), 0)
               else if req = TCSETS \<or> req = TCSETSW \<or> req = TCSETSF then
                 Some (set_pty p (x\<lparr>py_termios := ia_termios a\<rparr>) s, arg, 0)
               else if req = TIOCGWINSZ then Some (s, Some (a\<lparr>ia_ws := py_ws x\<rparr>), 0)
               else if req = TIOCSWINSZ then
                 (if ia_ws a \<noteq> py_ws x
                  then let fg = py_foreground x;
                           sigs = (if fg \<noteq> 0 \<and> has_signal fg then ps_signals s @ [(fg, SIGWINCH)] else ps_signals s)
                       in Some (set_pty p (x\<lparr>py_ws := ia_ws a\<rparr>) (s\<lparr>ps_signals := sigs\<rparr>), arg, 0)
                  else Some (s, arg, 0))
               else if req = TIOCGPGRP then
                 Some (s, Some (a\<lparr>ia_word := (if py_foreground x \<noteq> 0 then py_foreground x
                                              else if cur_pgid \<noteq> 0 then cur_pgid else cur_pid)\<rparr>), 0)
               else if req = TIOCSPGRP then
                 let x1 = x\<lparr>py_foreground := ia_word a\<rparr>;
                     x2 = (if py_owner_pid x1 = 0 \<and> py_foreground x1 > 0 then x1\<lparr>py_owner_pid := py_foreground x1\<rparr> else x1)
                 in Some (set_pty p x2 s, arg, 0)
               else if req = TIOCSCTTY then Some (s, arg, 0)
               else Some (s, arg, - ENOTTY)))"

section \<open>Opening /dev/ptmx\<close>

definition zero_pty_ring :: pty_ring where
  "zero_pty_ring = \<lparr>yr_buf = replicate 4096 0, yr_head = 0, yr_tail = 0\<rparr>"

definition default_termios :: termios where
  "default_termios = \<lparr>c_iflag = ICRNL, c_oflag = 0, c_cflag = 0, c_lflag = ISIG OR ICANON OR ECHO, c_line = 0,
     c_cc = [3, 28, 0x7f, 21, 4, 0, 1, 0, 17, 19, 26, 0, 18, 15, 23, 22] @ replicate 16 0, c_ispeed = 0, c_ospeed = 0\<rparr>"

definition new_pty :: "u32 \<Rightarrow> internal_pty" where
  "new_pty slave_id = \<lparr>py_id = slave_id, py_locked = 1, py_termios = default_termios, py_foreground = 0, py_owner_pid = 0,
     py_m2s = zero_pty_ring, py_s2m = zero_pty_ring, py_master_waiter = None, py_slave_waiter = None,
     py_ws = \<lparr>ws_row = 24, ws_col = 80, ws_xpixel = 0, ws_ypixel = 0\<rparr>,
     py_master_closed = False, py_slave_closed = False, py_eof_pending = False\<rparr>"

text \<open>None is an allocation that failed, whose result is used at once.\<close>

definition ptmx_open :: "(ptr \<Rightarrow> fs_driver option) \<Rightarrow> ptr \<Rightarrow> ptr \<Rightarrow> pty_sys \<Rightarrow> pty_sys option" where
  "ptmx_open fss v f s =
     (case resolve_dentry fss (''/dev/pts/'' @ itoa (uint (ps_slave_id s)) 10) None CREATE_MISSING_ENTRY (ps_k s) of
        (k1, Found d) \<Rightarrow>
          (case create_and_attach_vnode k1 of
             (_, None) \<Rightarrow> None
           | (k2, Some sv) \<Rightarrow>
               let k3 = set_dentry d (d_vnode_update (\<lambda>_. Some sv))
                          (set_vnode sv (\<lambda>vn. vn\<lparr>vn_type := VNODE_TYPE_CHR, vn_ops := Some Pty_slave_ops\<rparr>) k2)
               in (case kernel_alloc k3 of
                     (_, None) \<Rightarrow> None
                   | (k4, Some p) \<Rightarrow>
                       let k5 = set_file f (\<lambda>e. e\<lparr>f_ops := Some Pty_master_ops, f_private_data := Some p\<rparr>) k4;
                           k6 = set_vnode v (vn_private_update (\<lambda>_. Some f)) (set_vnode sv (vn_private_update (\<lambda>_. Some p)) k5)
                       in Some (s\<lparr>ps_k := k6, ps_ptys := (ps_ptys s)(p \<mapsto> new_pty (ps_slave_id s)), ps_slave_id := ps_slave_id s + 1\<rparr>)))
      | (k1, _) \<Rightarrow> Some (s\<lparr>ps_k := k1\<rparr>))"

end
