(* ===== verification/Pty_Props.thy ===== *)
theory Pty_Props
  imports Pty
begin

text \<open>
  What is typed at the master of a pseudo terminal and what the slave reads: plain bytes
  arrive in order up to the capacity of the ring, and interrupt characters discard
  unread input and signal the foreground group.
\<close>

unbundle bit_operations_syntax

section \<open>Bytes from the master\<close>

definition pty_ok :: "internal_pty \<Rightarrow> bool" where
  "pty_ok x \<longleftrightarrow> pty_ring_inv (py_m2s x) \<and> pty_ring_inv (py_s2m x)"

text \<open>A byte that the line discipline passes on under the given flags.\<close>

definition plain :: "u32 \<Rightarrow> u8 \<Rightarrow> bool" where
  "plain lflag c \<longleftrightarrow> signal_of lflag c = 0 \<and> \<not> (c = 4 \<and> lflag AND ICANON \<noteq> 0)"

lemma pty_put:
  assumes "pty_ring_inv r" and "length xs = unat len"
  shows "pty_ring_inv (fst (pty_ring_write r xs len)) \<and>
    pty_ring_list (fst (pty_ring_write r xs len)) = pty_ring_list r @ take (4096 - length (pty_ring_list r)) xs"
proof -
  obtain r1 k where w: "pty_ring_write r xs len = (r1, k)" by fastforce
  from pty_fifo.put_law [OF assms(1) _ w] assms(2) w show ?thesis by (auto simp: min_def)
qed

lemma master_byte_plain:
  assumes "pty_ok x" and "plain (c_lflag (py_termios x)) c" and "master_byte c (x, k, sigs) = (x1, k1, sigs1)"
  shows "pty_ok x1 \<and> k1 = k \<and> sigs1 = sigs \<and> py_termios x1 = py_termios x \<and> py_slave_waiter x1 = py_slave_waiter x \<and>
    py_master_waiter x1 = py_master_waiter x \<and> py_eof_pending x1 = py_eof_pending x \<and>
    pty_ring_list (py_m2s x1) = pty_ring_list (py_m2s x) @ take (4096 - length (pty_ring_list (py_m2s x))) [c]"
  using assms pty_put [of "py_m2s x" "[c]" 1] pty_put [of "py_s2m x" "[c]" 1]
  by (auto simp: master_byte_def plain_def pty_ok_def Let_def split: if_splits)

lemma fold_plain:
  assumes "pty_ok x" and "\<forall>c \<in> set data. plain (c_lflag (py_termios x)) c"
    and "fold master_byte data (x, k, sigs) = (x1, k1, sigs1)"
  shows "pty_ok x1 \<and> k1 = k \<and> sigs1 = sigs \<and> py_slave_waiter x1 = py_slave_waiter x \<and>
    py_master_waiter x1 = py_master_waiter x \<and> py_eof_pending x1 = py_eof_pending x \<and>
    pty_ring_list (py_m2s x1) = pty_ring_list (py_m2s x) @ take (4096 - length (pty_ring_list (py_m2s x))) data"
  using assms
proof (induction data arbitrary: x k sigs)
  case (Cons c data)
  obtain x2 k2 sigs2 where b: "master_byte c (x, k, sigs) = (x2, k2, sigs2)" by (cases "master_byte c (x, k, sigs)")
  have m: "pty_ok x2" "k2 = k" "sigs2 = sigs" "py_termios x2 = py_termios x" "py_slave_waiter x2 = py_slave_waiter x"
      "py_master_waiter x2 = py_master_waiter x" "py_eof_pending x2 = py_eof_pending x"
      "pty_ring_list (py_m2s x2) = pty_ring_list (py_m2s x) @ take (4096 - length (pty_ring_list (py_m2s x))) [c]"
    using master_byte_plain [OF Cons.prems(1) _ b] Cons.prems(2) by auto
  have f: "fold master_byte data (x2, k2, sigs2) = (x1, k1, sigs1)" using Cons.prems(3) b by simp
  have ih: "pty_ok x1 \<and> k1 = k2 \<and> sigs1 = sigs2 \<and> py_slave_waiter x1 = py_slave_waiter x2 \<and>
      py_master_waiter x1 = py_master_waiter x2 \<and> py_eof_pending x1 = py_eof_pending x2 \<and>
      pty_ring_list (py_m2s x1) = pty_ring_list (py_m2s x2) @ take (4096 - length (pty_ring_list (py_m2s x2))) data"
    by (rule Cons.IH [OF m(1) _ f]) (use Cons.prems(2) m(4) in simp)
  have "pty_ring_list (py_m2s x1) = pty_ring_list (py_m2s x) @ take (4096 - length (pty_ring_list (py_m2s x))) (c # data)"
  proof (cases "length (pty_ring_list (py_m2s x)) < 4096")
    case True
    then obtain j where j: "4096 - length (pty_ring_list (py_m2s x)) = Suc j" by (metis Suc_diff_Suc)
    then have "4095 - length (pty_ring_list (py_m2s x)) = j" by linarith
    with j show ?thesis using ih m(8) by simp
  next
    case False
    then show ?thesis using ih m(8) by simp
  qed
  then show ?case using ih m by simp
qed simp

section \<open>Properties\<close>

lemma wake_fields:
  "py_m2s (fst (wake_slave xk)) = py_m2s (fst xk)" "py_m2s (fst (wake_master xk)) = py_m2s (fst xk)"
  "py_s2m (fst (wake_slave xk)) = py_s2m (fst xk)" "py_s2m (fst (wake_master xk)) = py_s2m (fst xk)"
  "py_eof_pending (fst (wake_slave xk)) = py_eof_pending (fst xk)" "py_eof_pending (fst (wake_master xk)) = py_eof_pending (fst xk)"
  "k_vnodes (snd (wake_slave xk)) = k_vnodes (snd xk)" "k_vnodes (snd (wake_master xk)) = k_vnodes (snd xk)"
  by (auto simp: wake_slave_def wake_master_def vxThreadWake_def Let_def split: option.splits)

lemma slave_pty_set:
  assumes "slave_pty w s = Some (Some (p, x))" and "k_vnodes k = k_vnodes (ps_k s)"
  shows "slave_pty w (set_pty p y (s\<lparr>ps_k := k, ps_signals := l\<rparr>)) = Some (Some (p, y))"
  using assms by (auto simp: slave_pty_def set_pty_def split: option.splits)

text \<open>
  (C31) Plain bytes written to the master reach the slave in order behind what it has not read,
  and the next read of the slave with room for a whole ring returns them. When the ring
  is full the rest is dropped, yet the write reports all bytes as written.
\<close>

theorem pty_typed_input:
  assumes m: "master_pty v s = Pty_at fd p x" and sl: "slave_pty w s = Some (Some (p, x))"
    and ok: "pty_ok x" "\<not> py_slave_closed x" and data: "\<forall>c \<in> set data. plain (c_lflag (py_termios x)) c"
    and some: "pty_ring_list (py_m2s x) @ data \<noteq> []" and buf: "unat len = length buf" "4096 \<le> unat len"
  shows "\<exists>s1 s2 buf2 input. pty_master_write v data s = Some (s1, int (length data)) \<and>
    input = pty_ring_list (py_m2s x) @ take (4096 - length (pty_ring_list (py_m2s x))) data \<and>
    pty_slave_read pending cur w buf len s1 = (s2, buf2, Returns (int (length input))) \<and>
    take (length input) buf2 = input"
proof -
  obtain x1 k1 sigs where f: "fold master_byte data (x, ps_k s, ps_signals s) = (x1, k1, sigs)"
    by (cases "fold master_byte data (x, ps_k s, ps_signals s)")
  note fp = fold_plain [OF ok(1) data f]
  define input where "input = pty_ring_list (py_m2s x) @ take (4096 - length (pty_ring_list (py_m2s x))) data"
  obtain x2 k2 where wk: "wake_master (wake_slave (x1, k1)) = (x2, k2)" by fastforce
  have x2: "py_m2s x2 = py_m2s x1" "k_vnodes k2 = k_vnodes (ps_k s)"
    using wake_fields [of "(x1, k1)"] wake_fields [of "wake_slave (x1, k1)"] wk fp by auto
  define s1 where "s1 = set_pty p x2 (s\<lparr>ps_k := k2, ps_signals := sigs\<rparr>)"
  have w: "pty_master_write v data s = Some (s1, int (length data))"
    using m ok(2) f wk by (simp add: pty_master_write_def s1_def)
  have sp: "slave_pty w s1 = Some (Some (p, x2))" unfolding s1_def by (rule slave_pty_set [OF sl x2(2)])
  have inv: "pty_ring_inv (py_m2s x2)" "pty_ring_list (py_m2s x2) = input" using fp x2 by (auto simp: pty_ok_def input_def)
  have len: "length input \<le> 4096" using pty_fifo.bounded [OF inv(1)] inv(2) by simp
  have "0 < length input"
  proof (cases "pty_ring_list (py_m2s x)")
    case Nil
    then show ?thesis using some by (simp add: input_def)
  qed (simp add: input_def)
  obtain r1 buf2 ret where r: "pty_ring_read (py_m2s x2) buf len = (r1, buf2, ret)" by (cases "pty_ring_read (py_m2s x2) buf len")
  have "ret = int (length input)" "buf2 = input @ drop (length input) buf"
    using pty_fifo.get_law [OF inv(1) _ r] buf len inv(2) by (auto simp: min_def)
  with sp r \<open>0 < length input\<close> have "\<exists>s2. pty_slave_read pending cur w buf len s1 = (s2, buf2, Returns (int (length input)))"
      "take (length input) buf2 = input"
    by (auto simp: pty_slave_read_def Let_def)
  then show ?thesis using w input_def by blast
qed

text \<open>
  (C33) An interrupt, stop or quit character discards all input the slave has not read, sends its
  signal to the foreground group and echoes it as a caret sequence with a new line.
\<close>

theorem pty_interrupt:
  assumes m: "master_pty v s = Pty_at fd p x" and ok: "pty_ok x" "\<not> py_slave_closed x"
    and sig: "signal_of (c_lflag (py_termios x)) c = g" "0 < g" and fg: "0 < py_foreground x"
  shows "\<exists>s1 x1. pty_master_write v [c] s = Some (s1, 1) \<and> ps_ptys s1 p = Some x1 \<and> pty_ok x1 \<and>
    pty_ring_list (py_m2s x1) = [] \<and> ps_signals s1 = ps_signals s @ [(py_foreground x, g)] \<and>
    pty_ring_list (py_s2m x1) = pty_ring_list (py_s2m x) @ take (4096 - length (pty_ring_list (py_s2m x))) [94, c + 64, 13, 10]"
proof -
  define y where "y = x\<lparr>py_m2s := (py_m2s x)\<lparr>yr_head := yr_tail (py_m2s x)\<rparr>,
    py_s2m := fst (pty_ring_write (py_s2m x) [94, c + 64, 13, 10] 4)\<rparr>"
  have e: "pty_ring_inv (py_s2m y)" "pty_ring_list (py_s2m y) =
      pty_ring_list (py_s2m x) @ take (4096 - length (pty_ring_list (py_s2m x))) [94, c + 64, 13, 10]"
    using pty_put [of "py_s2m x" "[94, c + 64, 13, 10]" 4] ok(1) by (auto simp: y_def pty_ok_def)
  have d: "pty_ring_inv (py_m2s y)" "pty_ring_list (py_m2s y) = []"
    using ok(1) by (auto simp: y_def pty_ok_def pty_ring_inv_def pty_ring_list_def pipe_ring_inv_def pipe_ring_list_def as_pipe_def)
  obtain x3 k3 where w3: "wake_slave (y, ps_k s) = (x3, k3)" by fastforce
  obtain x4 k4 where w4: "wake_master (wake_slave (x3, k3)) = (x4, k4)" by fastforce
  have x4: "py_m2s x4 = py_m2s y" "py_s2m x4 = py_s2m y"
    using wake_fields [of "(y, ps_k s)"] wake_fields [of "(x3, k3)"] wake_fields [of "wake_slave (x3, k3)"] w3 w4 by auto
  have "master_byte c (x, ps_k s, ps_signals s) = (x3, k3, ps_signals s @ [(py_foreground x, g)])"
    using sig fg w3 by (simp add: master_byte_def Let_def y_def)
  then have "pty_master_write v [c] s = Some (set_pty p x4 (s\<lparr>ps_k := k4, ps_signals := ps_signals s @ [(py_foreground x, g)]\<rparr>), 1)"
    using m ok(2) w4 by (simp add: pty_master_write_def)
  then show ?thesis using d e x4 by (simp add: set_pty_def pty_ok_def)
qed

text \<open>A terminal whose foreground group is 9.\<close>

definition sample_pty :: internal_pty where
  "sample_pty = (new_pty 0)\<lparr>py_foreground := 9\<rparr>"

definition sample_tty :: pty_sys where
  "sample_tty = \<lparr>ps_k = (empty_kernel [])\<lparr>
       k_vnodes := [16 \<mapsto> zero_vnode\<lparr>vn_private := Some 32\<rparr>, 17 \<mapsto> zero_vnode\<lparr>vn_private := Some 48\<rparr>],
       k_files := [32 \<mapsto> zero_file\<lparr>f_count := 1, f_private_data := Some 48\<rparr>]\<rparr>,
     ps_ptys = [48 \<mapsto> sample_pty], ps_signals = [], ps_slave_id = 1\<rparr>"

lemma sample_tty_refs:
  "master_pty 16 sample_tty = Pty_at (zero_file\<lparr>f_count := 1, f_private_data := Some 48\<rparr>) 48 sample_pty"
  "slave_pty 17 sample_tty = Some (Some (48, sample_pty))"
  by (simp_all add: master_pty_def slave_pty_def sample_tty_def)

lemma sample_pty_facts:
  "pty_ok sample_pty" "\<not> py_slave_closed sample_pty" "pty_ring_list (py_m2s sample_pty) = []"
  "c_lflag (py_termios sample_pty) = 11" "py_foreground sample_pty = 9" "pty_ring_list (py_s2m sample_pty) = []"
  by (simp_all add: sample_pty_def new_pty_def pty_ok_def zero_pty_ring_def pty_ring_inv_def pipe_ring_inv_def as_pipe_def
      pty_ring_list_def pipe_ring_list_def default_termios_def ISIG_def ICANON_def ECHO_def)

theorem pty_typed_input_witness:
  "\<exists>s1 s2 buf2. pty_master_write 16 [104, 105] sample_tty = Some (s1, 2) \<and>
     pty_slave_read False 3 17 (replicate 4096 0) 4096 s1 = (s2, buf2, Returns 2) \<and> take (length [104, 105 :: u8]) buf2 = [104, 105]"
proof -
  have "\<forall>c \<in> set [104, 105]. plain (c_lflag (py_termios sample_pty)) c"
    by (simp add: sample_pty_facts plain_def signal_of_def ISIG_def)
  from pty_typed_input [OF sample_tty_refs sample_pty_facts(1,2) this, where buf = "replicate 4096 0" and len = "4096" and pending = False and cur = 3]
  show ?thesis by (auto simp: sample_pty_facts)
qed

theorem pty_interrupt_witness:
  "\<exists>s1 x1. pty_master_write 16 [3] sample_tty = Some (s1, 1) \<and> ps_ptys s1 48 = Some x1 \<and>
     ps_signals s1 = [(9, 2)] \<and> pty_ring_list (py_s2m x1) = [94, 67, 13, 10]"
  using pty_interrupt [OF sample_tty_refs(1) sample_pty_facts(1,2), of 3 2]
  by (auto simp: sample_pty_facts signal_of_def ISIG_def SIGINT_def sample_tty_def)

end
