(* ===== verification/Page_Alloc.thy ===== *)
theory Page_Alloc
  imports Voxia_Prelude
begin

text \<open>
  Page allocators on bit maps: the search for a run of free pages that
  \<^verbatim>\<open>kernel/memory/phys_base_allocator.c\<close> and \<^verbatim>\<open>kernel/libk/grow_bitmap.h\<close> share, the reference
  definition of a first fit, and the interface \<open>page_allocator\<close> that both implement.
\<close>

section \<open>Runs of free pages\<close>

definition free_run :: "(nat \<Rightarrow> bool) \<Rightarrow> nat \<Rightarrow> nat \<Rightarrow> nat \<Rightarrow> bool" where
  "free_run used tot n s \<longleftrightarrow> s + n \<le> tot \<and> list_all (\<lambda>j. \<not> used j) [s..<s + n]"

text \<open>The lowest start of a run of \<open>n\<close> free pages.\<close>

definition first_fit :: "(nat \<Rightarrow> bool) \<Rightarrow> nat \<Rightarrow> nat \<Rightarrow> nat option" where
  "first_fit used tot n = find (free_run used tot n) [0..<tot]"

lemma free_run_iff: "free_run used tot n s \<longleftrightarrow> s + n \<le> tot \<and> (\<forall>j. s \<le> j \<longrightarrow> j < s + n \<longrightarrow> \<not> used j)"
  by (auto simp: free_run_def list_all_iff)

lemma first_fit_Some:
  assumes "free_run used tot n s" and "\<forall>t < s. \<not> free_run used tot n t" and "0 < n"
  shows "first_fit used tot n = Some s"
  using assms by (auto simp: first_fit_def find_Some_iff free_run_def intro!: exI [of _ s])

lemma first_fit_None:
  assumes "\<forall>t. \<not> free_run used tot n t"
  shows "first_fit used tot n = None"
  using assms by (simp add: first_fit_def find_None_iff)

section \<open>The search\<close>

text \<open>
  The state of the search before page \<open>i\<close>: the \<open>cnt\<close> pages before it are free and start at
  \<open>start\<close>, and no run begins before them.
\<close>

definition scan_inv :: "(nat \<Rightarrow> bool) \<Rightarrow> nat \<Rightarrow> nat \<Rightarrow> nat \<Rightarrow> nat \<Rightarrow> nat \<Rightarrow> bool" where
  "scan_inv used tot n i cnt start \<longleftrightarrow> cnt < n \<and> cnt \<le> i \<and> (0 < cnt \<longrightarrow> start = i - cnt) \<and>
     (\<forall>j. i - cnt \<le> j \<longrightarrow> j < i \<longrightarrow> \<not> used j) \<and> (\<forall>t < i - cnt. \<not> free_run used tot n t)"

lemma scan_start: "0 < n \<Longrightarrow> scan_inv used tot n 0 0 start"
  by (simp add: scan_inv_def)

lemma scan_free:
  assumes "scan_inv used tot n i cnt start" and "\<not> used i" and "Suc cnt \<noteq> n"
  shows "scan_inv used tot n (Suc i) (Suc cnt) (if cnt = 0 then i else start)"
  using assms by (auto simp: scan_inv_def less_Suc_eq)

lemma scan_found:
  assumes "scan_inv used tot n i cnt start" and "\<not> used i" and "Suc cnt = n" and "i < tot"
  shows "first_fit used tot n = Some (if cnt = 0 then i else start)"
proof (rule first_fit_Some)
  have s: "(if cnt = 0 then i else start) = i - cnt" using assms(1) by (auto simp: scan_inv_def)
  show "free_run used tot n (if cnt = 0 then i else start)"
    unfolding s free_run_iff using assms by (auto simp: scan_inv_def less_Suc_eq)
  show "\<forall>t < (if cnt = 0 then i else start). \<not> free_run used tot n t"
    unfolding s using assms(1) by (simp add: scan_inv_def)
qed (use assms(3) in simp)

lemma scan_skip:
  assumes inv: "scan_inv used tot n i cnt start" and used: "\<And>j. i \<le> j \<Longrightarrow> j < i + m \<Longrightarrow> used j" and m: "0 < m"
  shows "scan_inv used tot n (i + m) 0 start"
proof -
  have "\<not> free_run used tot n t" if t: "t < i + m" for t
  proof (cases "t < i - cnt")
    case False
    have "used (max t i)" by (rule used) (use t m in auto)
    moreover have "t \<le> max t i" "max t i < t + n" using False inv by (auto simp: scan_inv_def)
    ultimately show ?thesis unfolding free_run_iff by blast
  qed (use inv in \<open>simp add: scan_inv_def\<close>)
  then show ?thesis using inv by (simp add: scan_inv_def)
qed

lemma scan_used: "scan_inv used tot n i cnt start \<Longrightarrow> used i \<Longrightarrow> scan_inv used tot n (Suc i) 0 start"
  using scan_skip [of used tot n i cnt start 1] by (simp add: le_less_Suc_eq)

lemma scan_end:
  assumes "scan_inv used tot n i cnt start" and "tot \<le> i"
  shows "first_fit used tot n = None"
proof (rule first_fit_None, rule allI)
  fix t
  show "\<not> free_run used tot n t"
    using assms by (cases "t < i - cnt") (auto simp: scan_inv_def free_run_iff)
qed

section \<open>The contract of an allocator\<close>

text \<open>
  \<open>taken s j\<close> says that page \<open>j\<close> is not available; \<open>owned s p n\<close> is what a caller must know to give
  the pages back.
\<close>

datatype page_op = Alloc nat | Release nat

text \<open>A history of requests, with the list of the ranges handed out and not given back.\<close>

fun run_pages :: "(nat \<Rightarrow> 's \<Rightarrow> 's \<times> nat option) \<Rightarrow> (nat \<Rightarrow> nat \<Rightarrow> 's \<Rightarrow> 's) \<Rightarrow> page_op list \<Rightarrow> 's \<Rightarrow> (nat \<times> nat) list \<Rightarrow>
    's \<times> (nat \<times> nat) list" where
  "run_pages alloc release [] s live = (s, live)"
| "run_pages alloc release (Alloc n # ops) s live =
     (case alloc n s of
        (s1, None) \<Rightarrow> run_pages alloc release ops s1 live
      | (s1, Some p) \<Rightarrow> run_pages alloc release ops s1 ((p, n) # live))"
| "run_pages alloc release (Release k # ops) s live =
     (if k < length live
      then run_pages alloc release ops (release (fst (live ! k)) (snd (live ! k)) s) (take k live @ drop (Suc k) live)
      else run_pages alloc release ops s live)"

fun apart :: "nat \<times> nat \<Rightarrow> nat \<times> nat \<Rightarrow> bool" where
  "apart (p, n) (q, m) \<longleftrightarrow> p + n \<le> q \<or> q + m \<le> p"

lemma apart_iff: "0 < n \<Longrightarrow> 0 < m \<Longrightarrow> apart (p, n) (q, m) \<longleftrightarrow> \<not> (\<exists>j. p \<le> j \<and> j < p + n \<and> q \<le> j \<and> j < q + m)"
proof -
  assume "0 < n" "0 < m"
  then have "\<exists>j. p \<le> j \<and> j < p + n \<and> q \<le> j \<and> j < q + m" if "\<not> apart (p, n) (q, m)"
    using that by (intro exI [of _ "max p q"]) auto
  then show ?thesis by auto
qed

lemma run_pages_keeps:
  assumes "\<And>n s. f (fst (alloc n s)) = f s" and "\<And>p n s. f (release p n s) = f s"
    and "run_pages alloc release ops s live = (s', live')"
  shows "f s' = f s"
  using assms
proof (induction alloc release ops s live rule: run_pages.induct)
  case (2 alloc release n ops s live)
  then show ?case using "2.prems"(1) [of n s] by (cases "alloc n s") (auto split: option.splits)
qed (auto split: if_splits)

locale page_allocator =
  fixes invar :: "'s \<Rightarrow> bool"
    and taken :: "'s \<Rightarrow> nat \<Rightarrow> bool"
    and owned :: "'s \<Rightarrow> nat \<Rightarrow> nat \<Rightarrow> bool"
    and alloc :: "nat \<Rightarrow> 's \<Rightarrow> 's \<times> nat option"
    and release :: "nat \<Rightarrow> nat \<Rightarrow> 's \<Rightarrow> 's"
  assumes alloc_none: "\<lbrakk>invar s; alloc n s = (s', None)\<rbrakk> \<Longrightarrow> s' = s"
    and alloc_some: "\<lbrakk>invar s; alloc n s = (s', Some p)\<rbrakk> \<Longrightarrow> invar s' \<and> 0 < n \<and> owned s' p n \<and>
      (\<forall>j. p \<le> j \<longrightarrow> j < p + n \<longrightarrow> \<not> taken s j) \<and> (\<forall>j. taken s' j \<longleftrightarrow> taken s j \<or> (p \<le> j \<and> j < p + n))"
    and owned_alloc: "\<lbrakk>invar s; alloc n s = (s', r); owned s q m\<rbrakk> \<Longrightarrow> owned s' q m"
    and release_law: "\<lbrakk>invar s; owned s p n\<rbrakk> \<Longrightarrow> invar (release p n s) \<and>
      (\<forall>j. taken (release p n s) j \<longleftrightarrow> taken s j \<and> \<not> (p \<le> j \<and> j < p + n)) \<and>
      (\<forall>q m. owned s q m \<longrightarrow> owned (release p n s) q m)"
begin

text \<open>
  The ranges handed out are pairwise disjoint and taken, and the pages of \<open>R\<close>, those that were never
  available, stay taken and outside of them.
\<close>

definition live_ok :: "nat set \<Rightarrow> 's \<Rightarrow> (nat \<times> nat) list \<Rightarrow> bool" where
  "live_ok R s live \<longleftrightarrow> invar s \<and> sorted_wrt apart live \<and>
     (\<forall>j \<in> R. taken s j \<and> (\<forall>(p, n) \<in> set live. \<not> (p \<le> j \<and> j < p + n))) \<and>
     (\<forall>(p, n) \<in> set live. 0 < n \<and> owned s p n \<and> (\<forall>j. p \<le> j \<longrightarrow> j < p + n \<longrightarrow> taken s j))"

lemma live_ok_alloc:
  assumes "live_ok R s live" and "alloc n s = (s1, Some p)"
  shows "live_ok R s1 ((p, n) # live)"
proof -
  have inv: "invar s" using assms(1) by (simp add: live_ok_def)
  note a = alloc_some [OF inv assms(2)]
  have old: "0 < m \<and> owned s1 q m \<and> (\<forall>j. q \<le> j \<longrightarrow> j < q + m \<longrightarrow> taken s j) \<and> apart (p, n) (q, m)"
    if "(q, m) \<in> set live" for q m
  proof -
    have o: "0 < m" "owned s q m" "\<forall>j. q \<le> j \<longrightarrow> j < q + m \<longrightarrow> taken s j" using assms(1) that by (auto simp: live_ok_def)
    then have "apart (p, n) (q, m)" using a by (subst apart_iff) blast+
    then show ?thesis using o owned_alloc [OF inv assms(2) o(2)] by simp
  qed
  moreover have "taken s1 j \<and> \<not> (p \<le> j \<and> j < p + n)" if "j \<in> R" for j
    using that a assms(1) by (auto simp: live_ok_def)
  ultimately show ?thesis using a assms(1) by (auto simp: live_ok_def)
qed

lemma live_ok_release:
  assumes ok: "live_ok R s live" and k: "k < length live" and r: "live ! k = (p, n)"
  shows "live_ok R (release p n s) (take k live @ drop (Suc k) live)"
proof -
  let ?rest = "take k live @ drop (Suc k) live"
  have inv: "invar s" using ok by (simp add: live_ok_def)
  have mem: "(p, n) \<in> set live" using k r nth_mem by metis
  then have o: "owned s p n" using ok by (auto simp: live_ok_def)
  note l = release_law [OF inv o]
  have split: "live = take k live @ (p, n) # drop (Suc k) live" using k r by (metis id_take_nth_drop)
  have srt: "sorted_wrt apart (take k live @ (p, n) # drop (Suc k) live)" using ok split by (simp add: live_ok_def)
  then have "sorted_wrt apart ?rest" by (auto simp: sorted_wrt_append)
  moreover have "0 < m \<and> owned (release p n s) q m \<and> (\<forall>j. q \<le> j \<longrightarrow> j < q + m \<longrightarrow> taken (release p n s) j)"
    if q: "(q, m) \<in> set ?rest" for q m
  proof -
    have ql: "(q, m) \<in> set live" using q split by (metis Un_iff in_set_dropD in_set_takeD set_append)
    then have t: "0 < m" "owned s q m" "\<forall>j. q \<le> j \<longrightarrow> j < q + m \<longrightarrow> taken s j" using ok by (auto simp: live_ok_def)
    have "apart (p, n) (q, m) \<or> apart (q, m) (p, n)" using q srt by (auto simp: sorted_wrt_append)
    then show ?thesis using t l by auto
  qed
  moreover have "taken (release p n s) j \<and> (\<forall>(q, m) \<in> set ?rest. \<not> (q \<le> j \<and> j < q + m))" if "j \<in> R" for j
    using that ok mem l by (auto simp: live_ok_def dest!: in_set_takeD in_set_dropD)
  ultimately show ?thesis using l by (auto simp: live_ok_def)
qed

theorem run_pages_ok:
  assumes "live_ok R s live" and "run_pages alloc release ops s live = (s', live')"
  shows "live_ok R s' live'"
  using assms
proof (induction ops arbitrary: s live)
  case (Cons op ops)
  show ?case
  proof (cases op)
    case (Alloc n)
    obtain s1 r where e: "alloc n s = (s1, r)" by (cases "alloc n s")
    show ?thesis
    proof (cases r)
      case None
      then have "s1 = s" using alloc_none e Cons.prems by (auto simp: live_ok_def)
      then show ?thesis using Cons e None Alloc by simp
    next
      case (Some p)
      then show ?thesis using Cons.IH Cons.prems e Alloc live_ok_alloc [of R s live n s1 p] by simp
    qed
  next
    case (Release k)
    then show ?thesis
      using Cons live_ok_release [of R s live k "fst (live ! k)" "snd (live ! k)"] by (auto split: if_splits)
  qed
qed simp

end

end
