(* ===== verification/Phys_Alloc.thy ===== *)
theory Phys_Alloc
  imports Page_Alloc
begin

text \<open>
  The allocator of physical memory, \<^verbatim>\<open>kernel/memory/phys_base_allocator.c\<close>: a bit map of bytes, read
  a 64-bit word at a time to skip full stretches. Block numbers stay below \<open>2 ^ 52\<close>, so
  they are natural numbers. A load of a word is inside the bit map in every state of \<open>phys_inv\<close>.
\<close>

unbundle bit_operations_syntax

definition BLOCK_SIZE :: nat where "BLOCK_SIZE = 4096"

text \<open>
  \<open>bitmap_base\<close> is the bytes that \<^verbatim>\<open>bitmap_base_\<close> points to, all \<^verbatim>\<open>metadata_size\<close> of them.
\<close>

record phys =
  bitmap_base :: "u8 list"
  higher_base_length :: nat
  usable_total :: nat

definition total_blocks :: "phys \<Rightarrow> nat" where
  "total_blocks s = higher_base_length s div BLOCK_SIZE"

text \<open>The word that the little-endian load at byte \<open>8 * w\<close> gives.\<close>

definition word_at :: "u8 list \<Rightarrow> nat \<Rightarrow> u64" where
  "word_at bm w = foldr (\<lambda>b acc. push_bit 8 acc OR ucast b) (take 8 (drop (8 * w) bm)) 0"

definition bit_used :: "u8 list \<Rightarrow> nat \<Rightarrow> bool" where
  "bit_used bm i \<longleftrightarrow> bit (bm ! (i div 8)) (i mod 8)"

definition set_bit_at :: "nat \<Rightarrow> u8 list \<Rightarrow> u8 list" where
  "set_bit_at j bm = bm[j div 8 := bm ! (j div 8) OR push_bit (j mod 8) 1]"

definition clear_bit_at :: "nat \<Rightarrow> u8 list \<Rightarrow> u8 list" where
  "clear_bit_at j bm = bm[j div 8 := bm ! (j div 8) AND NOT (push_bit (j mod 8) 1)]"

section \<open>Allocation\<close>

text \<open>
  The inner loop over the bits of a word, \<open>left\<close> of them: the start of a run, or the state in
  which the outer loop goes on.
\<close>

fun scan_bits :: "u8 list \<Rightarrow> nat \<Rightarrow> nat \<Rightarrow> nat \<Rightarrow> nat \<Rightarrow> nat \<Rightarrow> nat \<Rightarrow> nat + nat \<times> nat \<times> nat" where
  "scan_bits bm tot blk 0 i consecutive start = Inr (i, consecutive, start)"
| "scan_bits bm tot blk (Suc left) i consecutive start =
     (if \<not> i < tot then Inr (i, consecutive, start)
      else if \<not> bit_used bm i then
        let start1 = (if consecutive = 0 then i else start)
        in if Suc consecutive = blk then Inl start1
           else scan_bits bm tot blk left (Suc i) (Suc consecutive) start1
      else scan_bits bm tot blk left (Suc i) 0 start)"

lemma scan_bits_advances: "scan_bits bm tot blk left i c st = Inr (i', c', st') \<Longrightarrow> i \<le> i'"
  by (induction left arbitrary: i c st) (fastforce simp: Let_def split: if_splits)+

lemma scan_bits_progress: "scan_bits bm tot blk left i c st = Inr (i', c', st') \<Longrightarrow> i < tot \<Longrightarrow> 0 < left \<Longrightarrow> i < i'"
  by (cases left) (auto simp: Let_def Suc_le_eq dest!: scan_bits_advances split: if_splits)

function phys_scan :: "u8 list \<Rightarrow> nat \<Rightarrow> nat \<Rightarrow> nat \<Rightarrow> nat \<Rightarrow> nat \<Rightarrow> nat option" where
  "phys_scan bm tot blk i consecutive start =
     (if \<not> i < tot then None
      else let bit_idx = i mod 64; word = drop_bit bit_idx (word_at bm (i div 64))
           in if bit_idx = 0 \<and> word = - 1 then phys_scan bm tot blk (i + 64) 0 start
              else if word = - 1 then phys_scan bm tot blk (i + (64 - bit_idx)) 0 start
              else case scan_bits bm tot blk (64 - bit_idx) i consecutive start of
                     Inl s \<Rightarrow> Some s
                   | Inr (i1, c1, s1) \<Rightarrow> phys_scan bm tot blk i1 c1 s1)"
  by pat_completeness auto
termination
  by (relation "measure (\<lambda>(bm, tot, blk, i, c, s). tot - i)")
     (auto dest!: scan_bits_progress intro: diff_less_mono2)

declare phys_scan.simps [simp del]

text \<open>The address of the run, or the null pointer.\<close>

definition phys_base_alloc :: "nat \<Rightarrow> phys \<Rightarrow> phys \<times> nat" where
  "phys_base_alloc blk s =
     (case phys_scan (bitmap_base s) (total_blocks s) blk 0 0 0 of
        None \<Rightarrow> (s, 0)
      | Some start \<Rightarrow>
          (s\<lparr>bitmap_base := fold set_bit_at [start..<start + blk] (bitmap_base s)\<rparr>, start * BLOCK_SIZE))"

definition phys_base_alloc_on_top :: "nat \<Rightarrow> nat" where
  "phys_base_alloc_on_top blk = (if blk = 0 then 0 else 0)"

text \<open>\<open>None\<close> is a write outside the bit map.\<close>

definition vxPhysBaseFree :: "nat \<Rightarrow> nat \<Rightarrow> phys \<Rightarrow> phys option" where
  "vxPhysBaseFree ptr sz s =
     (let index = ptr div BLOCK_SIZE
      in if list_all (\<lambda>i. i div 8 < length (bitmap_base s)) [index..<index + sz]
         then Some (s\<lparr>bitmap_base := fold clear_bit_at [index..<index + sz] (bitmap_base s)\<rparr>)
         else None)"

definition pys_base_get_free_block_count :: "phys \<Rightarrow> nat" where
  "pys_base_get_free_block_count s =
     fold (\<lambda>i count. if \<not> bit_used (bitmap_base s) i then Suc count else count) [0..<total_blocks s] 0"

section \<open>The memory map\<close>

definition ENTRY_MMAP_USABLE :: nat where "ENTRY_MMAP_USABLE = 1"

record memory_entry =
  e_base :: nat
  e_length :: nat
  e_type :: nat

text \<open>For an alignment that is a power of two, which is the mask of the macro.\<close>

definition ALIGN_UP :: "nat \<Rightarrow> nat \<Rightarrow> nat" where
  "ALIGN_UP x align = (x + align - 1) div align * align"

definition usable :: "memory_entry \<Rightarrow> bool" where
  "usable e \<longleftrightarrow> e_type e = ENTRY_MMAP_USABLE"

text \<open>The first usable entry that holds the bit map loses the bytes of it; \<open>None\<close> is that there is none.\<close>

fun place_metadata :: "nat \<Rightarrow> memory_entry list \<Rightarrow> memory_entry list option" where
  "place_metadata sz [] = None"
| "place_metadata sz (e # es) =
     (if sz \<le> e_length e \<and> usable e
      then Some (e\<lparr>e_length := e_length e - sz, e_base := e_base e + sz\<rparr> # es)
      else map_option ((#) e) (place_metadata sz es))"

definition free_entry :: "memory_entry \<Rightarrow> u8 list \<Rightarrow> u8 list" where
  "free_entry e bm =
     (if \<not> usable e then bm
      else let metadata_index = e_base e div 4096; metadata_end = e_length e div 4096
           in fold clear_bit_at [metadata_index..<metadata_index + metadata_end] bm)"

text \<open>
  The initialisation: with no entry for the bit map the code fills the page at the null pointer,
  which is \<open>None\<close>.
\<close>

definition phys_init :: "memory_entry list \<Rightarrow> (phys \<times> memory_entry list) option" where
  "phys_init es =
     (let higher = fold (\<lambda>e h. if h < e_base e + e_length e then e_base e + e_length e else h) es 0;
          usable_sum = fold (\<lambda>e t. if usable e then t + e_length e else t) es 0;
          metadata_count = (higher div BLOCK_SIZE + 7) div 8;
          metadata_size = ALIGN_UP metadata_count BLOCK_SIZE
      in case place_metadata metadata_size es of
           None \<Rightarrow> None
         | Some es1 \<Rightarrow> Some (\<lparr>bitmap_base = fold free_entry es1 (replicate metadata_size 0xFF),
                          higher_base_length = higher, usable_total = usable_sum\<rparr>, es1))"

section \<open>Bits\<close>

lemma bit_word_bytes:
  "k < 8 * length bs \<Longrightarrow> length bs \<le> 8 \<Longrightarrow> bit (foldr (\<lambda>b acc. push_bit 8 acc OR ucast (b :: u8)) bs (0 :: u64)) k \<longleftrightarrow> bit (bs ! (k div 8)) (k mod 8)"
proof (induction bs arbitrary: k)
  case (Cons b bs)
  show ?case
  proof (cases "k < 8")
    case True
    then show ?thesis by (simp add: bit_simps)
  next
    case False
    then obtain m where m: "k = 8 + m" by (metis add_diff_inverse_nat)
    have d: "(8 + m) div 8 = Suc (m div 8)" by simp
    from m have "m < 64" "m < 8 * length bs" "length bs \<le> 8" using Cons.prems by auto
    then show ?thesis using Cons.IH [of m] Cons.prems unfolding m d
      by (auto simp: bit_simps dest: bit_imp_le_length)
  qed
qed simp

lemma bit_word_at:
  assumes "8 * w + 8 \<le> length bm" and "k < 64"
  shows "bit (word_at bm w) k \<longleftrightarrow> bit_used bm (64 * w + k)"
proof -
  have "k div 8 < 8" using assms(2) by simp
  moreover have "(64 * w + k) div 8 = 8 * w + k div 8" "(64 * w + k) mod 8 = k mod 8"
    using div_mult_self1 [of 8 k "8 * w"] mod_mult_self1 [of k "8 * w" 8] by (simp_all add: add.commute)
  ultimately show ?thesis using assms bit_word_bytes [of k "take 8 (drop (8 * w) bm)"]
    by (simp add: word_at_def bit_used_def)
qed

lemma word_full:
  assumes "8 * w + 8 \<le> length bm" and "word_at bm w = - 1" and "64 * w \<le> j" and "j < 64 * w + 64"
  shows "bit_used bm j"
  using bit_word_at [OF assms(1), of "j - 64 * w"] assms(2-4) by simp

lemma length_bit_at [simp]: "length (set_bit_at j bm) = length bm" "length (clear_bit_at j bm) = length bm"
  by (simp_all add: set_bit_at_def clear_bit_at_def)

lemma bit_used_set:
  assumes "j < 8 * length bm"
  shows "bit_used (set_bit_at j bm) i \<longleftrightarrow> bit_used bm i \<or> i = j"
    and "bit_used (clear_bit_at j bm) i \<longleftrightarrow> bit_used bm i \<and> i \<noteq> j"
proof -
  have l: "j div 8 < length bm" using assms by auto
  have e: "i = j \<longleftrightarrow> i div 8 = j div 8 \<and> i mod 8 = j mod 8" by (metis div_mult_mod_eq)
  have m: "i mod 8 < 8" by simp
  show "bit_used (set_bit_at j bm) i \<longleftrightarrow> bit_used bm i \<or> i = j"
    using l m unfolding bit_used_def set_bit_at_def e by (cases "i div 8 = j div 8") (auto simp: bit_simps)
  show "bit_used (clear_bit_at j bm) i \<longleftrightarrow> bit_used bm i \<and> i \<noteq> j"
    using l m unfolding bit_used_def clear_bit_at_def e by (cases "i div 8 = j div 8") (auto simp: bit_simps)
qed

lemma fold_bits:
  assumes "b \<le> 8 * length bm"
  shows "length (fold set_bit_at [a..<b] bm) = length bm"
    and "length (fold clear_bit_at [a..<b] bm) = length bm"
    and "bit_used (fold set_bit_at [a..<b] bm) i \<longleftrightarrow> bit_used bm i \<or> (a \<le> i \<and> i < b)"
    and "bit_used (fold clear_bit_at [a..<b] bm) i \<longleftrightarrow> bit_used bm i \<and> \<not> (a \<le> i \<and> i < b)"
proof -
  have "length (fold set_bit_at [a..<b] bm) = length bm \<and> length (fold clear_bit_at [a..<b] bm) = length bm \<and>
    (bit_used (fold set_bit_at [a..<b] bm) i \<longleftrightarrow> bit_used bm i \<or> (a \<le> i \<and> i < b)) \<and>
    (bit_used (fold clear_bit_at [a..<b] bm) i \<longleftrightarrow> bit_used bm i \<and> \<not> (a \<le> i \<and> i < b))"
    using assms
  proof (induction b)
    case (Suc b)
    then show ?case by (cases "a \<le> b") (auto simp: bit_used_set less_Suc_eq)
  qed simp
  then show "length (fold set_bit_at [a..<b] bm) = length bm" "length (fold clear_bit_at [a..<b] bm) = length bm"
    "bit_used (fold set_bit_at [a..<b] bm) i \<longleftrightarrow> bit_used bm i \<or> (a \<le> i \<and> i < b)"
    "bit_used (fold clear_bit_at [a..<b] bm) i \<longleftrightarrow> bit_used bm i \<and> \<not> (a \<le> i \<and> i < b)" by blast+
qed

section \<open>The search is a first fit\<close>

lemma scan_bits_inv:
  assumes "scan_inv (bit_used bm) tot blk i c st"
  shows "case scan_bits bm tot blk left i c st of
      Inl s \<Rightarrow> first_fit (bit_used bm) tot blk = Some s
    | Inr (i1, c1, s1) \<Rightarrow> scan_inv (bit_used bm) tot blk i1 c1 s1"
  using assms
proof (induction left arbitrary: i c st)
  case (Suc left)
  show ?case
  proof (cases "i < tot")
    case True
    note sf = scan_free [OF Suc.prems] and su = scan_used [OF Suc.prems] and fd = scan_found [OF Suc.prems _ _ True]
    show ?thesis
      using True Suc.IH [OF sf] Suc.IH [OF su] fd by (auto simp: Let_def)
  qed (use Suc.prems in simp)
qed simp

lemma phys_scan_first_fit:
  assumes bm: "8 * ((tot + 63) div 64) \<le> length bm" and inv: "scan_inv (bit_used bm) tot blk i c st"
  shows "phys_scan bm tot blk i c st = first_fit (bit_used bm) tot blk"
  using inv
proof (induction "tot - i" arbitrary: i c st rule: less_induct)
  case less
  show ?case
  proof (cases "i < tot")
    case False
    then show ?thesis using scan_end [OF less.prems] by (subst phys_scan.simps) simp
  next
    case True
    define w where "w = i div 64"
    define b where "b = i mod 64"
    have wb: "i = 64 * w + b" "b < 64" by (auto simp: w_def b_def)
    have "w < (tot + 63) div 64" using True wb by linarith
    then have len: "8 * w + 8 \<le> length bm" using bm by linarith
    let ?word = "drop_bit b (word_at bm w)"
    have full: "b = 0 \<and> word_at bm w = - 1" if "?word = - 1"
    proof -
      have "bit ?word 63" using that by simp
      then have "b = 0" using wb(2) by (auto simp: bit_simps dest: bit_imp_le_length)
      then show ?thesis using that by simp
    qed
    show ?thesis
    proof (cases "?word = - 1")
      case w1: True
      have "scan_inv (bit_used bm) tot blk (i + 64) 0 st"
        by (rule scan_skip [OF less.prems]) (use full [OF w1] wb word_full [OF len] in auto)
      then have "phys_scan bm tot blk (i + 64) 0 st = first_fit (bit_used bm) tot blk"
        using less.hyps [of "i + 64"] True by simp
      moreover have "i mod 64 = 0" "drop_bit (i mod 64) (word_at bm (i div 64)) = - 1"
        using w1 full [OF w1] by (simp_all add: w_def b_def)
      ultimately show ?thesis using True by (subst phys_scan.simps) (simp add: Let_def del: drop_bit_0)
    next
      case False
      note si = scan_bits_inv [OF less.prems, of "64 - b"]
      show ?thesis
      proof (cases "scan_bits bm tot blk (64 - b) i c st")
        case (Inl s)
        then show ?thesis using si True False by (subst phys_scan.simps) (simp add: Let_def w_def b_def)
      next
        case (Inr r)
        obtain i1 c1 s1 where r: "r = (i1, c1, s1)" by (cases r)
        have "i < i1" using scan_bits_progress [of bm tot blk "64 - b" i c st i1 c1 s1] Inr r True wb(2) by simp
        then have "phys_scan bm tot blk i1 c1 s1 = first_fit (bit_used bm) tot blk"
          using less.hyps [of i1 c1 s1] si Inr r True by simp
        then show ?thesis using True False Inr r by (subst phys_scan.simps) (simp add: Let_def w_def b_def)
      qed
    qed
  qed
qed

lemma scan_bits_zero: "scan_bits bm tot 0 left i c st \<noteq> Inl s"
  by (induction left arbitrary: i c st) (auto simp: Let_def)

lemma phys_scan_zero: "phys_scan bm tot 0 i c st = None"
proof (induction bm tot "0 :: nat" i c st rule: phys_scan.induct)
  case (1 bm tot i c st)
  then show ?case using scan_bits_zero [of bm tot "64 - i mod 64" i c st]
    by (subst phys_scan.simps) (auto simp: Let_def split: sum.split prod.split)
qed

section \<open>The allocator's contract\<close>

text \<open>
  The bit map covers whole words of blocks, and block 0 is never handed out: its address is the null
  pointer, which callers read as a failure.
\<close>

definition covers :: "phys \<Rightarrow> bool" where
  "covers s \<longleftrightarrow> 8 * ((total_blocks s + 63) div 64) \<le> length (bitmap_base s)"

definition phys_inv :: "phys \<Rightarrow> bool" where
  "phys_inv s \<longleftrightarrow> covers s \<and> bit_used (bitmap_base s) 0"

lemma total_blocks_bitmap [simp]: "total_blocks (s\<lparr>bitmap_base := bm\<rparr>) = total_blocks s"
  by (simp add: total_blocks_def)

lemma word_covers: "8 * ((tot + 63) div 64) \<le> sz \<Longrightarrow> tot \<le> 8 * sz" for tot :: nat
  using mult_div_mod_eq [of 64 "tot + 63"] mod_less_divisor [of 64 "tot + 63"] by linarith

lemma coversD: "covers s \<Longrightarrow> b \<le> total_blocks s \<Longrightarrow> b \<le> 8 * length (bitmap_base s)"
  using word_covers unfolding covers_def by (meson le_trans)

lemma phys_base_alloc_eq:
  assumes "covers s" and "0 < n"
  shows "phys_base_alloc n s = (case first_fit (bit_used (bitmap_base s)) (total_blocks s) n of
      None \<Rightarrow> (s, 0)
    | Some p \<Rightarrow> (s\<lparr>bitmap_base := fold set_bit_at [p..<p + n] (bitmap_base s)\<rparr>, p * BLOCK_SIZE))"
  using assms unfolding covers_def by (simp add: phys_base_alloc_def phys_scan_first_fit scan_start)

text \<open>What the callers of the allocator see, in blocks.\<close>

definition phys_pages :: "nat \<Rightarrow> phys \<Rightarrow> phys \<times> nat option" where
  "phys_pages n s = (case phys_base_alloc n s of (s1, a) \<Rightarrow> (s1, if a = 0 then None else Some (a div BLOCK_SIZE)))"

definition phys_release :: "nat \<Rightarrow> nat \<Rightarrow> phys \<Rightarrow> phys" where
  "phys_release p n s = (case vxPhysBaseFree (p * BLOCK_SIZE) n s of None \<Rightarrow> s | Some s1 \<Rightarrow> s1)"

definition phys_owned :: "phys \<Rightarrow> nat \<Rightarrow> nat \<Rightarrow> bool" where
  "phys_owned s p n \<longleftrightarrow> 0 < p \<and> p + n \<le> total_blocks s"

lemma first_fit_SomeD: "first_fit used tot n = Some p \<Longrightarrow> free_run used tot n p"
  by (auto simp: first_fit_def find_Some_iff)

lemma phys_pages_cases:
  assumes "phys_inv s" and "phys_pages n s = (s1, r)"
  obtains "s1 = s" "r = None"
  | p where "0 < n" "0 < p" "r = Some p" "free_run (bit_used (bitmap_base s)) (total_blocks s) n p"
      "s1 = s\<lparr>bitmap_base := fold set_bit_at [p..<p + n] (bitmap_base s)\<rparr>"
proof (cases "n = 0")
  case True
  then show ?thesis using assms(2) that(1)
    by (simp add: phys_pages_def phys_base_alloc_def phys_scan_zero)
next
  case False
  have c: "covers s" "bit_used (bitmap_base s) 0" using assms(1) by (auto simp: phys_inv_def)
  show ?thesis
  proof (cases "first_fit (bit_used (bitmap_base s)) (total_blocks s) n")
    case None
    then show ?thesis using assms(2) False c that(1) by (simp add: phys_pages_def phys_base_alloc_eq)
  next
    case (Some p)
    note fr = first_fit_SomeD [OF Some]
    have "p \<noteq> 0"
    proof
      assume "p = 0"
      then show False using fr c(2) False by (auto simp: free_run_iff)
    qed
    then show ?thesis using assms(2) False c Some fr that(2) [of p]
      by (simp add: phys_pages_def phys_base_alloc_eq BLOCK_SIZE_def)
  qed
qed

lemma vxPhysBaseFree_in_range:
  assumes "covers s" and "p + n \<le> total_blocks s"
  shows "vxPhysBaseFree (p * BLOCK_SIZE) n s = Some (s\<lparr>bitmap_base := fold clear_bit_at [p..<p + n] (bitmap_base s)\<rparr>)"
  using coversD [OF assms] by (auto simp: vxPhysBaseFree_def Let_def BLOCK_SIZE_def list_all_iff)

interpretation pp: page_allocator phys_inv "\<lambda>s. bit_used (bitmap_base s)" phys_owned phys_pages phys_release
proof (unfold_locales, goal_cases)
  case (1 s n s')
  then show ?case by (auto elim: phys_pages_cases)
next
  case (2 s n s' p)
  have c: "covers s" "bit_used (bitmap_base s) 0" using 2(1) by (auto simp: phys_inv_def)
  from 2 show ?case
  proof (cases rule: phys_pages_cases)
    case (2 q)
    then have "q + n \<le> 8 * length (bitmap_base s)" using coversD [OF c(1)] by (simp add: free_run_iff)
    then show ?thesis using 2 c by (auto simp: phys_inv_def covers_def phys_owned_def free_run_iff fold_bits)
  qed simp
next
  case (3 s n s' r q m)
  then show ?case by (auto simp: phys_owned_def elim: phys_pages_cases)
next
  case (4 s p n)
  then have "covers s" "p + n \<le> total_blocks s" by (auto simp: phys_inv_def phys_owned_def)
  note f = vxPhysBaseFree_in_range [OF this] and b = fold_bits [OF coversD [OF this]]
  show ?case using 4 f b by (auto simp: phys_release_def phys_inv_def covers_def phys_owned_def)
qed

section \<open>Initialisation\<close>

text \<open>The blocks of a usable entry, as the initialisation frees them.\<close>

definition in_entry :: "nat \<Rightarrow> memory_entry \<Rightarrow> bool" where
  "in_entry i e \<longleftrightarrow> usable e \<and> e_base e div 4096 \<le> i \<and> i < e_base e div 4096 + e_length e div 4096"

definition entry_end :: "memory_entry \<Rightarrow> nat" where
  "entry_end e = e_base e + e_length e"

lemma fold_higher: "h \<le> fold (\<lambda>e h. if h < e_base e + e_length e then e_base e + e_length e else h) es h"
  "e \<in> set es \<Longrightarrow> entry_end e \<le> fold (\<lambda>e h. if h < e_base e + e_length e then e_base e + e_length e else h) es h"
proof (induction es arbitrary: h)
  case (Cons a es)
  { case 1 show ?case using Cons.IH(1) [of "e_base a + e_length a"] Cons.IH(1) [of h] by auto }
  { case 2 then show ?case
      using Cons.IH(2) Cons.IH(1) [of "e_base a + e_length a"] Cons.IH(1) [of h] by (auto simp: entry_end_def) }
qed auto

lemma place_metadata_end:
  "place_metadata sz es = Some es1 \<Longrightarrow> e \<in> set es1 \<Longrightarrow> \<exists>e0 \<in> set es. entry_end e = entry_end e0"
  by (induction es arbitrary: es1) (auto simp: entry_end_def split: if_splits)

lemma free_entry_bits:
  assumes "entry_end e div 4096 \<le> 8 * length bm"
  shows "length (free_entry e bm) = length bm"
    and "bit_used (free_entry e bm) i \<longleftrightarrow> bit_used bm i \<and> \<not> in_entry i e"
proof -
  have "e_base e div 4096 + e_length e div 4096 \<le> 8 * length bm"
    using assms unfolding entry_end_def div_add1_eq [of "e_base e"] by linarith
  note f = fold_bits [OF this]
  show "length (free_entry e bm) = length bm" "bit_used (free_entry e bm) i \<longleftrightarrow> bit_used bm i \<and> \<not> in_entry i e"
    by (simp_all add: free_entry_def in_entry_def Let_def f)
qed

lemma free_entries_bits:
  assumes "\<forall>e \<in> set es. entry_end e div 4096 \<le> 8 * length bm"
  shows "length (fold free_entry es bm) = length bm \<and>
    (bit_used (fold free_entry es bm) i \<longleftrightarrow> bit_used bm i \<and> \<not> list_ex (in_entry i) es)"
  using assms by (induction es arbitrary: bm) (auto simp: free_entry_bits)

lemma bit_used_ff: "i < 8 * n \<Longrightarrow> bit_used (replicate n 0xFF) i"
proof -
  assume "i < 8 * n"
  then have "i div 8 < n" by auto
  moreover have "bit (0xFF :: u8) (i mod 8)"
    using bit_mask_iff [of 8 "i mod 8", where ?'a = u8] by (simp add: mask_eq_exp_minus_1)
  ultimately show ?thesis by (simp add: bit_used_def)
qed

lemma metadata_covers: "8 * ((tot + 63) div 64) \<le> ALIGN_UP ((tot + 7) div 8) BLOCK_SIZE"
proof -
  define x where "x = (tot + 7) div 8"
  define m where "m = (x + 4095) div 4096"
  have "x \<le> 4096 * m" unfolding m_def
    using mult_div_mod_eq [of 4096 "x + 4095"] mod_less_divisor [of 4096 "x + 4095"] by linarith
  moreover have "tot \<le> 8 * x" unfolding x_def
    using mult_div_mod_eq [of 8 "tot + 7"] mod_less_divisor [of 8 "tot + 7"] by linarith
  ultimately have "tot + 63 < 64 * (512 * m + 1)" by simp
  then have "(tot + 63) div 64 < 512 * m + 1" by (simp add: less_mult_imp_div_less mult.commute)
  then show ?thesis by (simp add: ALIGN_UP_def BLOCK_SIZE_def x_def [symmetric] m_def add.commute)
qed

lemma phys_init_bits:
  assumes "phys_init es = Some (s, es1)"
  shows "covers s" and "i < total_blocks s \<Longrightarrow> bit_used (bitmap_base s) i \<longleftrightarrow> \<not> list_ex (in_entry i) es1"
proof -
  define h where "h = fold (\<lambda>e h. if h < e_base e + e_length e then e_base e + e_length e else h) es 0"
  define sz where "sz = ALIGN_UP ((h div BLOCK_SIZE + 7) div 8) BLOCK_SIZE"
  let ?bm = "replicate sz (0xFF :: u8)"
  have pm: "place_metadata sz es = Some es1" and s: "bitmap_base s = fold free_entry es1 ?bm" "higher_base_length s = h"
    using assms by (auto simp: phys_init_def Let_def sz_def h_def split: option.splits)
  have cov: "8 * ((h div 4096 + 63) div 64) \<le> sz" using metadata_covers [of "h div 4096"] by (simp add: BLOCK_SIZE_def sz_def)
  then have hb: "h div 4096 \<le> 8 * sz" by (rule word_covers)
  have "entry_end e div 4096 \<le> 8 * sz" if e: "e \<in> set es1" for e
  proof -
    obtain e0 where "e0 \<in> set es" "entry_end e = entry_end e0" using place_metadata_end [OF pm e] by blast
    then have "entry_end e \<le> h" using fold_higher(2) [of e0 es 0] by (simp add: h_def)
    then show ?thesis using hb div_le_mono [of "entry_end e" h 4096] by linarith
  qed
  then have "\<forall>e \<in> set es1. entry_end e div 4096 \<le> 8 * length ?bm" by simp
  note f = free_entries_bits [OF this]
  show "covers s" using cov f by (simp add: covers_def total_blocks_def s BLOCK_SIZE_def)
  show "bit_used (bitmap_base s) i \<longleftrightarrow> \<not> list_ex (in_entry i) es1" if "i < total_blocks s"
  proof -
    have "i < 8 * sz" using that hb by (simp add: total_blocks_def s BLOCK_SIZE_def)
    then show ?thesis using f [of i] bit_used_ff s by simp
  qed
qed

section \<open>Properties\<close>

lemma phys_init_inv:
  assumes "phys_init es = Some (s, es1)" and "\<forall>e \<in> set es1. usable e \<longrightarrow> 4096 \<le> e_base e" and "0 < total_blocks s"
  shows "phys_inv s"
proof -
  have "\<not> in_entry 0 e" if "e \<in> set es1" for e
  proof -
    have "e_base e div 4096 \<noteq> 0" if "4096 \<le> e_base e" using that by simp
    then show ?thesis using assms(2) that by (auto simp: in_entry_def)
  qed
  then show ?thesis using phys_init_bits [OF assms(1)] assms(3) by (auto simp: phys_inv_def list_ex_iff)
qed

lemma phys_ops_total:
  "total_blocks (fst (phys_pages n s)) = total_blocks s" "total_blocks (phys_release p n s) = total_blocks s"
  by (auto simp: phys_pages_def phys_base_alloc_def phys_release_def vxPhysBaseFree_def Let_def split: option.splits)

text \<open>
  Wherever the bit map covers the blocks, the allocator, which skips full words and counts runs across
  words, marks and returns exactly the lowest run of free blocks of the given length, and fails
  without a change exactly when there is none. (C23)
\<close>

theorem phys_first_fit:
  assumes "covers s" and "0 < n"
  shows "phys_base_alloc n s = (case first_fit (bit_used (bitmap_base s)) (total_blocks s) n of
      None \<Rightarrow> (s, 0)
    | Some p \<Rightarrow> (s\<lparr>bitmap_base := fold set_bit_at [p..<p + n] (bitmap_base s)\<rparr>, p * BLOCK_SIZE))"
  using assms by (rule phys_base_alloc_eq)

definition sample_phys :: phys where
  "sample_phys = \<lparr>bitmap_base = [0xFF, 0xFF, 0xFF, 0xFF, 0xFF, 0xFF, 0xFF, 0x5F, 0xF0, 0xFF, 0xFF, 0xFF, 0xFF, 0xFF, 0xFF, 0xFF],
     higher_base_length = 68 * 4096, usable_total = 0\<rparr>"

text \<open>Blocks 61, 63 and 64 to 67 are free; four blocks start at 63, in one word, and end in the next.\<close>

theorem phys_first_fit_witness:
  "covers sample_phys \<and> snd (phys_base_alloc 4 sample_phys) = 63 * BLOCK_SIZE"
proof -
  have c: "covers sample_phys" by (simp add: covers_def sample_phys_def total_blocks_def BLOCK_SIZE_def)
  have "total_blocks sample_phys = 68" by (simp add: sample_phys_def total_blocks_def BLOCK_SIZE_def)
  moreover have "first_fit (bit_used (bitmap_base sample_phys)) 68 4 = Some 63"
    by (simp add: first_fit_def free_run_def bit_used_def sample_phys_def upt_rec_numeral upt_rec [of 0] upt_rec [of "Suc 0"]
        flip: numeral_2_eq_2)
  ultimately show ?thesis using phys_first_fit [OF c, of 4] c by simp
qed

text \<open>
  From the state that the initialisation builds, when the memory map has no usable entry in page 0, and
  after every history of allocations and releases of what was allocated: the ranges in use are
  pairwise disjoint, inside the memory, and consist only of blocks of usable entries, as the
  initialisation left the map. (C12)
\<close>

theorem phys_ranges_apart:
  assumes "phys_init es = Some (s0, es1)" and "\<forall>e \<in> set es1. usable e \<longrightarrow> 4096 \<le> e_base e" and "0 < total_blocks s0"
    and "run_pages phys_pages phys_release ops s0 [] = (s, live)"
  shows "sorted_wrt apart live \<and>
    (\<forall>(p, n) \<in> set live. 0 < n \<and> p + n \<le> total_blocks s0 \<and> (\<forall>j. p \<le> j \<longrightarrow> j < p + n \<longrightarrow> list_ex (in_entry j) es1))"
proof -
  let ?R = "{j. j < total_blocks s0 \<and> \<not> list_ex (in_entry j) es1}"
  have "pp.live_ok ?R s0 []"
    using phys_init_inv [OF assms(1-3)] phys_init_bits [OF assms(1)] by (auto simp: pp.live_ok_def)
  from pp.run_pages_ok [OF this assms(4)] have ok: "pp.live_ok ?R s live" .
  have t: "total_blocks s = total_blocks s0" using run_pages_keeps [OF phys_ops_total assms(4)] .
  have "list_ex (in_entry j) es1" if "(p, n) \<in> set live" "p \<le> j" "j < p + n" for p n j
  proof -
    have "p + n \<le> total_blocks s0" using ok that(1) t by (auto simp: pp.live_ok_def phys_owned_def)
    then have "j < total_blocks s0" using that(3) by simp
    then show ?thesis using ok that by (fastforce simp: pp.live_ok_def)
  qed
  then show ?thesis using ok t by (auto simp: pp.live_ok_def phys_owned_def)
qed

definition sample_map :: "memory_entry list" where
  "sample_map = [\<lparr>e_base = 0, e_length = 4096, e_type = 2\<rparr>, \<lparr>e_base = 4096, e_length = 8 * 4096, e_type = 1\<rparr>,
     \<lparr>e_base = 9 * 4096, e_length = 4096, e_type = 7\<rparr>, \<lparr>e_base = 10 * 4096, e_length = 4 * 4096, e_type = 1\<rparr>]"

lemma phys_pages_first_fit:
  assumes "covers s" and "first_fit (bit_used (bitmap_base s)) (total_blocks s) n = Some p" and "0 < n" and "0 < p"
  shows "phys_pages n s = (s\<lparr>bitmap_base := fold set_bit_at [p..<p + n] (bitmap_base s)\<rparr>, Some p)"
  using assms by (simp add: phys_pages_def phys_base_alloc_eq BLOCK_SIZE_def)

lemma sample_init:
  obtains s0 es1 where "phys_init sample_map = Some (s0, es1)" "total_blocks s0 = 14"
    "\<forall>e \<in> set es1. usable e \<longrightarrow> 4096 \<le> e_base e" "\<And>j. list_ex (in_entry j) es1 \<longleftrightarrow> 2 \<le> j \<and> j < 9 \<or> 10 \<le> j \<and> j < 14"
proof (rule that)
  show "phys_init sample_map = Some (fst (the (phys_init sample_map)), snd (the (phys_init sample_map)))"
    by (simp add: phys_init_def sample_map_def Let_def usable_def ENTRY_MMAP_USABLE_def ALIGN_UP_def BLOCK_SIZE_def)
qed (auto simp: phys_init_def sample_map_def Let_def usable_def in_entry_def ENTRY_MMAP_USABLE_def ALIGN_UP_def
      BLOCK_SIZE_def total_blocks_def)

theorem phys_ranges_apart_witness:
  "\<exists>s0 es1 s live. phys_init sample_map = Some (s0, es1) \<and> run_pages phys_pages phys_release [Alloc 3, Alloc 4] s0 [] = (s, live) \<and>
     live = [(5, 4), (2, 3)] \<and> sorted_wrt apart live \<and> list_ex (in_entry 8) es1"
proof -
  obtain s0 es1 where i: "phys_init sample_map = Some (s0, es1)" "total_blocks s0 = 14"
    "\<forall>e \<in> set es1. usable e \<longrightarrow> 4096 \<le> e_base e" and u: "\<And>j. list_ex (in_entry j) es1 \<longleftrightarrow> 2 \<le> j \<and> j < 9 \<or> 10 \<le> j \<and> j < 14"
    using sample_init by blast
  note c = phys_init_bits(1) [OF i(1)] and b = phys_init_bits(2) [OF i(1), unfolded i(2) u]
  define s1 where "s1 = s0\<lparr>bitmap_base := fold set_bit_at [2..<5] (bitmap_base s0)\<rparr>"
  have len: "14 \<le> 8 * length (bitmap_base s0)" using coversD [OF c, of 14] i(2) by simp
  have b1: "bit_used (bitmap_base s1) j \<longleftrightarrow> bit_used (bitmap_base s0) j \<or> 2 \<le> j \<and> j < 5" for j
    using fold_bits(3) [of 5 "bitmap_base s0" 2 j] len unfolding s1_def by simp
  have c1: "covers s1" using c len by (simp add: s1_def covers_def fold_bits(1))
  have "first_fit (bit_used (bitmap_base s0)) 14 3 = Some 2"
    by (rule first_fit_Some) (auto simp: free_run_iff b)
  then have p1: "phys_pages 3 s0 = (s1, Some 2)" using phys_pages_first_fit [OF c, of 3 2] i(2) by (simp add: s1_def)
  have "first_fit (bit_used (bitmap_base s1)) 14 4 = Some 5"
    by (rule first_fit_Some) (auto simp: free_run_iff b1 b)
  then obtain s2 where p2: "phys_pages 4 s1 = (s2, Some 5)" using phys_pages_first_fit [OF c1, of 4 5] i(2) by (simp add: s1_def)
  have r: "run_pages phys_pages phys_release [Alloc 3, Alloc 4] s0 [] = (s2, [(5, 4), (2, 3)])" by (simp add: p1 p2)
  have "0 < total_blocks s0" using i(2) by simp
  from phys_ranges_apart [OF i(1,3) this r] show ?thesis using i(1) r by auto
qed

end
