(* ===== verification/Paging.thy ===== *)
theory Paging
  imports Phys_Alloc
begin

text \<open>
  The page tables of \<^verbatim>\<open>kernel/hal/cpu/paging.c\<close>: the four-level walk that maps a page, splits a huge page
  on its way and takes new tables from the physical allocator, and the walk that reads an entry back. Physical
  memory is seen through its pages: \<open>pg_mem t i\<close> is entry \<open>i\<close> of the table at physical address \<open>t\<close>, which
  \<^verbatim>\<open>get_table_vaddr\<close> makes accessible. Locks, fences and the invalidation of the translation cache
  change nothing of that state and are left out.
\<close>

section \<open>Entries\<close>

definition PAGE_PRESENT :: u64 where "PAGE_PRESENT = push_bit 0 1"
definition PAGE_WRITABLE :: u64 where "PAGE_WRITABLE = push_bit 1 1"
definition PAGE_USER :: u64 where "PAGE_USER = push_bit 2 1"
definition PAGE_HUGE :: u64 where "PAGE_HUGE = push_bit 7 1"
definition PAGE_COW :: u64 where "PAGE_COW = push_bit 9 1"
definition PAGE_NO_EXECUTE :: u64 where "PAGE_NO_EXECUTE = push_bit 63 1"
definition PAGE_HW_FLAG :: u64 where "PAGE_HW_FLAG = 0xF7F OR PAGE_NO_EXECUTE"
definition PAGE_2MB :: u64 where "PAGE_2MB = push_bit 61 1"
definition PAGE_1GB :: u64 where "PAGE_1GB = push_bit 62 1"
definition PAGE_PHYS_MASK :: u64 where "PAGE_PHYS_MASK = 0x000FFFFFFFFFF000"
definition PAGE_SIZE_4KB :: u64 where "PAGE_SIZE_4KB = 0x1000"
definition PAGE_SIZE_2MB :: u64 where "PAGE_SIZE_2MB = 0x200000"
definition PAGE_SIZE_1GB :: u64 where "PAGE_SIZE_1GB = 0x40000000"

lemmas page_flag_defs = PAGE_PRESENT_def PAGE_WRITABLE_def PAGE_USER_def PAGE_HUGE_def PAGE_COW_def
  PAGE_NO_EXECUTE_def PAGE_HW_FLAG_def PAGE_2MB_def PAGE_1GB_def PAGE_PHYS_MASK_def

lemmas page_size_defs = PAGE_SIZE_4KB_def PAGE_SIZE_2MB_def PAGE_SIZE_1GB_def

definition has :: "u64 \<Rightarrow> u64 \<Rightarrow> bool" where
  "has e flag \<longleftrightarrow> e AND flag \<noteq> 0"

text \<open>\<^verbatim>\<open>idx[level]\<close>.\<close>

definition table_index :: "nat \<Rightarrow> u64 \<Rightarrow> nat" where
  "table_index level virt = unat (drop_bit (12 + 9 * level) virt AND 0x1FF)"

section \<open>The state and the operations\<close>

type_synonym table_mem = "u64 \<Rightarrow> nat \<Rightarrow> u64"

record paging =
  pg_mem :: table_mem
  pg_phys :: phys
  pg_kernel :: u64

definition set_entry :: "u64 \<Rightarrow> nat \<Rightarrow> u64 \<Rightarrow> paging \<Rightarrow> paging" where
  "set_entry t i e s = s\<lparr>pg_mem := (pg_mem s)(t := (pg_mem s t)(i := e))\<rparr>"

text \<open>A page from the physical allocator, filled by \<open>f\<close>. The caller does not look for a null pointer.\<close>

definition new_table :: "(nat \<Rightarrow> u64) \<Rightarrow> paging \<Rightarrow> paging \<times> u64" where
  "new_table f s =
     (case phys_base_alloc 1 (pg_phys s) of
        (p, a) \<Rightarrow> (s\<lparr>pg_phys := p, pg_mem := (pg_mem s)(of_nat a := f)\<rparr>, of_nat a))"

definition paging_create_page_directory :: "paging \<Rightarrow> paging \<times> u64" where
  "paging_create_page_directory s = new_table (\<lambda>_. 0) s"

text \<open>The table that replaces a huge entry: the same memory in 512 smaller pieces.\<close>

definition split_huge :: "nat \<Rightarrow> u64 \<Rightarrow> nat \<Rightarrow> u64" where
  "split_huge level entry =
     (let old_phys = entry AND PAGE_PHYS_MASK;
          old_flags = entry AND NOT PAGE_PHYS_MASK;
          step = (if level = 2 then PAGE_SIZE_2MB else PAGE_SIZE_4KB)
      in (\<lambda>i. let e = (old_phys + of_nat i * step) OR old_flags in if level = 1 then e AND NOT PAGE_HUGE else e))"

text \<open>What the walk does to the entry of a level above the last before it goes down.\<close>

definition open_entry :: "nat \<Rightarrow> u64 \<Rightarrow> nat \<Rightarrow> u64 \<Rightarrow> paging \<Rightarrow> paging" where
  "open_entry level cur i sw_table_flags s =
     (let entry = pg_mem s cur i
      in if \<not> has entry PAGE_PRESENT then
           case new_table (\<lambda>_. 0) s of (s1, nxt) \<Rightarrow> set_entry cur i (nxt OR sw_table_flags) s1
         else if has entry PAGE_HUGE then
           case new_table (split_huge level entry) s of (s1, nxt) \<Rightarrow> set_entry cur i (nxt OR sw_table_flags) s1
         else set_entry cur i (entry OR sw_table_flags) s)"

fun mmap_walk :: "nat \<Rightarrow> u64 \<Rightarrow> u64 \<Rightarrow> u64 \<Rightarrow> u64 \<Rightarrow> paging \<Rightarrow> paging" where
  "mmap_walk 0 cur virt phys flags s =
     set_entry cur (table_index 0 virt) ((phys AND PAGE_PHYS_MASK) OR (flags AND PAGE_HW_FLAG)) s"
| "mmap_walk (Suc l) cur virt phys flags s =
     (let i = table_index (Suc l) virt
      in if Suc l = 2 \<and> has flags PAGE_1GB \<or> Suc l = 1 \<and> has flags PAGE_2MB
         then set_entry cur i ((phys AND PAGE_PHYS_MASK) OR (flags AND PAGE_HW_FLAG) OR PAGE_HUGE) s
         else let s1 = open_entry (Suc l) cur i (PAGE_PRESENT OR PAGE_WRITABLE OR (flags AND PAGE_USER)) s
              in mmap_walk l (pg_mem s1 cur i AND PAGE_PHYS_MASK) virt phys flags s1)"

definition mmap_internal :: "u64 \<Rightarrow> u64 \<Rightarrow> u64 \<Rightarrow> u64 \<Rightarrow> paging \<Rightarrow> paging" where
  "mmap_internal page_dir virt phys flags s = mmap_walk 3 page_dir virt phys flags s"

text \<open>The size of the next piece of a range, with the flag that asks for it.\<close>

definition piece :: "u64 \<Rightarrow> u64 \<Rightarrow> u64 \<Rightarrow> u64 \<times> u64" where
  "piece bytes_left virt phys =
     (if PAGE_SIZE_1GB \<le> bytes_left \<and> virt mod PAGE_SIZE_1GB = 0 \<and> (phys = 0 \<or> phys mod PAGE_SIZE_1GB = 0) then (PAGE_SIZE_1GB, PAGE_1GB)
      else if PAGE_SIZE_2MB \<le> bytes_left \<and> virt mod PAGE_SIZE_2MB = 0 \<and> (phys = 0 \<or> phys mod PAGE_SIZE_2MB = 0) then (PAGE_SIZE_2MB, PAGE_2MB)
      else (PAGE_SIZE_4KB, 0))"

text \<open>
  The loop of \<^verbatim>\<open>_mmap_range_internal\<close>. \<^verbatim>\<open>bytes_left\<close> starts as a multiple of the page size, so the last
  piece never takes it below zero; \<open>n\<close> bounds the number of turns, and running out of it is \<open>None\<close>.
\<close>

fun mmap_range_loop :: "nat \<Rightarrow> u64 \<Rightarrow> u64 \<Rightarrow> u64 \<Rightarrow> u64 \<Rightarrow> u64 \<Rightarrow> paging \<Rightarrow> paging option" where
  "mmap_range_loop 0 page_dir virt phys bytes_left flags s = (if 0 < bytes_left then None else Some s)"
| "mmap_range_loop (Suc n) page_dir virt phys bytes_left flags s =
     (if 0 < bytes_left then
        let (size, size_flag) = piece bytes_left virt phys
        in mmap_range_loop n page_dir (virt + size) (if phys \<noteq> 0 then phys + size else phys) (bytes_left - size) flags
             (mmap_internal page_dir virt phys (flags OR size_flag) s)
      else Some s)"

definition mmap_range_internal :: "u64 \<Rightarrow> u64 \<Rightarrow> u64 \<Rightarrow> u64 \<Rightarrow> u64 \<Rightarrow> paging \<Rightarrow> paging option" where
  "mmap_range_internal page_dir virt phys size_in_pages flags s =
     mmap_range_loop (unat (size_in_pages * PAGE_SIZE_4KB)) page_dir virt phys (size_in_pages * PAGE_SIZE_4KB) flags s"

definition paging_mmap :: "u64 \<Rightarrow> u64 \<Rightarrow> u64 \<Rightarrow> u64 \<Rightarrow> paging \<Rightarrow> paging" where
  "paging_mmap page_dir virt phys flags s = mmap_internal page_dir virt phys flags s"

definition paging_multiple_mmap :: "u64 \<Rightarrow> u64 \<Rightarrow> u64 \<Rightarrow> u64 \<Rightarrow> u64 \<Rightarrow> paging \<Rightarrow> paging option" where
  "paging_multiple_mmap page_dir virt phys size_in_pages flags s = mmap_range_internal page_dir virt phys size_in_pages flags s"

definition paging_setup :: "u64 \<Rightarrow> paging \<Rightarrow> paging" where
  "paging_setup p s = fold (\<lambda>i s. set_entry p i (pg_mem s (pg_kernel s) i) s) [256..<512] s"

text \<open>\<^verbatim>\<open>paging_get_entry_ext\<close>: the entry and \<^verbatim>\<open>*level_out\<close>, which is \<open>lv\<close> before the call.\<close>

fun get_entry_walk :: "nat \<Rightarrow> table_mem \<Rightarrow> u64 \<Rightarrow> u64 \<Rightarrow> nat \<Rightarrow> u64 \<times> nat" where
  "get_entry_walk 0 m cur vaddr lv =
     (let entry = m cur (table_index 0 vaddr) in if \<not> has entry 1 then (0, lv) else (entry, 0))"
| "get_entry_walk (Suc l) m cur vaddr lv =
     (let entry = m cur (table_index (Suc l) vaddr)
      in if \<not> has entry 1 then (0, lv)
         else if (Suc l = 2 \<or> Suc l = 1) \<and> has entry PAGE_HUGE then (entry, Suc l)
         else get_entry_walk l m (entry AND PAGE_PHYS_MASK) vaddr (Suc l))"

definition paging_get_entry_ext :: "u64 \<Rightarrow> u64 \<Rightarrow> nat \<Rightarrow> paging \<Rightarrow> u64 \<times> nat" where
  "paging_get_entry_ext p vaddr level s = get_entry_walk 3 (pg_mem s) p vaddr level"

definition paging_get_entry :: "u64 \<Rightarrow> u64 \<Rightarrow> paging \<Rightarrow> u64" where
  "paging_get_entry p vaddr s = fst (paging_get_entry_ext p vaddr 0 s)"

definition vaddr_to_paddr :: "u64 \<Rightarrow> u64 \<Rightarrow> paging \<Rightarrow> u64" where
  "vaddr_to_paddr p vaddr s =
     (let (entry, level) = paging_get_entry_ext p vaddr 0 s
      in if entry = 0 then 0
         else if has entry PAGE_HUGE then
           let mask = (if level = 2 then 0x3FFFFFFF else 0x1FFFFF)
           in (entry AND PAGE_PHYS_MASK AND NOT mask) OR (vaddr AND mask)
         else (entry AND PAGE_PHYS_MASK) OR (vaddr AND 0xFFF))"

definition paging_make_cow :: "u64 \<Rightarrow> u64 \<Rightarrow> paging \<Rightarrow> paging" where
  "paging_make_cow page_dir virt s =
     (let (entry, level) = paging_get_entry_ext page_dir virt 0 s
      in if \<not> has entry PAGE_WRITABLE then s
         else let new_flags = (entry AND NOT PAGE_WRITABLE) OR PAGE_COW;
                  new_flags1 = (if has entry PAGE_HUGE then new_flags OR (if level = 2 then PAGE_1GB else PAGE_2MB) else new_flags)
              in paging_mmap page_dir virt (entry AND PAGE_PHYS_MASK) new_flags1 s)"

definition paging_unmap_page :: "u64 \<Rightarrow> u64 \<Rightarrow> paging \<Rightarrow> paging" where
  "paging_unmap_page page_dir virt s = paging_mmap page_dir virt 0 0 s"

text \<open>\<open>current\<close> is the directory that the processor uses.\<close>

definition paging_sync_kernel_entry :: "u64 \<Rightarrow> u64 \<Rightarrow> paging \<Rightarrow> paging" where
  "paging_sync_kernel_entry current vaddr s =
     (if vaddr < 0xFFFF800000000000 then s
      else let i = unat (drop_bit 39 vaddr AND 0x1FF)
           in if current = pg_kernel s then s
              else if has (pg_mem s (pg_kernel s) i) PAGE_PRESENT \<and> \<not> has (pg_mem s current i) PAGE_PRESENT
              then set_entry current i (pg_mem s (pg_kernel s) i) s
              else s)"

definition paging_multiple_unmap :: "u64 \<Rightarrow> u64 \<Rightarrow> u64 \<Rightarrow> paging \<Rightarrow> paging option" where
  "paging_multiple_unmap page_dir virt size_in_pages s = mmap_range_internal page_dir virt 0 size_in_pages 0 s"

end
