(* ===== verification/Paging_Walk.thy ===== *)
theory Paging_Walk
  imports Paging
begin

text \<open>
  The page tables of one directory as a tree in physical memory: its tables, its well-formedness, and the
  translation that it gives. The lemmas show that the mapping walk keeps the tree well formed and changes the
  translation of exactly the pages that it maps.
\<close>

section \<open>Bits of entries\<close>

lemma has_bit [simp]:
  "has e PAGE_PRESENT \<longleftrightarrow> bit e 0" "has e 1 \<longleftrightarrow> bit e 0" "has e PAGE_WRITABLE \<longleftrightarrow> bit e 1" "has e PAGE_USER \<longleftrightarrow> bit e 2"
  "has e PAGE_HUGE \<longleftrightarrow> bit e 7" "has e PAGE_COW \<longleftrightarrow> bit e 9" "has e PAGE_2MB \<longleftrightarrow> bit e 61" "has e PAGE_1GB \<longleftrightarrow> bit e 62"
  "has e PAGE_NO_EXECUTE \<longleftrightarrow> bit e 63"
  by (simp_all add: has_def page_flag_defs bit_iff_and_push_bit_not_eq_0 and_one_eq odd_iff_mod_2_eq_one)

lemma bit_push_one: "k < 64 \<Longrightarrow> bit (push_bit k 1 :: u64) n \<longleftrightarrow> n = k"
  by (auto simp: push_bit_of_1 bit_exp_iff)

lemma bit_PHYS_MASK [simp]: "bit PAGE_PHYS_MASK n \<longleftrightarrow> 12 \<le> n \<and> n < 52"
proof -
  have "PAGE_PHYS_MASK = push_bit 12 (mask 40)" by (simp add: PAGE_PHYS_MASK_def mask_eq_decr_exp push_bit_eq_mult)
  moreover have "bit (push_bit 12 (mask 40) :: u64) n \<longleftrightarrow> 12 \<le> n \<and> n < 52" by (auto simp: bit_push_bit_iff bit_mask_iff)
  ultimately show ?thesis by (simp only:)
qed

lemma bit_flags [simp]:
  "bit PAGE_PRESENT n \<longleftrightarrow> n = 0" "bit PAGE_WRITABLE n \<longleftrightarrow> n = 1" "bit PAGE_USER n \<longleftrightarrow> n = 2" "bit PAGE_HUGE n \<longleftrightarrow> n = 7"
  "bit PAGE_COW n \<longleftrightarrow> n = 9" "bit PAGE_NO_EXECUTE n \<longleftrightarrow> n = 63" "bit PAGE_2MB n \<longleftrightarrow> n = 61" "bit PAGE_1GB n \<longleftrightarrow> n = 62"
  unfolding page_flag_defs by (rule bit_push_one; simp)+

lemma bit_HW_FLAG [simp]: "bit PAGE_HW_FLAG n \<longleftrightarrow> n < 12 \<and> n \<noteq> 7 \<or> n = 63"
proof -
  have "(0xF7F :: u64) = mask 12 AND NOT PAGE_HUGE" by (simp add: mask_eq_decr_exp PAGE_HUGE_def)
  moreover have "bit (mask 12 AND NOT PAGE_HUGE) n \<longleftrightarrow> n < 12 \<and> n \<noteq> 7" by (auto simp: bit_and_iff bit_not_iff bit_mask_iff)
  ultimately have "bit (0xF7F :: u64) n \<longleftrightarrow> n < 12 \<and> n \<noteq> 7" by (simp only:)
  then show ?thesis by (auto simp: PAGE_HW_FLAG_def bit_or_iff)
qed

section \<open>The tree of tables\<close>

definition child :: "u64 \<Rightarrow> u64 option" where
  "child e = (if bit e 0 \<and> \<not> bit e 7 then Some (e AND PAGE_PHYS_MASK) else None)"

fun tables :: "nat \<Rightarrow> table_mem \<Rightarrow> u64 \<Rightarrow> u64 list" where
  "tables 0 m b = [b]"
| "tables (Suc l) m b = b # concat (map (\<lambda>i. case child (m b i) of None \<Rightarrow> [] | Some c \<Rightarrow> tables l m c) [0..<512])"

definition below :: "nat \<Rightarrow> table_mem \<Rightarrow> u64 \<Rightarrow> u64 list" where
  "below l m e = (case child e of None \<Rightarrow> [] | Some c \<Rightarrow> tables l m c)"

text \<open>
  Huge entries stand on the second and third level only and are aligned to their size, and no entry of a page
  has bits that the hardware does not define, among them those that ask the walk for a huge page.
\<close>

definition page_bits :: "u64 \<Rightarrow> bool" where
  "page_bits e \<longleftrightarrow> (\<forall>n \<in> {52..62}. \<not> bit e n)"

fun sane :: "nat \<Rightarrow> table_mem \<Rightarrow> u64 \<Rightarrow> bool" where
  "sane 0 m b \<longleftrightarrow> (\<forall>i < 512. bit (m b i) 0 \<longrightarrow> \<not> bit (m b i) 7 \<and> page_bits (m b i))"
| "sane (Suc l) m b \<longleftrightarrow> (\<forall>i < 512. bit (m b i) 0 \<longrightarrow>
     (if bit (m b i) 7 then Suc l \<le> 2 \<and> m b i AND PAGE_PHYS_MASK AND mask (12 + 9 * Suc l) = 0 \<and> page_bits (m b i)
      else sane l m (m b i AND PAGE_PHYS_MASK)))"

text \<open>The physical address and the flags that an entry of level \<open>l\<close> gives a virtual address.\<close>

definition leaf :: "nat \<Rightarrow> u64 \<Rightarrow> u64 \<Rightarrow> u64 \<times> u64" where
  "leaf l e v = ((e AND PAGE_PHYS_MASK AND NOT (mask (12 + 9 * l))) OR (v AND mask (12 + 9 * l)), e AND NOT (PAGE_PHYS_MASK OR PAGE_HUGE))"

fun view :: "nat \<Rightarrow> table_mem \<Rightarrow> u64 \<Rightarrow> u64 \<Rightarrow> (u64 \<times> u64) option" where
  "view 0 m b v = (let e = m b (table_index 0 v) in if bit e 0 then Some (leaf 0 e v) else None)"
| "view (Suc l) m b v =
     (let e = m b (table_index (Suc l) v)
      in if \<not> bit e 0 then None else if bit e 7 then Some (leaf (Suc l) e v) else view l m (e AND PAGE_PHYS_MASK) v)"

lemma table_index_less [simp]: "table_index l v < 512"
proof -
  have "unat (x AND 0x1FF) \<le> unat (0x1FF :: u64)" for x :: u64 by (rule word_le_nat_alt [THEN iffD1]) (rule word_and_le1)
  then show ?thesis unfolding table_index_def by (rule le_less_trans) simp
qed

lemma tables_Suc: "tables (Suc l) m b = b # concat (map (\<lambda>i. below l m (m b i)) [0..<512])"
  by (simp add: below_def)

lemma tables_root [simp]: "b \<in> set (tables l m b)"
  by (cases l) auto

lemma set_tables: "set (tables (Suc l) m b) = insert b (\<Union>i < 512. set (below l m (m b i)))"
  unfolding tables_Suc by (auto simp: lessThan_def)

lemma distinct_concat_upt:
  "distinct (concat (map f [0..<n])) \<longleftrightarrow> (\<forall>i < n. distinct (f i)) \<and> (\<forall>i < n. \<forall>j < n. i \<noteq> j \<longrightarrow> set (f i) \<inter> set (f j) = {})"
proof (induction n)
  case (Suc n)
  have "distinct (concat (map f [0..<Suc n])) \<longleftrightarrow> distinct (concat (map f [0..<n])) \<and> distinct (f n) \<and> (\<forall>i < n. set (f i) \<inter> set (f n) = {})"
    by (auto simp: disjoint_iff Bex_def)
  also have "\<dots> \<longleftrightarrow> (\<forall>i < Suc n. distinct (f i)) \<and> (\<forall>i < Suc n. \<forall>j < Suc n. i \<noteq> j \<longrightarrow> set (f i) \<inter> set (f j) = {})"
    unfolding Suc.IH All_less_Suc by blast
  finally show ?case .
qed simp

lemma distinct_tables:
  "distinct (tables (Suc l) m b) \<longleftrightarrow> (\<forall>i < 512. b \<notin> set (below l m (m b i)) \<and> distinct (below l m (m b i))) \<and>
     (\<forall>i < 512. \<forall>j < 512. i \<noteq> j \<longrightarrow> set (below l m (m b i)) \<inter> set (below l m (m b j)) = {})"
  unfolding tables_Suc distinct.simps distinct_concat_upt by (auto simp: lessThan_def)

declare tables.simps(2) [simp del]

lemma below_None [simp]: "\<not> bit e 0 \<Longrightarrow> below l m e = []" "bit e 7 \<Longrightarrow> below l m e = []"
  by (auto simp: below_def child_def)

lemma below_Some: "bit e 0 \<Longrightarrow> \<not> bit e 7 \<Longrightarrow> below l m e = tables l m (e AND PAGE_PHYS_MASK)"
  by (simp add: below_def child_def)

text \<open>What a table gives depends on its tree only.\<close>

lemma tables_frame:
  assumes "\<And>t. t \<in> set (tables l m b) \<Longrightarrow> m' t = m t"
  shows "tables l m' b = tables l m b" and "sane l m' b = sane l m b" and "view l m' b v = view l m b v"
proof -
  have "tables l m' b = tables l m b \<and> sane l m' b = sane l m b \<and> (\<forall>v. view l m' b v = view l m b v)"
    using assms
  proof (induction l arbitrary: b)
    case (Suc l)
    have b: "m' b = m b" using Suc.prems by simp
    have IH: "tables l m' c = tables l m c \<and> sane l m' c = sane l m c \<and> (\<forall>v. view l m' c v = view l m c v)"
      if "i < 512" "bit (m b i) 0" "\<not> bit (m b i) 7" "c = m b i AND PAGE_PHYS_MASK" for i c
    proof (rule Suc.IH)
      fix t
      assume "t \<in> set (tables l m c)"
      then have "t \<in> set (below l m (m b i))" using that by (simp add: below_Some)
      then have "t \<in> set (tables (Suc l) m b)" using that(1) by (auto simp: set_tables)
      then show "m' t = m t" by (rule Suc.prems)
    qed
    have "below l m' (m b i) = below l m (m b i)" if "i < 512" for i
      using IH [OF that] by (cases "bit (m b i) 0 \<and> \<not> bit (m b i) 7") (auto simp: below_Some)
    then have "tables (Suc l) m' b = tables (Suc l) m b" by (auto simp: tables_Suc b intro!: arg_cong [of _ _ concat])
    moreover have "sane (Suc l) m' b = sane (Suc l) m b" using IH by (auto simp: b)
    moreover have "view (Suc l) m' b v = view (Suc l) m b v" for v
      using IH [of "table_index (Suc l) v"] by (simp add: b Let_def)
    ultimately show ?case by blast
  qed simp
  then show "tables l m' b = tables l m b" "sane l m' b = sane l m b" "view l m' b v = view l m b v" by blast+
qed

lemma below_frame: "(\<And>t. t \<in> set (below l m e) \<Longrightarrow> m' t = m t) \<Longrightarrow> below l m' e = below l m e"
  using tables_frame(1) [of l m "e AND PAGE_PHYS_MASK" m'] by (auto simp: below_def child_def)

text \<open>A change of one slot of a table and of the tree below it.\<close>

lemma slot_change:
  assumes d: "distinct (tables (Suc l) m b)" and s: "sane (Suc l) m b" and i: "i < 512"
    and m': "m' b = (m b)(i := e)" "\<forall>t \<in> set (tables (Suc l) m b). t \<noteq> b \<longrightarrow> t \<notin> set (below l m (m b i)) \<longrightarrow> m' t = m t"
    and n: "distinct (below l m' e)" "set (below l m' e) \<subseteq> set (below l m (m b i)) \<union> F" "F \<inter> set (tables (Suc l) m b) = {}"
    and se: "bit e 0 \<longrightarrow> (if bit e 7 then Suc l \<le> 2 \<and> e AND PAGE_PHYS_MASK AND mask (12 + 9 * Suc l) = 0 \<and> page_bits e else sane l m' (e AND PAGE_PHYS_MASK))"
  shows "distinct (tables (Suc l) m' b)" and "set (tables (Suc l) m' b) \<subseteq> set (tables (Suc l) m b) \<union> set (below l m' e)" and "sane (Suc l) m' b"
    and "table_index (Suc l) v \<noteq> i \<Longrightarrow> view (Suc l) m' b v = view (Suc l) m b v"
proof -
  have dj: "t \<noteq> b \<and> t \<notin> set (below l m (m b i))" if "j < 512" "j \<noteq> i" "t \<in> set (below l m (m b j))" for t j
    using that i d unfolding distinct_tables by blast
  have fr: "m' t = m t" if "j < 512" "j \<noteq> i" "t \<in> set (below l m (m b j))" for t j
    using dj [OF that] that by (intro m'(2) [rule_format]) (auto simp: set_tables)
  have o: "below l m' (m' b j) = below l m (m b j)" if "j < 512" "j \<noteq> i" for j
    using that fr below_frame [of l m "m b j" m'] m'(1) by auto
  have oi: "below l m' (m' b i) = below l m' e" using m'(1) by simp
  have Fb: "b \<notin> F" "F \<inter> set (below l m (m b j)) = {}" if "j < 512" for j
    using n(3) that by (auto simp: set_tables)
  show "distinct (tables (Suc l) m' b)"
    unfolding distinct_tables
  proof (intro conjI allI impI)
    fix j :: nat
    assume j: "j < 512"
    have "b \<notin> set (below l m (m b j))" using d j unfolding distinct_tables by blast
    then show "b \<notin> set (below l m' (m' b j))" using n(2) Fb(1) [OF j] o [OF j] oi by (cases "j = i") auto
    show "distinct (below l m' (m' b j))" using d j n(1) o oi unfolding distinct_tables by (cases "j = i") auto
    fix k :: nat
    assume k: "k < 512" "j \<noteq> k"
    have dd: "set (below l m (m b j)) \<inter> set (below l m (m b k)) = {}" using d j k unfolding distinct_tables by blast
    show "set (below l m' (m' b j)) \<inter> set (below l m' (m' b k)) = {}"
      using dd n(2) Fb(2) [OF j] Fb(2) [OF k(1)] o [OF j] o [OF k(1)] oi k(2) by (cases "j = i"; cases "k = i") auto
  qed
  show "set (tables (Suc l) m' b) \<subseteq> set (tables (Suc l) m b) \<union> set (below l m' e)"
  proof
    fix t
    assume "t \<in> set (tables (Suc l) m' b)"
    then consider "t = b" | j where "j < 512" "t \<in> set (below l m' (m' b j))" by (auto simp: set_tables)
    then show "t \<in> set (tables (Suc l) m b) \<union> set (below l m' e)"
    proof cases
      case 2
      then show ?thesis using o [of j] oi by (cases "j = i") (auto simp: set_tables)
    qed simp
  qed
  have so: "sane l m' c = sane l m c" "view l m' c v = view l m c v"
    if "j < 512" "j \<noteq> i" "bit (m b j) 0" "\<not> bit (m b j) 7" "c = m b j AND PAGE_PHYS_MASK" for j c v
    using that fr [OF that(1,2)] by (auto simp: below_Some intro!: tables_frame)
  show "sane (Suc l) m' b"
    unfolding sane.simps
  proof (intro allI impI)
    fix j :: nat
    assume j: "j < 512" "bit (m' b j) 0"
    show "if bit (m' b j) 7 then Suc l \<le> 2 \<and> m' b j AND PAGE_PHYS_MASK AND mask (12 + 9 * Suc l) = 0 \<and> page_bits (m' b j) else sane l m' (m' b j AND PAGE_PHYS_MASK)"
    proof (cases "j = i")
      case True
      then show ?thesis using se j m'(1) by (cases "bit e 7") simp_all
    next
      case False
      then show ?thesis using s j m'(1) so(1) [of j] by auto
    qed
  qed
  show "view (Suc l) m' b v = view (Suc l) m b v" if "table_index (Suc l) v \<noteq> i"
    using that m'(1) so(2) [of "table_index (Suc l) v"] by (simp add: Let_def)
qed

section \<open>Frames\<close>

text \<open>Physical addresses have at most 52 bits, and the allocator is in a state of its own invariant.\<close>

definition phys_ok :: "phys \<Rightarrow> bool" where
  "phys_ok P \<longleftrightarrow> phys_inv P \<and> total_blocks P \<le> 2 ^ 40"

abbreviation free_blocks :: "phys \<Rightarrow> nat" where
  "free_blocks \<equiv> pys_base_get_free_block_count"

definition frame :: "u64 \<Rightarrow> bool" where
  "frame t \<longleftrightarrow> t AND PAGE_PHYS_MASK = t"

definition in_use :: "phys \<Rightarrow> u64 \<Rightarrow> bool" where
  "in_use P t \<longleftrightarrow> frame t \<and> bit_used (bitmap_base P) (unat t div BLOCK_SIZE)"

lemma free_blocks_filter: "free_blocks P = length (filter (\<lambda>i. \<not> bit_used (bitmap_base P) i) [0..<total_blocks P])"
proof -
  have "fold (\<lambda>i c. if q i then Suc c else c) xs a = a + length (filter q xs)" for q :: "nat \<Rightarrow> bool" and xs a
    by (induction xs arbitrary: a) auto
  then show ?thesis by (simp add: pys_base_get_free_block_count_def)
qed

lemma free_blocks_card: "free_blocks P = card {i. i < total_blocks P \<and> \<not> bit_used (bitmap_base P) i}"
proof -
  have "{i. i < total_blocks P \<and> \<not> bit_used (bitmap_base P) i} = set (filter (\<lambda>i. \<not> bit_used (bitmap_base P) i) [0..<total_blocks P])" by auto
  also have "card \<dots> = length (filter (\<lambda>i. \<not> bit_used (bitmap_base P) i) [0..<total_blocks P])" by (rule distinct_card) simp
  finally show ?thesis by (simp add: free_blocks_filter)
qed

lemma frame_mod:
  assumes "frame t"
  shows "unat t mod BLOCK_SIZE = 0"
proof -
  have "take_bit 12 t = 0" using assms unfolding frame_def by (intro bit_eqI) (metis bit_PHYS_MASK bit_0_eq bit_and_iff bit_take_bit_iff bot_apply bot_bool_def not_le)
  then have "take_bit 12 (unat t) = 0" by (metis unsigned_0 unsigned_take_bit_eq)
  then show ?thesis by (simp add: take_bit_eq_mod BLOCK_SIZE_def)
qed

lemma frame_block: "frame t \<Longrightarrow> frame u \<Longrightarrow> unat t div BLOCK_SIZE = unat u div BLOCK_SIZE \<Longrightarrow> t = u"
  using frame_mod [of t] frame_mod [of u] by (metis div_mult_mod_eq word_unat_eq_iff)

lemma block_frame:
  assumes "p < 2 ^ 40"
  shows "frame (of_nat (p * BLOCK_SIZE))" and "unat (of_nat (p * BLOCK_SIZE) :: u64) = p * BLOCK_SIZE"
proof -
  have le: "p * BLOCK_SIZE < 2 ^ 52" using assms by (simp add: BLOCK_SIZE_def)
  then show u: "unat (of_nat (p * BLOCK_SIZE) :: u64) = p * BLOCK_SIZE" by (simp add: unat_of_nat del: of_nat_mult)
  have "bit (of_nat (p * BLOCK_SIZE) :: u64) n \<Longrightarrow> 12 \<le> n \<and> n < 52" for n
  proof -
    assume b: "bit (of_nat (p * BLOCK_SIZE) :: u64) n"
    then have "bit (unat (of_nat (p * BLOCK_SIZE) :: u64)) n" by (simp only: bit_unsigned_iff possible_bit_nat simp_thms)
    then have n: "bit (p * 2 ^ 12) n" unfolding u by (simp add: BLOCK_SIZE_def)
    have "n < 52"
    proof (rule ccontr)
      assume "\<not> n < 52"
      then have "(2 :: nat) ^ 52 \<le> 2 ^ n" by (intro power_increasing) auto
      then have "p * 2 ^ 12 < 2 ^ n" using le by (simp add: BLOCK_SIZE_def)
      then show False using n by (simp add: bit_iff_odd)
    qed
    moreover have "bit (push_bit 12 p) n" using n by (simp only: push_bit_eq_mult)
    ultimately show ?thesis by (auto simp: bit_push_bit_iff)
  qed
  then show "frame (of_nat (p * BLOCK_SIZE))" unfolding frame_def by (intro bit_eqI) (auto simp: bit_and_iff)
qed

lemma new_table_ok:
  assumes ok: "phys_ok (pg_phys s)" and free: "0 < free_blocks (pg_phys s)"
  obtains P t where "new_table f s = (s\<lparr>pg_phys := P, pg_mem := (pg_mem s)(t := f)\<rparr>, t)" "phys_ok P" "frame t"
    "\<not> in_use (pg_phys s) t" "\<And>u. in_use P u \<longleftrightarrow> in_use (pg_phys s) u \<or> u = t" "Suc (free_blocks P) = free_blocks (pg_phys s)"
proof -
  let ?S = "pg_phys s"
  let ?u = "bit_used (bitmap_base ?S)"
  have inv: "phys_inv ?S" "total_blocks ?S \<le> 2 ^ 40" using ok by (auto simp: phys_ok_def)
  obtain P r where pr: "phys_pages 1 ?S = (P, r)" by (cases "phys_pages 1 ?S")
  obtain j where "j < total_blocks ?S" "\<not> ?u j"
    using free unfolding free_blocks_card by (metis (no_types, lifting) card.empty empty_Collect_eq less_irrefl)
  then have "free_run ?u (total_blocks ?S) 1 j" by (auto simp: free_run_def)
  then have "first_fit ?u (total_blocks ?S) 1 \<noteq> None" by (auto simp: first_fit_def find_None_iff free_run_iff)
  then obtain p where p: "first_fit ?u (total_blocks ?S) 1 = Some p" by blast
  have pf: "p < total_blocks ?S" "\<not> ?u p" using first_fit_SomeD [OF p] by (auto simp: free_run_iff)
  have p0: "p \<noteq> 0" using pf(2) inv(1) by (metis phys_inv_def)
  have e: "phys_base_alloc 1 ?S = (P, p * BLOCK_SIZE)" "r = Some p"
  proof -
    have "phys_base_alloc 1 ?S = (?S\<lparr>bitmap_base := fold set_bit_at [p..<p + 1] (bitmap_base ?S)\<rparr>, p * BLOCK_SIZE)"
      using inv(1) p by (subst phys_base_alloc_eq) (auto simp: phys_inv_def)
    then show "phys_base_alloc 1 ?S = (P, p * BLOCK_SIZE)" "r = Some p" using pr p0 by (auto simp: phys_pages_def BLOCK_SIZE_def)
  qed
  note a = pp.alloc_some [OF inv(1) pr [unfolded e(2)]]
  have tot: "total_blocks P = total_blocks ?S" using pr inv(1) by (auto elim!: phys_pages_cases)
  let ?t = "of_nat (p * BLOCK_SIZE) :: u64"
  have t: "frame ?t" "unat ?t div BLOCK_SIZE = p" using block_frame [of p] pf(1) inv(2) by (auto simp: BLOCK_SIZE_def)
  have used: "bit_used (bitmap_base P) i \<longleftrightarrow> ?u i \<or> i = p" for i using a by auto
  have "{i. i < total_blocks ?S \<and> \<not> ?u i} = insert p {i. i < total_blocks P \<and> \<not> bit_used (bitmap_base P) i}"
    using pf used tot by auto
  then have "Suc (free_blocks P) = free_blocks ?S" unfolding free_blocks_card by (simp add: used)
  moreover have "in_use P u \<longleftrightarrow> in_use ?S u \<or> u = ?t" for u
    using used [of "unat u div BLOCK_SIZE"] t frame_block [of u ?t] by (auto simp: in_use_def)
  moreover have "new_table f s = (s\<lparr>pg_phys := P, pg_mem := (pg_mem s)(?t := f)\<rparr>, ?t)" unfolding new_table_def e(1) by simp
  moreover have "\<not> in_use ?S ?t" using pf(2) t by (simp add: in_use_def)
  ultimately show ?thesis using that [of ?t P] a inv tot t by (simp add: phys_ok_def)
qed

section \<open>Splitting a huge page\<close>

lemma aligned_bit: "e AND PAGE_PHYS_MASK AND mask k = 0 \<Longrightarrow> 12 \<le> n \<Longrightarrow> n < 52 \<Longrightarrow> n < k \<Longrightarrow> \<not> bit e n" for e :: u64
  by (drule arg_cong [where f = "\<lambda>w. bit w n"]) (simp add: bit_and_iff bit_mask_iff)

lemma bit_small: "bit j k \<Longrightarrow> j < 512 \<Longrightarrow> k < 9" for j :: nat
proof (rule ccontr)
  assume "bit j k" "j < 512" "\<not> k < 9"
  then have "(2 :: nat) ^ 9 \<le> 2 ^ k" by (intro power_increasing) auto
  then have "j < 2 ^ k" using \<open>j < 512\<close> by simp
  then show False using \<open>bit j k\<close> by (simp add: bit_iff_odd)
qed

lemma bit_split:
  assumes l: "l \<le> 1" and j: "j < 512" and e: "e AND PAGE_PHYS_MASK AND mask (12 + 9 * Suc l) = 0"
  shows "bit (split_huge (Suc l) e j) n \<longleftrightarrow>
    (if 12 \<le> n \<and> n < 52 then bit e n \<or> 12 + 9 * l \<le> n \<and> bit j (n - (12 + 9 * l)) else bit e n \<and> \<not> (l = 0 \<and> n = 7))"
proof -
  define x :: u64 where "x = push_bit (12 + 9 * l) (of_nat j)"
  have bx: "bit x n \<longleftrightarrow> 12 + 9 * l \<le> n \<and> n < 64 \<and> bit j (n - (12 + 9 * l))" for n
    by (auto simp: x_def bit_push_bit_iff bit_of_nat_iff)
  have xb: "12 \<le> n \<and> n < 12 + 9 * Suc l" if "bit x n" for n
    using that bit_small [OF _ j, of "n - (12 + 9 * l)"] by (auto simp: bx)
  have step: "of_nat j * (if Suc l = 2 then PAGE_SIZE_2MB else PAGE_SIZE_4KB) = x"
    using l by (cases l) (auto simp: x_def page_size_defs push_bit_eq_mult)
  have add: "(e AND PAGE_PHYS_MASK) + x = (e AND PAGE_PHYS_MASK) OR x"
  proof (rule disjunctive_add)
    fix n
    show "\<not> bit (e AND PAGE_PHYS_MASK) n \<or> \<not> bit x n"
      using aligned_bit [OF e, of n] xb [of n] by (auto simp: bit_and_iff)
  qed
  have h: "split_huge (Suc l) e j = (let w = (e AND PAGE_PHYS_MASK OR x) OR (e AND NOT PAGE_PHYS_MASK) in if l = 0 then w AND NOT PAGE_HUGE else w)"
    unfolding split_huge_def Let_def step add by simp
  have lo: "bit e n \<Longrightarrow> n < 64" using bit_imp_le_length [of e n] by simp
  show ?thesis
    using xb [of n] l lo aligned_bit [OF e, of n] unfolding h by (auto simp: Let_def bit_and_iff bit_or_iff bit_not_iff bx)
qed

lemma bit_index: "bit (table_index l v) k \<longleftrightarrow> k < 9 \<and> bit v (12 + 9 * l + k)"
proof -
  have "x AND 0x1FF = take_bit 9 x" for x :: u64 by (simp add: take_bit_eq_mask mask_eq_decr_exp)
  then show ?thesis unfolding table_index_def by (simp add: bit_unsigned_iff bit_take_bit_iff bit_drop_bit_eq add.commute)
qed

lemma split_leaf:
  assumes l: "l \<le> 1" and e: "e AND PAGE_PHYS_MASK AND mask (12 + 9 * Suc l) = 0"
  shows "leaf l (split_huge (Suc l) e (table_index l v)) v = leaf (Suc l) e v"
proof -
  note b = bit_split [OF l table_index_less e]
  have "(split_huge (Suc l) e (table_index l v) AND PAGE_PHYS_MASK AND NOT (mask (12 + 9 * l))) OR (v AND mask (12 + 9 * l)) =
      (e AND PAGE_PHYS_MASK AND NOT (mask (12 + 9 * Suc l))) OR (v AND mask (12 + 9 * Suc l))"
  proof (rule bit_eqI)
    fix n
    assume "possible_bit TYPE(64 word) n"
    then have n: "n < 64" by simp
    show "bit ((split_huge (Suc l) e (table_index l v) AND PAGE_PHYS_MASK AND NOT (mask (12 + 9 * l))) OR (v AND mask (12 + 9 * l))) n =
      bit ((e AND PAGE_PHYS_MASK AND NOT (mask (12 + 9 * Suc l))) OR (v AND mask (12 + 9 * Suc l))) n"
      using n l aligned_bit [OF e, of n] by (auto simp: bit_and_iff bit_or_iff bit_not_iff bit_mask_iff b bit_index)
  qed
  moreover have "split_huge (Suc l) e (table_index l v) AND NOT (PAGE_PHYS_MASK OR PAGE_HUGE) = e AND NOT (PAGE_PHYS_MASK OR PAGE_HUGE)"
    by (rule bit_eqI) (auto simp: bit_and_iff bit_or_iff bit_not_iff b)
  ultimately show ?thesis by (simp add: leaf_def)
qed

section \<open>The mapping walk\<close>

declare view.simps [simp del] sane.simps [simp del] mmap_walk.simps [simp del]

lemmas level_simps = view.simps sane.simps mmap_walk.simps Let_def

definition pt_ok :: "nat \<Rightarrow> paging \<Rightarrow> u64 \<Rightarrow> bool" where
  "pt_ok l s b \<longleftrightarrow> phys_ok (pg_phys s) \<and> sane l (pg_mem s) b \<and> distinct (tables l (pg_mem s) b) \<and>
     (\<forall>t \<in> set (tables l (pg_mem s) b). in_use (pg_phys s) t)"

text \<open>Pages stay in use, and of those in use before only the pages of \<open>T\<close> may have changed.\<close>

definition grows :: "u64 set \<Rightarrow> paging \<Rightarrow> paging \<Rightarrow> bool" where
  "grows T s s' \<longleftrightarrow> phys_ok (pg_phys s') \<and> pg_kernel s' = pg_kernel s \<and>
     (\<forall>t. in_use (pg_phys s) t \<longrightarrow> in_use (pg_phys s') t \<and> (t \<notin> T \<longrightarrow> pg_mem s' t = pg_mem s t))"

lemma grows_trans: "grows T s s1 \<Longrightarrow> grows U s1 s2 \<Longrightarrow> U \<subseteq> T \<union> {t. \<not> in_use (pg_phys s) t} \<Longrightarrow> grows T s s2"
  by (fastforce simp: grows_def)

lemma entry_frame [simp]:
  assumes "frame t" and "sw = PAGE_PRESENT OR PAGE_WRITABLE OR (flags AND PAGE_USER)"
  shows "(t OR sw) AND PAGE_PHYS_MASK = t" and "bit (t OR sw) 0" and "\<not> bit (t OR sw) 7"
proof -
  have t: "bit t n \<Longrightarrow> 12 \<le> n \<and> n < 52" for n
    using assms(1) unfolding frame_def by (metis bit_PHYS_MASK bit_and_iff)
  show "(t OR sw) AND PAGE_PHYS_MASK = t" using t by (intro bit_eqI) (auto simp: assms(2) bit_and_iff bit_or_iff)
  show "bit (t OR sw) 0" "\<not> bit (t OR sw) 7" using t [of 7] by (auto simp: assms(2) bit_and_iff bit_or_iff)
qed

lemma entry_more:
  assumes "sw = PAGE_PRESENT OR PAGE_WRITABLE OR (flags AND PAGE_USER)"
  shows "(e OR sw) AND PAGE_PHYS_MASK = e AND PAGE_PHYS_MASK" and "bit (e OR sw) 0" and "bit (e OR sw) 7 = bit e 7"
proof -
  show "(e OR sw) AND PAGE_PHYS_MASK = e AND PAGE_PHYS_MASK" by (rule bit_eqI) (auto simp: assms bit_and_iff bit_or_iff)
  show "bit (e OR sw) 0" "bit (e OR sw) 7 = bit e 7" by (auto simp: assms bit_and_iff bit_or_iff)
qed

text \<open>The state after a slot was opened for the walk: \<open>c\<close> is the table it goes on with.\<close>

definition opened :: "nat \<Rightarrow> paging \<Rightarrow> u64 \<Rightarrow> nat \<Rightarrow> paging \<Rightarrow> u64 \<Rightarrow> u64 \<Rightarrow> bool" where
  "opened l s b i s1 e c \<longleftrightarrow> pg_mem s1 b = (pg_mem s b)(i := e) \<and> bit e 0 \<and> \<not> bit e 7 \<and> c = e AND PAGE_PHYS_MASK \<and>
     pt_ok l s1 c \<and> grows {b} s s1 \<and>
     set (tables l (pg_mem s1) c) \<subseteq> set (below l (pg_mem s) (pg_mem s b i)) \<union> {t. \<not> in_use (pg_phys s) t} \<and>
     (\<forall>v. table_index (Suc l) v = i \<longrightarrow> view l (pg_mem s1) c v = view (Suc l) (pg_mem s) b v) \<and>
     free_blocks (pg_phys s) \<le> Suc (free_blocks (pg_phys s1))"

lemma openedD:
  assumes "opened l s b i s1 e c"
  shows "pg_mem s1 b = (pg_mem s b)(i := e)" and "bit e 0" and "\<not> bit e 7" and "c = e AND PAGE_PHYS_MASK" and "pt_ok l s1 c" and "grows {b} s s1"
    and "set (tables l (pg_mem s1) c) \<subseteq> set (below l (pg_mem s) (pg_mem s b i)) \<union> {t. \<not> in_use (pg_phys s) t}"
    and "table_index (Suc l) v = i \<Longrightarrow> view l (pg_mem s1) c v = view (Suc l) (pg_mem s) b v"
    and "free_blocks (pg_phys s) \<le> Suc (free_blocks (pg_phys s1))"
  using assms unfolding opened_def by blast+

lemma open_fresh:
  assumes P: "phys_ok (pg_phys s)" and free: "0 < free_blocks (pg_phys s)" and b: "in_use (pg_phys s) b"
    and sw: "sw = PAGE_PRESENT OR PAGE_WRITABLE OR (flags AND PAGE_USER)"
    and tab: "\<And>m t. m t = f \<Longrightarrow> tables l m t = [t] \<and> sane l m t \<and> (\<forall>v. table_index (Suc l) v = i \<longrightarrow> view l m t v = view (Suc l) (pg_mem s) b v)"
  shows "\<exists>e c. opened l s b i (case new_table f s of (s1, nxt) \<Rightarrow> set_entry b i (nxt OR sw) s1) e c"
proof -
  obtain P' t where t: "new_table f s = (s\<lparr>pg_phys := P', pg_mem := (pg_mem s)(t := f)\<rparr>, t)" "phys_ok P'" "frame t"
    "\<not> in_use (pg_phys s) t" "\<And>u. in_use P' u \<longleftrightarrow> in_use (pg_phys s) u \<or> u = t" "Suc (free_blocks P') = free_blocks (pg_phys s)"
    using new_table_ok [OF P free] by metis
  have tb: "t \<noteq> b" using t(4) b by blast
  let ?s1 = "set_entry b i (t OR sw) (s\<lparr>pg_phys := P', pg_mem := (pg_mem s)(t := f)\<rparr>)"
  have m1: "pg_mem ?s1 b = (pg_mem s b)(i := t OR sw)" "pg_mem ?s1 t = f" "\<And>u. u \<noteq> b \<Longrightarrow> u \<noteq> t \<Longrightarrow> pg_mem ?s1 u = pg_mem s u"
    "pg_phys ?s1 = P'" "pg_kernel ?s1 = pg_kernel s"
    using tb by (auto simp: set_entry_def)
  have "pt_ok l ?s1 t" using tab [of "pg_mem ?s1" t] m1 t by (simp add: pt_ok_def)
  moreover have "grows {b} s ?s1" using m1 t by (auto simp: grows_def)
  ultimately have "opened l s b i ?s1 (t OR sw) t"
    using tab [of "pg_mem ?s1" t] m1 t entry_frame [OF t(3) sw] by (auto simp: opened_def)
  then show ?thesis using t(1) by auto
qed

lemma split_table:
  assumes l: "l \<le> 1" and al: "e AND PAGE_PHYS_MASK AND mask (12 + 9 * Suc l) = 0" and e: "bit e 0" "bit e 7" "page_bits e" and m: "m t = split_huge (Suc l) e"
  shows "tables l m t = [t]" and "sane l m t" and "view l m t v = Some (leaf (Suc l) e v)"
proof -
  note bs = bit_split [OF l _ al]
  have b0: "bit (m t j) 0" "bit (m t j) 7 \<longleftrightarrow> l = 1" if "j < 512" for j using that e l by (auto simp: m bs)
  have a: "m t j AND PAGE_PHYS_MASK AND mask (12 + 9 * l) = 0" if "j < 512" for j
    using aligned_bit [OF al] that by (intro bit_eqI) (auto simp: m bs bit_and_iff bit_mask_iff)
  have pb: "page_bits (m t j)" if "j < 512" for j using that e(3) by (simp add: m bs page_bits_def)
  show "tables l m t = [t]" "sane l m t" using b0 a pb l by (cases l; auto simp: tables_Suc level_simps)+
  have "view l m t v = Some (leaf l (m t (table_index l v)) v)" using b0 [of "table_index l v"] l by (cases l) (auto simp: level_simps)
  then show "view l m t v = Some (leaf (Suc l) e v)" using split_leaf [OF l al, of v] by (simp add: m)
qed

lemma open_entry_ok:
  assumes ok: "pt_ok (Suc l) s b" and l: "l \<le> 2" and i: "i < 512" and free: "0 < free_blocks (pg_phys s)"
    and sw: "sw = PAGE_PRESENT OR PAGE_WRITABLE OR (flags AND PAGE_USER)"
  shows "\<exists>e c. opened l s b i (open_entry (Suc l) b i sw s) e c"
proof -
  let ?m = "pg_mem s" and ?e = "pg_mem s b i"
  have P: "phys_ok (pg_phys s)" and b: "in_use (pg_phys s) b" using ok by (auto simp: pt_ok_def)
  note fresh = open_fresh [OF P free b sw]
  consider "\<not> bit ?e 0" | "bit ?e 0" "bit ?e 7" | "bit ?e 0" "\<not> bit ?e 7" by blast
  then show ?thesis
  proof cases
    case 1
    have "tables l m t = [t] \<and> sane l m t \<and> (\<forall>v. table_index (Suc l) v = i \<longrightarrow> view l m t v = view (Suc l) ?m b v)"
      if "m t = (\<lambda>_. 0)" for m t using that 1 by (cases l) (auto simp: tables_Suc level_simps)
    then show ?thesis using fresh [of "\<lambda>_. 0" l i] 1 by (simp add: open_entry_def)
  next
    case 2
    have "Suc l \<le> 2 \<and> ?e AND PAGE_PHYS_MASK AND mask (12 + 9 * Suc l) = 0 \<and> page_bits ?e" using ok i 2 unfolding pt_ok_def sane.simps by metis
    then have l1: "l \<le> 1" and al: "?e AND PAGE_PHYS_MASK AND mask (12 + 9 * Suc l) = 0" and pb: "page_bits ?e" by auto
    have "tables l m t = [t] \<and> sane l m t \<and> (\<forall>v. table_index (Suc l) v = i \<longrightarrow> view l m t v = view (Suc l) ?m b v)"
      if "m t = split_huge (Suc l) ?e" for m t using split_table [OF l1 al 2 pb, of m t] that 2 by (simp add: level_simps)
    then show ?thesis using fresh [of "split_huge (Suc l) ?e" l i] 2 by (simp add: open_entry_def)
  next
    case 3
    let ?s1 = "set_entry b i (?e OR sw) s" and ?c = "?e AND PAGE_PHYS_MASK"
    have bl: "below l ?m ?e = tables l ?m ?c" using 3 by (rule below_Some)
    have nb: "b \<notin> set (tables l ?m ?c)" "distinct (tables l ?m ?c)" using ok i unfolding pt_ok_def distinct_tables bl [symmetric] by blast+
    have m1: "pg_mem ?s1 b = (?m b)(i := ?e OR sw)" "\<And>u. u \<noteq> b \<Longrightarrow> pg_mem ?s1 u = ?m u" "pg_phys ?s1 = pg_phys s" "pg_kernel ?s1 = pg_kernel s"
      by (auto simp: set_entry_def)
    have "pg_mem ?s1 t = ?m t" if "t \<in> set (tables l ?m ?c)" for t using that nb(1) by (intro m1(2)) blast
    then have fr: "tables l (pg_mem ?s1) ?c = tables l ?m ?c" "sane l (pg_mem ?s1) ?c = sane l ?m ?c" "\<And>v. view l (pg_mem ?s1) ?c v = view l ?m ?c v"
      using tables_frame [of l ?m ?c "pg_mem ?s1"] by blast+
    have "sane l ?m ?c" using ok i 3 unfolding pt_ok_def sane.simps by metis
    moreover have "in_use (pg_phys s) t" if "t \<in> set (tables l ?m ?c)" for t using ok i that bl by (auto simp: pt_ok_def set_tables)
    ultimately have "pt_ok l ?s1 ?c" using nb P fr by (simp add: pt_ok_def m1)
    moreover have "grows {b} s ?s1" using m1 P by (auto simp: grows_def)
    ultimately have "opened l s b i ?s1 (?e OR sw) ?c" using m1 fr bl entry_more [OF sw, of ?e] 3 by (auto simp: opened_def view.simps(2) Let_def)
    then show ?thesis using 3 by (auto simp: open_entry_def)
  qed
qed

text \<open>The level at which the walk writes, and what it writes.\<close>

definition target :: "u64 \<Rightarrow> nat" where
  "target flags = (if has flags PAGE_1GB then 2 else if has flags PAGE_2MB then 1 else 0)"

definition leaf_entry :: "u64 \<Rightarrow> u64 \<Rightarrow> u64" where
  "leaf_entry phys flags = (phys AND PAGE_PHYS_MASK) OR (flags AND PAGE_HW_FLAG) OR (if target flags = 0 then 0 else PAGE_HUGE)"

definition same_piece :: "nat \<Rightarrow> nat \<Rightarrow> u64 \<Rightarrow> u64 \<Rightarrow> bool" where
  "same_piece k l virt v \<longleftrightarrow> (\<forall>j. k \<le> j \<and> j \<le> l \<longrightarrow> table_index j v = table_index j virt)"

definition mapping :: "u64 \<Rightarrow> u64 \<Rightarrow> u64 \<Rightarrow> (u64 \<times> u64) option" where
  "mapping phys flags v = (if bit flags 0 then Some (leaf (target flags) (leaf_entry phys flags) v) else None)"

lemma bit_leaf_entry:
  "bit (leaf_entry phys flags) n \<longleftrightarrow> (12 \<le> n \<and> n < 52 \<and> bit phys n) \<or> (bit flags n \<and> (n < 12 \<and> n \<noteq> 7 \<or> n = 63)) \<or> (target flags \<noteq> 0 \<and> n = 7)"
  by (auto simp: leaf_entry_def bit_or_iff bit_and_iff)

lemma leaf_entry_aligned: "phys AND PAGE_PHYS_MASK AND mask k = 0 \<Longrightarrow> leaf_entry phys flags AND PAGE_PHYS_MASK AND mask k = 0"
  using aligned_bit [of phys k] by (intro bit_eqI) (auto simp: bit_and_iff bit_mask_iff bit_leaf_entry)

lemma target_le: "target flags \<le> 2"
  by (simp add: target_def)

lemma walk_at_target:
  "l = target flags \<Longrightarrow> mmap_walk l b virt phys flags s = set_entry b (table_index l virt) (leaf_entry phys flags) s"
  using mmap_walk.simps(2) [of 1 b virt phys flags s]
  by (cases l) (auto simp: target_def leaf_entry_def level_simps numeral_2_eq_2 [symmetric] split: if_splits)

lemma walk_above_target:
  "target flags \<le> l \<Longrightarrow> mmap_walk (Suc l) b virt phys flags s =
    (let i = table_index (Suc l) virt; s1 = open_entry (Suc l) b i (PAGE_PRESENT OR PAGE_WRITABLE OR (flags AND PAGE_USER)) s
     in mmap_walk l (pg_mem s1 b i AND PAGE_PHYS_MASK) virt phys flags s1)"
  by (auto simp: target_def level_simps split: if_splits)

definition walk_ok :: "nat \<Rightarrow> u64 \<Rightarrow> u64 \<Rightarrow> u64 \<Rightarrow> u64 \<Rightarrow> paging \<Rightarrow> paging \<Rightarrow> bool" where
  "walk_ok l b virt phys flags s s' \<longleftrightarrow> pt_ok l s' b \<and> grows (set (tables l (pg_mem s) b)) s s' \<and>
     set (tables l (pg_mem s') b) \<subseteq> set (tables l (pg_mem s) b) \<union> {t. \<not> in_use (pg_phys s) t} \<and>
     (\<forall>v. view l (pg_mem s') b v = (if same_piece (target flags) l virt v then mapping phys flags v else view l (pg_mem s) b v)) \<and>
     free_blocks (pg_phys s) \<le> free_blocks (pg_phys s') + (l - target flags)"

lemma walk_okD:
  assumes "walk_ok l b virt phys flags s s'"
  shows "pt_ok l s' b" and "grows (set (tables l (pg_mem s) b)) s s'"
    and "set (tables l (pg_mem s') b) \<subseteq> set (tables l (pg_mem s) b) \<union> {t. \<not> in_use (pg_phys s) t}"
    and "view l (pg_mem s') b v = (if same_piece (target flags) l virt v then mapping phys flags v else view l (pg_mem s) b v)"
    and "free_blocks (pg_phys s) \<le> free_blocks (pg_phys s') + (l - target flags)"
  using assms unfolding walk_ok_def by blast+

lemma walk_ok_target:
  assumes ok: "pt_ok l s b" and l: "l = target flags" and al: "phys AND PAGE_PHYS_MASK AND mask (12 + 9 * target flags) = 0"
  shows "walk_ok l b virt phys flags s (mmap_walk l b virt phys flags s)"
proof -
  let ?e = "leaf_entry phys flags" and ?i = "table_index l virt" and ?m = "pg_mem s"
  define s' where "s' = set_entry b ?i ?e s"
  have m': "pg_mem s' b = (?m b)(?i := ?e)" "\<And>t. t \<noteq> b \<Longrightarrow> pg_mem s' t = ?m t" "pg_phys s' = pg_phys s" "pg_kernel s' = pg_kernel s"
    by (auto simp: s'_def set_entry_def)
  have e7: "bit ?e 7 \<longleftrightarrow> l \<noteq> 0" "bit ?e 0 \<longleftrightarrow> bit flags 0" "page_bits ?e" using l by (auto simp: bit_leaf_entry page_bits_def)
  have P: "phys_ok (pg_phys s)" "\<forall>t \<in> set (tables l ?m b). in_use (pg_phys s) t" using ok by (auto simp: pt_ok_def)
  have "pg_mem s' t = ?m t" if "t \<notin> set (tables l ?m b)" for t using that m'(2) [of t] tables_root by metis
  then have g: "grows (set (tables l ?m b)) s s'" using m'(3,4) P by (auto simp: grows_def)
  have res: "distinct (tables l (pg_mem s') b) \<and> set (tables l (pg_mem s') b) \<subseteq> set (tables l ?m b) \<and> sane l (pg_mem s') b \<and>
    (\<forall>v. table_index l v \<noteq> ?i \<longrightarrow> view l (pg_mem s') b v = view l ?m b v)"
  proof (cases l)
    case 0
    then show ?thesis using ok m' e7 by (auto simp: pt_ok_def level_simps)
  next
    case (Suc k)
    have st: "sane (Suc k) ?m b" "distinct (tables (Suc k) ?m b)" using ok Suc by (auto simp: pt_ok_def)
    have be: "below k (pg_mem s') ?e = []" using e7 Suc by simp
    have "Suc k \<le> 2" "?e AND PAGE_PHYS_MASK AND mask (12 + 9 * Suc k) = 0"
      using target_le [of flags] l Suc leaf_entry_aligned [OF al] by auto
    then show ?thesis unfolding Suc
      using slot_change [OF st(2,1), of ?i "pg_mem s'" ?e "{}"] m' be e7 Suc by auto
  qed
  moreover have "view l (pg_mem s') b v = mapping phys flags v" if "table_index l v = ?i" for v
    using that m' e7 unfolding mapping_def l [symmetric] by (cases l) (auto simp: level_simps)
  ultimately have "walk_ok l b virt phys flags s s'"
    using g P m' l unfolding walk_ok_def pt_ok_def same_piece_def by auto
  then show ?thesis using l by (simp add: walk_at_target s'_def)
qed

lemma walk_step:
  assumes ok: "pt_ok (Suc l) s b" and i: "i = table_index (Suc l) virt" and tl: "target flags \<le> l"
    and op: "opened l s b i s1 e c" and w: "walk_ok l c virt phys flags s1 s2"
  shows "walk_ok (Suc l) b virt phys flags s s2"
proof -
  let ?m = "pg_mem s"
  have s: "sane (Suc l) ?m b" "distinct (tables (Suc l) ?m b)" "\<And>t. t \<in> set (tables (Suc l) ?m b) \<Longrightarrow> in_use (pg_phys s) t" and i5: "i < 512"
    using ok i by (auto simp: pt_ok_def)
  have bb: "b \<notin> set (below l ?m (?m b i))" "set (below l ?m (?m b i)) \<subseteq> set (tables (Suc l) ?m b)"
    using s(2) i5 unfolding distinct_tables by (auto simp: set_tables)
  note s1 = openedD(1-4,7,6) [OF op] and w2 = walk_okD(1-3) [OF w]
  have g1: "\<And>t. in_use (pg_phys s) t \<Longrightarrow> in_use (pg_phys s1) t" "\<And>t. in_use (pg_phys s) t \<Longrightarrow> t \<noteq> b \<Longrightarrow> pg_mem s1 t = ?m t"
    using s1(6) by (auto simp: grows_def)
  have g2: "pg_mem s2 t = pg_mem s1 t" if "in_use (pg_phys s1) t" "t \<notin> set (tables l (pg_mem s1) c)" for t
    using w2(2) that by (auto simp: grows_def)
  have tb: "below l (pg_mem s2) e = tables l (pg_mem s2) c" using s1(2-4) by (simp add: below_Some)
  have sub: "set (below l (pg_mem s2) e) \<subseteq> set (below l ?m (?m b i)) \<union> {t. \<not> in_use (pg_phys s) t}"
    using w2(3) s1(5) g1(1) unfolding tb by blast
  have m2b: "pg_mem s2 b = (?m b)(i := e)" using g2 [of b] g1(1) s(3) [of b] bb(1) s1(1,5) by auto
  have m2o: "\<forall>t \<in> set (tables (Suc l) ?m b). t \<noteq> b \<longrightarrow> t \<notin> set (below l ?m (?m b i)) \<longrightarrow> pg_mem s2 t = ?m t"
  proof (intro ballI impI)
    fix t
    assume t: "t \<in> set (tables (Suc l) ?m b)" "t \<noteq> b" "t \<notin> set (below l ?m (?m b i))"
    show "pg_mem s2 t = ?m t" using g1 [OF s(3) [OF t(1)]] g2 [of t] s1(5) s(3) [OF t(1)] t by auto
  qed
  have d: "distinct (below l (pg_mem s2) e)" "{t. \<not> in_use (pg_phys s) t} \<inter> set (tables (Suc l) ?m b) = {}"
    "bit e 0 \<longrightarrow> (if bit e 7 then Suc l \<le> 2 \<and> e AND PAGE_PHYS_MASK AND mask (12 + 9 * Suc l) = 0 \<and> page_bits e else sane l (pg_mem s2) (e AND PAGE_PHYS_MASK))"
    using w2(1) s(3) s1(3,4) unfolding tb by (auto simp: pt_ok_def)
  note sc = slot_change [OF s(2,1) i5 m2b m2o d(1) sub d(2,3)]
  have "grows (set (tables (Suc l) ?m b)) s s1" using s1(6) by (auto simp: grows_def)
  then have g: "grows (set (tables (Suc l) ?m b)) s s2" by (rule grows_trans [OF _ w2(2)]) (use s1(5) bb(2) in blast)
  have "in_use (pg_phys s2) t" if "t \<in> set (tables (Suc l) (pg_mem s2) b)" for t
    using sc(2) that w2(1) s(3) g unfolding tb pt_ok_def grows_def by blast
  then have "pt_ok (Suc l) s2 b" using sc(1,3) g by (simp add: pt_ok_def grows_def)
  moreover have "view (Suc l) (pg_mem s2) b v = (if same_piece (target flags) (Suc l) virt v then mapping phys flags v else view (Suc l) ?m b v)" for v
  proof (cases "table_index (Suc l) v = i")
    case True
    have "same_piece (target flags) (Suc l) virt v \<longleftrightarrow> same_piece (target flags) l virt v"
      using True i by (auto simp: same_piece_def le_Suc_eq)
    moreover have "view (Suc l) (pg_mem s2) b v = view l (pg_mem s2) c v" using True m2b s1(2-4) by (simp add: level_simps)
    ultimately show ?thesis using walk_okD(4) [OF w, of v] openedD(8) [OF op True] by simp
  next
    case False
    then have "\<not> same_piece (target flags) (Suc l) virt v" using tl i by (auto simp: same_piece_def intro!: exI [of _ "Suc l"])
    then show ?thesis using sc(4) [OF False] by simp
  qed
  moreover have "free_blocks (pg_phys s) \<le> free_blocks (pg_phys s2) + (Suc l - target flags)"
    using openedD(9) [OF op] walk_okD(5) [OF w] tl by linarith
  ultimately show ?thesis using g sc(2) sub bb(2) unfolding walk_ok_def by blast
qed

lemma walk_ok_all:
  assumes "pt_ok l s b" and "target flags \<le> l" and "l \<le> 3" and "l \<le> free_blocks (pg_phys s) + target flags"
    and al: "phys AND PAGE_PHYS_MASK AND mask (12 + 9 * target flags) = 0"
  shows "walk_ok l b virt phys flags s (mmap_walk l b virt phys flags s)"
  using assms(1-4)
proof (induction l arbitrary: s b)
  case 0
  then show ?case using walk_ok_target [OF _ _ al] by simp
next
  case (Suc l)
  show ?case
  proof (cases "Suc l = target flags")
    case True
    then show ?thesis using walk_ok_target [OF Suc.prems(1) True al] by simp
  next
    case False
    then have tl: "target flags \<le> l" and l2: "l \<le> 2" and fr: "0 < free_blocks (pg_phys s)" using Suc.prems(2-4) by auto
    let ?i = "table_index (Suc l) virt"
    define s1 where "s1 = open_entry (Suc l) b ?i (PAGE_PRESENT OR PAGE_WRITABLE OR (flags AND PAGE_USER)) s"
    obtain e c where op: "opened l s b ?i s1 e c" using open_entry_ok [OF Suc.prems(1) l2 table_index_less fr refl] unfolding s1_def by blast
    have "walk_ok l c virt phys flags s1 (mmap_walk l c virt phys flags s1)"
      by (rule Suc.IH [OF openedD(5) [OF op] tl]) (use openedD(9) [OF op] Suc.prems in auto)
    then have "walk_ok (Suc l) b virt phys flags s (mmap_walk l c virt phys flags s1)" by (rule walk_step [OF Suc.prems(1) refl tl op])
    moreover have "mmap_walk (Suc l) b virt phys flags s = mmap_walk l c virt phys flags s1"
      using openedD(1,4) [OF op] unfolding walk_above_target [OF tl] Let_def s1_def [symmetric] by simp
    ultimately show ?thesis by simp
  qed
qed

end
