(* ===== verification/Paging_Props.thy ===== *)
theory Paging_Props
  imports Paging_Walk
begin

text \<open>
  What the operations on page tables promise: reading an entry agrees with the translation, mapping one page or a
  range changes exactly the translation of that range, removing and copy-on-write likewise.
\<close>

section \<open>Reading\<close>

text \<open>The entry that the walk finds is the one of every address of the same page.\<close>

lemma get_entry_view:
  assumes "sane l m b" and "l \<le> 3"
  shows "case get_entry_walk l m b v lv of (e, k) \<Rightarrow>
    if bit e 0 then k \<le> 2 \<and> k \<le> l \<and> (bit e 7 \<longleftrightarrow> k \<noteq> 0) \<and> page_bits e \<and> e AND PAGE_PHYS_MASK AND mask (12 + 9 * k) = 0 \<and>
      (\<forall>w. same_piece k l v w \<longrightarrow> view l m b w = Some (leaf k e w))
    else e = 0 \<and> view l m b v = None"
  using assms
proof (induction l arbitrary: b lv)
  case 0
  have "m b (table_index 0 v) AND PAGE_PHYS_MASK AND mask 12 = 0" by (rule bit_eqI) (auto simp: bit_and_iff bit_mask_iff)
  then show ?case using 0 by (auto simp: level_simps same_piece_def)
next
  case (Suc l)
  let ?e = "m b (table_index (Suc l) v)" and ?c = "m b (table_index (Suc l) v) AND PAGE_PHYS_MASK"
  have s: "bit ?e 0 \<longrightarrow> (if bit ?e 7 then Suc l \<le> 2 \<and> ?e AND PAGE_PHYS_MASK AND mask (12 + 9 * Suc l) = 0 \<and> page_bits ?e else sane l m ?c)"
    using Suc.prems(1) unfolding sane.simps by (metis table_index_less)
  consider "\<not> bit ?e 0" | "bit ?e 0" "bit ?e 7" | "bit ?e 0" "\<not> bit ?e 7" by blast
  then show ?case
  proof cases
    case 2
    then have "Suc l = 2 \<or> Suc l = 1" using s by auto
    then show ?thesis using 2 s by (auto simp: level_simps same_piece_def)
  next
    case 3
    have "view (Suc l) m b w = view l m ?c w \<and> same_piece k l v w" if "same_piece k (Suc l) v w" "k \<le> l" for k w
      using that 3 by (auto simp: level_simps same_piece_def)
    then show ?thesis using Suc.IH [of ?c "Suc l"] Suc.prems(2) s 3 by (fastforce simp: level_simps split: prod.splits if_splits)
  qed (simp add: level_simps)
qed

lemma same_piece_refl [simp]: "same_piece k l v v"
  by (simp add: same_piece_def)

abbreviation translate :: "paging \<Rightarrow> u64 \<Rightarrow> u64 \<Rightarrow> (u64 \<times> u64) option" where
  "translate s dir v \<equiv> view 3 (pg_mem s) dir v"

abbreviation dir_ok :: "paging \<Rightarrow> u64 \<Rightarrow> bool" where
  "dir_ok s dir \<equiv> pt_ok 3 s dir"

lemma paddr_masks: "(0x3FFFFFFF :: u64) = mask 30" "(0x1FFFFF :: u64) = mask 21" "(0xFFF :: u64) = mask 12"
  by (simp_all add: mask_eq_decr_exp)

lemma leaf_paddr:
  "k \<le> 2 \<Longrightarrow> (bit e 7 \<longleftrightarrow> k \<noteq> 0) \<Longrightarrow> fst (leaf k e v) =
    (if has e PAGE_HUGE then (e AND PAGE_PHYS_MASK AND NOT (if k = 2 then mask 30 else mask 21)) OR (v AND (if k = 2 then mask 30 else mask 21))
     else (e AND PAGE_PHYS_MASK) OR (v AND mask 12))"
proof -
  have "e AND PAGE_PHYS_MASK AND NOT (mask 12) = e AND PAGE_PHYS_MASK" by (rule bit_eqI) (auto simp: bit_and_iff bit_not_iff bit_mask_iff)
  then show "k \<le> 2 \<Longrightarrow> (bit e 7 \<longleftrightarrow> k \<noteq> 0) \<Longrightarrow> ?thesis" by (auto simp: leaf_def le_Suc_eq numeral_2_eq_2)
qed

lemma get_entry_translate:
  assumes "dir_ok s dir"
  shows "case translate s dir v of
      None \<Rightarrow> paging_get_entry dir v s = 0 \<and> vaddr_to_paddr dir v s = 0
    | Some (p, f) \<Rightarrow> bit (paging_get_entry dir v s) 0 \<and> f = paging_get_entry dir v s AND NOT (PAGE_PHYS_MASK OR PAGE_HUGE) \<and> vaddr_to_paddr dir v s = p"
proof -
  obtain e k where ek: "get_entry_walk 3 (pg_mem s) dir v 0 = (e, k)" by (cases "get_entry_walk 3 (pg_mem s) dir v 0")
  have c: "if bit e 0 then k \<le> 2 \<and> (bit e 7 \<longleftrightarrow> k \<noteq> 0) \<and> translate s dir v = Some (leaf k e v) else e = 0 \<and> translate s dir v = None"
    using get_entry_view [of 3 "pg_mem s" dir v 0] assms ek by (auto simp: pt_ok_def split: if_splits)
  have g: "paging_get_entry dir v s = e" by (simp add: paging_get_entry_def paging_get_entry_ext_def ek)
  show ?thesis
  proof (cases "bit e 0")
    case True
    then have "e \<noteq> 0" by auto
    moreover have "vaddr_to_paddr dir v s = fst (leaf k e v)"
      using True c leaf_paddr [of k e v] \<open>e \<noteq> 0\<close> by (simp add: vaddr_to_paddr_def paging_get_entry_ext_def ek paddr_masks Let_def)
    ultimately show ?thesis using True c g by (auto simp: leaf_def)
  next
    case False
    then show ?thesis using c g by (simp add: vaddr_to_paddr_def paging_get_entry_ext_def ek)
  qed
qed

section \<open>Pages as intervals\<close>

text \<open>The part of a virtual address that the walk looks at.\<close>

definition va :: "u64 \<Rightarrow> nat" where
  "va v = unat (take_bit 48 v)"

lemma va_less: "va v < 2 ^ 48"
  unfolding va_def by (metis take_bit_nat_less_exp unsigned_take_bit_eq)

lemma va_add: "va x + unat y < 2 ^ 48 \<Longrightarrow> va (x + y) = va x + unat y"
proof -
  assume l: "va x + unat y < 2 ^ 48"
  have e: "va z = unat z mod 2 ^ 48" for z by (simp only: va_def unsigned_take_bit_eq) (simp add: take_bit_eq_mod)
  have "va (x + y) = (unat x + unat y) mod 2 ^ 48"
    unfolding e by (simp add: unat_word_ariths mod_mod_cancel)
  also have "\<dots> = (unat x mod 2 ^ 48 + unat y) mod 2 ^ 48" by (simp add: mod_add_left_eq)
  finally show ?thesis using l unfolding e by simp
qed

lemma same_piece_div:
  assumes "k \<le> 3"
  shows "same_piece k 3 virt v \<longleftrightarrow> va v div 2 ^ (12 + 9 * k) = va virt div 2 ^ (12 + 9 * k)"
proof -
  have "same_piece k 3 virt v \<longleftrightarrow> drop_bit (12 + 9 * k) (take_bit 48 v) = drop_bit (12 + 9 * k) (take_bit 48 virt)"
  proof
    assume sp: "same_piece k 3 virt v"
    show "drop_bit (12 + 9 * k) (take_bit 48 v) = drop_bit (12 + 9 * k) (take_bit 48 virt)"
    proof (rule bit_eqI)
      fix n
      let ?j = "k + n div 9"
      have n: "12 + 9 * k + n = 12 + 9 * ?j + n mod 9" by simp
      have "bit v (12 + 9 * k + n) \<longleftrightarrow> bit virt (12 + 9 * k + n)" if "12 + 9 * k + n < 48"
      proof -
        have j: "?j \<le> 3" using that by linarith
        then have "table_index ?j v = table_index ?j virt" using sp by (simp add: same_piece_def)
        then have "bit (table_index ?j v) (n mod 9) = bit (table_index ?j virt) (n mod 9)" by simp
        then show ?thesis unfolding n bit_index by simp
      qed
      then show "bit (drop_bit (12 + 9 * k) (take_bit 48 v)) n = bit (drop_bit (12 + 9 * k) (take_bit 48 virt)) n"
        by (auto simp: bit_drop_bit_eq bit_take_bit_iff)
    qed
  next
    assume eq: "drop_bit (12 + 9 * k) (take_bit 48 v) = drop_bit (12 + 9 * k) (take_bit 48 virt)"
    show "same_piece k 3 virt v"
      unfolding same_piece_def
    proof (intro allI impI)
      fix j
      assume j: "k \<le> j \<and> j \<le> 3"
      have "bit (table_index j v) n = bit (table_index j virt) n" for n
      proof (cases "n < 9")
        case True
        have "bit (drop_bit (12 + 9 * k) (take_bit 48 v)) (9 * (j - k) + n) = bit (drop_bit (12 + 9 * k) (take_bit 48 virt)) (9 * (j - k) + n)"
          using eq by simp
        moreover have "12 + 9 * k + (9 * (j - k) + n) = 12 + 9 * j + n" "12 + 9 * j + n < 48" using j True by auto
        ultimately have "bit v (12 + 9 * j + n) = bit virt (12 + 9 * j + n)" by (simp add: bit_drop_bit_eq bit_take_bit_iff)
        then show ?thesis by (simp add: bit_index)
      qed (simp add: bit_index)
      then show "table_index j v = table_index j virt" by (simp add: bit_eq_iff)
    qed
  qed
  also have "\<dots> \<longleftrightarrow> va v div 2 ^ (12 + 9 * k) = va virt div 2 ^ (12 + 9 * k)"
    unfolding va_def by (simp only: word_unat_eq_iff unat_drop_bit_eq) (simp add: drop_bit_eq_div)
  finally show ?thesis .
qed

lemma div_interval:
  fixes a d x :: nat
  assumes "0 < d" and "a mod d = 0"
  shows "x div d = a div d \<longleftrightarrow> a \<le> x \<and> x < a + d"
proof -
  have a: "a = d * (a div d)" using mult_div_mod_eq [of d a] assms(2) by simp
  have "x div d = a div d" if "a \<le> x" "x < a + d"
    by (rule div_nat_eqI) (use that a in \<open>auto simp: algebra_simps\<close>)
  moreover have "a \<le> x \<and> x < a + d" if "x div d = a div d"
    using mult_div_mod_eq [of d x] mod_less_divisor [OF assms(1), of x] a unfolding that by linarith
  ultimately show ?thesis by blast
qed

lemma va_mod: "m \<le> 48 \<Longrightarrow> va v mod 2 ^ m = unat (take_bit m v)"
proof -
  assume m: "m \<le> 48"
  have "unat (take_bit m v) = take_bit m (unat (take_bit 48 v))"
    using m by (metis min_absorb1 take_bit_take_bit unsigned_take_bit_eq)
  then show ?thesis by (simp add: va_def take_bit_eq_mod)
qed

text \<open>A page or huge page of \<open>2 ^ m\<close> bytes: the entry maps an interval of addresses to consecutive memory.\<close>

lemma leaf_add:
  assumes k: "k \<le> 2" and m: "m = 12 + 9 * k" and p: "take_bit m phys = 0" "unat phys < 2 ^ 52" and a: "take_bit m virt = 0"
    and v: "va virt \<le> va v" "va v < va virt + 2 ^ m"
  shows "fst (leaf k (leaf_entry phys flags) v) = phys + of_nat (va v - va virt)"
proof -
  have m48: "m \<le> 48" using k m by simp
  have pb: "m \<le> n \<and> n < 52" if b: "bit phys n" for n
  proof (rule ccontr)
    assume "\<not> (m \<le> n \<and> n < 52)"
    moreover have "\<not> n < m" using p(1) b by (metis bit_0_eq bit_take_bit_iff bot_apply bot_bool_def)
    ultimately have "(2 :: nat) ^ 52 \<le> 2 ^ n" by (intro power_increasing) auto
    then have "\<not> bit (unat phys) n" using p(2) by (simp add: bit_iff_odd)
    then show False using b by (simp add: bit_unsigned_iff)
  qed
  have z: "va virt mod 2 ^ m = 0" using va_mod [OF m48, of virt] a by simp
  then have "va v div 2 ^ m = va virt div 2 ^ m" using v div_interval [of "2 ^ m" "va virt" "va v"] by simp
  then have "2 ^ m * (va virt div 2 ^ m) + va v mod 2 ^ m = va v" using mult_div_mod_eq [of "2 ^ m" "va v"] by simp
  moreover have "2 ^ m * (va virt div 2 ^ m) = va virt" using mult_div_mod_eq [of "2 ^ m" "va virt"] z by simp
  ultimately have q: "va v mod 2 ^ m = va v - va virt" by linarith
  have t: "take_bit m v = of_nat (va v - va virt)" using va_mod [OF m48, of v] q by (metis of_nat_unat ucast_id)
  have "leaf_entry phys flags AND PAGE_PHYS_MASK AND NOT (mask m) = phys"
    using m k by (intro bit_eqI) (auto simp: bit_and_iff bit_not_iff bit_mask_iff bit_leaf_entry not_less dest: pb)
  moreover have "phys + take_bit m v = phys OR take_bit m v"
    by (intro disjunctive_add) (auto simp: bit_take_bit_iff dest: pb)
  ultimately show ?thesis by (simp add: leaf_def m [symmetric] t [symmetric] take_bit_eq_mask)
qed

lemma leaf_flags: "snd (leaf k (leaf_entry phys flags) v) = flags AND PAGE_HW_FLAG"
  unfolding leaf_def snd_conv by (rule bit_eqI) (auto simp: bit_and_iff bit_or_iff bit_not_iff bit_leaf_entry)

text \<open>The translation after a mapping of \<open>n\<close> bytes at \<open>virt\<close>.\<close>

definition remap :: "u64 \<Rightarrow> u64 \<Rightarrow> nat \<Rightarrow> u64 \<Rightarrow> (u64 \<Rightarrow> (u64 \<times> u64) option) \<Rightarrow> u64 \<Rightarrow> (u64 \<times> u64) option" where
  "remap virt phys n flags f v =
     (if va virt \<le> va v \<and> va v < va virt + n
      then if bit flags 0 then Some (phys + of_nat (va v - va virt), flags AND PAGE_HW_FLAG) else None
      else f v)"

lemma mapping_remap:
  assumes m: "m = 12 + 9 * target flags" and p: "take_bit m phys = 0" "unat phys < 2 ^ 52" and a: "take_bit m virt = 0"
  shows "(if same_piece (target flags) 3 virt v then mapping phys flags v else f v) = remap virt phys (2 ^ m) flags f v"
proof -
  have k: "target flags \<le> 2" and m48: "m \<le> 48" using target_le [of flags] m by auto
  have "va virt mod 2 ^ m = 0" using va_mod [OF m48, of virt] a by simp
  then have "same_piece (target flags) 3 virt v \<longleftrightarrow> va virt \<le> va v \<and> va v < va virt + 2 ^ m"
    using same_piece_div [of "target flags" virt v] k m div_interval [of "2 ^ m" "va virt" "va v"] by simp
  then show ?thesis
    using leaf_add [OF k m p a, of v flags] leaf_flags [of "target flags" phys flags v] by (auto simp: remap_def mapping_def prod_eq_iff)
qed

lemma mmap_internal_ok:
  assumes ok: "dir_ok s dir" and fr: "3 \<le> free_blocks (pg_phys s)" and m: "m = 12 + 9 * target flags"
    and p: "take_bit m phys = 0" "unat phys < 2 ^ 52" and a: "take_bit m virt = 0"
  shows "dir_ok (mmap_internal dir virt phys flags s) dir" and "grows (set (tables 3 (pg_mem s) dir)) s (mmap_internal dir virt phys flags s)"
    and "set (tables 3 (pg_mem (mmap_internal dir virt phys flags s)) dir) \<subseteq> set (tables 3 (pg_mem s) dir) \<union> {t. \<not> in_use (pg_phys s) t}"
    and "translate (mmap_internal dir virt phys flags s) dir v = remap virt phys (2 ^ m) flags (translate s dir) v"
    and "free_blocks (pg_phys s) \<le> free_blocks (pg_phys (mmap_internal dir virt phys flags s)) + 3"
proof -
  have "phys AND PAGE_PHYS_MASK AND mask m = take_bit m phys AND PAGE_PHYS_MASK" by (simp add: take_bit_eq_mask ac_simps)
  then have "phys AND PAGE_PHYS_MASK AND mask (12 + 9 * target flags) = 0" using p(1) m by simp
  then have w: "walk_ok 3 dir virt phys flags s (mmap_internal dir virt phys flags s)"
    unfolding mmap_internal_def using ok fr target_le [of flags] by (intro walk_ok_all) auto
  show "dir_ok (mmap_internal dir virt phys flags s) dir" "grows (set (tables 3 (pg_mem s) dir)) s (mmap_internal dir virt phys flags s)"
    "set (tables 3 (pg_mem (mmap_internal dir virt phys flags s)) dir) \<subseteq> set (tables 3 (pg_mem s) dir) \<union> {t. \<not> in_use (pg_phys s) t}"
    by (rule walk_okD [OF w])+
  show "translate (mmap_internal dir virt phys flags s) dir v = remap virt phys (2 ^ m) flags (translate s dir) v"
    unfolding walk_okD(4) [OF w] by (rule mapping_remap [OF m p a])
  show "free_blocks (pg_phys s) \<le> free_blocks (pg_phys (mmap_internal dir virt phys flags s)) + 3" using walk_okD(5) [OF w] by linarith
qed

section \<open>Ranges\<close>

lemma mod_take_bit: "w mod 2 ^ m = take_bit m w" for w :: u64
  by (simp add: take_bit_eq_mod)

lemma piece_cases:
  assumes fl: "\<not> bit flags 61" "\<not> bit flags 62" and b: "unat bytes = 4096 * N" "0 < N" and a: "take_bit 12 virt = 0" "take_bit 12 phys = 0"
  obtains k psz sf where "piece bytes virt phys = (psz, sf)" "unat psz = 2 ^ (12 + 9 * k)" "512 ^ k \<le> N" "target (flags OR sf) = k"
    "take_bit (12 + 9 * k) virt = 0" "take_bit (12 + 9 * k) phys = 0" "(flags OR sf) AND PAGE_HW_FLAG = flags AND PAGE_HW_FLAG" "bit (flags OR sf) 0 = bit flags 0"
proof -
  have hw: "(flags OR sf) AND PAGE_HW_FLAG = flags AND PAGE_HW_FLAG" if "sf = PAGE_1GB \<or> sf = PAGE_2MB" for sf
    using that by (intro bit_eqI) (auto simp: bit_and_iff bit_or_iff)
  have ps: "PAGE_SIZE_1GB = 2 ^ 30" "PAGE_SIZE_2MB = 2 ^ 21" by (simp_all add: page_size_defs)
  have z: "phys = 0 \<or> phys mod 2 ^ m = 0 \<Longrightarrow> take_bit m phys = 0" "virt mod 2 ^ m = 0 \<Longrightarrow> take_bit m virt = 0" for m
    by (auto simp: mod_take_bit)
  let ?A = "PAGE_SIZE_1GB \<le> bytes \<and> virt mod PAGE_SIZE_1GB = 0 \<and> (phys = 0 \<or> phys mod PAGE_SIZE_1GB = 0)"
  let ?B = "PAGE_SIZE_2MB \<le> bytes \<and> virt mod PAGE_SIZE_2MB = 0 \<and> (phys = 0 \<or> phys mod PAGE_SIZE_2MB = 0)"
  consider ?A | "\<not> ?A" ?B | "\<not> ?A" "\<not> ?B" by blast
  then show thesis
  proof cases
    case 1
    then have "piece bytes virt phys = (PAGE_SIZE_1GB, PAGE_1GB)" unfolding piece_def by (rule if_P)
    then show thesis using 1 z(1) [of 30] z(2) [of 30] b hw fl unfolding ps
      by (intro that [of "2 ^ 30" PAGE_1GB 2]) (auto simp: target_def bit_or_iff word_le_nat_alt)
  next
    case 2
    then have "piece bytes virt phys = (PAGE_SIZE_2MB, PAGE_2MB)" unfolding piece_def by (simp only: if_False if_True simp_thms)
    then show thesis using 2 z(1) [of 21] z(2) [of 21] b hw fl unfolding ps
      by (intro that [of "2 ^ 21" PAGE_2MB 1]) (auto simp: target_def bit_or_iff word_le_nat_alt)
  next
    case 3
    then have "piece bytes virt phys = (PAGE_SIZE_4KB, 0)" unfolding piece_def by (simp only: if_False)
    then show thesis using a b fl by (intro that [of PAGE_SIZE_4KB 0 0]) (auto simp: target_def PAGE_SIZE_4KB_def)
  qed
qed

text \<open>A range was mapped with at most \<open>k\<close> new tables.\<close>

definition range_ok :: "u64 \<Rightarrow> u64 \<Rightarrow> u64 \<Rightarrow> nat \<Rightarrow> u64 \<Rightarrow> nat \<Rightarrow> paging \<Rightarrow> paging \<Rightarrow> bool" where
  "range_ok dir virt phys n flags k s s' \<longleftrightarrow> dir_ok s' dir \<and> grows (set (tables 3 (pg_mem s) dir)) s s' \<and>
     set (tables 3 (pg_mem s') dir) \<subseteq> set (tables 3 (pg_mem s) dir) \<union> {t. \<not> in_use (pg_phys s) t} \<and>
     (\<forall>v. translate s' dir v = remap virt phys n flags (translate s dir) v) \<and> free_blocks (pg_phys s) \<le> free_blocks (pg_phys s') + k"

lemma remap_join:
  assumes "bit flags 0 \<longrightarrow> phys' = phys + psz" and "va virt' = va virt + unat psz \<or> n = 0"
  shows "remap virt' phys' n flags (remap virt phys (unat psz) flags f) v = remap virt phys (unat psz + n) flags f v"
proof -
  have "phys + psz + of_nat (va v - (va virt + unat psz)) = phys + of_nat (va v - va virt)" if "va virt + unat psz \<le> va v"
  proof -
    have "va v - va virt = unat psz + (va v - (va virt + unat psz))" using that by simp
    then have "(of_nat (va v - va virt) :: u64) = of_nat (unat psz) + of_nat (va v - (va virt + unat psz))" by (metis of_nat_add)
    then show ?thesis by (simp add: add.assoc)
  qed
  then show ?thesis using assms by (auto simp: remap_def)
qed

lemma range_trans:
  assumes a: "range_ok dir virt phys (unat psz) flags j s s1" and b: "range_ok dir virt' phys' n flags k s1 s2"
    and c: "bit flags 0 \<longrightarrow> phys' = phys + psz" "va virt' = va virt + unat psz \<or> n = 0"
  shows "range_ok dir virt phys (unat psz + n) flags (j + k) s s2"
proof -
  have "translate s1 dir = remap virt phys (unat psz) flags (translate s dir)" using a by (auto simp: range_ok_def)
  then have "translate s2 dir v = remap virt phys (unat psz + n) flags (translate s dir) v" for v
    using b remap_join [OF c, of "translate s dir" v] by (simp add: range_ok_def)
  moreover have "grows (set (tables 3 (pg_mem s) dir)) s s2" by (rule grows_trans) (use a b in \<open>auto simp: range_ok_def\<close>)
  moreover have "in_use (pg_phys s1) t" if "in_use (pg_phys s) t" for t using a that by (auto simp: range_ok_def grows_def)
  then have "set (tables 3 (pg_mem s2) dir) \<subseteq> set (tables 3 (pg_mem s) dir) \<union> {t. \<not> in_use (pg_phys s) t}"
    using a b unfolding range_ok_def by blast
  ultimately show ?thesis using a b unfolding range_ok_def by auto
qed

lemma page_aligned: "take_bit 12 w = 0 \<longleftrightarrow> unat w mod 4096 = 0" for w :: u64
  by (simp only: word_unat_eq_iff unsigned_take_bit_eq) (simp add: take_bit_eq_mod)

text \<open>What is left of a range after a piece of \<open>512 ^ k\<close> pages.\<close>

lemma range_rest:
  assumes b: "unat bytes = 4096 * N" and z: "unat psz = 4096 * 512 ^ k" "512 ^ k \<le> N"
    and a: "take_bit 12 virt = 0" "take_bit 12 phys = 0" and l: "va virt + unat bytes \<le> 2 ^ 48" "unat phys + unat bytes \<le> 2 ^ 52"
    and c: "phys \<noteq> 0 \<or> \<not> bit flags 0" and p: "phys' = (if phys \<noteq> 0 then phys + psz else phys)"
  shows "unat (bytes - psz) = 4096 * (N - 512 ^ k)" and "unat psz + unat (bytes - psz) = unat bytes"
    and "va (virt + psz) = va virt + unat psz \<or> unat (bytes - psz) = 0" and "va (virt + psz) + unat (bytes - psz) \<le> 2 ^ 48"
    and "unat phys' + unat (bytes - psz) \<le> 2 ^ 52" and "phys' \<noteq> 0 \<or> \<not> bit flags 0" and "bit flags 0 \<longrightarrow> phys' = phys + psz"
    and "take_bit 12 (virt + psz) = 0" and "take_bit 12 phys' = 0"
proof -
  have le: "unat psz \<le> unat bytes" using z b by simp
  then show "unat (bytes - psz) = 4096 * (N - 512 ^ k)" using z(1) b by (simp add: unat_sub word_le_nat_alt diff_mult_distrib2)
  show "unat psz + unat (bytes - psz) = unat bytes" using le by (simp add: unat_sub word_le_nat_alt)
  show "va (virt + psz) = va virt + unat psz \<or> unat (bytes - psz) = 0" "va (virt + psz) + unat (bytes - psz) \<le> 2 ^ 48"
    using va_add [of virt psz] va_less [of "virt + psz"] l(1) le by (cases "va virt + unat psz < 2 ^ 48"; simp add: unat_sub word_le_nat_alt)+
  have "unat (phys + psz) = unat phys + unat psz" using l(2) le by (simp add: unat_word_ariths)
  then show "unat phys' + unat (bytes - psz) \<le> 2 ^ 52" "phys' \<noteq> 0 \<or> \<not> bit flags 0" "bit flags 0 \<longrightarrow> phys' = phys + psz"
    using l(2) c le by (auto simp: p unat_sub word_le_nat_alt unat_eq_0 [symmetric])
  have "take_bit 12 (w + psz) = 0" if "take_bit 12 w = 0" for w
    using that z(1) unfolding page_aligned unat_add_mod_dvd by (simp add: mod_add_eq)
  then show "take_bit 12 (virt + psz) = 0" "take_bit 12 phys' = 0" using a by (simp_all add: p)
qed

lemma mmap_range_loop_ok:
  assumes "dir_ok s dir" and "unat bytes = 4096 * N" and "N \<le> n" and "3 * N \<le> free_blocks (pg_phys s)"
    and "take_bit 12 virt = 0" and "take_bit 12 phys = 0" and "va virt + unat bytes \<le> 2 ^ 48" and "unat phys + unat bytes \<le> 2 ^ 52"
    and "phys \<noteq> 0 \<or> \<not> bit flags 0" and fl: "\<not> bit flags 61" "\<not> bit flags 62"
  shows "\<exists>s'. mmap_range_loop n dir virt phys bytes flags s = Some s' \<and> range_ok dir virt phys (unat bytes) flags (3 * N) s s'"
  using assms(1-9)
proof (induction n arbitrary: s N bytes virt phys)
  case 0
  then have "bytes = 0" by (simp add: unat_eq_0)
  then show ?case using "0.prems" by (auto simp: range_ok_def remap_def pt_ok_def grows_def)
next
  case (Suc n)
  show ?case
  proof (cases "N = 0")
    case True
    then have "bytes = 0" using Suc.prems(2) by (simp add: unat_eq_0)
    then show ?thesis using Suc.prems True by (auto simp: range_ok_def remap_def pt_ok_def grows_def)
  next
    case False
    then have pos: "0 < bytes" and N: "0 < N" using Suc.prems(2) by (auto simp: word_neq_0_conv [symmetric] unat_eq_0 [symmetric])
    obtain k psz sf where pc: "piece bytes virt phys = (psz, sf)" "unat psz = 2 ^ (12 + 9 * k)" "512 ^ k \<le> N" "target (flags OR sf) = k"
      "take_bit (12 + 9 * k) virt = 0" "take_bit (12 + 9 * k) phys = 0" "(flags OR sf) AND PAGE_HW_FLAG = flags AND PAGE_HW_FLAG" "bit (flags OR sf) 0 = bit flags 0"
      using piece_cases [OF fl Suc.prems(2) N Suc.prems(5,6)] by metis
    have szb: "unat psz = 4096 * 512 ^ k" unfolding pc(2) by (simp add: power_add power_mult)
    define phys' where "phys' = (if phys \<noteq> 0 then phys + psz else phys)"
    note rest = range_rest [OF Suc.prems(2) szb pc(3) Suc.prems(5-9) phys'_def]
    define s1 where "s1 = mmap_internal dir virt phys (flags OR sf) s"
    have p52: "unat phys < 2 ^ 52" using Suc.prems(2,8) N by linarith
    have r1: "range_ok dir virt phys (unat psz) flags 3 s s1"
      using mmap_internal_ok [OF Suc.prems(1) _ refl, of "flags OR sf" phys virt] Suc.prems(4) N pc p52
      by (simp add: range_ok_def s1_def remap_def)
    have fr: "3 * (N - 512 ^ k) \<le> free_blocks (pg_phys s1)" "N - 512 ^ k \<le> n" "3 + 3 * (N - 512 ^ k) \<le> 3 * N"
    proof -
      have "0 < (512 :: nat) ^ k" "free_blocks (pg_phys s) \<le> free_blocks (pg_phys s1) + 3" using r1 by (simp_all add: range_ok_def)
      then show "3 * (N - 512 ^ k) \<le> free_blocks (pg_phys s1)" "N - 512 ^ k \<le> n" "3 + 3 * (N - 512 ^ k) \<le> 3 * N"
        using Suc.prems(3,4) pc(3) by linarith+
    qed
    obtain s' where s': "mmap_range_loop n dir (virt + psz) phys' (bytes - psz) flags s1 = Some s'"
      "range_ok dir (virt + psz) phys' (unat (bytes - psz)) flags (3 * (N - 512 ^ k)) s1 s'"
      using Suc.IH [OF _ rest(1) fr(2,1) rest(8,9,4-6)] r1 by (auto simp: range_ok_def)
    have "range_ok dir virt phys (unat psz + unat (bytes - psz)) flags (3 + 3 * (N - 512 ^ k)) s s'"
      by (rule range_trans [OF r1 s'(2) rest(7,3)])
    then have "range_ok dir virt phys (unat bytes) flags (3 * N) s s'" using fr(3) rest(2) by (auto simp: range_ok_def)
    moreover have "mmap_range_loop (Suc n) dir virt phys bytes flags s = Some s'"
      using s'(1) pos pc(1) by (simp add: s1_def phys'_def)
    ultimately show ?thesis by blast
  qed
qed

section \<open>Copy on write\<close>

definition cow_flags :: "u64 \<Rightarrow> u64" where
  "cow_flags f = (f AND NOT PAGE_WRITABLE) OR PAGE_COW"

lemma make_cow_ok:
  assumes ok: "dir_ok s dir" and fr: "3 \<le> free_blocks (pg_phys s)" and e: "paging_get_entry_ext dir virt 0 s = (e, k)" and s': "s' = paging_make_cow dir virt s"
  shows "if bit e 1 then walk_ok 3 dir virt (e AND PAGE_PHYS_MASK) (cow_flags e OR (if k = 0 then 0 else if k = 2 then PAGE_1GB else PAGE_2MB)) s s' \<and>
      (\<forall>v. translate s' dir v = (if same_piece k 3 virt v then map_option (apsnd cow_flags) (translate s dir v) else translate s dir v))
    else s' = s"
proof (cases "bit e 1")
  case True
  have "if bit e 0 then k \<le> 2 \<and> k \<le> 3 \<and> (bit e 7 \<longleftrightarrow> k \<noteq> 0) \<and> page_bits e \<and> e AND PAGE_PHYS_MASK AND mask (12 + 9 * k) = 0 \<and>
      (\<forall>w. same_piece k 3 virt w \<longrightarrow> translate s dir w = Some (leaf k e w))
    else e = 0 \<and> translate s dir virt = None"
    using get_entry_view [of 3 "pg_mem s" dir virt 0] ok e by (simp add: pt_ok_def paging_get_entry_ext_def)
  moreover have "e \<noteq> 0" using True by auto
  ultimately have g: "bit e 0" "k \<le> 2" "bit e 7 \<longleftrightarrow> k \<noteq> 0" "page_bits e" "e AND PAGE_PHYS_MASK AND mask (12 + 9 * k) = 0"
    "\<And>w. same_piece k 3 virt w \<Longrightarrow> translate s dir w = Some (leaf k e w)" by (auto split: if_splits)
  define nf where "nf = cow_flags e OR (if k = 0 then 0 else if k = 2 then PAGE_1GB else PAGE_2MB)"
  have "s' = mmap_walk 3 dir virt (e AND PAGE_PHYS_MASK) nf s"
    using True g(3) by (simp add: s' paging_make_cow_def e Let_def nf_def cow_flags_def paging_mmap_def mmap_internal_def)
  moreover have nb: "bit nf n \<longleftrightarrow> bit e n \<and> n \<noteq> 1 \<or> n = 9 \<or> k = 2 \<and> n = 62 \<or> k = 1 \<and> n = 61" for n
    using g(2) bit_imp_le_length [of e n] by (auto simp: nf_def cow_flags_def bit_or_iff bit_and_iff bit_not_iff)
  have pb: "\<not> bit e n" if "52 \<le> n" "n \<le> 62" for n using g(4) that by (simp add: page_bits_def)
  have t: "target nf = k" using g(2) pb by (auto simp: target_def nb)
  ultimately have w: "walk_ok 3 dir virt (e AND PAGE_PHYS_MASK) nf s s'"
    using walk_ok_all [OF ok, of nf "e AND PAGE_PHYS_MASK" virt] g(2,5) fr by (simp add: ac_simps)
  have "leaf k (leaf_entry (e AND PAGE_PHYS_MASK) nf) v = apsnd cow_flags (leaf k e v)" for v
  proof -
    have "leaf_entry (e AND PAGE_PHYS_MASK) nf AND PAGE_PHYS_MASK = e AND PAGE_PHYS_MASK"
      by (rule bit_eqI) (auto simp: bit_leaf_entry bit_and_iff)
    moreover have "leaf_entry (e AND PAGE_PHYS_MASK) nf AND NOT (PAGE_PHYS_MASK OR PAGE_HUGE) = cow_flags (e AND NOT (PAGE_PHYS_MASK OR PAGE_HUGE))"
    proof (rule bit_eqI)
      fix n
      assume n: "possible_bit TYPE(64 word) n"
      then show "bit (leaf_entry (e AND PAGE_PHYS_MASK) nf AND NOT (PAGE_PHYS_MASK OR PAGE_HUGE)) n = bit (cow_flags (e AND NOT (PAGE_PHYS_MASK OR PAGE_HUGE))) n"
        using pb [of n] by (auto simp: bit_leaf_entry bit_and_iff bit_or_iff bit_not_iff nb cow_flags_def)
    qed
    ultimately show ?thesis by (simp add: leaf_def flip: and.assoc)
  qed
  then have "translate s' dir v = (if same_piece k 3 virt v then map_option (apsnd cow_flags) (translate s dir v) else translate s dir v)" for v
    using walk_okD(4) [OF w, of v] g(1,6) by (simp add: t mapping_def nb)
  then show ?thesis using True w by (simp add: nf_def)
next
  case False
  then show ?thesis by (simp add: s' paging_make_cow_def e)
qed

section \<open>New directories\<close>

lemma empty_tables:
  assumes "m b = (\<lambda>_. 0)"
  shows "tables l m b = [b]" and "sane l m b" and "view l m b v = None"
  using assms by (cases l; simp add: tables_Suc level_simps)+

lemma empty_dir_ok: "pg_mem s dir = (\<lambda>_. 0) \<Longrightarrow> phys_ok (pg_phys s) \<Longrightarrow> in_use (pg_phys s) dir \<Longrightarrow> dir_ok s dir"
  using empty_tables [of "pg_mem s" dir 3] by (simp add: pt_ok_def)

lemma setup_mem:
  assumes "p \<noteq> pg_kernel s"
  shows "pg_mem (paging_setup p s) t = (if t = p then (\<lambda>i. if 256 \<le> i \<and> i < 512 then pg_mem s (pg_kernel s) i else pg_mem s p i) else pg_mem s t)"
    and "pg_phys (paging_setup p s) = pg_phys s" and "pg_kernel (paging_setup p s) = pg_kernel s"
proof -
  define f where "f = (\<lambda>n. fold (\<lambda>i s. set_entry p i (pg_mem s (pg_kernel s) i) s) [256..<n] s)"
  have "256 \<le> n \<Longrightarrow> pg_phys (f n) = pg_phys s \<and> pg_kernel (f n) = pg_kernel s \<and>
    pg_mem (f n) = (\<lambda>t. if t = p then (\<lambda>i. if 256 \<le> i \<and> i < n then pg_mem s (pg_kernel s) i else pg_mem s p i) else pg_mem s t)" for n
  proof (induction n rule: dec_induct)
    case (step n)
    then show ?case using assms by (auto simp: f_def set_entry_def fun_eq_iff less_Suc_eq)
  qed (auto simp: f_def fun_eq_iff)
  from this [of 512, unfolded f_def, folded paging_setup_def] show "pg_mem (paging_setup p s) t = (if t = p then (\<lambda>i. if 256 \<le> i \<and> i < 512 then pg_mem s (pg_kernel s) i else pg_mem s p i) else pg_mem s t)"
    "pg_phys (paging_setup p s) = pg_phys s" "pg_kernel (paging_setup p s) = pg_kernel s"
    by simp_all
qed

text \<open>The memory of a directory with the upper half of another one.\<close>

lemma half_copy:
  assumes d: "distinct (tables (Suc l) m k)" and s: "sane (Suc l) m k" and p: "p \<notin> set (tables (Suc l) m k)"
    and m': "m' p = (\<lambda>i. if 256 \<le> i \<and> i < 512 then m k i else 0)" "\<And>t. t \<noteq> p \<Longrightarrow> m' t = m t"
  shows "distinct (tables (Suc l) m' p)" and "set (tables (Suc l) m' p) \<subseteq> insert p (set (tables (Suc l) m k))" and "sane (Suc l) m' p"
    and "view (Suc l) m' p v = (if 256 \<le> table_index (Suc l) v then view (Suc l) m k v else None)"
proof -
  have fr: "tables l m' c = tables l m c" "sane l m' c = sane l m c" "\<And>v. view l m' c v = view l m c v"
    if "i < 512" "bit (m k i) 0" "\<not> bit (m k i) 7" "c = m k i AND PAGE_PHYS_MASK" for i c
  proof -
    have "set (tables l m c) \<subseteq> set (tables (Suc l) m k)" using that by (auto simp: set_tables below_Some intro!: exI [of _ i])
    then have "m' t = m t" if "t \<in> set (tables l m c)" for t using that p by (intro m'(2)) blast
    then show "tables l m' c = tables l m c" "sane l m' c = sane l m c" "\<And>v. view l m' c v = view l m c v"
      using tables_frame [of l m c m'] by blast+
  qed
  have bl: "below l m' (m' p i) = (if 256 \<le> i then below l m (m k i) else [])" if "i < 512" for i
    using fr(1) [OF that] that by (cases "bit (m k i) 0 \<and> \<not> bit (m k i) 7") (auto simp: m'(1) below_Some)
  show "distinct (tables (Suc l) m' p)"
    using d p unfolding distinct_tables set_tables by (auto simp: bl)
  show "set (tables (Suc l) m' p) \<subseteq> insert p (set (tables (Suc l) m k))" by (auto simp: set_tables bl split: if_splits)
  show "sane (Suc l) m' p" using s fr(2) by (auto simp: sane.simps m'(1))
  show "view (Suc l) m' p v = (if 256 \<le> table_index (Suc l) v then view (Suc l) m k v else None)"
    using fr(3) [OF table_index_less] by (auto simp: level_simps m'(1))
qed

section \<open>Properties\<close>

lemma va_range: "va virt + 4096 * unat n \<le> 2 ^ 48 \<Longrightarrow> unat (n * PAGE_SIZE_4KB) = 4096 * unat n"
  by (simp add: PAGE_SIZE_4KB_def unat_word_ariths)

lemma multiple_mmap_ok:
  assumes "dir_ok s dir" and "3 * unat n \<le> free_blocks (pg_phys s)" and "take_bit 12 virt = 0" and "take_bit 12 phys = 0"
    and "va virt + 4096 * unat n \<le> 2 ^ 48" and "unat phys + 4096 * unat n \<le> 2 ^ 52" and "\<not> bit flags 61" and "\<not> bit flags 62"
    and "phys \<noteq> 0 \<or> \<not> bit flags 0"
  shows "\<exists>s'. mmap_range_internal dir virt phys n flags s = Some s' \<and> range_ok dir virt phys (4096 * unat n) flags (3 * unat n) s s'"
  using mmap_range_loop_ok [of s dir "n * PAGE_SIZE_4KB" "unat n" "unat (n * PAGE_SIZE_4KB)" virt phys flags] va_range [of virt n] assms
  by (simp add: mmap_range_internal_def)

lemma other_dir_frame:
  assumes "grows T s s'" and "dir_ok s d" and "set (tables 3 (pg_mem s) d) \<inter> T = {}"
  shows "dir_ok s' d" and "translate s' d v = translate s d v"
proof -
  have u: "in_use (pg_phys s') t \<and> pg_mem s' t = pg_mem s t" if "t \<in> set (tables 3 (pg_mem s) d)" for t
    using assms that by (auto simp: grows_def pt_ok_def)
  then have "tables 3 (pg_mem s') d = tables 3 (pg_mem s) d" "sane 3 (pg_mem s') d = sane 3 (pg_mem s) d" "\<And>v. translate s' d v = translate s d v"
    using tables_frame [of 3 "pg_mem s" d "pg_mem s'"] by blast+
  then show "dir_ok s' d" "translate s' d v = translate s d v" using assms(1,2) u by (auto simp: pt_ok_def grows_def)
qed


definition sample_frames :: phys where
  "sample_frames = \<lparr>bitmap_base = 3 # replicate 7 0, higher_base_length = 65536, usable_total = 0\<rparr>"

definition sample_paging :: paging where
  "sample_paging = \<lparr>pg_mem = (\<lambda>_ _. 0), pg_phys = sample_frames, pg_kernel = 0x1000\<rparr>"

lemma sample_frames_ok: "phys_ok sample_frames" "free_blocks sample_frames = 14" "in_use sample_frames 0x1000"
proof -
  have t: "total_blocks sample_frames = 16" by (simp add: sample_frames_def total_blocks_def BLOCK_SIZE_def)
  have b: "bit_used (bitmap_base sample_frames) i \<longleftrightarrow> i < 2" if "i < 16" for i
  proof -
    have "(3 :: u8) = mask 2" by (simp add: mask_eq_decr_exp)
    then have "bit (3 :: u8) i \<longleftrightarrow> i < 2" using bit_mask_iff [where ?'a = "8 word", of 2 i] by auto
    moreover have "(3 # replicate 7 0 :: u8 list) ! (i div 8) = (if i < 8 then 3 else 0)" using that by (auto simp: nth_Cons' not_less)
    ultimately show ?thesis by (auto simp: bit_used_def sample_frames_def)
  qed
  show "phys_ok sample_frames" using b [of 0] t by (simp add: phys_ok_def phys_inv_def covers_def sample_frames_def)
  have "{i. i < 16 \<and> \<not> bit_used (bitmap_base sample_frames) i} = {2..<16}" using b by auto
  then show "free_blocks sample_frames = 14" by (simp add: free_blocks_card t)
  show "in_use sample_frames 0x1000" using b [of 1] by (simp add: in_use_def frame_def BLOCK_SIZE_def PAGE_PHYS_MASK_def)
qed


text \<open>
  (C32) Mapping and unmapping: a range that is mapped with \<^verbatim>\<open>paging_multiple_mmap\<close> and then removed with
  \<^verbatim>\<open>paging_multiple_unmap\<close> leaves the translation of every address outside the range as it was, and no address of
  the range translates; where nothing was mapped before, the two calls together change no translation.
\<close>

theorem paging_map_unmap:
  assumes "dir_ok s dir" and "6 * unat n \<le> free_blocks (pg_phys s)" and "take_bit 12 virt = 0" and "take_bit 12 phys = 0" and "phys \<noteq> 0"
    and "va virt + 4096 * unat n \<le> 2 ^ 48" and "unat phys + 4096 * unat n \<le> 2 ^ 52" and "\<not> bit flags 61" and "\<not> bit flags 62"
  shows "\<exists>s1 s2. paging_multiple_mmap dir virt phys n flags s = Some s1 \<and> paging_multiple_unmap dir virt n s1 = Some s2 \<and> dir_ok s2 dir \<and>
    (\<forall>v. paging_get_entry dir v s2 = 0 \<and> vaddr_to_paddr dir v s2 = 0 \<or> \<not> (va virt \<le> va v \<and> va v < va virt + 4096 * unat n)) \<and>
    (\<forall>v. paging_get_entry dir v s = 0 \<or> \<not> (va virt \<le> va v \<and> va v < va virt + 4096 * unat n) \<longrightarrow> vaddr_to_paddr dir v s2 = vaddr_to_paddr dir v s)"
proof -
  have fr: "3 * unat n \<le> free_blocks (pg_phys s)" using assms(2) by simp
  obtain s1 where s1: "mmap_range_internal dir virt phys n flags s = Some s1" "range_ok dir virt phys (4096 * unat n) flags (3 * unat n) s s1"
    using multiple_mmap_ok [OF assms(1) fr assms(3,4,6-9)] assms(5) by blast
  have "unat (0 :: u64) + 4096 * unat n \<le> 2 ^ 52" "\<not> bit (0 :: u64) 61" "\<not> bit (0 :: u64) 62" "(0 :: u64) \<noteq> 0 \<or> \<not> bit (0 :: u64) 0" "take_bit 12 (0 :: u64) = 0" using assms(7) by auto
  moreover have "dir_ok s1 dir" "3 * unat n \<le> free_blocks (pg_phys s1)" using s1(2) assms(2) by (auto simp: range_ok_def)
  ultimately obtain s2 where s2: "mmap_range_internal dir virt 0 n 0 s1 = Some s2" "range_ok dir virt 0 (4096 * unat n) 0 (3 * unat n) s1 s2"
    using multiple_mmap_ok [of s1 dir n virt 0 0] assms(3,6) by blast
  have ok: "dir_ok s2 dir" using s2(2) by (simp add: range_ok_def)
  have tr: "translate s2 dir v = (if va virt \<le> va v \<and> va v < va virt + 4096 * unat n then None else translate s dir v)" for v
    using s1(2) s2(2) by (simp add: range_ok_def remap_def)
  have e: "paging_get_entry dir v s = 0 \<longleftrightarrow> translate s dir v = None" for v
    using get_entry_translate [OF assms(1), of v] by (auto split: option.splits)
  have "vaddr_to_paddr dir v s2 = vaddr_to_paddr dir v s" if "paging_get_entry dir v s = 0 \<or> \<not> (va virt \<le> va v \<and> va v < va virt + 4096 * unat n)" for v
    using get_entry_translate [OF assms(1), of v] get_entry_translate [OF ok, of v] that tr [of v] e [of v] by (auto split: option.splits if_splits)
  moreover have "paging_get_entry dir v s2 = 0 \<and> vaddr_to_paddr dir v s2 = 0 \<or> \<not> (va virt \<le> va v \<and> va v < va virt + 4096 * unat n)" for v
    using get_entry_translate [OF ok, of v] tr [of v] by (cases "va virt \<le> va v \<and> va v < va virt + 4096 * unat n") auto
  ultimately show ?thesis using s1(1) s2(1) ok unfolding paging_multiple_mmap_def paging_multiple_unmap_def by blast
qed

lemma sample_dir_ok: "dir_ok sample_paging 0x1000"
  using sample_frames_ok by (intro empty_dir_ok) (simp_all add: sample_paging_def)

theorem paging_map_unmap_witness:
  "\<exists>s1 s2. paging_multiple_mmap 0x1000 0x400000 0x8000 2 3 sample_paging = Some s1 \<and> paging_multiple_unmap 0x1000 0x400000 2 s1 = Some s2 \<and>
    vaddr_to_paddr 0x1000 0x401234 s2 = 0"
proof -
  have v: "va 0x400000 = 0x400000" "va 0x401234 = 0x401234" by (simp_all add: va_def)
  obtain s1 s2 where "paging_multiple_mmap 0x1000 0x400000 0x8000 2 3 sample_paging = Some s1" "paging_multiple_unmap 0x1000 0x400000 2 s1 = Some s2"
    "\<forall>v. paging_get_entry 0x1000 v s2 = 0 \<and> vaddr_to_paddr 0x1000 v s2 = 0 \<or> \<not> (va 0x400000 \<le> va v \<and> va v < va 0x400000 + 4096 * unat (2 :: u64))"
    using paging_map_unmap [OF sample_dir_ok, of 2 "0x400000" "0x8000" 3] sample_frames_ok(2) v by (auto simp: sample_paging_def bit_numeral_rec)
  then show ?thesis using v by force
qed

text \<open>
  (C21) Copy on write: \<^verbatim>\<open>paging_make_cow\<close> on a writable page, huge or not, takes the write permission from all of the
  page's addresses and marks them copy-on-write without changing where they point, changes no other
  translation, and leaves a page that is not writable alone.
\<close>

theorem paging_make_cow_correct:
  assumes "dir_ok s dir" and "3 \<le> free_blocks (pg_phys s)"
  shows "dir_ok (paging_make_cow dir virt s) dir \<and> vaddr_to_paddr dir v (paging_make_cow dir virt s) = vaddr_to_paddr dir v s \<and>
    (let (e, k) = paging_get_entry_ext dir virt 0 s in
      if has e PAGE_WRITABLE then
        let f = paging_get_entry dir v s AND NOT (PAGE_PHYS_MASK OR PAGE_HUGE) in
        paging_get_entry dir v (paging_make_cow dir virt s) AND NOT (PAGE_PHYS_MASK OR PAGE_HUGE) =
          (if same_piece k 3 virt v then (f AND NOT PAGE_WRITABLE) OR PAGE_COW else f)
      else paging_make_cow dir virt s = s)"
proof -
  define s' where "s' = paging_make_cow dir virt s"
  obtain e k where ek: "paging_get_entry_ext dir virt 0 s = (e, k)" by (cases "paging_get_entry_ext dir virt 0 s")
  note c = make_cow_ok [OF assms ek s'_def]
  show ?thesis
  proof (cases "bit e 1")
    case True
    note cc = c [unfolded if_P [OF True]]
    have w: "dir_ok s' dir" and tr: "translate s' dir v = (if same_piece k 3 virt v then map_option (apsnd cow_flags) (translate s dir v) else translate s dir v)"
      using walk_okD(1) [OF conjunct1 [OF cc]] conjunct2 [OF cc] by blast+
    have mapped: "translate s dir v \<noteq> None" if "same_piece k 3 virt v"
    proof -
      have "e \<noteq> 0" using True by auto
      then show ?thesis using get_entry_view [of 3 "pg_mem s" dir virt 0] assms(1) ek that
        by (auto simp: pt_ok_def paging_get_entry_ext_def split: if_splits)
    qed
    show ?thesis using w tr mapped True get_entry_translate [OF assms(1), of v] get_entry_translate [OF w, of v]
      unfolding s'_def [symmetric] ek by (auto simp: cow_flags_def split: option.splits if_splits simp flip: de_Morgan_disj)
  next
    case False
    then show ?thesis using c assms(1) unfolding s'_def [symmetric] ek by simp
  qed
qed

theorem paging_make_cow_correct_witness:
  "\<exists>s1. paging_multiple_mmap 0x1000 0x400000 0x8000 1 7 sample_paging = Some s1 \<and>
    vaddr_to_paddr 0x1000 0x400123 (paging_make_cow 0x1000 0x400000 s1) = 0x8123"
proof -
  have v: "va 0x400000 = 0x400000" "va 0x400123 = 0x400123" by (simp_all add: va_def)
  have b: "bit (7 :: u64) 0" "\<not> bit (7 :: u64) 61" "\<not> bit (7 :: u64) 62" by (simp_all add: bit_numeral_rec)
  obtain s1 where s1: "mmap_range_internal 0x1000 0x400000 0x8000 1 7 sample_paging = Some s1"
      "range_ok 0x1000 0x400000 0x8000 (4096 * unat (1 :: u64)) 7 (3 * unat (1 :: u64)) sample_paging s1"
    using multiple_mmap_ok [OF sample_dir_ok, of 1 "0x400000" "0x8000" 7] sample_frames_ok(2) v b by (auto simp: sample_paging_def)
  have ok: "dir_ok s1 0x1000" "3 \<le> free_blocks (pg_phys s1)" using s1(2) sample_frames_ok(2) by (auto simp: range_ok_def sample_paging_def)
  have "translate s1 0x1000 0x400123 = Some (0x8123, 7 AND PAGE_HW_FLAG)" using s1(2) v b by (simp add: range_ok_def remap_def)
  then have "vaddr_to_paddr 0x1000 0x400123 s1 = 0x8123" using get_entry_translate [OF ok(1), of "0x400123"] by simp
  then show ?thesis using paging_make_cow_correct [OF ok, of "0x400000" "0x400123"] s1(1) unfolding paging_multiple_mmap_def by auto
qed

text \<open>
  (C36) New address spaces: a directory from \<^verbatim>\<open>paging_create_page_directory\<close> that \<^verbatim>\<open>paging_setup\<close> filled is well formed,
  translates every address of the upper half like the kernel's directory and no address of the lower half,
  and the kernel's own translation is unchanged.
\<close>

theorem new_directory_shares_kernel:
  assumes "dir_ok s (pg_kernel s)" and "0 < free_blocks (pg_phys s)"
  shows "case paging_create_page_directory s of (s1, d) \<Rightarrow>
    dir_ok (paging_setup d s1) d \<and> d \<notin> set (tables 3 (pg_mem s) (pg_kernel s)) \<and>
    vaddr_to_paddr d v (paging_setup d s1) = (if 256 \<le> table_index 3 v then vaddr_to_paddr (pg_kernel s) v s else 0) \<and>
    vaddr_to_paddr (pg_kernel s) v (paging_setup d s1) = vaddr_to_paddr (pg_kernel s) v s"
proof -
  let ?k = "pg_kernel s"
  have k: "phys_ok (pg_phys s)" "sane 3 (pg_mem s) ?k" "distinct (tables 3 (pg_mem s) ?k)" "\<And>t. t \<in> set (tables 3 (pg_mem s) ?k) \<Longrightarrow> in_use (pg_phys s) t"
    using assms(1) by (auto simp: pt_ok_def)
  obtain P d where d: "new_table (\<lambda>_. 0) s = (s\<lparr>pg_phys := P, pg_mem := (pg_mem s)(d := \<lambda>_. 0)\<rparr>, d)" "phys_ok P"
    "\<not> in_use (pg_phys s) d" "\<And>u. in_use P u \<longleftrightarrow> in_use (pg_phys s) u \<or> u = d"
    using new_table_ok [OF k(1) assms(2)] by metis
  let ?s1 = "s\<lparr>pg_phys := P, pg_mem := (pg_mem s)(d := \<lambda>_. 0)\<rparr>" and ?s2 = "paging_setup d (s\<lparr>pg_phys := P, pg_mem := (pg_mem s)(d := \<lambda>_. 0)\<rparr>)"
  have dk: "d \<notin> set (tables 3 (pg_mem s) ?k)" using k(4) d(3) by blast
  then have "d \<noteq> ?k" by auto
  then have m2: "pg_mem ?s2 d = (\<lambda>i. if 256 \<le> i \<and> i < 512 then pg_mem s ?k i else 0)" "\<And>t. t \<noteq> d \<Longrightarrow> pg_mem ?s2 t = pg_mem s t" "pg_phys ?s2 = P"
    using setup_mem [of d ?s1] by auto
  note hc = half_copy [of 2 "pg_mem s" ?k d "pg_mem ?s2", simplified, OF k(3,2) dk m2(1,2)]
  have "in_use P t" if "t \<in> set (tables 3 (pg_mem ?s2) d)" for t using hc(2) that k(4) d(4) by auto
  then have ok: "dir_ok ?s2 d" using hc(1,3) d(2) m2(3) by (simp add: pt_ok_def)
  have g: "grows {d} s ?s2" using m2 d setup_mem(3) [of d ?s1] \<open>d \<noteq> ?k\<close> by (auto simp: grows_def)
  have kt: "dir_ok ?s2 ?k" "translate ?s2 ?k v = translate s ?k v" using other_dir_frame [OF g assms(1)] dk by auto
  have "vaddr_to_paddr d v ?s2 = (if 256 \<le> table_index 3 v then vaddr_to_paddr ?k v s else 0)"
    using get_entry_translate [OF ok, of v] get_entry_translate [OF assms(1), of v] hc(4) [of v] by (auto split: option.splits if_splits)
  moreover have "vaddr_to_paddr ?k v ?s2 = vaddr_to_paddr ?k v s"
    using get_entry_translate [OF kt(1), of v] get_entry_translate [OF assms(1), of v] kt(2) by (auto split: option.splits)
  ultimately show ?thesis using ok dk by (simp add: paging_create_page_directory_def d(1))
qed

theorem new_directory_shares_kernel_witness:
  "case paging_create_page_directory sample_paging of (s1, d) \<Rightarrow> dir_ok (paging_setup d s1) d \<and> vaddr_to_paddr d 0x400000 (paging_setup d s1) = 0"
proof -
  have "dir_ok sample_paging (pg_kernel sample_paging)" "0 < free_blocks (pg_phys sample_paging)"
    using sample_dir_ok sample_frames_ok(2) by (simp_all add: sample_paging_def)
  from new_directory_shares_kernel [OF this, of "0x400000"] show ?thesis by (auto simp: table_index_def split: prod.splits)
qed

end
