(* ===== verification/Rbt.thy ===== *)
theory Rbt
  imports Kernel_Heap
begin

text \<open>
  The red-black tree of \<^verbatim>\<open>kernel/libk/tree/rbt.h\<close>: nodes with parent pointers in a heap and one
  shared sentinel \<open>NIL\<close>. \<open>key d\<close> is the field \<^verbatim>\<open>RBT_ID_NAME\<close> of the object that a node's data points
  to. The second half relates a heap to the tree it holds; a context is a tree with a hole.
\<close>

datatype rbt_node_color = RBT_RED | RBT_BLACK

record rbt_node =
  n_data :: "ptr option"
  n_left :: ptr
  n_right :: ptr
  n_parent :: ptr
  n_color :: rbt_node_color

type_synonym rbt_heap = "ptr \<Rightarrow> rbt_node"

definition set_left :: "ptr \<Rightarrow> ptr \<Rightarrow> rbt_heap \<Rightarrow> rbt_heap" where
  "set_left p v h = h(p := (h p)\<lparr>n_left := v\<rparr>)"

definition set_right :: "ptr \<Rightarrow> ptr \<Rightarrow> rbt_heap \<Rightarrow> rbt_heap" where
  "set_right p v h = h(p := (h p)\<lparr>n_right := v\<rparr>)"

definition set_parent :: "ptr \<Rightarrow> ptr \<Rightarrow> rbt_heap \<Rightarrow> rbt_heap" where
  "set_parent p v h = h(p := (h p)\<lparr>n_parent := v\<rparr>)"

definition set_color :: "ptr \<Rightarrow> rbt_node_color \<Rightarrow> rbt_heap \<Rightarrow> rbt_heap" where
  "set_color p v h = h(p := (h p)\<lparr>n_color := v\<rparr>)"

section \<open>The operations\<close>

text \<open>\<^verbatim>\<open>if (c != NIL) c->parent = p;\<close>\<close>

definition adopt :: "ptr \<Rightarrow> ptr \<Rightarrow> ptr \<Rightarrow> rbt_heap \<Rightarrow> rbt_heap" where
  "adopt c p NIL h = (if c \<noteq> NIL then set_parent c p h else h)"

text \<open>
  \<open>v\<close> takes the place of \<open>z\<close> below the parent of \<open>z\<close>: the new heap and the new \<^verbatim>\<open>*root\<close>. The right
  rotation asks for the right child first.
\<close>

definition replace_child :: "ptr \<Rightarrow> ptr \<Rightarrow> ptr \<Rightarrow> ptr \<Rightarrow> rbt_heap \<Rightarrow> rbt_heap \<times> ptr" where
  "replace_child root z v NIL h =
     (let zp = n_parent (h z)
      in if zp = NIL then (h, v)
         else if z = n_left (h zp) then (set_left zp v h, root)
         else (set_right zp v h, root))"

definition replace_child_right :: "ptr \<Rightarrow> ptr \<Rightarrow> ptr \<Rightarrow> ptr \<Rightarrow> rbt_heap \<Rightarrow> rbt_heap \<times> ptr" where
  "replace_child_right root z v NIL h =
     (let zp = n_parent (h z)
      in if zp = NIL then (h, v)
         else if z = n_right (h zp) then (set_right zp v h, root)
         else (set_left zp v h, root))"

definition rbt_rotate_left :: "ptr \<Rightarrow> ptr \<Rightarrow> ptr \<Rightarrow> rbt_heap \<Rightarrow> rbt_heap \<times> ptr" where
  "rbt_rotate_left root x NIL h =
     (let y = n_right (h x);
          h1 = set_right x (n_left (h y)) h;
          h2 = adopt (n_left (h1 y)) x NIL h1;
          h3 = set_parent y (n_parent (h2 x)) h2
      in case replace_child root x y NIL h3 of
           (h4, root1) \<Rightarrow> (set_parent x y (set_left y x h4), root1))"

definition rbt_rotate_right :: "ptr \<Rightarrow> ptr \<Rightarrow> ptr \<Rightarrow> rbt_heap \<Rightarrow> rbt_heap \<times> ptr" where
  "rbt_rotate_right root y NIL h =
     (let x = n_left (h y);
          h1 = set_left y (n_right (h x)) h;
          h2 = adopt (n_right (h1 x)) y NIL h1;
          h3 = set_parent x (n_parent (h2 y)) h2
      in case replace_child_right root y x NIL h3 of
           (h4, root1) \<Rightarrow> (set_parent y x (set_right x y h4), root1))"

text \<open>One turn of the loop of \<^verbatim>\<open>rbt_fix_insert\<close>, for \<^verbatim>\<open>y->parent\<close> red.\<close>

definition fix_insert_turn :: "ptr \<Rightarrow> ptr \<Rightarrow> ptr \<Rightarrow> rbt_heap \<Rightarrow> rbt_heap \<times> ptr \<times> ptr" where
  "fix_insert_turn root y NIL h =
     (let p = n_parent (h y); g = n_parent (h p)
      in if p = n_left (h g) then
           let x = n_right (h g)
           in if x \<noteq> NIL \<and> n_color (h x) = RBT_RED then
                (set_color g RBT_RED (set_color x RBT_BLACK (set_color p RBT_BLACK h)), root, g)
              else
                let (h1, root1, y1) =
                      (if y = n_right (h p)
                       then case rbt_rotate_left root p NIL h of (h', r') \<Rightarrow> (h', r', p)
                       else (h, root, y));
                    p1 = n_parent (h1 y1);
                    h2 = set_color p1 RBT_BLACK h1;
                    h3 = set_color (n_parent (h2 p1)) RBT_RED h2
                in case rbt_rotate_right root1 (n_parent (h3 p1)) NIL h3 of (h4, root2) \<Rightarrow> (h4, root2, y1)
         else
           let x = n_left (h g)
           in if x \<noteq> NIL \<and> n_color (h x) = RBT_RED then
                (set_color g RBT_RED (set_color x RBT_BLACK (set_color p RBT_BLACK h)), root, g)
              else
                let (h1, root1, y1) =
                      (if y = n_left (h p)
                       then case rbt_rotate_right root p NIL h of (h', r') \<Rightarrow> (h', r', p)
                       else (h, root, y));
                    p1 = n_parent (h1 y1);
                    h2 = set_color p1 RBT_BLACK h1;
                    h3 = set_color (n_parent (h2 p1)) RBT_RED h2
                in case rbt_rotate_left root1 (n_parent (h3 p1)) NIL h3 of (h4, root2) \<Rightarrow> (h4, root2, y1))"

partial_function (option) rbt_fix_insert :: "ptr \<Rightarrow> ptr \<Rightarrow> ptr \<Rightarrow> rbt_heap \<Rightarrow> (rbt_heap \<times> ptr) option" where
  "rbt_fix_insert root y NIL h =
     (if n_color (h (n_parent (h y))) = RBT_RED
      then case fix_insert_turn root y NIL h of (h1, root1, y1) \<Rightarrow> rbt_fix_insert root1 y1 NIL h1
      else Some (set_color root RBT_BLACK h, root))"

text \<open>The descent of an insertion: the last node before \<open>NIL\<close>.\<close>

partial_function (option) insert_place :: "(ptr \<Rightarrow> u64) \<Rightarrow> u64 \<Rightarrow> ptr \<Rightarrow> rbt_heap \<Rightarrow> ptr \<Rightarrow> ptr \<Rightarrow> ptr option" where
  "insert_place key k NIL h parent curent =
     (if curent = NIL then Some parent
      else case n_data (h curent) of
             None \<Rightarrow> None
           | Some d \<Rightarrow>
               if k < key d then insert_place key k NIL h curent (n_left (h curent))
               else insert_place key k NIL h curent (n_right (h curent)))"

definition rbt_insert_node :: "(ptr \<Rightarrow> u64) \<Rightarrow> ptr \<Rightarrow> ptr \<Rightarrow> ptr \<Rightarrow> ptr \<Rightarrow> rbt_heap \<Rightarrow> (rbt_heap \<times> ptr) option" where
  "rbt_insert_node key root z data NIL h =
     (let h1 = h(z := \<lparr>n_data = Some data, n_left = NIL, n_right = NIL, n_parent = 0, n_color = RBT_RED\<rparr>)
      in case insert_place key (key data) NIL h1 NIL root of
           None \<Rightarrow> None
         | Some parent \<Rightarrow>
             let h2 = set_parent z parent h1
             in if parent = NIL then Some (set_color z RBT_BLACK h2, z)
                else case n_data (h2 parent) of
                       None \<Rightarrow> None
                     | Some pd \<Rightarrow>
                         let h3 = (if key data < key pd then set_left parent z h2 else set_right parent z h2)
                         in if n_parent (h3 (n_parent (h3 z))) = NIL then Some (h3, root)
                            else rbt_fix_insert root z NIL h3)"

partial_function (option) rbt_search_node :: "(ptr \<Rightarrow> u64) \<Rightarrow> ptr \<Rightarrow> u64 \<Rightarrow> ptr \<Rightarrow> rbt_heap \<Rightarrow> ptr option" where
  "rbt_search_node key cur k NIL h =
     (if cur = NIL then Some cur
      else case n_data (h cur) of
             None \<Rightarrow> Some cur
           | Some d \<Rightarrow>
               if key d = k then Some cur
               else if k < key d then rbt_search_node key (n_left (h cur)) k NIL h
               else rbt_search_node key (n_right (h cur)) k NIL h)"

text \<open>
  One turn of the loop of \<^verbatim>\<open>rbt_fix_delete\<close>: the heap, \<^verbatim>\<open>*root\<close>, \<^verbatim>\<open>x\<close> and \<^verbatim>\<open>x_parent\<close>. The first two functions
  are the part after a red sibling was rotated away.
\<close>

definition fix_delete_left :: "ptr \<Rightarrow> ptr \<Rightarrow> ptr \<Rightarrow> rbt_heap \<Rightarrow> rbt_heap \<times> ptr \<times> ptr \<times> ptr" where
  "fix_delete_left root xp NIL h =
     (let w = n_right (h xp)
      in if n_color (h (n_left (h w))) = RBT_BLACK \<and> n_color (h (n_right (h w))) = RBT_BLACK
         then let h1 = set_color w RBT_RED h in (h1, root, xp, n_parent (h1 xp))
         else
           let (h1, root1) =
                 (if n_color (h (n_right (h w))) = RBT_BLACK
                  then rbt_rotate_right root w NIL (set_color w RBT_RED (set_color (n_left (h w)) RBT_BLACK h))
                  else (h, root));
               w1 = n_right (h1 xp);
               h2 = set_color w1 (n_color (h1 xp)) h1;
               h3 = set_color xp RBT_BLACK h2;
               h4 = set_color (n_right (h3 w1)) RBT_BLACK h3
           in case rbt_rotate_left root1 xp NIL h4 of (h5, root2) \<Rightarrow> (h5, root2, root2, xp))"

definition fix_delete_right :: "ptr \<Rightarrow> ptr \<Rightarrow> ptr \<Rightarrow> rbt_heap \<Rightarrow> rbt_heap \<times> ptr \<times> ptr \<times> ptr" where
  "fix_delete_right root xp NIL h =
     (let w = n_left (h xp)
      in if n_color (h (n_right (h w))) = RBT_BLACK \<and> n_color (h (n_left (h w))) = RBT_BLACK
         then let h1 = set_color w RBT_RED h in (h1, root, xp, n_parent (h1 xp))
         else
           let (h1, root1) =
                 (if n_color (h (n_left (h w))) = RBT_BLACK
                  then rbt_rotate_left root w NIL (set_color w RBT_RED (set_color (n_right (h w)) RBT_BLACK h))
                  else (h, root));
               w1 = n_left (h1 xp);
               h2 = set_color w1 (n_color (h1 xp)) h1;
               h3 = set_color xp RBT_BLACK h2;
               h4 = set_color (n_left (h3 w1)) RBT_BLACK h3
           in case rbt_rotate_right root1 xp NIL h4 of (h5, root2) \<Rightarrow> (h5, root2, root2, xp))"

definition fix_delete_turn :: "ptr \<Rightarrow> ptr \<Rightarrow> ptr \<Rightarrow> ptr \<Rightarrow> rbt_heap \<Rightarrow> rbt_heap \<times> ptr \<times> ptr \<times> ptr" where
  "fix_delete_turn root x xp NIL h =
     (if x = n_left (h xp) then
        let w = n_right (h xp)
        in if n_color (h w) = RBT_RED
           then case rbt_rotate_left root xp NIL (set_color xp RBT_RED (set_color w RBT_BLACK h)) of
                  (h1, root1) \<Rightarrow> fix_delete_left root1 xp NIL h1
           else fix_delete_left root xp NIL h
      else
        let w = n_left (h xp)
        in if n_color (h w) = RBT_RED
           then case rbt_rotate_right root xp NIL (set_color xp RBT_RED (set_color w RBT_BLACK h)) of
                  (h1, root1) \<Rightarrow> fix_delete_right root1 xp NIL h1
           else fix_delete_right root xp NIL h)"

partial_function (option) rbt_fix_delete :: "ptr \<Rightarrow> ptr \<Rightarrow> ptr \<Rightarrow> ptr \<Rightarrow> rbt_heap \<Rightarrow> (rbt_heap \<times> ptr) option" where
  "rbt_fix_delete root x xp NIL h =
     (if x \<noteq> root \<and> n_color (h x) = RBT_BLACK
      then case fix_delete_turn root x xp NIL h of (h1, root1, x1, xp1) \<Rightarrow> rbt_fix_delete root1 x1 xp1 NIL h1
      else Some (set_color x RBT_BLACK h, root))"

partial_function (option) leftmost :: "ptr \<Rightarrow> rbt_heap \<Rightarrow> ptr \<Rightarrow> ptr option" where
  "leftmost NIL h y = (if n_left (h y) \<noteq> NIL then leftmost NIL h (n_left (h y)) else Some y)"

definition rbt_remove_node :: "ptr \<Rightarrow> ptr \<Rightarrow> ptr \<Rightarrow> rbt_heap \<Rightarrow> (rbt_heap \<times> ptr) option" where
  "rbt_remove_node root z NIL h =
     (if n_left (h z) = NIL \<or> n_right (h z) = NIL then
        let x = (if n_left (h z) = NIL then n_right (h z) else n_left (h z));
            (h1, root1) = replace_child root z x NIL h;
            h2 = adopt x (n_parent (h1 z)) NIL h1
        in if n_color (h z) = RBT_BLACK then rbt_fix_delete root1 x (n_parent (h z)) NIL h2 else Some (h2, root1)
      else case leftmost NIL h (n_right (h z)) of
             None \<Rightarrow> None
           | Some y \<Rightarrow>
               let y_original_color = n_color (h y);
                   x = n_right (h y);
                   (h1, x_parent) =
                     (if n_parent (h y) = z then (h, y)
                      else
                        let xp = n_parent (h y);
                            ha = set_left xp (n_right (h y)) h;
                            hb = adopt (n_right (ha y)) xp NIL ha;
                            hc = set_right y (n_right (hb z)) hb;
                            hd = adopt (n_right (hc y)) y NIL hc
                        in (hd, xp));
                   (h2, root1) = replace_child root z y NIL h1;
                   h3 = set_parent y (n_parent (h2 z)) h2;
                   h4 = set_left y (n_left (h3 z)) h3;
                   h5 = adopt (n_left (h4 y)) y NIL h4;
                   h6 = set_color y (n_color (h5 z)) h5
               in if y_original_color = RBT_BLACK then rbt_fix_delete root1 x x_parent NIL h6 else Some (h6, root1))"

section \<open>Trees in the heap\<close>

datatype ptree = Leaf | Node ptree ptr ptree

datatype frame = LF ptr ptree | RF ptree ptr

fun ptrs :: "ptree \<Rightarrow> ptr list" where
  "ptrs Leaf = []"
| "ptrs (Node l p r) = ptrs l @ p # ptrs r"

fun plug :: "frame list \<Rightarrow> ptree \<Rightarrow> ptree" where
  "plug [] t = t"
| "plug (LF p r # C) t = plug C (Node t p r)"
| "plug (RF l p # C) t = plug C (Node l p t)"

fun rootp :: "ptr \<Rightarrow> ptree \<Rightarrow> ptr" where
  "rootp NIL Leaf = NIL"
| "rootp NIL (Node l p r) = p"

fun ctop :: "ptr \<Rightarrow> frame list \<Rightarrow> ptr" where
  "ctop NIL [] = NIL"
| "ctop NIL (LF p r # C) = p"
| "ctop NIL (RF l p # C) = p"

fun cptrs :: "frame list \<Rightarrow> ptr set" where
  "cptrs [] = {}"
| "cptrs (LF p r # C) = insert p (set (ptrs r) \<union> cptrs C)"
| "cptrs (RF l p # C) = insert p (set (ptrs l) \<union> cptrs C)"

fun repr :: "ptr \<Rightarrow> rbt_heap \<Rightarrow> ptr \<Rightarrow> ptree \<Rightarrow> bool" where
  "repr NIL h par Leaf \<longleftrightarrow> True"
| "repr NIL h par (Node l p r) \<longleftrightarrow> p \<noteq> NIL \<and> n_parent (h p) = par \<and> n_left (h p) = rootp NIL l \<and>
     n_right (h p) = rootp NIL r \<and> repr NIL h p l \<and> repr NIL h p r"

fun reprC :: "ptr \<Rightarrow> rbt_heap \<Rightarrow> frame list \<Rightarrow> ptr \<Rightarrow> bool" where
  "reprC NIL h [] hole \<longleftrightarrow> True"
| "reprC NIL h (LF p r # C) hole \<longleftrightarrow> p \<noteq> NIL \<and> n_parent (h p) = ctop NIL C \<and> n_left (h p) = hole \<and>
     n_right (h p) = rootp NIL r \<and> repr NIL h p r \<and> reprC NIL h C p"
| "reprC NIL h (RF l p # C) hole \<longleftrightarrow> p \<noteq> NIL \<and> n_parent (h p) = ctop NIL C \<and> n_left (h p) = rootp NIL l \<and>
     n_right (h p) = hole \<and> repr NIL h p l \<and> reprC NIL h C p"

lemma repr_plug: "repr NIL h NIL (plug C t) \<longleftrightarrow> reprC NIL h C (rootp NIL t) \<and> repr NIL h (ctop NIL C) t"
  by (induction C t rule: plug.induct) auto

fun plefts :: "frame list \<Rightarrow> ptr list" where
  "plefts [] = []"
| "plefts (LF p r # C) = plefts C"
| "plefts (RF l p # C) = plefts C @ ptrs l @ [p]"

fun prights :: "frame list \<Rightarrow> ptr list" where
  "prights [] = []"
| "prights (LF p r # C) = p # ptrs r @ prights C"
| "prights (RF l p # C) = prights C"

lemma ptrs_plug: "ptrs (plug C t) = plefts C @ ptrs t @ prights C"
  by (induction C t rule: plug.induct) auto

lemma cptrs_eq: "cptrs C = set (plefts C) \<union> set (prights C)"
  by (induction C rule: cptrs.induct) auto

lemma distinct_plug:
  "distinct (ptrs (plug C t)) \<longleftrightarrow> distinct (plefts C @ prights C) \<and> distinct (ptrs t) \<and> set (ptrs t) \<inter> cptrs C = {}"
  by (auto simp: ptrs_plug cptrs_eq)

section \<open>Updates of the heap\<close>

lemma set_fields [simp]:
  "n_left (set_left p v h q) = (if q = p then v else n_left (h q))" "n_right (set_left p v h q) = n_right (h q)"
  "n_parent (set_left p v h q) = n_parent (h q)" "n_color (set_left p v h q) = n_color (h q)" "n_data (set_left p v h q) = n_data (h q)"
  "n_right (set_right p v h q) = (if q = p then v else n_right (h q))" "n_left (set_right p v h q) = n_left (h q)"
  "n_parent (set_right p v h q) = n_parent (h q)" "n_color (set_right p v h q) = n_color (h q)" "n_data (set_right p v h q) = n_data (h q)"
  "n_parent (set_parent p v h q) = (if q = p then v else n_parent (h q))" "n_left (set_parent p v h q) = n_left (h q)"
  "n_right (set_parent p v h q) = n_right (h q)" "n_color (set_parent p v h q) = n_color (h q)" "n_data (set_parent p v h q) = n_data (h q)"
  "n_color (set_color p c h q) = (if q = p then c else n_color (h q))" "n_left (set_color p c h q) = n_left (h q)"
  "n_right (set_color p c h q) = n_right (h q)" "n_parent (set_color p c h q) = n_parent (h q)" "n_data (set_color p c h q) = n_data (h q)"
  by (simp_all add: set_left_def set_right_def set_parent_def set_color_def)

lemma set_other [simp]:
  "q \<noteq> p \<Longrightarrow> set_left p v h q = h q" "q \<noteq> p \<Longrightarrow> set_right p v h q = h q"
  "q \<noteq> p \<Longrightarrow> set_parent p v h q = h q" "q \<noteq> p \<Longrightarrow> set_color p c h q = h q"
  by (simp_all add: set_left_def set_right_def set_parent_def set_color_def)

definition same_links :: "rbt_heap \<Rightarrow> rbt_heap \<Rightarrow> ptr \<Rightarrow> bool" where
  "same_links h h' q \<longleftrightarrow> n_left (h' q) = n_left (h q) \<and> n_right (h' q) = n_right (h q) \<and> n_parent (h' q) = n_parent (h q)"

lemma repr_frame:
  "\<lbrakk>repr NIL h par t; \<And>q. q \<in> set (ptrs t) \<Longrightarrow> same_links h h' q\<rbrakk> \<Longrightarrow> repr NIL h' par t"
  by (induction t arbitrary: par) (auto simp: same_links_def)

lemma reprC_frame:
  "\<lbrakk>reprC NIL h C hole; \<And>q. q \<in> cptrs C \<Longrightarrow> same_links h h' q\<rbrakk> \<Longrightarrow> reprC NIL h' C hole"
proof (induction C arbitrary: hole)
  case (Cons f C)
  then show ?case by (cases f) (auto intro: repr_frame simp: same_links_def)
qed simp

lemma repr_color [simp]: "repr NIL (set_color p c h) par t = repr NIL h par t"
  by (induction t arbitrary: par) auto

lemma reprC_color [simp]: "reprC NIL (set_color p c h) C hole = reprC NIL h C hole"
  by (induction C hole rule: reprC.induct [of _ NIL h]) auto

lemma repr_reparent:
  "\<lbrakk>repr NIL h par t; distinct (ptrs t); \<And>q. q \<in> set (ptrs t) \<Longrightarrow> n_left (h' q) = n_left (h q) \<and> n_right (h' q) = n_right (h q) \<and>
     n_parent (h' q) = (if q = rootp NIL t then par' else n_parent (h q))\<rbrakk> \<Longrightarrow> repr NIL h' par' t"
proof (cases t)
  case (Node l p r)
  assume r: "repr NIL h par t" "distinct (ptrs t)"
    and f: "\<And>q. q \<in> set (ptrs t) \<Longrightarrow> n_left (h' q) = n_left (h q) \<and> n_right (h' q) = n_right (h q) \<and>
     n_parent (h' q) = (if q = rootp NIL t then par' else n_parent (h q))"
  have "repr NIL h' p l" by (rule repr_frame [of NIL h]) (use r f Node in \<open>auto simp: same_links_def\<close>)
  moreover have "repr NIL h' p r" by (rule repr_frame [of NIL h]) (use r f Node in \<open>auto simp: same_links_def\<close>)
  ultimately show ?thesis using r f [of p] Node by simp
qed simp

lemma repr_not_NIL: "repr NIL h par t \<Longrightarrow> NIL \<notin> set (ptrs t)"
  by (induction t arbitrary: par) auto

lemma reprC_not_NIL: "reprC NIL h C hole \<Longrightarrow> NIL \<notin> cptrs C"
proof (induction C arbitrary: hole)
  case (Cons f C)
  then show ?case by (cases f) (auto dest: repr_not_NIL)
qed simp

lemma rootp_in: "rootp NIL t = (if t = Leaf then NIL else rootp NIL t)" "t \<noteq> Leaf \<Longrightarrow> rootp NIL t \<in> set (ptrs t)"
  by (cases t; simp)+

lemma rootp_plug_ne: "C \<noteq> [] \<Longrightarrow> rootp NIL (plug C t) = rootp NIL (plug C t')"
  by (induction C t arbitrary: t' rule: plug.induct) (case_tac "C = []"; fastforce)+

section \<open>Rotations\<close>

text \<open>What a rotation leaves alone: colours, data, and every node outside the tree.\<close>

definition only_links :: "ptr set \<Rightarrow> rbt_heap \<Rightarrow> rbt_heap \<Rightarrow> bool" where
  "only_links S h h' \<longleftrightarrow> (\<forall>q. n_color (h' q) = n_color (h q) \<and> n_data (h' q) = n_data (h q) \<and> (q \<notin> S \<longrightarrow> h' q = h q))"

fun is_LF :: "frame list \<Rightarrow> bool" where
  "is_LF (LF p r # C) \<longleftrightarrow> True"
| "is_LF C \<longleftrightarrow> False"

text \<open>
  The hole of a context gets another tree: the frame around it changes one child link, the rest of the
  context stays.
\<close>

lemma reprC_refill:
  assumes "reprC NIL h C x" and "distinct (plefts C @ prights C)"
    and "\<And>q. q \<in> cptrs C \<Longrightarrow> n_left (h' q) = (if q = ctop NIL C \<and> is_LF C then y else n_left (h q)) \<and>
      n_right (h' q) = (if q = ctop NIL C \<and> \<not> is_LF C then y else n_right (h q)) \<and> n_parent (h' q) = n_parent (h q)"
  shows "reprC NIL h' C y"
proof (cases C)
  case (Cons f D)
  show ?thesis
  proof (cases f)
    case (LF p r)
    have "repr NIL h' p r" by (rule repr_frame [of NIL h]) (use assms Cons LF in \<open>auto simp: same_links_def\<close>)
    moreover have "reprC NIL h' D p"
      by (rule reprC_frame [of NIL h]) (use assms Cons LF in \<open>auto simp: same_links_def cptrs_eq\<close>)
    ultimately show ?thesis using assms(1) assms(3) [of p] Cons LF by auto
  next
    case (RF l p)
    have "repr NIL h' p l" by (rule repr_frame [of NIL h]) (use assms Cons RF in \<open>auto simp: same_links_def\<close>)
    moreover have "reprC NIL h' D p"
      by (rule reprC_frame [of NIL h]) (use assms Cons RF in \<open>auto simp: same_links_def cptrs_eq\<close>)
    ultimately show ?thesis using assms(1) assms(3) [of p] Cons RF by auto
  qed
qed simp

text \<open>The child link of the frame around the hole.\<close>

definition put_child :: "ptr \<Rightarrow> frame list \<Rightarrow> ptr \<Rightarrow> rbt_heap \<Rightarrow> rbt_heap" where
  "put_child NIL C v h =
     (if C = [] then h else if is_LF C then set_left (ctop NIL C) v h else set_right (ctop NIL C) v h)"

lemma ctop_in: "C \<noteq> [] \<Longrightarrow> ctop NIL C \<in> cptrs C" "is_LF C \<Longrightarrow> C \<noteq> []"
  by (cases C rule: cptrs.cases; simp)+

lemma put_child_fields [simp]:
  "n_left (put_child NIL C v h q) = (if is_LF C \<and> q = ctop NIL C then v else n_left (h q))"
  "n_right (put_child NIL C v h q) = (if C \<noteq> [] \<and> \<not> is_LF C \<and> q = ctop NIL C then v else n_right (h q))"
  "n_parent (put_child NIL C v h q) = n_parent (h q)" "n_color (put_child NIL C v h q) = n_color (h q)"
  "n_data (put_child NIL C v h q) = n_data (h q)" "q \<notin> cptrs C \<Longrightarrow> put_child NIL C v h q = h q"
  using ctop_in(1) [of C NIL] ctop_in(2) [of C] by (auto simp: put_child_def set_left_def set_right_def)

lemma adopt_fields [simp]:
  "n_left (adopt c p NIL h q) = n_left (h q)" "n_right (adopt c p NIL h q) = n_right (h q)"
  "n_parent (adopt c p NIL h q) = (if c \<noteq> NIL \<and> q = c then p else n_parent (h q))"
  "n_color (adopt c p NIL h q) = n_color (h q)" "n_data (adopt c p NIL h q) = n_data (h q)"
  "c = NIL \<or> q \<noteq> c \<Longrightarrow> adopt c p NIL h q = h q"
  by (auto simp: adopt_def)

lemma replace_child_eq:
  assumes "reprC NIL h C z" and "z \<noteq> NIL" and "z \<notin> cptrs C" and "n_parent (h' z) = ctop NIL C"
    and "C \<noteq> [] \<Longrightarrow> n_left (h' (ctop NIL C)) = n_left (h (ctop NIL C))"
  shows "replace_child root z v NIL h' = (put_child NIL C v h', if C = [] then v else root)"
proof (cases C rule: cptrs.cases)
  case (3 l p D)
  then have "rootp NIL l \<noteq> z" using assms by (cases l) auto
  then show ?thesis using 3 assms by (simp add: replace_child_def put_child_def)
qed (use assms in \<open>simp_all add: replace_child_def put_child_def\<close>)

lemma rotate_left_eq:
  assumes r: "reprC NIL h C x" "repr NIL h (ctop NIL C) (Node a x (Node b y c))"
    and d: "distinct (ptrs (plug C (Node a x (Node b y c))))"
  shows "rbt_rotate_left root x NIL h =
    (set_parent x y (set_left y x (put_child NIL C y (set_parent y (ctop NIL C) (adopt (rootp NIL b) x NIL (set_right x (rootp NIL b) h))))),
     if C = [] then y else root)"
proof -
  have xb: "rootp NIL b \<noteq> x" using r d by (cases b) (auto simp: distinct_plug)
  have "replace_child root x y NIL (set_parent y (ctop NIL C) (adopt (rootp NIL b) x NIL (set_right x (rootp NIL b) h))) =
      (put_child NIL C y (set_parent y (ctop NIL C) (adopt (rootp NIL b) x NIL (set_right x (rootp NIL b) h))), if C = [] then y else root)"
    by (rule replace_child_eq [OF r(1)]) (use r d xb in \<open>auto simp: distinct_plug\<close>)
  then show ?thesis using r xb by (simp add: rbt_rotate_left_def Let_def)
qed

lemma rotate_left_links:
  assumes r: "reprC NIL h C x" "repr NIL h (ctop NIL C) (Node a x (Node b y c))"
    and d: "distinct (ptrs (plug C (Node a x (Node b y c))))"
    and e: "rbt_rotate_left root x NIL h = (h', root')"
  shows "n_left (h' q) = (if q = y then x else if C \<noteq> [] \<and> q = ctop NIL C \<and> is_LF C then y else n_left (h q))"
    and "n_right (h' q) = (if q = x then rootp NIL b else if C \<noteq> [] \<and> q = ctop NIL C \<and> \<not> is_LF C then y else n_right (h q))"
    and "n_parent (h' q) = (if q = x then y else if q = y then ctop NIL C else if b \<noteq> Leaf \<and> q = rootp NIL b then x else n_parent (h q))"
    and "n_color (h' q) = n_color (h q)" and "n_data (h' q) = n_data (h q)"
    and "q \<notin> set (ptrs (plug C (Node (Node a x b) y c))) \<Longrightarrow> h' q = h q"
    and "root' = (if C = [] then y else root)"
proof -
  have h': "h' = set_parent x y (set_left y x (put_child NIL C y (set_parent y (ctop NIL C) (adopt (rootp NIL b) x NIL (set_right x (rootp NIL b) h)))))"
    and "root' = (if C = [] then y else root)"
    using rotate_left_eq [OF r d, of root] e by auto
  then show "root' = (if C = [] then y else root)" by simp
  have xb: "b = Leaf \<and> rootp NIL b = NIL \<or> b \<noteq> Leaf \<and> rootp NIL b \<noteq> NIL \<and> rootp NIL b \<in> set (ptrs b)"
    using r by (cases b) auto
  note xC = ctop_in(1) [of C NIL] ctop_in(2) [of C] and dd = d [unfolded distinct_plug]
  show "n_left (h' q) = (if q = y then x else if C \<noteq> [] \<and> q = ctop NIL C \<and> is_LF C then y else n_left (h q))"
    using xC(2) by (auto simp: h')
  show "n_right (h' q) = (if q = x then rootp NIL b else if C \<noteq> [] \<and> q = ctop NIL C \<and> \<not> is_LF C then y else n_right (h q))"
    using xC(1) dd by (auto simp: h')
  show "n_parent (h' q) = (if q = x then y else if q = y then ctop NIL C else if b \<noteq> Leaf \<and> q = rootp NIL b then x else n_parent (h q))"
    using xb by (auto simp: h')
  show "n_color (h' q) = n_color (h q)" "n_data (h' q) = n_data (h q)" by (simp_all add: h')
  show "h' q = h q" if "q \<notin> set (ptrs (plug C (Node (Node a x b) y c)))"
  proof -
    have "q \<noteq> x" "q \<noteq> y" "rootp NIL b = NIL \<or> q \<noteq> rootp NIL b" "q \<notin> cptrs C"
      using that xb by (auto simp: ptrs_plug cptrs_eq)
    then show ?thesis by (simp add: h')
  qed
qed

lemma rotate_left:
  assumes r: "repr NIL h NIL (plug C (Node a x (Node b y c)))" and d: "distinct (ptrs (plug C (Node a x (Node b y c))))"
    and root: "root = rootp NIL (plug C (Node a x (Node b y c)))"
  shows "\<exists>h'. rbt_rotate_left root x NIL h = (h', rootp NIL (plug C (Node (Node a x b) y c))) \<and>
    repr NIL h' NIL (plug C (Node (Node a x b) y c)) \<and> only_links (set (ptrs (plug C (Node (Node a x b) y c)))) h h'"
proof -
  obtain h' root' where e: "rbt_rotate_left root x NIL h = (h', root')" by fastforce
  have rr: "reprC NIL h C x" "repr NIL h (ctop NIL C) (Node a x (Node b y c))" using r by (auto simp: repr_plug)
  note L = rotate_left_links [OF rr d e] and dd = d [unfolded distinct_plug]
  have xb: "b \<noteq> Leaf \<Longrightarrow> rootp NIL b \<in> set (ptrs b)" by (cases b) auto
  note xC = ctop_in(1) [of C NIL]
  have out: "same_links h h' q" if "q \<notin> {x, y}" "C \<noteq> [] \<Longrightarrow> q \<noteq> ctop NIL C" "q \<notin> set (ptrs b)" for q
    using that xb by (auto simp: same_links_def L)
  have "reprC NIL h' C y"
  proof (rule reprC_refill [OF rr(1)])
    fix q
    assume "q \<in> cptrs C"
    then have "q \<noteq> x" "q \<noteq> y" "b \<noteq> Leaf \<Longrightarrow> q \<noteq> rootp NIL b" "C \<noteq> []" using dd xb by auto
    then show "n_left (h' q) = (if q = ctop NIL C \<and> is_LF C then y else n_left (h q)) \<and>
      n_right (h' q) = (if q = ctop NIL C \<and> \<not> is_LF C then y else n_right (h q)) \<and> n_parent (h' q) = n_parent (h q)"
      by (auto simp: L)
  qed (use dd in simp)
  moreover have "repr NIL h' x a" "repr NIL h' y c"
    by (rule repr_frame [of NIL h], use rr(2) in simp, rule out, use dd xC in auto)+
  moreover have "repr NIL h' x b"
  proof (rule repr_reparent [of NIL h y])
    fix q
    assume "q \<in> set (ptrs b)"
    then have "q \<noteq> x" "q \<noteq> y" "C \<noteq> [] \<Longrightarrow> q \<noteq> ctop NIL C" "b \<noteq> Leaf" using dd xC by auto
    then show "n_left (h' q) = n_left (h q) \<and> n_right (h' q) = n_right (h q) \<and> n_parent (h' q) = (if q = rootp NIL b then x else n_parent (h q))"
      by (auto simp: L)
  qed (use rr(2) dd in auto)
  ultimately have "repr NIL h' NIL (plug C (Node (Node a x b) y c))"
    using rr(2) dd xC L(1-5) [of x] L(1-5) [of y] by (auto simp: repr_plug)
  moreover have "root' = rootp NIL (plug C (Node (Node a x b) y c))"
    using L(7) root by (metis rootp_plug_ne plug.simps(1) rootp.simps(2))
  moreover have "only_links (set (ptrs (plug C (Node (Node a x b) y c)))) h h'" by (simp add: only_links_def L)
  ultimately show ?thesis using e by simp
qed

subsection \<open>Mirror images\<close>

text \<open>The code treats left and right alike; what holds on one side holds for the mirror image.\<close>

definition flip_heap :: "rbt_heap \<Rightarrow> rbt_heap" where
  "flip_heap h = (\<lambda>p. (h p)\<lparr>n_left := n_right (h p), n_right := n_left (h p)\<rparr>)"

fun mirror :: "ptree \<Rightarrow> ptree" where
  "mirror Leaf = Leaf"
| "mirror (Node l p r) = Node (mirror r) p (mirror l)"

fun mirrorF :: "frame \<Rightarrow> frame" where
  "mirrorF (LF p r) = RF (mirror r) p"
| "mirrorF (RF l p) = LF p (mirror l)"

lemma flip_fields [simp]:
  "n_left (flip_heap h p) = n_right (h p)" "n_right (flip_heap h p) = n_left (h p)" "n_parent (flip_heap h p) = n_parent (h p)"
  "n_color (flip_heap h p) = n_color (h p)" "n_data (flip_heap h p) = n_data (h p)" "flip_heap (flip_heap h) = h"
  by (simp_all add: flip_heap_def)

lemma flip_eq_iff [simp]: "flip_heap h p = flip_heap h' p \<longleftrightarrow> h p = h' p"
  by (cases "h p"; cases "h' p") (auto simp: flip_heap_def)

lemma flip_set [simp]:
  "set_left p v (flip_heap h) = flip_heap (set_right p v h)" "set_right p v (flip_heap h) = flip_heap (set_left p v h)"
  "set_parent p v (flip_heap h) = flip_heap (set_parent p v h)" "set_color p c (flip_heap h) = flip_heap (set_color p c h)"
  by (auto simp: set_left_def set_right_def set_parent_def set_color_def flip_heap_def fun_eq_iff)

lemma rootp_mirror [simp]: "rootp NIL (mirror t) = rootp NIL t"
  by (cases t) auto

lemma mirror_mirror [simp]: "mirror (mirror t) = t"
  by (induction t) auto

lemma flip_links [simp]:
  "adopt c p NIL (flip_heap h) = flip_heap (adopt c p NIL h)"
  "replace_child root z v NIL (flip_heap h) = apfst flip_heap (replace_child_right root z v NIL h)"
  "replace_child_right root z v NIL (flip_heap h) = apfst flip_heap (replace_child root z v NIL h)"
  by (simp_all add: adopt_def replace_child_def replace_child_right_def Let_def)

lemma ptrs_mirror [simp]: "ptrs (mirror t) = rev (ptrs t)"
  by (induction t) auto

lemma mirror_plug: "mirror (plug C t) = plug (map mirrorF C) (mirror t)"
  by (induction C t rule: plug.induct) auto

lemma repr_flip [simp]: "repr NIL (flip_heap h) par (mirror t) = repr NIL h par t"
  by (induction t arbitrary: par) auto

lemma rotate_right_flip:
  "rbt_rotate_right root y NIL h = apfst flip_heap (rbt_rotate_left root y NIL (flip_heap h))"
  by (simp add: rbt_rotate_right_def rbt_rotate_left_def Let_def case_prod_beta del: adopt_fields(3))

lemma rotate_right:
  assumes "repr NIL h NIL (plug C (Node (Node a x b) y c))" and "distinct (ptrs (plug C (Node (Node a x b) y c)))"
    and "root = rootp NIL (plug C (Node (Node a x b) y c))"
  shows "\<exists>h'. rbt_rotate_right root y NIL h = (h', rootp NIL (plug C (Node a x (Node b y c)))) \<and>
    repr NIL h' NIL (plug C (Node a x (Node b y c))) \<and> only_links (set (ptrs (plug C (Node a x (Node b y c))))) h h'"
proof -
  let ?C = "map mirrorF C"
  have m: "plug ?C (Node (mirror c) y (Node (mirror b) x (mirror a))) = mirror (plug C (Node (Node a x b) y c))"
    "plug ?C (Node (Node (mirror c) y (mirror b)) x (mirror a)) = mirror (plug C (Node a x (Node b y c)))"
    by (simp_all add: mirror_plug)
  obtain h' where h': "rbt_rotate_left root y NIL (flip_heap h) = (h', rootp NIL (plug C (Node a x (Node b y c))))"
    "repr NIL h' NIL (mirror (plug C (Node a x (Node b y c))))" "only_links (set (ptrs (plug C (Node a x (Node b y c))))) (flip_heap h) h'"
    using rotate_left [of NIL "flip_heap h" ?C "mirror c" y "mirror b" x "mirror a" root] assms unfolding m by auto
  moreover have "repr NIL (flip_heap h') NIL (plug C (Node a x (Node b y c)))"
    using h'(2) repr_flip [of NIL "flip_heap h'"] by simp
  moreover have "only_links (set (ptrs (plug C (Node a x (Node b y c))))) h (flip_heap h')"
    using h'(3) unfolding only_links_def by (metis flip_fields(4-6) flip_eq_iff)
  ultimately show ?thesis by (simp add: rotate_right_flip)
qed

end
