(* ===== verification/Rbt_Insert.thy ===== *)
theory Rbt_Insert
  imports Rbt
begin

text \<open>
  Balance of the red-black tree and its insertion: the colour invariants of a tree and of a context, and
  that \<^verbatim>\<open>rbt_insert_node\<close> returns a balanced tree with the new node in its place.
\<close>

section \<open>Colours\<close>

definition colors :: "rbt_heap \<Rightarrow> ptr \<Rightarrow> rbt_node_color" where
  "colors h = (\<lambda>p. n_color (h p))"

lemma colors_set [simp]:
  "colors (set_color p x h) = (colors h)(p := x)" "colors (set_left p v h) = colors h" "colors (set_right p v h) = colors h"
  "colors (set_parent p v h) = colors h" "colors (flip_heap h) = colors h"
  by (auto simp: colors_def)

lemma color_colors: "n_color (h p) = colors h p"
  by (simp add: colors_def)

lemma colors_only_links: "only_links S h h' \<Longrightarrow> colors h' = colors h"
  by (simp add: only_links_def colors_def)

fun bheight :: "(ptr \<Rightarrow> rbt_node_color) \<Rightarrow> ptree \<Rightarrow> nat" where
  "bheight c Leaf = 0"
| "bheight c (Node l p r) = bheight c l + (if c p = RBT_BLACK then 1 else 0)"

fun invh :: "(ptr \<Rightarrow> rbt_node_color) \<Rightarrow> ptree \<Rightarrow> bool" where
  "invh c Leaf \<longleftrightarrow> True"
| "invh c (Node l p r) \<longleftrightarrow> bheight c l = bheight c r \<and> invh c l \<and> invh c r"

fun invc :: "ptr \<Rightarrow> (ptr \<Rightarrow> rbt_node_color) \<Rightarrow> ptree \<Rightarrow> bool" where
  "invc NIL c Leaf \<longleftrightarrow> True"
| "invc NIL c (Node l p r) \<longleftrightarrow> (c p = RBT_RED \<longrightarrow> c (rootp NIL l) = RBT_BLACK \<and> c (rootp NIL r) = RBT_BLACK) \<and>
     invc NIL c l \<and> invc NIL c r"

definition balanced :: "ptr \<Rightarrow> (ptr \<Rightarrow> rbt_node_color) \<Rightarrow> ptree \<Rightarrow> bool" where
  "balanced NIL c t \<longleftrightarrow> invc NIL c t \<and> invh c t \<and> c (rootp NIL t) = RBT_BLACK"

text \<open>A context that becomes balanced with a tree of black height \<open>n\<close> and black root in its hole.\<close>

fun cinv :: "ptr \<Rightarrow> (ptr \<Rightarrow> rbt_node_color) \<Rightarrow> nat \<Rightarrow> frame list \<Rightarrow> bool" where
  "cinv NIL c n [] \<longleftrightarrow> True"
| "cinv NIL c n (LF p r # C) \<longleftrightarrow> invc NIL c r \<and> invh c r \<and> bheight c r = n \<and>
     (c p = RBT_RED \<longrightarrow> c (rootp NIL r) = RBT_BLACK \<and> c (ctop NIL C) = RBT_BLACK \<and> C \<noteq> []) \<and>
     cinv NIL c (n + (if c p = RBT_BLACK then 1 else 0)) C"
| "cinv NIL c n (RF l p # C) \<longleftrightarrow> invc NIL c l \<and> invh c l \<and> bheight c l = n \<and>
     (c p = RBT_RED \<longrightarrow> c (rootp NIL l) = RBT_BLACK \<and> c (ctop NIL C) = RBT_BLACK \<and> C \<noteq> []) \<and>
     cinv NIL c (n + (if c p = RBT_BLACK then 1 else 0)) C"

lemma not_black [simp]: "c \<noteq> RBT_BLACK \<longleftrightarrow> c = RBT_RED" "c \<noteq> RBT_RED \<longleftrightarrow> c = RBT_BLACK"
  by (cases c; simp)+

lemma balanced_plug:
  "c NIL = RBT_BLACK \<Longrightarrow> balanced NIL c (plug C t) \<longleftrightarrow> cinv NIL c (bheight c t) C \<and> invc NIL c t \<and> invh c t \<and>
     (c (rootp NIL t) = RBT_RED \<longrightarrow> C \<noteq> [] \<and> c (ctop NIL C) = RBT_BLACK)"
proof (induction C t rule: plug.induct)
  case (1 t)
  then show ?case by (auto simp: balanced_def)
next
  case (2 p r C t)
  then show ?case by auto
next
  case (3 l p C t)
  then show ?case by auto
qed

lemma color_cong:
  assumes "\<And>q. q \<in> set (ptrs t) \<Longrightarrow> c q = c' q"
  shows "bheight c t = bheight c' t" and "invh c t = invh c' t"
  using assms by (induction t) auto

lemma invc_cong: "\<lbrakk>\<And>q. q \<in> insert NIL (set (ptrs t)) \<Longrightarrow> c q = c' q\<rbrakk> \<Longrightarrow> invc NIL c t = invc NIL c' t"
proof (induction t)
  case (Node l p r)
  have "c (rootp NIL t) = c' (rootp NIL t)" if "t \<in> {l, r}" for t
    using Node.prems that by (cases t) auto
  then show ?case using Node by auto
qed simp

lemma color_upd [simp]:
  "p \<notin> set (ptrs t) \<Longrightarrow> bheight (c(p := x)) t = bheight c t" "p \<notin> set (ptrs t) \<Longrightarrow> invh (c(p := x)) t = invh c t"
  "p \<notin> set (ptrs t) \<Longrightarrow> p \<noteq> NIL \<Longrightarrow> invc NIL (c(p := x)) t = invc NIL c t"
proof -
  assume "p \<notin> set (ptrs t)"
  then have "\<And>q. q \<in> set (ptrs t) \<Longrightarrow> (c(p := x)) q = c q" by auto
  then show "bheight (c(p := x)) t = bheight c t" "invh (c(p := x)) t = invh c t"
    by (rule color_cong(1), simp, rule color_cong(2), simp)
next
  assume "p \<notin> set (ptrs t)" "p \<noteq> NIL"
  then show "invc NIL (c(p := x)) t = invc NIL c t" by (intro invc_cong) auto
qed

lemma ctop_upd [simp]: "p \<notin> cptrs C \<Longrightarrow> p \<noteq> NIL \<Longrightarrow> ctop NIL C = p \<longleftrightarrow> False"
  by (cases C rule: cptrs.cases) auto

lemma rootp_upd [simp]: "p \<notin> set (ptrs t) \<Longrightarrow> p \<noteq> NIL \<Longrightarrow> rootp NIL t = p \<longleftrightarrow> False"
  by (cases t) auto

lemma cinv_upd [simp]: "p \<notin> cptrs C \<Longrightarrow> p \<noteq> NIL \<Longrightarrow> cinv NIL (c(p := x)) n C = cinv NIL c n C"
  by (induction C arbitrary: n rule: cptrs.induct) auto

section \<open>Repair after an insertion\<close>

text \<open>The state before a turn: only the link between the red focus and its parent may be wrong.\<close>

definition ins_inv :: "ptr \<Rightarrow> (ptr \<Rightarrow> rbt_node_color) \<Rightarrow> frame list \<Rightarrow> ptree \<Rightarrow> bool" where
  "ins_inv NIL c C t \<longleftrightarrow> c NIL = RBT_BLACK \<and> invc NIL c t \<and> invh c t \<and> t \<noteq> Leaf \<and> c (rootp NIL t) = RBT_RED \<and> cinv NIL c (bheight c t) C"

definition nodes_ok :: "ptr \<Rightarrow> frame list \<Rightarrow> ptree \<Rightarrow> bool" where
  "nodes_ok NIL C t \<longleftrightarrow> distinct (ptrs (plug C t)) \<and> NIL \<notin> set (ptrs (plug C t))"

lemma nodes_ok_simps [simp]:
  "nodes_ok NIL (LF p r # C) t = nodes_ok NIL C (Node t p r)" "nodes_ok NIL (RF l p # C) t = nodes_ok NIL C (Node l p t)"
  by (simp_all add: nodes_ok_def)

lemma nodes_okD: "nodes_ok NIL C t \<Longrightarrow> distinct (ptrs t) \<and> set (ptrs t) \<inter> cptrs C = {} \<and> NIL \<notin> set (ptrs t) \<and> NIL \<notin> cptrs C"
  by (auto simp: nodes_ok_def distinct_plug ptrs_plug cptrs_eq)

lemma ins_recolor:
  assumes i: "ins_inv NIL c (F # LF g (Node ul u ur) # D) t" and n: "nodes_ok NIL (F # LF g (Node ul u ur) # D) t"
    and p: "c (ctop NIL [F]) = RBT_RED" and u: "c u = RBT_RED"
  shows "ins_inv NIL (c(ctop NIL [F] := RBT_BLACK, u := RBT_BLACK, g := RBT_RED)) D (Node (plug [F] t) g (Node ul u ur))"
proof (cases F)
  case (LF q s)
  then have n: "nodes_ok NIL D (Node (Node t q s) g (Node ul u ur))" using n by simp
  have d: "q \<notin> set (ptrs t)" "q \<notin> set (ptrs s)" "q \<notin> set (ptrs ul)" "q \<notin> set (ptrs ur)" "q \<notin> cptrs D"
    "g \<notin> set (ptrs t)" "g \<notin> set (ptrs s)" "g \<notin> set (ptrs ul)" "g \<notin> set (ptrs ur)" "g \<notin> cptrs D"
    "u \<notin> set (ptrs t)" "u \<notin> set (ptrs s)" "u \<notin> set (ptrs ul)" "u \<notin> set (ptrs ur)" "u \<notin> cptrs D"
    "q \<noteq> g" "q \<noteq> u" "u \<noteq> g" "q \<noteq> NIL" "g \<noteq> NIL" "u \<noteq> NIL" using nodes_okD [OF n] by auto
  show ?thesis using i p u unfolding LF ins_inv_def by (auto simp: d d(16-21) [symmetric])
next
  case (RF s q)
  then have n: "nodes_ok NIL D (Node (Node s q t) g (Node ul u ur))" using n by simp
  have d: "q \<notin> set (ptrs t)" "q \<notin> set (ptrs s)" "q \<notin> set (ptrs ul)" "q \<notin> set (ptrs ur)" "q \<notin> cptrs D"
    "g \<notin> set (ptrs t)" "g \<notin> set (ptrs s)" "g \<notin> set (ptrs ul)" "g \<notin> set (ptrs ur)" "g \<notin> cptrs D"
    "u \<notin> set (ptrs t)" "u \<notin> set (ptrs s)" "u \<notin> set (ptrs ul)" "u \<notin> set (ptrs ur)" "u \<notin> cptrs D"
    "q \<noteq> g" "q \<noteq> u" "u \<noteq> g" "q \<noteq> NIL" "g \<noteq> NIL" "u \<noteq> NIL" using nodes_okD [OF n] by auto
  show ?thesis using i p u unfolding RF ins_inv_def by (auto simp: d d(16-21) [symmetric])
qed

lemma ins_outer:
  assumes i: "ins_inv NIL c (LF p s # LF g u # D) t" and n: "nodes_ok NIL (LF p s # LF g u # D) t"
    and p: "c p = RBT_RED" and u: "c (rootp NIL u) = RBT_BLACK"
  shows "balanced NIL (c(p := RBT_BLACK, g := RBT_RED)) (plug D (Node t p (Node s g u)))"
proof -
  have n: "nodes_ok NIL D (Node (Node t p s) g u)" using n by simp
  have d: "p \<notin> set (ptrs t)" "p \<notin> set (ptrs s)" "p \<notin> set (ptrs u)" "p \<notin> cptrs D"
    "g \<notin> set (ptrs t)" "g \<notin> set (ptrs s)" "g \<notin> set (ptrs u)" "g \<notin> cptrs D" "p \<noteq> g" "p \<noteq> NIL" "g \<noteq> NIL"
    using nodes_okD [OF n] by auto
  have "(c(p := RBT_BLACK, g := RBT_RED)) NIL = RBT_BLACK" using i d by (simp add: ins_inv_def)
  then show ?thesis using i p u by (subst balanced_plug) (auto simp: ins_inv_def d d(9-11) [symmetric])
qed

lemma ins_inner:
  assumes i: "ins_inv NIL c (RF s p # LF g u # D) (Node l y r)" and n: "nodes_ok NIL (RF s p # LF g u # D) (Node l y r)"
    and p: "c p = RBT_RED" and u: "c (rootp NIL u) = RBT_BLACK"
  shows "balanced NIL (c(y := RBT_BLACK, g := RBT_RED)) (plug D (Node (Node s p l) y (Node r g u)))"
proof -
  have n: "nodes_ok NIL D (Node (Node s p (Node l y r)) g u)" using n by simp
  have d: "y \<notin> set (ptrs l)" "y \<notin> set (ptrs r)" "y \<notin> set (ptrs s)" "y \<notin> set (ptrs u)" "y \<notin> cptrs D"
    "g \<notin> set (ptrs l)" "g \<notin> set (ptrs r)" "g \<notin> set (ptrs s)" "g \<notin> set (ptrs u)" "g \<notin> cptrs D"
    "y \<noteq> g" "y \<noteq> NIL" "g \<noteq> NIL" "p \<noteq> y" "p \<noteq> g"
    using nodes_okD [OF n] by auto
  have "(c(y := RBT_BLACK, g := RBT_RED)) NIL = RBT_BLACK" using i d by (simp add: ins_inv_def)
  then show ?thesis using i p u by (subst balanced_plug) (auto simp: ins_inv_def d d(11-15) [symmetric])
qed

text \<open>A heap that holds a tree of the given nodes, and differs from \<open>h\<close> only there and not in the data.\<close>

definition holds :: "ptr \<Rightarrow> rbt_heap \<Rightarrow> ptr \<Rightarrow> ptree \<Rightarrow> bool" where
  "holds NIL h root t \<longleftrightarrow> repr NIL h NIL t \<and> root = rootp NIL t \<and> distinct (ptrs t)"

definition edits :: "ptr set \<Rightarrow> rbt_heap \<Rightarrow> rbt_heap \<Rightarrow> bool" where
  "edits S h h' \<longleftrightarrow> (\<forall>q. n_data (h' q) = n_data (h q) \<and> (q \<notin> S \<longrightarrow> h' q = h q))"

lemma edits_refl [simp]: "edits S h h"
  by (simp add: edits_def)

lemma edits_trans: "edits S h1 h2 \<Longrightarrow> edits S h2 h3 \<Longrightarrow> edits S h1 h3"
  by (simp add: edits_def)

lemma edits_color [simp]: "p \<in> S \<Longrightarrow> edits S h (set_color p x h') \<longleftrightarrow> edits S h h'"
  unfolding edits_def by (metis set_fields(20) set_other(4))

lemma edits_links: "only_links S h h' \<Longrightarrow> edits S h h'"
  by (simp add: edits_def only_links_def)

lemma holds_color [simp]: "holds NIL (set_color p x h) root t = holds NIL h root t"
  by (simp add: holds_def)

lemma holds_nodes_ok: "holds NIL h root (plug C t) \<Longrightarrow> nodes_ok NIL C t"
  by (auto simp: holds_def nodes_ok_def dest: repr_not_NIL)

lemma holds_root: "holds NIL h root t \<Longrightarrow> ptrs t \<noteq> [] \<Longrightarrow> root \<in> set (ptrs t)"
  by (cases t) (auto simp: holds_def)

lemma holds_rotate_left:
  assumes "holds NIL h root (plug C (Node a x (Node b y c)))"
  obtains h' root' where "rbt_rotate_left root x NIL h = (h', root')" "holds NIL h' root' (plug C (Node (Node a x b) y c))"
    "colors h' = colors h" "edits (set (ptrs (plug C (Node a x (Node b y c))))) h h'"
proof -
  have p: "ptrs (plug C (Node (Node a x b) y c)) = ptrs (plug C (Node a x (Node b y c)))" by (simp add: ptrs_plug)
  show ?thesis
    using rotate_left [of NIL h C a x b y c root] assms that unfolding holds_def p by (auto dest: colors_only_links edits_links)
qed

lemma holds_rotate_right:
  assumes "holds NIL h root (plug C (Node (Node a x b) y c))"
  obtains h' root' where "rbt_rotate_right root y NIL h = (h', root')" "holds NIL h' root' (plug C (Node a x (Node b y c)))"
    "colors h' = colors h" "edits (set (ptrs (plug C (Node (Node a x b) y c)))) h h'"
proof -
  have p: "ptrs (plug C (Node a x (Node b y c))) = ptrs (plug C (Node (Node a x b) y c))" by (simp add: ptrs_plug)
  show ?thesis
    using rotate_right [of NIL h C a x b y c root] assms that unfolding holds_def p by (auto dest: colors_only_links edits_links)
qed

text \<open>
  A turn either moves the red focus two levels up, or it leaves a balanced tree in which the parent of
  \<open>y\<close> is black.
\<close>

definition ins_turn_ok :: "ptr \<Rightarrow> rbt_heap \<Rightarrow> frame list \<Rightarrow> ptree \<Rightarrow> rbt_heap \<times> ptr \<times> ptr \<Rightarrow> bool" where
  "ins_turn_ok NIL h C t res \<longleftrightarrow> (case res of (h1, root1, y1) \<Rightarrow> edits (set (ptrs (plug C t))) h h1 \<and>
     ((\<exists>D t1. length D < length C \<and> holds NIL h1 root1 (plug D t1) \<and> ptrs (plug D t1) = ptrs (plug C t) \<and>
        ins_inv NIL (colors h1) D t1 \<and> y1 = rootp NIL t1) \<or>
      (\<exists>t1. holds NIL h1 root1 t1 \<and> ptrs t1 = ptrs (plug C t) \<and> balanced NIL (colors h1) t1 \<and> colors h1 NIL = RBT_BLACK \<and>
        n_color (h1 (n_parent (h1 y1))) = RBT_BLACK)))"

lemma ins_links:
  assumes h: "holds NIL h root (plug (F # LF g u # D) (Node l y r))" and q: "q = ctop NIL [F]"
  shows "n_parent (h y) = q" "n_parent (h q) = g" "n_left (h g) = q" "n_right (h g) = rootp NIL u" "g \<noteq> NIL" "q \<noteq> NIL"
    "g \<in> set (ptrs (plug (F # LF g u # D) (Node l y r)))" "q \<in> set (ptrs (plug (F # LF g u # D) (Node l y r)))"
  using h unfolding q by (cases F; auto simp: holds_def repr_plug ptrs_plug)+

lemma ins_turn_recolor:
  assumes h: "holds NIL h root (plug C t)" and C: "C = F # LF g (Node ul u ur) # D" and t: "t = Node l y r"
    and i: "ins_inv NIL (colors h) C t" and p: "colors h (ctop NIL C) = RBT_RED" and u: "colors h u = RBT_RED"
  shows "ins_turn_ok NIL h C t (fix_insert_turn root y NIL h)"
proof -
  define q where "q = ctop NIL [F]"
  note links = ins_links [OF h [unfolded C t] q_def] and n = holds_nodes_ok [OF h]
  have red: "colors h q = RBT_RED" "u \<noteq> NIL" using p i u by (cases F; auto simp: C q_def ins_inv_def)+
  have e: "fix_insert_turn root y NIL h = (set_color g RBT_RED (set_color u RBT_BLACK (set_color q RBT_BLACK h)), root, g)"
    using links u red by (simp add: fix_insert_turn_def Let_def color_colors)
  have "ins_inv NIL ((colors h)(q := RBT_BLACK, u := RBT_BLACK, g := RBT_RED)) D (Node (plug [F] t) g (Node ul u ur))"
    unfolding q_def by (rule ins_recolor) (use i n p u C red in \<open>auto simp: q_def\<close>)
  moreover have "plug D (Node (plug [F] t) g (Node ul u ur)) = plug C t" by (cases F) (auto simp: C)
  moreover have "u \<in> set (ptrs (plug C t))" by (cases F) (auto simp: C ptrs_plug)
  ultimately show ?thesis unfolding e ins_turn_ok_def
    using h links by (auto simp: C t intro!: exI [of _ D] exI [of _ "Node (plug [F] t) g (Node ul u ur)"])
qed

lemma ins_turn_outer:
  assumes h: "holds NIL h root (plug C t)" and C: "C = LF q s # LF g u # D" and t: "t = Node l y r"
    and i: "ins_inv NIL (colors h) C t" and p: "colors h q = RBT_RED" and u: "colors h (rootp NIL u) = RBT_BLACK"
  shows "ins_turn_ok NIL h C t (fix_insert_turn root y NIL h)"
proof -
  note links = ins_links [OF h [unfolded C t], of q, simplified] and n = holds_nodes_ok [OF h]
  have q: "n_right (h q) = rootp NIL s" "rootp NIL s \<noteq> y" using h n unfolding C t by (auto simp: holds_def repr_plug dest!: nodes_okD)
  let ?h = "set_color g RBT_RED (set_color q RBT_BLACK h)"
  have pl: "plug C t = plug D (Node (Node t q s) g u)" by (simp add: C)
  have "holds NIL ?h root (plug D (Node (Node t q s) g u))" using h pl by simp
  then obtain h4 root2 where r: "rbt_rotate_right root g NIL ?h = (h4, root2)" "holds NIL h4 root2 (plug D (Node t q (Node s g u)))"
    "colors h4 = colors ?h" "edits (set (ptrs (plug D (Node (Node t q s) g u)))) ?h h4" by (rule holds_rotate_right)
  have e: "fix_insert_turn root y NIL h = (h4, root2, y)"
    using u links q r(1) by (simp add: fix_insert_turn_def Let_def color_colors)
  have "balanced NIL (colors h4) (plug D (Node t q (Node s g u)))"
    using ins_outer [of NIL "colors h" q s g u D t] i n p u r(3) by (simp add: C)
  moreover have "n_parent (h4 y) = q" using r(2) t by (simp add: holds_def repr_plug)
  moreover have "edits (set (ptrs (plug C t))) h h4"
    using r(4) links unfolding pl by (auto simp: t intro: edits_trans [of _ h ?h])
  moreover have "colors h4 NIL = RBT_BLACK" "colors h4 q = RBT_BLACK" using r(3) i links n by (auto simp: ins_inv_def C dest!: nodes_okD)
  ultimately show ?thesis unfolding e ins_turn_ok_def
    using r(2) by (auto simp: color_colors pl ptrs_plug intro!: exI [of _ "plug D (Node t q (Node s g u))"])
qed

lemma ins_turn_inner:
  assumes h: "holds NIL h root (plug C t)" and C: "C = RF s q # LF g u # D" and t: "t = Node l y r"
    and i: "ins_inv NIL (colors h) C t" and p: "colors h q = RBT_RED" and u: "colors h (rootp NIL u) = RBT_BLACK"
  shows "ins_turn_ok NIL h C t (fix_insert_turn root y NIL h)"
proof -
  note links = ins_links [OF h [unfolded C t], of q, simplified] and n = holds_nodes_ok [OF h]
  have q: "n_right (h q) = y" "y \<noteq> g" "y \<noteq> q" "y \<noteq> NIL" using h n unfolding C t by (auto simp: holds_def repr_plug dest!: nodes_okD)
  have pl: "plug C t = plug (LF g u # D) (Node s q (Node l y r))" by (simp add: C t)
  from h [unfolded pl] obtain h1 root1 where r1: "rbt_rotate_left root q NIL h = (h1, root1)"
    "holds NIL h1 root1 (plug (LF g u # D) (Node (Node s q l) y r))" "colors h1 = colors h"
    "edits (set (ptrs (plug (LF g u # D) (Node s q (Node l y r))))) h h1" by (rule holds_rotate_left)
  have l1: "n_parent (h1 q) = y" "n_parent (h1 y) = g" using r1(2) by (auto simp: holds_def repr_plug)
  let ?h = "set_color g RBT_RED (set_color y RBT_BLACK h1)"
  have "holds NIL ?h root1 (plug D (Node (Node (Node s q l) y r) g u))" using r1(2) by simp
  then obtain h4 root2 where r: "rbt_rotate_right root1 g NIL ?h = (h4, root2)"
    "holds NIL h4 root2 (plug D (Node (Node s q l) y (Node r g u)))" "colors h4 = colors ?h"
    "edits (set (ptrs (plug D (Node (Node (Node s q l) y r) g u)))) ?h h4" by (rule holds_rotate_right)
  have e: "fix_insert_turn root y NIL h = (h4, root2, q)"
    using u links q r(1) r1(1) l1 by (simp add: fix_insert_turn_def Let_def color_colors)
  have "balanced NIL (colors h4) (plug D (Node (Node s q l) y (Node r g u)))"
    using ins_inner [of NIL "colors h" s q g u D l y r] i n p u r(3) r1(3) by (simp add: C t)
  moreover have "n_parent (h4 q) = y" using r(2) by (simp add: holds_def repr_plug)
  moreover have "edits (set (ptrs (plug C t))) h h4"
  proof (rule edits_trans [of _ h h1])
    show "edits (set (ptrs (plug C t))) h h1" using r1(4) by (simp add: pl)
    have "edits (set (ptrs (plug C t))) h1 ?h" by (simp add: pl ptrs_plug)
    moreover have "edits (set (ptrs (plug C t))) ?h h4" using r(4) by (simp add: pl ptrs_plug)
    ultimately show "edits (set (ptrs (plug C t))) h1 h4" by (rule edits_trans)
  qed
  moreover have "colors h4 NIL = RBT_BLACK" "colors h4 y = RBT_BLACK" using r(3) r1(3) i links q by (auto simp: ins_inv_def)
  ultimately show ?thesis unfolding e ins_turn_ok_def
    using r(2) by (auto simp: color_colors pl ptrs_plug intro!: exI [of _ "plug D (Node (Node s q l) y (Node r g u))"])
qed

lemma ins_turn_left:
  assumes h: "holds NIL h root (plug C t)" and C: "C = F # LF g u # D" and i: "ins_inv NIL (colors h) C t"
    and p: "colors h (ctop NIL C) = RBT_RED"
  shows "ins_turn_ok NIL h C t (fix_insert_turn root (rootp NIL t) NIL h)"
proof -
  obtain l y r where t: "t = Node l y r" using i by (cases t) (auto simp: ins_inv_def)
  show ?thesis
  proof (cases "colors h (rootp NIL u) = RBT_RED")
    case True
    then obtain ul u0 ur where u: "u = Node ul u0 ur" using i by (cases u) (auto simp: ins_inv_def)
    show ?thesis using ins_turn_recolor [OF h C [unfolded u] t i p] True u t by simp
  next
    case False
    then show ?thesis using ins_turn_outer [OF h _ t i] ins_turn_inner [OF h _ t i] C p t by (cases F) auto
  qed
qed

subsection \<open>The mirror image of a turn\<close>

lemma rotate_left_flip: "rbt_rotate_left root y NIL (flip_heap h) = apfst flip_heap (rbt_rotate_right root y NIL h)"
  by (simp add: rotate_right_flip apfst_def map_prod_def split_beta)

lemma rotate_right_flip2: "rbt_rotate_right root y NIL (flip_heap h) = apfst flip_heap (rbt_rotate_left root y NIL h)"
  by (simp add: rotate_right_flip)

lemma ins_turn_flip:
  assumes "n_left (h (n_parent (h (n_parent (h y))))) \<noteq> n_parent (h y)" "n_right (h (n_parent (h (n_parent (h y))))) = n_parent (h y)"
  shows "fix_insert_turn root y NIL h = apfst flip_heap (fix_insert_turn root y NIL (flip_heap h))"
  using assms by (simp add: fix_insert_turn_def Let_def rotate_left_flip rotate_right_flip2 case_prod_beta)

lemma invh_mirror: "invh c t \<Longrightarrow> invh c (mirror t) \<and> bheight c (mirror t) = bheight c t"
  by (induction t) auto

lemma invc_mirror [simp]: "invc NIL c (mirror t) = invc NIL c t"
  by (induction t) auto

lemma ctop_mirror [simp]: "ctop NIL (map mirrorF C) = ctop NIL C"
  by (cases C rule: cptrs.cases) auto

lemma cinv_mirror: "cinv NIL c n C \<Longrightarrow> cinv NIL c n (map mirrorF C)"
  by (induction C arbitrary: n rule: cptrs.induct) (auto dest: invh_mirror)

lemma mirror_Leaf [simp]: "mirror t = Leaf \<longleftrightarrow> t = Leaf"
  by (cases t) auto

lemma ins_inv_mirror: "ins_inv NIL c C t \<Longrightarrow> ins_inv NIL c (map mirrorF C) (mirror t)"
  by (auto simp: ins_inv_def invh_mirror cinv_mirror)

lemma balanced_mirror: "balanced NIL c t \<Longrightarrow> balanced NIL c (mirror t)"
  by (auto simp: balanced_def invh_mirror)

lemma holds_flip: "holds NIL h root t \<Longrightarrow> holds NIL (flip_heap h) root (mirror t)"
  by (simp add: holds_def)

lemma edits_flip: "edits S (flip_heap h) (flip_heap h') = edits S h h'"
  by (simp add: edits_def)

lemma holds_flip': "holds NIL h root (mirror t) \<Longrightarrow> holds NIL (flip_heap h) root t"
  using holds_flip [of NIL h root "mirror t"] by simp

lemma mirrorF_mirrorF [simp]: "map mirrorF (map mirrorF C) = C"
proof -
  have "mirrorF (mirrorF f) = f" for f by (cases f) auto
  then show ?thesis by (simp add: o_def)
qed

lemma plug_mirror: "plug (map mirrorF C) t = mirror (plug C (mirror t))"
  by (simp add: mirror_plug)

lemma ins_turn_ok_flip:
  assumes "ins_turn_ok NIL (flip_heap h) (map mirrorF C) (mirror t) (h1, root1, y1)"
  shows "ins_turn_ok NIL h C t (flip_heap h1, root1, y1)"
proof -
  have e: "edits (set (ptrs (plug C t))) h (flip_heap h1)"
    using assms edits_flip [of _ h "flip_heap h1"] by (simp add: ins_turn_ok_def plug_mirror)
  consider D t1 where "length D < length C" "holds NIL h1 root1 (plug D t1)" "ptrs (plug D t1) = rev (ptrs (plug C t))"
      "ins_inv NIL (colors h1) D t1" "y1 = rootp NIL t1"
    | t1 where "holds NIL h1 root1 t1" "ptrs t1 = rev (ptrs (plug C t))" "balanced NIL (colors h1) t1" "colors h1 NIL = RBT_BLACK"
        "n_color (h1 (n_parent (h1 y1))) = RBT_BLACK"
    using assms by (auto simp: ins_turn_ok_def plug_mirror)
  then show ?thesis
  proof cases
    case (1 D t1)
    have "holds NIL (flip_heap h1) root1 (plug (map mirrorF D) (mirror t1))"
      using holds_flip [OF 1(2)] by (simp add: mirror_plug)
    then show ?thesis using 1 e unfolding ins_turn_ok_def
      by (auto simp: plug_mirror ins_inv_mirror intro!: exI [of _ "map mirrorF D"] exI [of _ "mirror t1"])
  next
    case (2 t1)
    then show ?thesis using e holds_flip [OF 2(1)] unfolding ins_turn_ok_def
      by (auto simp: balanced_mirror intro!: exI [of _ "mirror t1"])
  qed
qed

lemma ins_turn_right:
  assumes h: "holds NIL h root (plug C t)" and C: "C = F # RF u g # D" and i: "ins_inv NIL (colors h) C t"
    and p: "colors h (ctop NIL C) = RBT_RED"
  shows "ins_turn_ok NIL h C t (fix_insert_turn root (rootp NIL t) NIL h)"
proof -
  obtain l y r where t: "t = Node l y r" using i by (cases t) (auto simp: ins_inv_def)
  have "n_parent (h y) = ctop NIL [F]" "n_parent (h (ctop NIL [F])) = g" "n_left (h g) = rootp NIL u" "n_right (h g) = ctop NIL [F]"
    "ctop NIL [F] \<noteq> NIL"
    using h unfolding C t by (cases F; auto simp: holds_def repr_plug)+
  moreover have "rootp NIL u \<noteq> ctop NIL [F]"
    using holds_nodes_ok [OF h] calculation(5) unfolding C t by (cases F; cases u) (auto dest!: nodes_okD)
  ultimately have f: "fix_insert_turn root y NIL h = apfst flip_heap (fix_insert_turn root y NIL (flip_heap h))"
    by (intro ins_turn_flip) auto
  have "ins_turn_ok NIL (flip_heap h) (map mirrorF C) (mirror t) (fix_insert_turn root (rootp NIL (mirror t)) NIL (flip_heap h))"
  proof (rule ins_turn_left)
    show "holds NIL (flip_heap h) root (plug (map mirrorF C) (mirror t))" using holds_flip [OF h] by (simp add: mirror_plug)
    show "map mirrorF C = mirrorF F # LF g (mirror u) # map mirrorF D" by (simp add: C)
    show "ins_inv NIL (colors (flip_heap h)) (map mirrorF C) (mirror t)" using ins_inv_mirror [OF i] by simp
    show "colors (flip_heap h) (ctop NIL (map mirrorF C)) = RBT_RED" using p by simp
  qed
  moreover obtain h1 root1 y1 where "fix_insert_turn root y NIL (flip_heap h) = (h1, root1, y1)"
    by (cases "fix_insert_turn root y NIL (flip_heap h)")
  ultimately show ?thesis using ins_turn_ok_flip [of NIL h C t h1 root1 y1] f by (simp add: t)
qed

section \<open>The loop and the insertion\<close>

lemma ins_exit:
  assumes h: "holds NIL h root (plug C t)" and i: "ins_inv NIL (colors h) C t" and b: "colors h (ctop NIL C) \<noteq> RBT_RED"
  shows "holds NIL (set_color root RBT_BLACK h) root (plug C t) \<and> balanced NIL (colors (set_color root RBT_BLACK h)) (plug C t) \<and>
    colors (set_color root RBT_BLACK h) NIL = RBT_BLACK \<and> edits (set (ptrs (plug C t))) h (set_color root RBT_BLACK h)"
proof -
  obtain l y r where t: "t = Node l y r" using i by (cases t) (auto simp: ins_inv_def)
  have root: "root \<in> set (ptrs (plug C t))" using holds_root [OF h] by (simp add: t ptrs_plug)
  have "balanced NIL ((colors h)(root := RBT_BLACK)) (plug C t)"
  proof (cases "C = []")
    case True
    then show ?thesis using h i holds_nodes_ok [OF h] t
      by (auto simp: holds_def ins_inv_def balanced_def dest!: nodes_okD)
  next
    case False
    then have "balanced NIL (colors h) (plug C t)" using i b by (subst balanced_plug) (auto simp: ins_inv_def)
    then have "(colors h)(root := RBT_BLACK) = colors h" using h by (auto simp: holds_def balanced_def)
    then show ?thesis using \<open>balanced NIL (colors h) (plug C t)\<close> by simp
  qed
  then show ?thesis using h i root by (auto simp: ins_inv_def)
qed

lemma fix_insert_ok:
  assumes "holds NIL h root (plug C t)" and "ins_inv NIL (colors h) C t"
  shows "\<exists>h' root' t'. rbt_fix_insert root (rootp NIL t) NIL h = Some (h', root') \<and> holds NIL h' root' t' \<and>
    ptrs t' = ptrs (plug C t) \<and> balanced NIL (colors h') t' \<and> colors h' NIL = RBT_BLACK \<and> edits (set (ptrs (plug C t))) h h'"
  using assms
proof (induction "length C" arbitrary: C t h root rule: less_induct)
  case less
  note h = less.prems(1) and i = less.prems(2)
  obtain l y r where t: "t = Node l y r" using i by (cases t) (auto simp: ins_inv_def)
  have yp: "n_parent (h y) = ctop NIL C" using h t by (simp add: holds_def repr_plug)
  show ?case
  proof (cases "colors h (ctop NIL C) = RBT_RED")
    case False
    have e: "rbt_fix_insert root y NIL h = Some (set_color root RBT_BLACK h, root)"
      using False by (subst rbt_fix_insert.simps) (simp add: yp color_colors)
    show ?thesis using ins_exit [OF h i] False e t by auto
  next
    case True
    then obtain F G D where C: "C = F # G # D"
      using i by (cases C rule: cptrs.cases; cases "tl C") (auto simp: ins_inv_def)
    obtain h1 root1 y1 where f: "fix_insert_turn root y NIL h = (h1, root1, y1)" by (cases "fix_insert_turn root y NIL h")
    have "ins_turn_ok NIL h C t (h1, root1, y1)"
      using ins_turn_left [OF h _ i True] ins_turn_right [OF h _ i True] C f t by (cases G) auto
    then consider D t1 where "length D < length C" "holds NIL h1 root1 (plug D t1)" "ptrs (plug D t1) = ptrs (plug C t)"
        "ins_inv NIL (colors h1) D t1" "y1 = rootp NIL t1" "edits (set (ptrs (plug C t))) h h1"
      | t1 where "holds NIL h1 root1 t1" "ptrs t1 = ptrs (plug C t)" "balanced NIL (colors h1) t1" "colors h1 NIL = RBT_BLACK"
        "n_color (h1 (n_parent (h1 y1))) = RBT_BLACK" "edits (set (ptrs (plug C t))) h h1"
      by (auto simp: ins_turn_ok_def)
    moreover have e: "rbt_fix_insert root y NIL h = rbt_fix_insert root1 y1 NIL h1"
      using True f by (subst rbt_fix_insert.simps) (simp add: yp color_colors)
    ultimately show ?thesis
    proof cases
      case (1 D t1)
      from less.hyps [OF 1(1,2,4)] show ?thesis using 1 e t by (auto intro: edits_trans)
    next
      case (2 t1)
      have "root1 \<in> set (ptrs (plug C t))" using holds_root [OF 2(1)] 2(2) t by (simp add: ptrs_plug)
      moreover have "(colors h1)(root1 := RBT_BLACK) = colors h1" using 2(1,3) by (auto simp: holds_def balanced_def)
      moreover have "rbt_fix_insert root1 y1 NIL h1 = Some (set_color root1 RBT_BLACK h1, root1)"
        using 2(5) by (subst rbt_fix_insert.simps) simp
      ultimately show ?thesis using 2 e t by (auto intro!: exI [of _ t1])
    qed
  qed
qed

text \<open>The key of a node, and a search tree: every node has data and the keys ascend.\<close>

definition node_key :: "(ptr \<Rightarrow> u64) \<Rightarrow> rbt_heap \<Rightarrow> ptr \<Rightarrow> u64" where
  "node_key key h p = (case n_data (h p) of None \<Rightarrow> 0 | Some d \<Rightarrow> key d)"

definition search_tree :: "(ptr \<Rightarrow> u64) \<Rightarrow> rbt_heap \<Rightarrow> ptree \<Rightarrow> bool" where
  "search_tree key h t \<longleftrightarrow> (\<forall>p \<in> set (ptrs t). n_data (h p) \<noteq> None) \<and> sorted (map (node_key key h) (ptrs t))"

lemma search_tree_cong:
  assumes "\<And>p. p \<in> set (ptrs t) \<Longrightarrow> n_data (h' p) = n_data (h p)"
  shows "search_tree key h' t = search_tree key h t"
proof -
  have "map (node_key key h') (ptrs t) = map (node_key key h) (ptrs t)" using assms by (simp add: node_key_def)
  then show ?thesis using assms unfolding search_tree_def by (metis (no_types, lifting))
qed

definition rbt_ok :: "(ptr \<Rightarrow> u64) \<Rightarrow> ptr \<Rightarrow> rbt_heap \<Rightarrow> ptr \<Rightarrow> ptree \<Rightarrow> bool" where
  "rbt_ok key NIL h root t \<longleftrightarrow> holds NIL h root t \<and> balanced NIL (colors h) t \<and> colors h NIL = RBT_BLACK \<and> search_tree key h t"

lemma insert_place_ok:
  assumes "repr NIL h par t" and "search_tree key h t"
    and "\<And>p. p \<in> set (plefts C) \<Longrightarrow> node_key key h p \<le> k" and "\<And>p. p \<in> set (prights C) \<Longrightarrow> k < node_key key h p"
  shows "\<exists>C'. insert_place key k NIL h (ctop NIL C) (rootp NIL t) = Some (ctop NIL C') \<and> plug C' Leaf = plug C t \<and>
    (\<forall>p \<in> set (plefts C'). node_key key h p \<le> k) \<and> (\<forall>p \<in> set (prights C'). k < node_key key h p)"
  using assms
proof (induction t arbitrary: C par)
  case Leaf
  then show ?case by (intro exI [of _ C]) (subst insert_place.simps, auto)
next
  case (Node l p r)
  obtain d where d: "n_data (h p) = Some d" "node_key key h p = key d" using Node.prems(2) by (auto simp: search_tree_def node_key_def)
  have lt: "\<forall>q \<in> set (ptrs l). node_key key h q \<le> key d" "\<forall>q \<in> set (ptrs r). key d \<le> node_key key h q"
    and st: "search_tree key h l" "search_tree key h r"
    using Node.prems(2) d(2) by (auto simp: search_tree_def sorted_append)
  have rp: "p \<noteq> NIL" "repr NIL h p l" "repr NIL h p r" "n_left (h p) = rootp NIL l" "n_right (h p) = rootp NIL r"
    using Node.prems(1) by auto
  show ?case
  proof (cases "k < key d")
    case True
    have "\<exists>C'. insert_place key k NIL h (ctop NIL (LF p r # C)) (rootp NIL l) = Some (ctop NIL C') \<and> plug C' Leaf = plug (LF p r # C) l \<and>
      (\<forall>p \<in> set (plefts C'). node_key key h p \<le> k) \<and> (\<forall>p \<in> set (prights C'). k < node_key key h p)"
      by (rule Node.IH(1) [OF rp(2) st(1)]) (use Node.prems lt d True in fastforce)+
    then show ?thesis using True d rp by (subst insert_place.simps) auto
  next
    case False
    have "\<exists>C'. insert_place key k NIL h (ctop NIL (RF l p # C)) (rootp NIL r) = Some (ctop NIL C') \<and> plug C' Leaf = plug (RF l p # C) r \<and>
      (\<forall>p \<in> set (plefts C'). node_key key h p \<le> k) \<and> (\<forall>p \<in> set (prights C'). k < node_key key h p)"
      by (rule Node.IH(2) [OF rp(3) st(2)]) (use Node.prems lt d False in fastforce)+
    then show ?thesis using False d rp by (subst insert_place.simps) auto
  qed
qed

definition new_node :: "ptr \<Rightarrow> ptr \<Rightarrow> ptr \<Rightarrow> rbt_node" where
  "new_node data NIL par = \<lparr>n_data = Some data, n_left = NIL, n_right = NIL, n_parent = par, n_color = RBT_RED\<rparr>"

lemma attach_ok:
  assumes "repr NIL h NIL (plug C Leaf)" and "distinct (ptrs (plug C Leaf))" and "z \<notin> cptrs C" and "z \<noteq> NIL"
  shows "repr NIL (put_child NIL C z (h(z := new_node d NIL (ctop NIL C)))) NIL (plug C (Node Leaf z Leaf))"
proof -
  let ?h = "put_child NIL C z (h(z := new_node d NIL (ctop NIL C)))"
  have c: "reprC NIL h C NIL" using assms(1) by (simp add: repr_plug)
  have "reprC NIL ?h C z"
    by (rule reprC_refill [OF c]) (use assms ctop_in(2) [of C] in \<open>auto simp: distinct_plug\<close>)
  moreover have "ctop NIL C \<noteq> z" using assms by simp
  ultimately show ?thesis using assms(3,4) by (auto simp: repr_plug new_node_def)
qed

lemma takeWhile_split: "(\<And>p. p \<in> set xs \<Longrightarrow> P p) \<Longrightarrow> (\<And>p. p \<in> set ys \<Longrightarrow> \<not> P p) \<Longrightarrow> takeWhile P (xs @ ys) = xs \<and> dropWhile P (xs @ ys) = ys"
  by (induction xs) (auto simp: takeWhile_eq_Nil_iff dropWhile_eq_self_iff hd_in_set)

lemma rbt_insert_place:
  assumes ok: "rbt_ok key NIL h root t" and z: "z \<notin> set (ptrs t)" "z \<noteq> NIL"
  obtains C where "plug C Leaf = t" "ptrs t = plefts C @ prights C"
    "\<And>p. p \<in> set (plefts C) \<Longrightarrow> node_key key h p \<le> key d" "\<And>p. p \<in> set (prights C) \<Longrightarrow> key d < node_key key h p"
    "rbt_insert_node key root z d NIL h =
       (let h3 = put_child NIL C z (h(z := new_node d NIL (ctop NIL C)))
        in if C = [] then Some (set_color z RBT_BLACK h3, z)
           else if n_parent (h3 (ctop NIL C)) = NIL then Some (h3, root) else rbt_fix_insert root z NIL h3)"
proof -
  let ?h1 = "h(z := new_node d NIL 0)"
  have r: "repr NIL ?h1 NIL t" "root = rootp NIL t" "search_tree key ?h1 t"
  proof -
    show "repr NIL ?h1 NIL t" by (rule repr_frame [of NIL h]) (use ok z in \<open>auto simp: rbt_ok_def holds_def same_links_def\<close>)
    show "search_tree key ?h1 t" using ok z(1) by (subst search_tree_cong [of t _ h]) (auto simp: rbt_ok_def)
  qed (use ok in \<open>simp add: rbt_ok_def holds_def\<close>)
  obtain C where C: "insert_place key (key d) NIL ?h1 NIL root = Some (ctop NIL C)" "plug C Leaf = t"
    "\<forall>p \<in> set (plefts C). node_key key ?h1 p \<le> key d" "\<forall>p \<in> set (prights C). key d < node_key key ?h1 p"
    using insert_place_ok [OF r(1,3), of "[]" "key d"] r(2) by auto
  have zC: "z \<notin> cptrs C" using z(1) C(2) [symmetric] by (simp add: ptrs_plug cptrs_eq)
  have k: "node_key key ?h1 p = node_key key h p" "n_data (h p) \<noteq> None" if "p \<in> cptrs C" for p
    using that ok zC C(2) [symmetric] by (auto simp: node_key_def rbt_ok_def search_tree_def ptrs_plug cptrs_eq)
  have nC: "C \<noteq> [] \<Longrightarrow> ctop NIL C \<noteq> NIL"
    using r(1) C(2) ctop_in(1) [of C NIL] reprC_not_NIL [of NIL ?h1 C NIL] by (auto simp: repr_plug)
  have side: "key d < node_key key h (ctop NIL C) \<longleftrightarrow> is_LF C" if "C \<noteq> []"
    using that C(3,4) k(1) by (cases C rule: cptrs.cases) force+
  have t: "ptrs t = plefts C @ prights C" using C(2) [symmetric] by (simp add: ptrs_plug)
  have h2: "set_parent z (ctop NIL C) ?h1 = h(z := new_node d NIL (ctop NIL C))" by (simp add: set_parent_def new_node_def)
  have tC: "ctop NIL C \<noteq> z" using zC z(2) by simp
  have "rbt_insert_node key root z d NIL h =
       (let h3 = put_child NIL C z (h(z := new_node d NIL (ctop NIL C)))
        in if C = [] then Some (set_color z RBT_BLACK h3, z)
           else if n_parent (h3 (ctop NIL C)) = NIL then Some (h3, root) else rbt_fix_insert root z NIL h3)"
  proof (cases "C = []")
    case True
    then show ?thesis using C(1) h2 by (simp add: rbt_insert_node_def Let_def put_child_def flip: new_node_def)
  next
    case False
    obtain e where e: "n_data (h (ctop NIL C)) = Some e" using k(2) ctop_in(1) [OF False] by blast
    have "key d < key e \<longleftrightarrow> is_LF C" using side [OF False] e by (simp add: node_key_def)
    then show ?thesis using C(1) h2 False nC e tC
      by (simp add: rbt_insert_node_def Let_def put_child_def flip: new_node_def) (simp add: new_node_def)
  qed
  then show ?thesis using that [OF C(2) t] C(3,4) k(1) by (simp add: cptrs_eq)
qed

lemma insert_repair:
  assumes r: "repr NIL h NIL (plug C (Node Leaf z Leaf))" and d: "distinct (ptrs (plug C (Node Leaf z Leaf)))"
    and i: "ins_inv NIL (colors h) C (Node Leaf z Leaf)" and root: "C \<noteq> [] \<Longrightarrow> root = rootp NIL (plug C (Node Leaf z Leaf))"
  shows "\<exists>h' root' t'. (let h3 = h in if C = [] then Some (set_color z RBT_BLACK h3, z)
           else if n_parent (h3 (ctop NIL C)) = NIL then Some (h3, root) else rbt_fix_insert root z NIL h3) = Some (h', root') \<and>
    holds NIL h' root' t' \<and> balanced NIL (colors h') t' \<and> colors h' NIL = RBT_BLACK \<and>
    ptrs t' = ptrs (plug C (Node Leaf z Leaf)) \<and> edits (set (ptrs (plug C (Node Leaf z Leaf)))) h h'"
proof (cases "C = []")
  case True
  then show ?thesis using r i
    by (auto simp: holds_def ins_inv_def balanced_def intro!: exI [of _ "Node Leaf z Leaf"])
next
  case C: False
  have h: "holds NIL h root (plug C (Node Leaf z Leaf))" using r d root [OF C] by (simp add: holds_def)
  show ?thesis
  proof (cases "n_parent (h (ctop NIL C)) = NIL")
    case True
    then obtain F where "C = [F]" using r C
      by (cases C rule: cptrs.cases; cases "tl C" rule: cptrs.cases) (auto simp: repr_plug)
    then have "colors h (ctop NIL C) = RBT_BLACK" using i by (cases F) (auto simp: ins_inv_def)
    then have "balanced NIL (colors h) (plug C (Node Leaf z Leaf))" using i C by (subst balanced_plug) (auto simp: ins_inv_def)
    then show ?thesis using True C h i by (auto simp: ins_inv_def)
  next
    case False
    then show ?thesis using fix_insert_ok [OF h i] C by (auto simp: Let_def)
  qed
qed

lemma rbt_insert_ok:
  assumes ok: "rbt_ok key NIL h root t" and z: "z \<notin> set (ptrs t)" "z \<noteq> NIL"
  shows "\<exists>h' root' t'. rbt_insert_node key root z d NIL h = Some (h', root') \<and> rbt_ok key NIL h' root' t' \<and>
    ptrs t' = takeWhile (\<lambda>p. node_key key h p \<le> key d) (ptrs t) @ z # dropWhile (\<lambda>p. node_key key h p \<le> key d) (ptrs t) \<and>
    n_data (h' z) = Some d \<and> (\<forall>q. q \<noteq> z \<longrightarrow> n_data (h' q) = n_data (h q)) \<and> (\<forall>q. q \<notin> insert z (set (ptrs t)) \<longrightarrow> h' q = h q)"
proof -
  obtain C where C: "plug C Leaf = t" "ptrs t = plefts C @ prights C"
    "\<And>p. p \<in> set (plefts C) \<Longrightarrow> node_key key h p \<le> key d" "\<And>p. p \<in> set (prights C) \<Longrightarrow> key d < node_key key h p"
    and e: "rbt_insert_node key root z d NIL h =
       (let h3 = put_child NIL C z (h(z := new_node d NIL (ctop NIL C)))
        in if C = [] then Some (set_color z RBT_BLACK h3, z)
           else if n_parent (h3 (ctop NIL C)) = NIL then Some (h3, root) else rbt_fix_insert root z NIL h3)"
    using rbt_insert_place [OF ok z, of d] by blast
  let ?h = "put_child NIL C z (h(z := new_node d NIL (ctop NIL C)))"
  let ?t = "plug C (Node Leaf z Leaf)"
  have zC: "z \<notin> cptrs C" using z(1) C(2) by (simp add: cptrs_eq)
  have rt: "repr NIL ?h NIL ?t" using attach_ok [of NIL h C z d] ok C(1) zC z(2) by (simp add: rbt_ok_def holds_def)
  have ds: "distinct (ptrs ?t)" using ok C(2) z(1) by (auto simp: rbt_ok_def holds_def ptrs_plug)
  have rp: "C \<noteq> [] \<Longrightarrow> root = rootp NIL ?t" using ok C(1) rootp_plug_ne [of C NIL Leaf "Node Leaf z Leaf"] by (auto simp: rbt_ok_def holds_def)
  have bal: "balanced NIL (colors h) (plug C Leaf)" "colors h NIL = RBT_BLACK" using ok C(1) by (auto simp: rbt_ok_def)
  have col: "colors ?h = (colors h)(z := RBT_RED)" by (auto simp: colors_def new_node_def)
  have ii: "ins_inv NIL (colors ?h) C (Node Leaf z Leaf)"
    using bal zC z(2) unfolding col by (simp add: balanced_plug ins_inv_def)
  have "\<not> node_key key h p \<le> key d" if "p \<in> set (prights C)" for p using C(4) [OF that] by simp
  note split = takeWhile_split [of "plefts C" "\<lambda>p. node_key key h p \<le> key d" "prights C", OF C(3) this]
  have tw: "takeWhile (\<lambda>p. node_key key h p \<le> key d) (ptrs t) @ z # dropWhile (\<lambda>p. node_key key h p \<le> key d) (ptrs t) = ptrs ?t"
    using split C(2) by (simp add: ptrs_plug)
  have res: "\<exists>h' root' t'. rbt_insert_node key root z d NIL h = Some (h', root') \<and> holds NIL h' root' t' \<and> balanced NIL (colors h') t' \<and>
    colors h' NIL = RBT_BLACK \<and> ptrs t' = ptrs ?t \<and> edits (set (ptrs ?t)) ?h h'"
    unfolding e by (rule insert_repair [OF rt ds ii]) (use rp in auto)
  then obtain h' root' t' where h': "rbt_insert_node key root z d NIL h = Some (h', root')" "holds NIL h' root' t'" "balanced NIL (colors h') t'"
    "colors h' NIL = RBT_BLACK" "ptrs t' = ptrs ?t" "edits (set (ptrs ?t)) ?h h'" by blast
  have dt: "n_data (h' z) = Some d" "\<And>q. q \<noteq> z \<Longrightarrow> n_data (h' q) = n_data (h q)"
    using h'(6) by (auto simp: edits_def new_node_def)
  have "node_key key h' q = (if q = z then key d else node_key key h q)" for q using dt by (simp add: node_key_def)
  then have "map (node_key key h') (plefts C) = map (node_key key h) (plefts C)" "map (node_key key h') (prights C) = map (node_key key h) (prights C)"
    "node_key key h' z = key d" using zC by (auto simp: cptrs_eq)
  moreover have "sorted (map (node_key key h) (plefts C) @ key d # map (node_key key h) (prights C))"
    using ok C(2-4) by (auto simp: rbt_ok_def search_tree_def sorted_append less_imp_le)
  ultimately have "sorted (map (node_key key h') (ptrs t'))" using h'(5) by (simp add: ptrs_plug del: map_eq_conv)
  moreover have "n_data (h' p) \<noteq> None" if "p \<in> set (ptrs t')" for p
    using that h'(5) dt C(2) ok by (cases "p = z") (auto simp: ptrs_plug rbt_ok_def search_tree_def)
  ultimately have "search_tree key h' t'" by (simp add: search_tree_def)
  moreover have "h' q = h q" if "q \<notin> insert z (set (ptrs t))" for q
    using that h'(6) C(2) by (auto simp: edits_def ptrs_plug cptrs_eq)
  ultimately show ?thesis using h' dt tw by (auto simp: rbt_ok_def)
qed

end
