(* ===== verification/Rbt_Delete.thy ===== *)
theory Rbt_Delete
  imports Rbt_Insert
begin

text \<open>
  Removal from the red-black tree and search in it: \<^verbatim>\<open>rbt_remove_node\<close> returns a balanced tree without the
  node, \<^verbatim>\<open>rbt_search_node\<close> finds a key exactly when a node has it, and the height is logarithmic.
\<close>

section \<open>Repair after a removal\<close>

text \<open>The state before a turn: the focus is one black node short and its root may be red below a red node.\<close>

fun invc2 :: "ptr \<Rightarrow> (ptr \<Rightarrow> rbt_node_color) \<Rightarrow> ptree \<Rightarrow> bool" where
  "invc2 NIL c Leaf \<longleftrightarrow> True"
| "invc2 NIL c (Node l p r) \<longleftrightarrow> invc NIL c l \<and> invc NIL c r"

definition del_inv :: "ptr \<Rightarrow> (ptr \<Rightarrow> rbt_node_color) \<Rightarrow> frame list \<Rightarrow> ptree \<Rightarrow> bool" where
  "del_inv NIL c C t \<longleftrightarrow> c NIL = RBT_BLACK \<and> invc2 NIL c t \<and> invh c t \<and> cinv NIL c (Suc (bheight c t)) C"

lemma invc2_upd [simp]: "p \<notin> set (ptrs t) \<Longrightarrow> p \<noteq> NIL \<Longrightarrow> invc2 NIL (c(p := x)) t = invc2 NIL c t"
  by (cases t) auto

lemma invc2_black: "c (rootp NIL t) = RBT_BLACK \<Longrightarrow> invc NIL c t = invc2 NIL c t"
  by (cases t) auto

lemma invc_invc2: "invc NIL c t \<Longrightarrow> invc2 NIL c t"
  by (cases t) auto

lemma del_exit:
  assumes i: "del_inv NIL c C t" and n: "nodes_ok NIL C t" and x: "C = [] \<or> c (rootp NIL t) = RBT_RED"
  shows "balanced NIL (c(rootp NIL t := RBT_BLACK)) (plug C t)"
proof (cases t)
  case Leaf
  then have "C = []" using x i by (auto simp: del_inv_def)
  then show ?thesis using Leaf i by (simp add: balanced_def del_inv_def)
next
  case (Node l p r)
  have d: "p \<notin> set (ptrs l)" "p \<notin> set (ptrs r)" "p \<notin> cptrs C" "p \<noteq> NIL" using nodes_okD [OF n] Node by auto
  then have "(c(p := RBT_BLACK)) NIL = RBT_BLACK" using i by (simp add: del_inv_def)
  then show ?thesis using i x d unfolding Node by (subst balanced_plug) (auto simp: del_inv_def d(4) [symmetric])
qed

lemma del_red:
  assumes i: "del_inv NIL c (LF p (Node wl w wr) # D) t" and n: "nodes_ok NIL (LF p (Node wl w wr) # D) t" and w: "c w = RBT_RED"
  shows "del_inv NIL (c(w := RBT_BLACK, p := RBT_RED)) (LF p wl # LF w wr # D) t"
proof -
  have n: "nodes_ok NIL D (Node t p (Node wl w wr))" using n by simp
  have d: "p \<notin> set (ptrs t)" "p \<notin> set (ptrs wl)" "p \<notin> set (ptrs wr)" "p \<notin> cptrs D"
    "w \<notin> set (ptrs t)" "w \<notin> set (ptrs wl)" "w \<notin> set (ptrs wr)" "w \<notin> cptrs D" "p \<noteq> w" "p \<noteq> NIL" "w \<noteq> NIL"
    using nodes_okD [OF n] by auto
  show ?thesis using i w by (auto simp: del_inv_def d d(9-11) [symmetric])
qed

lemma del_up:
  assumes i: "del_inv NIL c (LF p (Node wl w wr) # D) t" and n: "nodes_ok NIL (LF p (Node wl w wr) # D) t"
    and w: "c w = RBT_BLACK" "c (rootp NIL wl) = RBT_BLACK" "c (rootp NIL wr) = RBT_BLACK" and t: "c (rootp NIL t) = RBT_BLACK"
  shows "del_inv NIL (c(w := RBT_RED)) D (Node t p (Node wl w wr))"
proof -
  have n: "nodes_ok NIL D (Node t p (Node wl w wr))" using n by simp
  have d: "w \<notin> set (ptrs t)" "w \<notin> set (ptrs wl)" "w \<notin> set (ptrs wr)" "w \<notin> cptrs D" "p \<noteq> w" "w \<noteq> NIL"
    using nodes_okD [OF n] by auto
  show ?thesis using i w t by (auto simp: del_inv_def d d(5-6) [symmetric] invc2_black)
qed

lemma del_near:
  assumes i: "del_inv NIL c (LF p (Node (Node a l b) w wr) # D) t" and n: "nodes_ok NIL (LF p (Node (Node a l b) w wr) # D) t"
    and w: "c w = RBT_BLACK" "c l = RBT_RED" "c (rootp NIL wr) = RBT_BLACK"
  shows "del_inv NIL (c(l := RBT_BLACK, w := RBT_RED)) (LF p (Node a l (Node b w wr)) # D) t"
proof -
  have n: "nodes_ok NIL D (Node t p (Node (Node a l b) w wr))" using n by simp
  have d: "w \<notin> set (ptrs t)" "w \<notin> set (ptrs a)" "w \<notin> set (ptrs b)" "w \<notin> set (ptrs wr)" "w \<notin> cptrs D"
    "l \<notin> set (ptrs t)" "l \<notin> set (ptrs a)" "l \<notin> set (ptrs b)" "l \<notin> set (ptrs wr)" "l \<notin> cptrs D"
    "p \<noteq> w" "w \<noteq> NIL" "p \<noteq> l" "l \<noteq> NIL" "l \<noteq> w"
    using nodes_okD [OF n] by auto
  show ?thesis using i w by (auto simp: del_inv_def d d(11-15) [symmetric])
qed

lemma del_far:
  assumes i: "del_inv NIL c (LF p (Node wl w (Node a r b)) # D) t" and n: "nodes_ok NIL (LF p (Node wl w (Node a r b)) # D) t"
    and w: "c w = RBT_BLACK" "c r = RBT_RED" and t: "c (rootp NIL t) = RBT_BLACK"
  shows "balanced NIL (c(w := c p, p := RBT_BLACK, r := RBT_BLACK)) (plug D (Node (Node t p wl) w (Node a r b)))"
proof -
  have n: "nodes_ok NIL D (Node t p (Node wl w (Node a r b)))" using n by simp
  have d: "w \<notin> set (ptrs t)" "w \<notin> set (ptrs a)" "w \<notin> set (ptrs b)" "w \<notin> set (ptrs wl)" "w \<notin> cptrs D"
    "r \<notin> set (ptrs t)" "r \<notin> set (ptrs a)" "r \<notin> set (ptrs b)" "r \<notin> set (ptrs wl)" "r \<notin> cptrs D"
    "p \<notin> set (ptrs t)" "p \<notin> set (ptrs a)" "p \<notin> set (ptrs b)" "p \<notin> set (ptrs wl)" "p \<notin> cptrs D"
    "p \<noteq> w" "w \<noteq> NIL" "p \<noteq> r" "r \<noteq> NIL" "r \<noteq> w" "p \<noteq> NIL"
    using nodes_okD [OF n] by auto
  have "(c(w := c p, p := RBT_BLACK, r := RBT_BLACK)) NIL = RBT_BLACK" using i by (simp add: del_inv_def d(16-21) [symmetric])
  then show ?thesis using i w t by (subst balanced_plug) (auto simp: del_inv_def d d(16-21) [symmetric] invc2_black)
qed

text \<open>What a turn leaves: the shortage one level up, or a balanced tree with \<^verbatim>\<open>x\<close> at the root.\<close>

definition del_step :: "ptr \<Rightarrow> ptr list \<Rightarrow> frame list \<Rightarrow> ptree \<Rightarrow> rbt_heap \<times> ptr \<times> ptr \<times> ptr \<Rightarrow> bool" where
  "del_step NIL ps E t res \<longleftrightarrow> (case res of (h, root, x, xp) \<Rightarrow> holds NIL h root (plug E t) \<and> ptrs (plug E t) = ps \<and>
     del_inv NIL (colors h) E t \<and> x = rootp NIL t \<and> xp = ctop NIL E)"

definition del_done :: "ptr \<Rightarrow> ptr list \<Rightarrow> rbt_heap \<times> ptr \<times> ptr \<times> ptr \<Rightarrow> bool" where
  "del_done NIL ps res \<longleftrightarrow> (case res of (h, root, x, xp) \<Rightarrow> \<exists>t. holds NIL h root t \<and> ptrs t = ps \<and>
     balanced NIL (colors h) t \<and> colors h NIL = RBT_BLACK \<and> x = root)"

lemma del_left_far:
  assumes h: "holds NIL h root (plug (LF p (Node wl w (Node a r b)) # D) t)" and i: "del_inv NIL (colors h) (LF p (Node wl w (Node a r b)) # D) t"
    and w: "colors h w = RBT_BLACK" "colors h r = RBT_RED" and t: "colors h (rootp NIL t) = RBT_BLACK"
  shows "\<exists>h5 root2. rbt_rotate_left root p NIL (set_color (n_right (h w)) RBT_BLACK (set_color p RBT_BLACK (set_color w (n_color (h p)) h))) = (h5, root2) \<and>
    del_done NIL (ptrs (plug (LF p (Node wl w (Node a r b)) # D) t)) (h5, root2, root2, p) \<and>
    edits (set (ptrs (plug (LF p (Node wl w (Node a r b)) # D) t))) h h5"
proof -
  note n = holds_nodes_ok [OF h]
  have r: "n_right (h w) = r" using h by (simp add: holds_def repr_plug)
  let ?h = "set_color r RBT_BLACK (set_color p RBT_BLACK (set_color w (n_color (h p)) h))"
  have "holds NIL ?h root (plug D (Node t p (Node wl w (Node a r b))))" using h by simp
  then obtain h5 root2 where R: "rbt_rotate_left root p NIL ?h = (h5, root2)" "holds NIL h5 root2 (plug D (Node (Node t p wl) w (Node a r b)))"
    "colors h5 = colors ?h" "edits (set (ptrs (plug D (Node t p (Node wl w (Node a r b)))))) ?h h5" by (rule holds_rotate_left)
  have "balanced NIL (colors h5) (plug D (Node (Node t p wl) w (Node a r b)))"
    using del_far [OF i n w t] R(3) by (simp add: color_colors)
  moreover have "colors h5 NIL = RBT_BLACK" using R(3) i nodes_okD [OF n] by (auto simp: del_inv_def)
  moreover have "edits (set (ptrs (plug D (Node t p (Node wl w (Node a r b)))))) h h5"
    by (rule edits_trans [OF _ R(4)]) (simp add: ptrs_plug)
  ultimately show ?thesis using R(1,2) unfolding r del_done_def
    by (auto simp: ptrs_plug intro!: exI [of _ "plug D (Node (Node t p wl) w (Node a r b))"])
qed

lemma del_left_near:
  assumes h: "holds NIL h root (plug C t)" and C: "C = LF p (Node (Node a l b) w wr) # D" and i: "del_inv NIL (colors h) C t"
    and w: "colors h w = RBT_BLACK" and near: "colors h l = RBT_RED" "colors h (rootp NIL wr) = RBT_BLACK"
    and t: "colors h (rootp NIL t) = RBT_BLACK"
  shows "\<exists>res. fix_delete_left root p NIL h = res \<and> edits (set (ptrs (plug C t))) h (fst res) \<and> del_done NIL (ptrs (plug C t)) res"
proof -
  note n = holds_nodes_ok [OF h]
  have links: "n_right (h p) = w" "n_left (h w) = l" "n_right (h w) = rootp NIL wr"
    using h by (auto simp: C holds_def repr_plug)
  let ?h = "set_color w RBT_RED (set_color l RBT_BLACK h)"
  have pl: "plug C t = plug (RF t p # D) (Node (Node a l b) w wr)" by (simp add: C)
  have "holds NIL ?h root (plug (RF t p # D) (Node (Node a l b) w wr))" using h pl by simp
  then obtain h1 root1 where R: "rbt_rotate_right root w NIL ?h = (h1, root1)"
    "holds NIL h1 root1 (plug (RF t p # D) (Node a l (Node b w wr)))" "colors h1 = colors ?h"
    "edits (set (ptrs (plug (RF t p # D) (Node (Node a l b) w wr)))) ?h h1" by (rule holds_rotate_right)
  have i1: "del_inv NIL (colors h1) (LF p (Node a l (Node b w wr)) # D) t"
    using del_near [of NIL "colors h" p a l b w wr D t] i n w near R(3) by (simp add: C)
  have c1: "colors h1 l = RBT_BLACK" "colors h1 w = RBT_RED" "colors h1 (rootp NIL t) = RBT_BLACK"
  proof -
    have "w \<notin> set (ptrs t)" "l \<notin> set (ptrs t)" "w \<noteq> NIL" "l \<noteq> NIL" "l \<noteq> w" using nodes_okD [OF n [unfolded C, simplified]] by auto
    then show "colors h1 l = RBT_BLACK" "colors h1 w = RBT_RED" "colors h1 (rootp NIL t) = RBT_BLACK" using R(3) t by simp_all
  qed
  have l1: "n_right (h1 p) = l" using R(2) by (simp add: holds_def repr_plug)
  have "holds NIL h1 root1 (plug (LF p (Node a l (Node b w wr)) # D) t)" using R(2) by simp
  from del_left_far [OF this i1 c1] obtain h5 root2
    where f: "rbt_rotate_left root1 p NIL (set_color (n_right (h1 l)) RBT_BLACK (set_color p RBT_BLACK (set_color l (n_color (h1 p)) h1))) = (h5, root2)"
    "del_done NIL (ptrs (plug (LF p (Node a l (Node b w wr)) # D) t)) (h5, root2, root2, p)"
    "edits (set (ptrs (plug (LF p (Node a l (Node b w wr)) # D) t))) h1 h5" by blast
  have ps: "ptrs (plug (LF p (Node a l (Node b w wr)) # D) t) = ptrs (plug C t)" by (simp add: C ptrs_plug)
  have "edits (set (ptrs (plug C t))) h h1" by (rule edits_trans [OF _ R(4) [folded pl]]) (simp add: C ptrs_plug)
  from edits_trans [OF this f(3) [unfolded ps]] have "edits (set (ptrs (plug C t))) h h5" .
  moreover have "fix_delete_left root p NIL h = (h5, root2, root2, p)"
    using near links R(1) f(1) l1 by (simp add: fix_delete_left_def Let_def color_colors)
  ultimately show ?thesis using f(2) unfolding ps by simp
qed

lemma fix_delete_left_ok:
  assumes h: "holds NIL h root (plug C t)" and C: "C = LF p (Node wl w wr) # D" and i: "del_inv NIL (colors h) C t"
    and w: "colors h w = RBT_BLACK" and t: "colors h (rootp NIL t) = RBT_BLACK"
  shows "\<exists>res. fix_delete_left root p NIL h = res \<and> edits (set (ptrs (plug C t))) h (fst res) \<and>
    (del_step NIL (ptrs (plug C t)) D (Node t p (Node wl w wr)) res \<and> colors (fst res) p = colors h p \<or> del_done NIL (ptrs (plug C t)) res)"
proof -
  note n = holds_nodes_ok [OF h]
  have links: "n_right (h p) = w" "n_left (h w) = rootp NIL wl" "n_right (h w) = rootp NIL wr" "n_parent (h p) = ctop NIL D"
    using h by (auto simp: C holds_def repr_plug)
  have wS: "w \<in> set (ptrs (plug C t))" by (simp add: C ptrs_plug)
  consider (up) "colors h (rootp NIL wl) = RBT_BLACK" "colors h (rootp NIL wr) = RBT_BLACK"
    | (far) "colors h (rootp NIL wr) = RBT_RED"
    | (near) "colors h (rootp NIL wl) = RBT_RED" "colors h (rootp NIL wr) = RBT_BLACK"
    using not_black by metis
  then show ?thesis
  proof cases
    case up
    have e: "fix_delete_left root p NIL h = (set_color w RBT_RED h, root, p, ctop NIL D)"
      using up links by (simp add: fix_delete_left_def Let_def color_colors)
    have "del_inv NIL (colors (set_color w RBT_RED h)) D (Node t p (Node wl w wr))"
      using del_up [OF i [unfolded C] n [unfolded C] w up t] by simp
    moreover have "p \<noteq> w" using nodes_okD [OF n [unfolded C, simplified]] by auto
    ultimately show ?thesis using h wS unfolding e by (simp add: del_step_def C)
  next
    case far
    then obtain a r b where wr: "wr = Node a r b" using i by (cases wr) (auto simp: del_inv_def)
    obtain h5 root2 where f: "rbt_rotate_left root p NIL (set_color (n_right (h w)) RBT_BLACK (set_color p RBT_BLACK (set_color w (n_color (h p)) h))) = (h5, root2)"
      "del_done NIL (ptrs (plug C t)) (h5, root2, root2, p)" "edits (set (ptrs (plug C t))) h h5"
      using del_left_far [of NIL h root p wl w a r b D t] h i w far t unfolding C wr by auto
    have "fix_delete_left root p NIL h = (h5, root2, root2, p)"
      using far links f(1) by (simp add: fix_delete_left_def Let_def color_colors)
    then show ?thesis using f by simp
  next
    case near
    then obtain a l b where wl: "wl = Node a l b" using i by (cases wl) (auto simp: del_inv_def)
    show ?thesis using del_left_near [OF h C [unfolded wl] i w _ near(2) t] near(1) wl by auto
  qed
qed

definition del_turn_ok :: "ptr \<Rightarrow> rbt_heap \<Rightarrow> frame list \<Rightarrow> ptree \<Rightarrow> rbt_heap \<times> ptr \<times> ptr \<times> ptr \<Rightarrow> bool" where
  "del_turn_ok NIL h C t res \<longleftrightarrow> edits (set (ptrs (plug C t))) h (fst res) \<and>
     ((\<exists>E t1. (length E < length C \<or> colors (fst res) (rootp NIL t1) = RBT_RED) \<and> del_step NIL (ptrs (plug C t)) E t1 res) \<or>
      del_done NIL (ptrs (plug C t)) res)"

lemma del_turn_left:
  assumes h: "holds NIL h root (plug C t)" and C: "C = LF p u # D" and i: "del_inv NIL (colors h) C t" and t: "colors h (rootp NIL t) = RBT_BLACK"
  shows "del_turn_ok NIL h C t (fix_delete_turn root (rootp NIL t) (ctop NIL C) NIL h)"
proof -
  note n = holds_nodes_ok [OF h]
  obtain wl w wr where u: "u = Node wl w wr" using i C by (cases u) (auto simp: del_inv_def)
  have links: "n_left (h p) = rootp NIL t" "n_right (h p) = w" using h by (auto simp: C u holds_def repr_plug)
  show ?thesis
  proof (cases "colors h w = RBT_RED")
    case False
    then have "fix_delete_turn root (rootp NIL t) (ctop NIL C) NIL h = fix_delete_left root p NIL h"
      using links C by (simp add: fix_delete_turn_def Let_def color_colors)
    then show ?thesis using fix_delete_left_ok [OF h C [unfolded u] i _ t] False C unfolding del_turn_ok_def by auto
  next
    case True
    let ?h = "set_color p RBT_RED (set_color w RBT_BLACK h)"
    have pl: "plug C t = plug D (Node t p (Node wl w wr))" by (simp add: C u)
    have "holds NIL ?h root (plug D (Node t p (Node wl w wr)))" using h pl by simp
    then obtain h1 root1 where R: "rbt_rotate_left root p NIL ?h = (h1, root1)" "holds NIL h1 root1 (plug D (Node (Node t p wl) w wr))"
      "colors h1 = colors ?h" "edits (set (ptrs (plug D (Node t p (Node wl w wr))))) ?h h1" by (rule holds_rotate_left)
    let ?C = "LF p wl # LF w wr # D"
    have i1: "del_inv NIL (colors h1) ?C t" using del_red [of NIL "colors h" p wl w wr D t] i n True R(3) by (simp add: C u)
    then obtain al l ar where wl: "wl = Node al l ar" by (cases wl) (auto simp: del_inv_def)
    have d: "p \<notin> set (ptrs t)" "w \<notin> set (ptrs t)" "p \<noteq> NIL" "w \<noteq> NIL" "l \<noteq> p" "l \<noteq> w" "p \<noteq> w"
      using nodes_okD [OF n [unfolded C u wl, simplified]] by auto
    have c1: "colors h1 l = RBT_BLACK" "colors h1 (rootp NIL t) = RBT_BLACK" "colors h1 p = RBT_RED"
      using i True R(3) t d by (auto simp: C u wl del_inv_def)
    have h1: "holds NIL h1 root1 (plug ?C t)" using R(2) by simp
    have ps: "ptrs (plug ?C t) = ptrs (plug C t)" by (simp add: C u ptrs_plug)
    have e: "fix_delete_turn root (rootp NIL t) (ctop NIL C) NIL h = fix_delete_left root1 p NIL h1"
      using links True R(1) C by (simp add: fix_delete_turn_def Let_def color_colors)
    obtain res where res: "fix_delete_left root1 p NIL h1 = res" "edits (set (ptrs (plug C t))) h1 (fst res)"
      "del_step NIL (ptrs (plug C t)) (LF w wr # D) (Node t p wl) res \<and> colors (fst res) p = colors h1 p \<or> del_done NIL (ptrs (plug C t)) res"
      using fix_delete_left_ok [OF h1 _ i1 c1(1,2)] wl unfolding ps by blast
    have "edits (set (ptrs (plug C t))) h h1" by (rule edits_trans [OF _ R(4) [folded pl]]) (simp add: C u ptrs_plug)
    from edits_trans [OF this res(2)] show ?thesis
      using res(1,3) c1(3) unfolding e del_turn_ok_def by (auto intro!: exI [of _ "LF w wr # D"] exI [of _ "Node t p wl"])
  qed
qed

subsection \<open>The mirror image\<close>

lemma fix_delete_flip: "fix_delete_right root xp NIL h = apfst flip_heap (fix_delete_left root xp NIL (flip_heap h))"
  by (simp add: fix_delete_left_def fix_delete_right_def Let_def rotate_left_flip rotate_right_flip2 case_prod_beta)

lemma del_turn_flip:
  assumes "n_left (h xp) \<noteq> x" "n_right (h xp) = x"
  shows "fix_delete_turn root x xp NIL h = apfst flip_heap (fix_delete_turn root x xp NIL (flip_heap h))"
  using assms by (auto simp: fix_delete_turn_def Let_def rotate_left_flip fix_delete_flip case_prod_beta)

lemma del_inv_mirror: "del_inv NIL c C t \<Longrightarrow> del_inv NIL c (map mirrorF C) (mirror t)"
proof -
  have "invc2 NIL c (mirror t) = invc2 NIL c t" by (cases t) auto
  then show "del_inv NIL c C t \<Longrightarrow> del_inv NIL c (map mirrorF C) (mirror t)" by (auto simp: del_inv_def invh_mirror cinv_mirror)
qed

lemma del_turn_ok_flip:
  assumes "del_turn_ok NIL (flip_heap h) (map mirrorF C) (mirror t) res"
  shows "del_turn_ok NIL h C t (apfst flip_heap res)"
proof -
  obtain h1 root1 x xp where res: "res = (h1, root1, x, xp)" by (cases res)
  have e: "edits (set (ptrs (plug C t))) h (flip_heap h1)"
    using assms edits_flip [of _ h "flip_heap h1"] by (simp add: del_turn_ok_def plug_mirror res)
  consider E t1 where "length E < length C \<or> colors h1 (rootp NIL t1) = RBT_RED" "del_step NIL (rev (ptrs (plug C t))) E t1 res"
    | "del_done NIL (rev (ptrs (plug C t))) res"
    using assms by (auto simp: del_turn_ok_def plug_mirror res)
  then show ?thesis
  proof cases
    case (1 E t1)
    then have "holds NIL (flip_heap h1) root1 (plug (map mirrorF E) (mirror t1))"
      using holds_flip [of NIL h1 root1 "plug E t1"] by (simp add: mirror_plug del_step_def res)
    then have "del_step NIL (ptrs (plug C t)) (map mirrorF E) (mirror t1) (apfst flip_heap res)"
      using 1(2) by (auto simp: del_step_def res plug_mirror del_inv_mirror)
    then show ?thesis using 1(1) e unfolding del_turn_ok_def by (auto simp: res intro!: exI [of _ "map mirrorF E"] exI [of _ "mirror t1"])
  next
    case 2
    then obtain t1 where "holds NIL h1 root1 t1" "ptrs t1 = rev (ptrs (plug C t))" "balanced NIL (colors h1) t1" "colors h1 NIL = RBT_BLACK" "x = root1"
      by (auto simp: del_done_def res)
    then have "del_done NIL (ptrs (plug C t)) (apfst flip_heap res)"
      by (auto simp: del_done_def res holds_flip balanced_mirror intro!: exI [of _ "mirror t1"])
    then show ?thesis using e unfolding del_turn_ok_def by (simp add: res)
  qed
qed

lemma del_turn_right:
  assumes h: "holds NIL h root (plug C t)" and C: "C = RF u p # D" and i: "del_inv NIL (colors h) C t" and t: "colors h (rootp NIL t) = RBT_BLACK"
  shows "del_turn_ok NIL h C t (fix_delete_turn root (rootp NIL t) (ctop NIL C) NIL h)"
proof -
  obtain wl w wr where u: "u = Node wl w wr" using i C by (cases u) (auto simp: del_inv_def)
  have "n_left (h p) = w" "n_right (h p) = rootp NIL t" using h by (auto simp: C u holds_def repr_plug)
  moreover have "w \<noteq> rootp NIL t" using nodes_okD [OF holds_nodes_ok [OF h, unfolded C u, simplified]] by (cases t) auto
  ultimately have f: "fix_delete_turn root (rootp NIL t) (ctop NIL C) NIL h =
      apfst flip_heap (fix_delete_turn root (rootp NIL t) (ctop NIL C) NIL (flip_heap h))"
    using C by (intro del_turn_flip) auto
  have "del_turn_ok NIL (flip_heap h) (map mirrorF C) (mirror t) (fix_delete_turn root (rootp NIL (mirror t)) (ctop NIL (map mirrorF C)) NIL (flip_heap h))"
  proof (rule del_turn_left)
    show "holds NIL (flip_heap h) root (plug (map mirrorF C) (mirror t))" using holds_flip [OF h] by (simp add: mirror_plug)
    show "map mirrorF C = LF p (mirror u) # map mirrorF D" by (simp add: C)
    show "del_inv NIL (colors (flip_heap h)) (map mirrorF C) (mirror t)" using del_inv_mirror [OF i] by simp
  qed (use t in simp)
  then show ?thesis unfolding f by (intro del_turn_ok_flip) simp
qed

section \<open>The loop\<close>

lemma set_color_same: "n_color (h p) = x \<Longrightarrow> set_color p x h = h"
  by (auto simp: set_color_def fun_eq_iff)

definition del_result :: "ptr \<Rightarrow> rbt_heap \<Rightarrow> ptr list \<Rightarrow> (rbt_heap \<times> ptr) option \<Rightarrow> bool" where
  "del_result NIL h ps res \<longleftrightarrow> (\<exists>h' root' t'. res = Some (h', root') \<and> holds NIL h' root' t' \<and> ptrs t' = ps \<and>
     balanced NIL (colors h') t' \<and> colors h' NIL = RBT_BLACK \<and> edits (set ps) h h')"

lemma del_result_edits: "edits (set ps) h h1 \<Longrightarrow> del_result NIL h1 ps res \<Longrightarrow> del_result NIL h ps res"
  unfolding del_result_def using edits_trans [of "set ps" h h1] by blast

lemma root_in_context: "C \<noteq> [] \<Longrightarrow> rootp NIL (plug C t) \<in> cptrs C"
proof (induction C arbitrary: t)
  case (Cons F C)
  then show ?case by (cases "C = []"; cases F) auto
qed simp

lemma fix_delete_ok:
  assumes "holds NIL h root (plug C t)" and "del_inv NIL (colors h) C t"
  shows "del_result NIL h (ptrs (plug C t)) (rbt_fix_delete root (rootp NIL t) (ctop NIL C) NIL h)"
  using assms
proof (induction "if colors h (rootp NIL t) = RBT_RED then 0 else Suc (length C)" arbitrary: C t h root rule: less_induct)
  case less
  note h = less.prems(1) and i = less.prems(2)
  note n = nodes_okD [OF holds_nodes_ok [OF h]]
  have black: "colors h NIL = RBT_BLACK" using i by (simp add: del_inv_def)
  show ?case
  proof (cases "C = [] \<or> colors h (rootp NIL t) = RBT_RED")
    case True
    let ?h = "set_color (rootp NIL t) RBT_BLACK h"
    have e: "rbt_fix_delete root (rootp NIL t) (ctop NIL C) NIL h = Some (?h, root)"
      using True h by (subst rbt_fix_delete.simps) (auto simp: color_colors holds_def)
    have "edits (set (ptrs (plug C t))) h ?h"
    proof (cases t)
      case Leaf
      then show ?thesis using black by (simp add: set_color_same color_colors)
    qed (simp add: ptrs_plug)
    then show ?thesis using del_exit [OF i holds_nodes_ok [OF h] True] h black unfolding e del_result_def by auto
  next
    case False
    then have "rootp NIL t \<noteq> root" using h root_in_context [of C NIL t] n by (cases t) (auto simp: holds_def)
    moreover obtain h1 root1 x1 xp1 where f: "fix_delete_turn root (rootp NIL t) (ctop NIL C) NIL h = (h1, root1, x1, xp1)"
      by (cases "fix_delete_turn root (rootp NIL t) (ctop NIL C) NIL h")
    ultimately have e: "rbt_fix_delete root (rootp NIL t) (ctop NIL C) NIL h = rbt_fix_delete root1 x1 xp1 NIL h1"
      using False by (subst rbt_fix_delete.simps) (simp add: color_colors)
    have "del_turn_ok NIL h C t (h1, root1, x1, xp1)"
      using del_turn_left [OF h _ i] del_turn_right [OF h _ i] False f by (cases C rule: cptrs.cases) auto
    then consider E t1 where "length E < length C \<or> colors h1 (rootp NIL t1) = RBT_RED" "del_step NIL (ptrs (plug C t)) E t1 (h1, root1, x1, xp1)"
        "edits (set (ptrs (plug C t))) h h1"
      | "del_done NIL (ptrs (plug C t)) (h1, root1, x1, xp1)" "edits (set (ptrs (plug C t))) h h1"
      by (auto simp: del_turn_ok_def)
    then show ?thesis
    proof cases
      case (1 E t1)
      have s: "holds NIL h1 root1 (plug E t1)" "del_inv NIL (colors h1) E t1" "ptrs (plug E t1) = ptrs (plug C t)" "x1 = rootp NIL t1" "xp1 = ctop NIL E"
        using 1(2) by (auto simp: del_step_def)
      have "del_result NIL h1 (ptrs (plug E t1)) (rbt_fix_delete root1 (rootp NIL t1) (ctop NIL E) NIL h1)"
        by (rule less.hyps [OF _ s(1,2)]) (use 1(1) False in auto)
      then show ?thesis using s(3-5) e del_result_edits [OF 1(3)] by simp
    next
      case 2
      then obtain t1 where d: "holds NIL h1 root1 t1" "ptrs t1 = ptrs (plug C t)" "balanced NIL (colors h1) t1" "colors h1 NIL = RBT_BLACK" "x1 = root1"
        by (auto simp: del_done_def)
      have "rbt_fix_delete root1 x1 xp1 NIL h1 = Some (h1, root1)"
        using d by (subst rbt_fix_delete.simps) (auto simp: set_color_same color_colors balanced_def holds_def)
      then show ?thesis using d 2(2) e unfolding del_result_def by auto
    qed
  qed
qed

section \<open>Taking a node out\<close>

lemma colors_links [simp]: "colors (adopt c p NIL h) = colors h" "colors (put_child NIL C v h) = colors h"
  by (simp_all add: colors_def)

lemma remove_one_ok:
  assumes h: "holds NIL h root (plug C (Node l z r))" and b: "balanced NIL (colors h) (plug C (Node l z r))" and NIL: "colors h NIL = RBT_BLACK"
    and s: "l = Leaf \<and> s = r \<or> r = Leaf \<and> s = l"
  shows "\<exists>h2. edits (set (ptrs (plug C (Node l z r)))) h h2 \<and> del_result NIL h2 (ptrs (plug C s)) (rbt_remove_node root z NIL h)"
proof -
  note n = nodes_okD [OF holds_nodes_ok [OF h]]
  have r: "reprC NIL h C z" "repr NIL h (ctop NIL C) (Node l z r)" using h by (auto simp: holds_def repr_plug)
  have sr: "repr NIL h z s" "set (ptrs s) \<inter> cptrs C = {}" "distinct (ptrs s)" "z \<notin> set (ptrs s)" "NIL \<notin> set (ptrs s)" using r n s by auto
  have x: "n_left (h z) = NIL \<or> n_right (h z) = NIL" "(if n_left (h z) = NIL then n_right (h z) else n_left (h z)) = rootp NIL s"
    using r s n by (cases l; cases r; auto)+
  let ?h1 = "put_child NIL C (rootp NIL s) h"
  let ?h2 = "adopt (rootp NIL s) (ctop NIL C) NIL ?h1"
  have rc: "replace_child root z (rootp NIL s) NIL h = (?h1, if C = [] then rootp NIL s else root)"
    by (rule replace_child_eq [OF r(1)]) (use r n in auto)
  have tC: "C \<noteq> [] \<Longrightarrow> ctop NIL C \<in> cptrs C" by (rule ctop_in)
  have sx: "s = Leaf \<and> rootp NIL s = NIL \<or> s \<noteq> Leaf \<and> rootp NIL s \<noteq> NIL \<and> rootp NIL s \<in> set (ptrs s)" using sr(5) by (cases s) auto
  have "reprC NIL ?h2 C (rootp NIL s)"
    by (rule reprC_refill [OF r(1)]) (use h sr sx ctop_in(2) [of C] in \<open>auto simp: holds_def distinct_plug\<close>)
  moreover have "repr NIL ?h2 (ctop NIL C) s"
    by (rule repr_reparent [OF sr(1,3)]) (use sr(2) tC sx ctop_in(2) [of C] in auto)
  ultimately have rp: "repr NIL ?h2 NIL (plug C s)" by (simp add: repr_plug)
  have root: "(if C = [] then rootp NIL s else root) = rootp NIL (plug C s)"
    using h rootp_plug_ne [of C NIL "Node l z r" s] by (auto simp: holds_def)
  have h2: "holds NIL ?h2 (rootp NIL (plug C s)) (plug C s)" using rp h sr by (auto simp: holds_def distinct_plug)
  have col: "colors ?h2 = colors h" by simp
  have e: "rbt_remove_node root z NIL h = (if colors h z = RBT_BLACK
      then rbt_fix_delete (rootp NIL (plug C s)) (rootp NIL s) (ctop NIL C) NIL ?h2 else Some (?h2, rootp NIL (plug C s)))"
    using x rc root r by (auto simp: rbt_remove_node_def Let_def color_colors)
  have bb: "cinv NIL (colors h) (bheight (colors h) (Node l z r)) C" "invc NIL (colors h) (Node l z r)" "invh (colors h) (Node l z r)"
    "colors h z = RBT_RED \<longrightarrow> C \<noteq> [] \<and> colors h (ctop NIL C) = RBT_BLACK" using b NIL by (auto simp: balanced_plug)
  have "edits (set (ptrs (plug C (Node l z r)))) h ?h2"
  proof -
    have "?h2 q = h q" if "q \<notin> set (ptrs (plug C (Node l z r)))" for q
    proof -
      have "q \<notin> cptrs C" "rootp NIL s = NIL \<or> q \<noteq> rootp NIL s" using that sx s by (auto simp: ptrs_plug cptrs_eq)
      then show ?thesis by simp
    qed
    then show ?thesis by (simp add: edits_def)
  qed
  moreover have "del_result NIL ?h2 (ptrs (plug C s)) (rbt_remove_node root z NIL h)"
  proof (cases "colors h z = RBT_BLACK")
    case True
    then have "del_inv NIL (colors ?h2) C s" using bb s NIL invc_invc2 unfolding col del_inv_def by auto
    then show ?thesis using fix_delete_ok [OF h2] e True by simp
  next
    case False
    then have "balanced NIL (colors ?h2) (plug C s)" using bb s NIL unfolding col by (subst balanced_plug) auto
    then show ?thesis using h2 e False NIL col unfolding del_result_def by auto
  qed
  ultimately show ?thesis by blast
qed

subsection \<open>The successor\<close>

text \<open>A piece of a context whose top hangs below \<open>par\<close>.\<close>

fun reprS :: "ptr \<Rightarrow> ptr \<Rightarrow> rbt_heap \<Rightarrow> frame list \<Rightarrow> ptr \<Rightarrow> bool" where
  "reprS NIL par h [] hole \<longleftrightarrow> True"
| "reprS NIL par h (LF p r # C) hole \<longleftrightarrow> p \<noteq> NIL \<and> n_parent (h p) = ctop par C \<and> n_left (h p) = hole \<and>
     n_right (h p) = rootp NIL r \<and> repr NIL h p r \<and> reprS NIL par h C p"
| "reprS NIL par h (RF l p # C) hole \<longleftrightarrow> p \<noteq> NIL \<and> n_parent (h p) = ctop par C \<and> n_left (h p) = rootp NIL l \<and>
     n_right (h p) = hole \<and> repr NIL h p l \<and> reprS NIL par h C p"

lemma reprS_plug: "repr NIL h par (plug C t) \<longleftrightarrow> reprS NIL par h C (rootp NIL t) \<and> repr NIL h (ctop par C) t"
  by (induction C t rule: plug.induct) auto

lemma reprS_not_NIL: "reprS NIL par h C hole \<Longrightarrow> NIL \<notin> cptrs C"
proof (induction C arbitrary: hole)
  case (Cons f C)
  then show ?case by (cases f) (auto dest: repr_not_NIL)
qed simp

lemma reprS_hole: "reprS NIL par h C x \<Longrightarrow> C \<noteq> [] \<Longrightarrow> if is_LF C then n_left (h (ctop par C)) = x else n_right (h (ctop par C)) = x"
  by (cases C rule: cptrs.cases) auto

lemma ctop_any: "C \<noteq> [] \<Longrightarrow> ctop a C = ctop b C"
  by (cases C rule: cptrs.cases) auto

lemma reprS_move:
  assumes "reprS NIL par h C x" and "distinct (plefts C @ prights C)"
    and "\<And>q. q \<in> cptrs C \<Longrightarrow> n_left (h' q) = (if q = ctop par C \<and> is_LF C then y else n_left (h q)) \<and>
      n_right (h' q) = (if q = ctop par C \<and> \<not> is_LF C then y else n_right (h q)) \<and>
      n_parent (h' q) = (if q = rootp NIL (plug C Leaf) then par' else n_parent (h q))"
  shows "reprS NIL par' h' C y"
  using assms
proof (induction C arbitrary: x y)
  case (Cons f C)
  show ?case
  proof (cases "C = []")
    case True
    have "repr NIL h' p t" if "f = LF p t \<or> f = RF t p" for p t
      by (rule repr_frame [of NIL h]) (use Cons.prems True that in \<open>auto simp: same_links_def\<close>)
    then show ?thesis using Cons.prems True by (cases f) auto
  next
    case False
    have top: "rootp NIL (plug (f # C) Leaf) = rootp NIL (plug C Leaf)" "rootp NIL (plug C Leaf) \<in> cptrs C"
      using False rootp_plug_ne [of C NIL] root_in_context [of C NIL Leaf] by (cases f; metis plug.simps(2,3))+
    have tC: "ctop par C \<in> cptrs C" using ctop_in(1) False by blast
    obtain p t where f: "f = LF p t \<or> f = RF t p" by (cases f) auto
    have d: "p \<notin> cptrs C" "set (ptrs t) \<inter> cptrs C = {}" "p \<notin> set (ptrs t)" "distinct (plefts C @ prights C)"
      "cptrs (f # C) = insert p (set (ptrs t) \<union> cptrs C)" "ctop par (f # C) = p" "reprS NIL par h C p" "repr NIL h p t"
      using Cons.prems f by (auto simp: cptrs_eq)
    note upd = Cons.prems(3) [unfolded d(5,6) top(1)]
    have "reprS NIL par' h' C p"
    proof (rule Cons.IH [OF d(7,4)])
      fix q
      assume q: "q \<in> cptrs C"
      then have "q \<noteq> p" using d(1) by auto
      then show "n_left (h' q) = (if q = ctop par C \<and> is_LF C then p else n_left (h q)) \<and>
        n_right (h' q) = (if q = ctop par C \<and> \<not> is_LF C then p else n_right (h q)) \<and>
        n_parent (h' q) = (if q = rootp NIL (plug C Leaf) then par' else n_parent (h q))"
        using upd [of q] q reprS_hole [OF d(7) False] by (auto split: if_splits)
    qed
    moreover have "repr NIL h' p t"
      by (rule repr_frame [OF d(8)]) (use upd d(2,3) top(2) in \<open>force simp: same_links_def\<close>)
    moreover have "p \<noteq> rootp NIL (plug C Leaf)" using d(1) top(2) by auto
    ultimately show ?thesis using f Cons.prems(1) upd [of p] ctop_any [OF False, of par par'] by auto
  qed
qed simp

lemma plug_append: "plug (C @ D) t = plug D (plug C t)"
  by (induction C t rule: plug.induct) auto

lemma plefts_append: "plefts (C @ D) = plefts D @ plefts C"
  by (induction C rule: plefts.induct) auto

lemma leftmost_ok:
  assumes "repr NIL h par (Node a p b)"
  shows "\<exists>C1 y yr. leftmost NIL h p = Some y \<and> Node a p b = plug C1 (Node Leaf y yr) \<and> (C1 \<noteq> [] \<longrightarrow> is_LF C1) \<and> plefts C1 = []"
  using assms
proof (induction a arbitrary: p b par)
  case Leaf
  then show ?case by (subst leftmost.simps) (auto intro!: exI [of _ "[]"])
next
  case (Node a q c)
  obtain C1 y yr where "leftmost NIL h q = Some y" "Node a q c = plug C1 (Node Leaf y yr)" "C1 \<noteq> [] \<longrightarrow> is_LF C1" "plefts C1 = []"
    using Node.IH(1) [of p q c] Node.prems by auto
  moreover have "leftmost NIL h p = leftmost NIL h q" using Node.prems by (subst leftmost.simps) simp
  moreover have "is_LF (C1 @ [LF p b])" using calculation(3) by (cases C1 rule: is_LF.cases) auto
  ultimately show ?case by (intro exI [of _ "C1 @ [LF p b]"] exI [of _ y] exI [of _ yr]) (simp add: plug_append plefts_append)
qed

text \<open>The pieces around a node \<open>z\<close> with two children and its successor \<open>y\<close>.\<close>

lemma succ_facts:
  assumes h: "holds NIL h root (plug C (Node l z (plug C1 (Node Leaf y yr))))" and l: "l \<noteq> Leaf"
  shows "reprC NIL h C z \<and> z \<noteq> NIL \<and> n_parent (h z) = ctop NIL C \<and> n_left (h z) = rootp NIL l \<and>
      n_right (h z) = rootp NIL (plug C1 (Node Leaf y yr)) \<and> repr NIL h z l \<and> reprS NIL z h C1 y \<and> repr NIL h (ctop z C1) (Node Leaf y yr)"
    and "rootp NIL l \<noteq> NIL \<and> rootp NIL l \<in> set (ptrs l)"
    and "rootp NIL (plug C1 (Node Leaf y yr)) \<noteq> NIL \<and> (C1 \<noteq> [] \<longrightarrow> rootp NIL (plug C1 (Node Leaf y yr)) \<in> cptrs C1)"
    and "y \<noteq> z \<and> y \<noteq> NIL \<and> y \<notin> set (ptrs l) \<and> y \<notin> cptrs C \<and> y \<notin> cptrs C1 \<and> y \<notin> set (ptrs yr)"
    and "z \<notin> set (ptrs l) \<and> z \<notin> cptrs C \<and> z \<notin> cptrs C1 \<and> z \<notin> set (ptrs yr)"
    and "set (ptrs l) \<inter> cptrs C = {} \<and> set (ptrs l) \<inter> cptrs C1 = {} \<and> set (ptrs l) \<inter> set (ptrs yr) = {} \<and>
      cptrs C \<inter> cptrs C1 = {} \<and> cptrs C \<inter> set (ptrs yr) = {} \<and> cptrs C1 \<inter> set (ptrs yr) = {}"
    and "distinct (plefts C1 @ prights C1) \<and> distinct (ptrs yr) \<and> distinct (ptrs l) \<and> distinct (plefts C @ prights C)"
proof -
  note n = nodes_okD [OF holds_nodes_ok [OF h]]
  show "reprC NIL h C z \<and> z \<noteq> NIL \<and> n_parent (h z) = ctop NIL C \<and> n_left (h z) = rootp NIL l \<and>
      n_right (h z) = rootp NIL (plug C1 (Node Leaf y yr)) \<and> repr NIL h z l \<and> reprS NIL z h C1 y \<and> repr NIL h (ctop z C1) (Node Leaf y yr)"
    using h by (auto simp: holds_def repr_plug reprS_plug)
  show "rootp NIL l \<noteq> NIL \<and> rootp NIL l \<in> set (ptrs l)" using l n by (cases l) auto
  show "rootp NIL (plug C1 (Node Leaf y yr)) \<noteq> NIL \<and> (C1 \<noteq> [] \<longrightarrow> rootp NIL (plug C1 (Node Leaf y yr)) \<in> cptrs C1)"
    using n root_in_context [of C1 NIL "Node Leaf y yr"] by (cases "C1 = []") (auto simp: ptrs_plug cptrs_eq)
  show "y \<noteq> z \<and> y \<noteq> NIL \<and> y \<notin> set (ptrs l) \<and> y \<notin> cptrs C \<and> y \<notin> cptrs C1 \<and> y \<notin> set (ptrs yr)"
    and "z \<notin> set (ptrs l) \<and> z \<notin> cptrs C \<and> z \<notin> cptrs C1 \<and> z \<notin> set (ptrs yr)"
    and "set (ptrs l) \<inter> cptrs C = {} \<and> set (ptrs l) \<inter> cptrs C1 = {} \<and> set (ptrs l) \<inter> set (ptrs yr) = {} \<and>
      cptrs C \<inter> cptrs C1 = {} \<and> cptrs C \<inter> set (ptrs yr) = {} \<and> cptrs C1 \<inter> set (ptrs yr) = {}"
    using n by (auto simp: ptrs_plug cptrs_eq)
  show "distinct (plefts C1 @ prights C1) \<and> distinct (ptrs yr) \<and> distinct (ptrs l) \<and> distinct (plefts C @ prights C)"
    using n h by (auto simp: ptrs_plug holds_def)
qed

definition splice_heap :: "ptr \<Rightarrow> rbt_heap \<Rightarrow> frame list \<Rightarrow> ptree \<Rightarrow> ptr \<Rightarrow> frame list \<Rightarrow> ptr \<Rightarrow> ptree \<Rightarrow> rbt_heap" where
  "splice_heap NIL h C l z C1 y yr =
     (let top = rootp NIL (plug C1 (Node Leaf y yr));
          hA = (if C1 = [] then h
                else adopt top y NIL (set_right y top (adopt (rootp NIL yr) (ctop NIL C1) NIL (set_left (ctop NIL C1) (rootp NIL yr) h))))
      in set_color y (n_color (h z)) (adopt (rootp NIL l) y NIL (set_left y (rootp NIL l) (set_parent y (ctop NIL C) (put_child NIL C y hA)))))"

lemma remove_two_eq:
  assumes h: "holds NIL h root (plug C (Node l z (plug C1 (Node Leaf y yr))))" and l: "l \<noteq> Leaf"
    and y: "leftmost NIL h (n_right (h z)) = Some y"
  shows "rbt_remove_node root z NIL h =
    (let h6 = splice_heap NIL h C l z C1 y yr; root1 = (if C = [] then y else root)
     in if colors h y = RBT_BLACK then rbt_fix_delete root1 (rootp NIL yr) (ctop y C1) NIL h6 else Some (h6, root1))"
proof -
  let ?r = "plug C1 (Node Leaf y yr)"
  let ?top = "rootp NIL ?r"
  have r: "reprC NIL h C z" "z \<noteq> NIL" "n_parent (h z) = ctop NIL C" "n_left (h z) = rootp NIL l" "n_right (h z) = ?top"
    "repr NIL h z l" "reprS NIL z h C1 y" "repr NIL h (ctop z C1) (Node Leaf y yr)" using succ_facts(1) [OF h l] by blast+
  have ln: "rootp NIL l \<noteq> NIL" and tn: "?top \<noteq> NIL" using succ_facts(2,3) [OF h l] by blast+
  have d: "y \<noteq> z" "z \<notin> cptrs C1" "z \<notin> set (ptrs yr)" "z \<notin> cptrs C" "cptrs C \<inter> cptrs C1 = {}" using succ_facts(4-6) [OF h l] by blast+
  have zt: "z \<noteq> ?top" using d succ_facts(3) [OF h l] by (cases "C1 = []") auto
  have C1: "C1 = [] \<longleftrightarrow> n_parent (h y) = z" using r(8) ctop_in(1) [of C1 z] d by (cases "C1 = []") auto
  have tC1: "C1 \<noteq> [] \<Longrightarrow> ctop NIL C1 \<in> cptrs C1 \<and> ctop z C1 = ctop NIL C1 \<and> ctop y C1 = ctop NIL C1"
    using ctop_in(1) ctop_any by metis
  define hA where "hA = (if C1 = [] then h
    else adopt ?top y NIL (set_right y ?top (adopt (rootp NIL yr) (ctop NIL C1) NIL (set_left (ctop NIL C1) (rootp NIL yr) h))))"
  have yz: "rootp NIL yr \<noteq> z" using d(3) r(2) by simp
  have A: "n_parent (hA z) = ctop NIL C" "n_left (hA z) = rootp NIL l" "n_color (hA z) = n_color (h z)"
    using r(3,4) d yz zt tC1 by (auto simp: hA_def)
  have rc: "replace_child root z y NIL hA = (put_child NIL C y hA, if C = [] then y else root)"
  proof (rule replace_child_eq [OF r(1,2) d(4)], rule A(1))
    assume "C \<noteq> []"
    then have "ctop NIL C \<in> cptrs C" by (rule ctop_in)
    then have "C1 = [] \<or> ctop NIL C \<noteq> ctop NIL C1" using tC1 d(5) by (cases "C1 = []") auto
    then show "n_left (hA (ctop NIL C)) = n_left (h (ctop NIL C))" by (auto simp: hA_def)
  qed
  have tC: "ctop NIL C \<noteq> z" using d(4) r(2) by simp
  show ?thesis
  proof (cases "C1 = []")
    case True
    then have "hA = h" by (simp add: hA_def)
    then show ?thesis using True C1 rc r ln tn y A tC d(1)
      by (simp add: rbt_remove_node_def splice_heap_def Let_def color_colors)
  next
    case False
    have top: "n_parent (h y) = ctop NIL C1" "n_parent (h y) \<noteq> z" "n_right (h y) = rootp NIL yr" using r(8) tC1 [OF False] C1 False by auto
    have e: "adopt ?top y NIL (set_right y ?top (adopt (rootp NIL yr) (ctop NIL C1) NIL (set_left (ctop NIL C1) (rootp NIL yr) h))) = hA"
      using False by (simp add: hA_def)
    show ?thesis using False top rc r ln tn y A tC d(1) tC1 [OF False] e
      by (simp add: rbt_remove_node_def splice_heap_def Let_def color_colors)
  qed
qed

lemma splice_links:
  assumes "rootp NIL l \<noteq> NIL" and "rootp NIL (plug C1 (Node Leaf y yr)) = tp" and "tp \<noteq> NIL" and "h6 = splice_heap NIL h C l z C1 y yr"
  shows "n_left (h6 q) = (if q = y then rootp NIL l else if is_LF C \<and> q = ctop NIL C then y
      else if C1 \<noteq> [] \<and> q = ctop NIL C1 then rootp NIL yr else n_left (h q))"
    and "n_right (h6 q) = (if C \<noteq> [] \<and> \<not> is_LF C \<and> q = ctop NIL C then y else if C1 \<noteq> [] \<and> q = y then tp else n_right (h q))"
    and "n_parent (h6 q) = (if q = rootp NIL l then y else if q = y then ctop NIL C else if C1 \<noteq> [] \<and> q = tp then y
      else if C1 \<noteq> [] \<and> rootp NIL yr \<noteq> NIL \<and> q = rootp NIL yr then ctop NIL C1 else n_parent (h q))"
    and "n_data (h6 q) = n_data (h q)" and "colors h6 = (colors h)(y := colors h z)"
  using assms by (simp_all add: splice_heap_def Let_def color_colors)

lemma splice_holds:
  assumes h: "holds NIL h root (plug C (Node l z (plug C1 (Node Leaf y yr))))" and l: "l \<noteq> Leaf" and C1: "C1 \<noteq> [] \<longrightarrow> is_LF C1"
    and h6: "h6 = splice_heap NIL h C l z C1 y yr"
  shows "repr NIL h6 NIL (plug C (Node l y (plug C1 yr)))"
proof -
  obtain tp where tp: "rootp NIL (plug C1 (Node Leaf y yr)) = tp" by blast
  have r: "reprC NIL h C z" "repr NIL h z l" "reprS NIL z h C1 y" "repr NIL h (ctop z C1) (Node Leaf y yr)" using succ_facts(1) [OF h l] by blast+
  have ln: "rootp NIL l \<noteq> NIL" "rootp NIL l \<in> set (ptrs l)" and tn: "tp \<noteq> NIL" using tp succ_facts(2,3) [OF h l] by blast+
  note L = splice_links [OF ln(1) tp tn h6] and d = succ_facts(4,6,7) [OF h l]
  have n: "NIL \<notin> set (ptrs yr)" using r(4) repr_not_NIL by auto
  have yr: "rootp NIL yr = NIL \<or> rootp NIL yr \<in> set (ptrs yr)" by (cases yr) auto
  have tC: "C = [] \<or> ctop NIL C \<in> cptrs C" "C1 = [] \<or> ctop NIL C1 \<in> cptrs C1" using ctop_in(1) by blast+
  have top1: "rootp NIL (plug C1 Leaf) = tp" "rootp NIL (plug C1 yr) = tp" "tp \<in> cptrs C1" if "C1 \<noteq> []"
    using rootp_plug_ne [OF that, of NIL "Node Leaf y yr"] succ_facts(3) [OF h l] that tp by auto
  then have t1: "C1 = [] \<or> tp \<in> cptrs C1" by blast
  have "reprC NIL h6 C y"
  proof (rule reprC_refill [OF r(1)])
    fix q
    assume q: "q \<in> cptrs C"
    have "q \<noteq> y" "q \<noteq> rootp NIL l" "C1 = [] \<or> q \<noteq> ctop NIL C1 \<and> q \<noteq> tp" "rootp NIL yr = NIL \<or> q \<noteq> rootp NIL yr"
      using q d ln(2) tC(2) t1 yr by blast+
    moreover have "C \<noteq> []" using q by auto
    ultimately show "n_left (h6 q) = (if q = ctop NIL C \<and> is_LF C then y else n_left (h q)) \<and>
      n_right (h6 q) = (if q = ctop NIL C \<and> \<not> is_LF C then y else n_right (h q)) \<and> n_parent (h6 q) = n_parent (h q)"
      by (cases "C1 = []"; cases "rootp NIL yr = NIL"; simp add: L(1-3))
  qed (use d in simp)
  moreover have "repr NIL h6 y l"
  proof (rule repr_reparent [OF r(2)])
    fix q
    assume "q \<in> set (ptrs l)"
    then have "q \<noteq> y" "C1 = [] \<or> q \<noteq> ctop NIL C1 \<and> q \<noteq> tp" "rootp NIL yr = NIL \<or> q \<noteq> rootp NIL yr" "C = [] \<or> q \<noteq> ctop NIL C"
      using d tC t1 yr by blast+
    then show "n_left (h6 q) = n_left (h q) \<and> n_right (h6 q) = n_right (h q) \<and> n_parent (h6 q) = (if q = rootp NIL l then y else n_parent (h q))"
      by (cases "C = []"; cases "C1 = []"; cases "rootp NIL yr = NIL"; simp add: L(1-3))
  qed (use d in simp)
  moreover have "reprS NIL y h6 C1 (rootp NIL yr)"
  proof (rule reprS_move [OF r(3)])
    fix q
    assume q: "q \<in> cptrs C1"
    then have "q \<noteq> y" "q \<noteq> rootp NIL l" "C = [] \<or> q \<noteq> ctop NIL C" "rootp NIL yr = NIL \<or> q \<noteq> rootp NIL yr"
      using d ln(2) tC(1) yr by blast+
    moreover have "C1 \<noteq> []" using q by auto
    ultimately show "n_left (h6 q) = (if q = ctop z C1 \<and> is_LF C1 then rootp NIL yr else n_left (h q)) \<and>
      n_right (h6 q) = (if q = ctop z C1 \<and> \<not> is_LF C1 then rootp NIL yr else n_right (h q)) \<and>
      n_parent (h6 q) = (if q = rootp NIL (plug C1 Leaf) then y else n_parent (h q))"
      using C1 top1(1) ctop_any [of C1 z NIL] by (cases "C = []"; cases "rootp NIL yr = NIL"; simp add: L(1-3))
  qed (use d in simp)
  moreover have "repr NIL h6 (ctop y C1) yr"
  proof (rule repr_reparent)
    have top: "rootp NIL yr = NIL \<or> n_parent (h (rootp NIL yr)) = y" if "repr NIL h (ctop z C1) (Node Leaf y yr)"
      using that by (cases yr) auto
    show "repr NIL h y yr" using r(4) by simp
    fix q
    assume q: "q \<in> set (ptrs yr)"
    then have "q \<noteq> y" "q \<noteq> rootp NIL l" "C = [] \<or> q \<noteq> ctop NIL C" "C1 = [] \<or> q \<noteq> ctop NIL C1 \<and> q \<noteq> tp" 
      using d ln(2) tC t1 by blast+
    moreover have "rootp NIL yr \<noteq> NIL" using q n by (cases yr) auto
    ultimately show "n_left (h6 q) = n_left (h q) \<and> n_right (h6 q) = n_right (h q) \<and> n_parent (h6 q) = (if q = rootp NIL yr then ctop y C1 else n_parent (h q))"
      using ctop_any [of C1 y NIL] top [OF r(4)] by (cases "C = []"; cases "C1 = []"; simp add: L(1-3))
  qed (use d in simp)
  moreover have "n_left (h6 y) = rootp NIL l" "n_right (h6 y) = rootp NIL (plug C1 yr)" "n_parent (h6 y) = ctop NIL C"
  proof -
    have "y \<noteq> rootp NIL l" "C = [] \<or> y \<noteq> ctop NIL C" using d tC(1) ln(2) by blast+
    then show "n_left (h6 y) = rootp NIL l" "n_right (h6 y) = rootp NIL (plug C1 yr)" "n_parent (h6 y) = ctop NIL C"
      using top1(2) r(4) by (cases "C = []"; cases "C1 = []"; simp add: L(1-3))+
  qed
  ultimately show ?thesis using d by (simp add: repr_plug reprS_plug)
qed

lemma rootp_outside: "y \<notin> set (ptrs t) \<Longrightarrow> y \<noteq> NIL \<Longrightarrow> y \<noteq> rootp NIL t"
  by (cases t) auto

lemma cinv_swap:
  assumes y: "y \<noteq> NIL" "y \<notin> cptrs C1" "y \<notin> set (ptrs l)" "y \<notin> cptrs C" "y \<noteq> z"
    and c: "cinv NIL c n (C1 @ RF l z # C)" and c': "c' = c(y := c z)"
  shows "cinv NIL c' n (C1 @ RF l y # C)"
proof -
  have u: "invc NIL c' t = invc NIL c t" "invh c' t = invh c t" "bheight c' t = bheight c t" "c' (rootp NIL t) = c (rootp NIL t)"
    if "y \<notin> set (ptrs t)" for t using that y(1) rootp_outside [OF that y(1)] by (simp_all add: c')
  have uC: "cinv NIL c' n C = cinv NIL c n C" "C = [] \<or> c' (ctop NIL C) = c (ctop NIL C)" for n using y(1,4) ctop_in(1) [of C NIL] by (auto simp: c')
  have cy: "c' y = c z" by (simp add: c')
  show ?thesis using y(2) c
  proof (induction C1 arbitrary: n)
    case Nil
    then show ?case using u [OF y(3)] uC cy by (cases "C = []") auto
  next
    case (Cons F C1)
    have "c' (ctop NIL (C1 @ RF l y # C)) = c (ctop NIL (C1 @ RF l z # C))"
    proof (cases "C1 = []")
      case False
      then have "ctop NIL (C1 @ D) = ctop NIL C1" for D by (cases C1 rule: cptrs.cases) auto
      then show ?thesis using False ctop_in(1) [of C1 NIL] Cons.prems(1) by (cases F) (auto simp: c')
    qed (simp add: cy)
    moreover have "c' p = c p" if "p \<noteq> y" for p using that by (simp add: c')
    ultimately show ?case using Cons u by (cases F) auto
  qed
qed

lemma splice_balance:
  assumes b: "balanced NIL c (plug C (Node l z (plug C1 (Node Leaf y yr))))" and NIL: "c NIL = RBT_BLACK"
    and d: "y \<noteq> NIL" "y \<notin> cptrs C1" "y \<notin> set (ptrs l)" "y \<notin> cptrs C" "y \<noteq> z" "y \<notin> set (ptrs yr)"
  shows "if c y = RBT_BLACK then del_inv NIL (c(y := c z)) (C1 @ RF l y # C) yr
    else balanced NIL (c(y := c z)) (plug (C1 @ RF l y # C) yr)"
proof -
  have "balanced NIL c (plug (C1 @ RF l z # C) (Node Leaf y yr))" using b by (simp add: plug_append)
  then have i: "cinv NIL c (bheight c (Node Leaf y yr)) (C1 @ RF l z # C)" "invc NIL c (Node Leaf y yr)" "invh c (Node Leaf y yr)"
    using NIL by (auto simp: balanced_plug)
  have c: "cinv NIL (c(y := c z)) (bheight c (Node Leaf y yr)) (C1 @ RF l y # C)" by (rule cinv_swap [OF d(1-5) i(1) refl])
  have N: "(c(y := c z)) NIL = RBT_BLACK" "y \<noteq> rootp NIL yr" using NIL d(1) rootp_outside [OF d(6,1)] by auto
  show ?thesis
  proof (cases "c y = RBT_BLACK")
    case True
    then show ?thesis using c i d N invc_invc2 by (auto simp: del_inv_def)
  next
    case False
    then show ?thesis using c i d N by (subst balanced_plug) auto
  qed
qed

lemma splice_edits:
  assumes h: "holds NIL h root (plug C (Node l z (plug C1 (Node Leaf y yr))))" and l: "l \<noteq> Leaf"
  shows "edits (set (ptrs (plug C (Node l z (plug C1 (Node Leaf y yr)))))) h (splice_heap NIL h C l z C1 y yr)"
proof -
  obtain tp h6 where tp: "rootp NIL (plug C1 (Node Leaf y yr)) = tp" and h6: "h6 = splice_heap NIL h C l z C1 y yr" by blast
  have ln: "rootp NIL l \<noteq> NIL" "rootp NIL l \<in> set (ptrs l)" and tn: "tp \<noteq> NIL" using tp succ_facts(2,3) [OF h l] by blast+
  note L = splice_links [OF ln(1) tp tn h6]
  have yr: "rootp NIL yr = NIL \<or> rootp NIL yr \<in> set (ptrs yr)" by (cases yr) auto
  have tC: "C = [] \<or> ctop NIL C \<in> cptrs C" "C1 = [] \<or> ctop NIL C1 \<in> cptrs C1 \<and> tp \<in> cptrs C1"
    using ctop_in(1) succ_facts(3) [OF h l] tp by blast+
  have "h6 q = h q" if "q \<notin> set (ptrs (plug C (Node l z (plug C1 (Node Leaf y yr)))))" for q
  proof -
    have q: "q \<notin> cptrs C" "q \<notin> cptrs C1" "q \<notin> set (ptrs l)" "q \<notin> set (ptrs yr)" "q \<noteq> y" using that by (auto simp: ptrs_plug cptrs_eq)
    then have "q \<noteq> rootp NIL l" "C = [] \<or> q \<noteq> ctop NIL C" "C1 = [] \<or> q \<noteq> ctop NIL C1 \<and> q \<noteq> tp" "rootp NIL yr = NIL \<or> q \<noteq> rootp NIL yr"
      using ln(2) tC yr by blast+
    moreover have "n_color (h6 q) = n_color (h q)" using L(5) q(5) by (metis color_colors fun_upd_other)
    ultimately show ?thesis using q(5)
      by (intro rbt_node.equality; cases "C = []"; cases "C1 = []"; cases "rootp NIL yr = NIL"; simp add: L(1-4))
  qed
  then show ?thesis using L(4) h6 by (simp add: edits_def)
qed

lemma remove_two_ok:
  assumes h: "holds NIL h root (plug C (Node l z r))" and b: "balanced NIL (colors h) (plug C (Node l z r))" and NIL: "colors h NIL = RBT_BLACK"
    and s: "l \<noteq> Leaf" "r \<noteq> Leaf"
  shows "\<exists>h2. edits (set (ptrs (plug C (Node l z r)))) h h2 \<and>
    del_result NIL h2 (plefts C @ ptrs l @ ptrs r @ prights C) (rbt_remove_node root z NIL h)"
proof -
  obtain a p e where "r = Node a p e" using s(2) by (cases r) auto
  moreover have "repr NIL h z r" "n_right (h z) = rootp NIL r" using h by (auto simp: holds_def repr_plug)
  ultimately obtain C1 y yr where y: "leftmost NIL h (n_right (h z)) = Some y" "r = plug C1 (Node Leaf y yr)" "C1 \<noteq> [] \<longrightarrow> is_LF C1" "plefts C1 = []"
    using leftmost_ok [of NIL h z a p e] by auto
  note h' = h [unfolded y(2)]
  let ?h6 = "splice_heap NIL h C l z C1 y yr"
  let ?D = "C1 @ RF l y # C"
  have d: "y \<noteq> NIL" "y \<notin> cptrs C1" "y \<notin> set (ptrs l)" "y \<notin> cptrs C" "y \<noteq> z" "y \<notin> set (ptrs yr)" using succ_facts(4) [OF h' s(1)] by blast+
  have t: "plug ?D yr = plug C (Node l y (plug C1 yr))" by (simp add: plug_append)
  have ps: "ptrs (plug ?D yr) = plefts C @ ptrs l @ ptrs r @ prights C" using y(2,4) by (simp add: t ptrs_plug)
  have root: "(if C = [] then y else root) = rootp NIL (plug ?D yr)"
    using h rootp_plug_ne [of C NIL "Node l z r" "Node l y (plug C1 yr)"] unfolding t by (auto simp: holds_def)
  have h6: "holds NIL ?h6 (rootp NIL (plug ?D yr)) (plug ?D yr)"
    using splice_holds [OF h' s(1) y(3) refl] h unfolding t by (auto simp: holds_def ptrs_plug y(2,4))
  have e: "rbt_remove_node root z NIL h = (if colors h y = RBT_BLACK
      then rbt_fix_delete (rootp NIL (plug ?D yr)) (rootp NIL yr) (ctop NIL ?D) NIL ?h6 else Some (?h6, rootp NIL (plug ?D yr)))"
    using remove_two_eq [OF h' s(1) y(1)] root by (cases C1 rule: cptrs.cases) (simp_all add: Let_def)
  have col: "colors ?h6 = (colors h)(y := colors h z)" by (rule splice_links(5)) (use succ_facts(2,3) [OF h' s(1)] in auto)
  have sb: "if colors h y = RBT_BLACK then del_inv NIL (colors ?h6) ?D yr else balanced NIL (colors ?h6) (plug ?D yr)"
    unfolding col by (rule splice_balance [OF b [unfolded y(2)] NIL d])
  have "del_result NIL ?h6 (ptrs (plug ?D yr)) (rbt_remove_node root z NIL h)"
  proof (cases "colors h y = RBT_BLACK")
    case True
    then show ?thesis using fix_delete_ok [OF h6] sb e by simp
  next
    case False
    then show ?thesis using h6 e sb NIL col d(1) unfolding del_result_def by auto
  qed
  then show ?thesis using splice_edits [OF h' s(1)] unfolding ps y(2) by blast
qed

lemma find_context: "z \<in> set (ptrs t) \<Longrightarrow> \<exists>C l r. t = plug C (Node l z r)"
proof (induction t)
  case (Node a p b)
  consider "z = p" | "z \<in> set (ptrs a)" | "z \<in> set (ptrs b)" using Node.prems by auto
  then show ?case
  proof cases
    case 1
    then show ?thesis by (intro exI [of _ "[]"]) auto
  next
    case 2
    then obtain C l r where "a = plug C (Node l z r)" using Node.IH(1) by blast
    then show ?thesis by (intro exI [of _ "C @ [LF p b]"]) (auto simp: plug_append)
  next
    case 3
    then obtain C l r where "b = plug C (Node l z r)" using Node.IH(2) by blast
    then show ?thesis by (intro exI [of _ "C @ [RF a p]"]) (auto simp: plug_append)
  qed
qed simp

text \<open>Removing a node of a tree: the call returns, the tree it leaves is ordered and balanced again, holds
  the other nodes in the same order, and no cell outside the tree is written.\<close>

lemma rbt_remove_ok:
  assumes ok: "rbt_ok key NIL h root t" and z: "z \<in> set (ptrs t)"
  shows "\<exists>h' root' t'. rbt_remove_node root z NIL h = Some (h', root') \<and> rbt_ok key NIL h' root' t' \<and> ptrs t' = remove1 z (ptrs t) \<and>
    edits (set (ptrs t)) h h'"
proof -
  obtain C l r where t: "t = plug C (Node l z r)" using find_context [OF z] by blast
  have o: "holds NIL h root (plug C (Node l z r))" "balanced NIL (colors h) (plug C (Node l z r))" "colors h NIL = RBT_BLACK" "search_tree key h t"
    using ok t by (auto simp: rbt_ok_def)
  let ?ps = "plefts C @ ptrs l @ ptrs r @ prights C"
  have ps: "?ps = remove1 z (ptrs t)" using nodes_okD [OF holds_nodes_ok [OF o(1)]] unfolding t by (auto simp: ptrs_plug remove1_append cptrs_eq)
  have "\<exists>h2. edits (set (ptrs t)) h h2 \<and> del_result NIL h2 ?ps (rbt_remove_node root z NIL h)"
  proof (cases "l = Leaf \<or> r = Leaf")
    case True
    then obtain s where s: "l = Leaf \<and> s = r \<or> r = Leaf \<and> s = l" by blast
    then have "ptrs (plug C s) = ?ps" by (auto simp: ptrs_plug)
    then show ?thesis using remove_one_ok [OF o(1-3) s] t by simp
  next
    case False
    then show ?thesis using remove_two_ok [OF o(1-3)] t by blast
  qed
  then obtain h2 h' root' t' where e: "edits (set (ptrs t)) h h2" "rbt_remove_node root z NIL h = Some (h', root')" "holds NIL h' root' t'"
    "ptrs t' = ?ps" "balanced NIL (colors h') t'" "colors h' NIL = RBT_BLACK" "edits (set ?ps) h2 h'" unfolding del_result_def by blast
  have "edits (set (ptrs t)) h2 h'" using e(7) unfolding ps edits_def by (meson notin_set_remove1)
  then have ed: "edits (set (ptrs t)) h h'" by (rule edits_trans [OF e(1)])
  then have "map (node_key key h') ?ps = map (node_key key h) ?ps" "\<forall>p. n_data (h' p) = n_data (h p)" by (simp_all add: edits_def node_key_def)
  then have "search_tree key h' t'" using o(4) e(4) unfolding search_tree_def t by (auto simp: ptrs_plug sorted_append simp del: map_eq_conv)
  then show ?thesis using e ed ps by (auto simp: rbt_ok_def)
qed

end
