(* ===== verification/Rbt_Props.thy ===== *)
theory Rbt_Props
  imports Rbt_Delete
begin

text \<open>
  What the tree of \<^verbatim>\<open>kernel/libk/tree/rbt.h\<close> promises its clients: \<^verbatim>\<open>rbt_search_node\<close> returns and finds
  exactly the keys that are there, the tree is at most twice as high as a full one with as many nodes, and
  under any sequence of insertions and removals it is a sequence of nodes ordered by their keys. The last is
  the contract \<open>sorted_index\<close>, which the pointer tree implements.
\<close>

section \<open>Searching\<close>

lemma search_ok:
  assumes "repr NIL h par t" and "search_tree key h t"
  shows "\<exists>p. rbt_search_node key (rootp NIL t) k NIL h = Some p \<and>
    (if k \<in> node_key key h ` set (ptrs t) then p \<in> set (ptrs t) \<and> node_key key h p = k else p = NIL)"
  using assms
proof (induction t arbitrary: par)
  case Leaf
  then show ?case by (subst rbt_search_node.simps) simp
next
  case (Node l p r)
  obtain d where d: "n_data (h p) = Some d" "node_key key h p = key d" using Node.prems(2) by (auto simp: search_tree_def node_key_def)
  have lt: "\<forall>q \<in> set (ptrs l). node_key key h q \<le> key d" "\<forall>q \<in> set (ptrs r). key d \<le> node_key key h q"
    and st: "search_tree key h l" "search_tree key h r" using Node.prems(2) d(2) by (auto simp: search_tree_def sorted_append)
  have rp: "p \<noteq> NIL" "repr NIL h p l" "repr NIL h p r" "n_left (h p) = rootp NIL l" "n_right (h p) = rootp NIL r" using Node.prems(1) by auto
  consider "k = key d" | "k < key d" | "key d < k" by (rule linorder_cases)
  then show ?case
  proof cases
    case 1
    then show ?thesis using d rp by (subst rbt_search_node.simps) auto
  next
    case 2
    then have "k \<notin> node_key key h ` set (ptrs r)" using lt(2) by (fastforce dest: leD)
    moreover obtain q where "rbt_search_node key (rootp NIL l) k NIL h = Some q"
      "if k \<in> node_key key h ` set (ptrs l) then q \<in> set (ptrs l) \<and> node_key key h q = k else q = NIL"
      using Node.IH(1) [OF rp(2) st(1)] by blast
    ultimately show ?thesis using d rp 2
      by (intro exI [of _ q]) (subst rbt_search_node.simps, auto simp: image_Un split: if_splits)
  next
    case 3
    then have "k \<notin> node_key key h ` set (ptrs l)" using lt(1) by (fastforce dest: leD)
    moreover obtain q where "rbt_search_node key (rootp NIL r) k NIL h = Some q"
      "if k \<in> node_key key h ` set (ptrs r) then q \<in> set (ptrs r) \<and> node_key key h q = k else q = NIL"
      using Node.IH(2) [OF rp(3) st(2)] by blast
    ultimately show ?thesis using d rp 3
      by (intro exI [of _ q]) (subst rbt_search_node.simps, auto simp: image_Un split: if_splits)
  qed
qed

section \<open>The height\<close>

fun height :: "ptree \<Rightarrow> nat" where
  "height Leaf = 0"
| "height (Node l p r) = Suc (max (height l) (height r))"

lemma black_size: "invh c t \<Longrightarrow> 2 ^ bheight c t \<le> Suc (length (ptrs t))"
proof (induction t)
  case (Node l p r)
  then have "2 ^ bheight c l \<le> Suc (length (ptrs l))" "2 ^ bheight c l \<le> Suc (length (ptrs r))" by auto
  then show ?case by auto
qed simp

lemma height_black:
  "invc NIL c t \<Longrightarrow> invh c t \<Longrightarrow> height t \<le> 2 * bheight c t + (if c (rootp NIL t) = RBT_RED then 1 else 0)"
proof (induction t)
  case (Node l p r)
  then show ?case by (cases "c p"; cases "c (rootp NIL l)"; cases "c (rootp NIL r)") auto
qed simp

lemma height_bound:
  assumes "balanced NIL c t"
  shows "2 ^ height t \<le> (Suc (length (ptrs t)))\<^sup>2"
proof -
  have "height t \<le> 2 * bheight c t" using height_black [of NIL c t] assms by (auto simp: balanced_def)
  then have "(2::nat) ^ height t \<le> 2 ^ (2 * bheight c t)" by (rule power_increasing) simp
  also have "\<dots> = (2 ^ bheight c t)\<^sup>2" by (simp add: power_mult mult.commute flip: power_mult)
  also have "\<dots> \<le> (Suc (length (ptrs t)))\<^sup>2" using black_size [of c t] assms by (intro power_mono) (auto simp: balanced_def)
  finally show ?thesis .
qed

section \<open>The contract of an ordered index\<close>

datatype ('n, 'd) index_op = Add 'n 'd | Remove 'n

text \<open>The index as a list of nodes with their data: a new entry goes behind the entries with a key not above its own.\<close>

definition index_add :: "('d \<Rightarrow> 'k::linorder) \<Rightarrow> 'n \<times> 'd \<Rightarrow> ('n \<times> 'd) list \<Rightarrow> ('n \<times> 'd) list" where
  "index_add key e es = takeWhile (\<lambda>f. key (snd f) \<le> key (snd e)) es @ e # dropWhile (\<lambda>f. key (snd f) \<le> key (snd e)) es"

fun index_spec :: "('d \<Rightarrow> 'k::linorder) \<Rightarrow> ('n, 'd) index_op \<Rightarrow> ('n \<times> 'd) list \<Rightarrow> ('n \<times> 'd) list" where
  "index_spec key (Add n d) es = index_add key (n, d) es"
| "index_spec key (Remove n) es = filter (\<lambda>e. fst e \<noteq> n) es"

fun index_legal :: "('d \<Rightarrow> 'k::linorder) \<Rightarrow> ('n \<Rightarrow> bool) \<Rightarrow> ('n, 'd) index_op list \<Rightarrow> ('n \<times> 'd) list \<Rightarrow> bool" where
  "index_legal key usable [] es \<longleftrightarrow> True"
| "index_legal key usable (Add n d # ops) es \<longleftrightarrow> usable n \<and> n \<notin> fst ` set es \<and> index_legal key usable ops (index_add key (n, d) es)"
| "index_legal key usable (Remove n # ops) es \<longleftrightarrow> n \<in> fst ` set es \<and> index_legal key usable ops (index_spec key (Remove n) es)"

fun run_index :: "('n \<Rightarrow> 'd \<Rightarrow> 's \<Rightarrow> 's option) \<Rightarrow> ('n \<Rightarrow> 's \<Rightarrow> 's option) \<Rightarrow> ('n, 'd) index_op list \<Rightarrow> 's \<Rightarrow> 's option" where
  "run_index add del [] s = Some s"
| "run_index add del (Add n d # ops) s = (case add n d s of None \<Rightarrow> None | Some s' \<Rightarrow> run_index add del ops s')"
| "run_index add del (Remove n # ops) s = (case del n s of None \<Rightarrow> None | Some s' \<Rightarrow> run_index add del ops s')"

locale sorted_index =
  fixes entries :: "'s \<Rightarrow> ('n \<times> 'd) list \<Rightarrow> bool"
    and add :: "'n \<Rightarrow> 'd \<Rightarrow> 's \<Rightarrow> 's option"
    and del :: "'n \<Rightarrow> 's \<Rightarrow> 's option"
    and find :: "'k::linorder \<Rightarrow> 's \<Rightarrow> 'n option option"
    and key :: "'d \<Rightarrow> 'k"
    and usable :: "'n \<Rightarrow> bool"
  assumes entries_sorted: "entries s es \<Longrightarrow> sorted (map (\<lambda>e. key (snd e)) es) \<and> distinct (map fst es)"
    and add_ok: "entries s es \<Longrightarrow> usable n \<Longrightarrow> n \<notin> fst ` set es \<Longrightarrow> \<exists>s'. add n d s = Some s' \<and> entries s' (index_add key (n, d) es)"
    and del_ok: "entries s es \<Longrightarrow> n \<in> fst ` set es \<Longrightarrow> \<exists>s'. del n s = Some s' \<and> entries s' (filter (\<lambda>e. fst e \<noteq> n) es)"
    and find_ok: "entries s es \<Longrightarrow> \<exists>r. find k s = Some r \<and>
      (case r of None \<Rightarrow> k \<notin> (\<lambda>e. key (snd e)) ` set es | Some n \<Rightarrow> \<exists>d. (n, d) \<in> set es \<and> key d = k)"
begin

lemma run_ok:
  "entries s es \<Longrightarrow> index_legal key usable ops es \<Longrightarrow> \<exists>s'. run_index add del ops s = Some s' \<and> entries s' (fold (index_spec key) ops es)"
proof (induction ops arbitrary: s es)
  case (Cons op ops)
  then show ?case
  proof (cases op)
    case (Add n d)
    then obtain s' where "add n d s = Some s'" "entries s' (index_add key (n, d) es)" using Cons.prems add_ok [of s es n d] by auto
    then show ?thesis using Cons Add by simp
  next
    case (Remove n)
    then obtain s' where "del n s = Some s'" "entries s' (filter (\<lambda>e. fst e \<noteq> n) es)" using Cons.prems del_ok [of s es n] by auto
    then show ?thesis using Cons Remove by simp
  qed
qed simp

text \<open>After any legal sequence a search returns, and finds a key exactly when the list has it.\<close>

lemma find_after:
  assumes "entries s es" and "index_legal key usable ops es"
  shows "\<exists>s' r. run_index add del ops s = Some s' \<and> entries s' (fold (index_spec key) ops es) \<and> find k s' = Some r \<and>
    (r = None \<longleftrightarrow> k \<notin> (\<lambda>e. key (snd e)) ` set (fold (index_spec key) ops es)) \<and>
    (\<forall>n. r = Some n \<longrightarrow> (\<exists>d. (n, d) \<in> set (fold (index_spec key) ops es) \<and> key d = k))"
proof -
  obtain s' where s': "run_index add del ops s = Some s'" "entries s' (fold (index_spec key) ops es)" using run_ok [OF assms] by blast
  obtain r where r: "find k s' = Some r"
    "case r of None \<Rightarrow> k \<notin> (\<lambda>e. key (snd e)) ` set (fold (index_spec key) ops es)
      | Some n \<Rightarrow> \<exists>d. (n, d) \<in> set (fold (index_spec key) ops es) \<and> key d = k" using find_ok [OF s'(2)] by blast
  then show ?thesis using s' by (intro exI [of _ s'] exI [of _ r]) (cases r; force)
qed

end

section \<open>The pointer tree is an ordered index\<close>

definition tree_entries :: "(ptr \<Rightarrow> u64) \<Rightarrow> ptr \<Rightarrow> rbt_heap \<times> ptr \<Rightarrow> (ptr \<times> ptr) list \<Rightarrow> bool" where
  "tree_entries key NIL s es \<longleftrightarrow> (\<exists>t. rbt_ok key NIL (fst s) (snd s) t \<and> es = map (\<lambda>p. (p, the (n_data (fst s p)))) (ptrs t))"

definition tree_add :: "(ptr \<Rightarrow> u64) \<Rightarrow> ptr \<Rightarrow> ptr \<Rightarrow> ptr \<Rightarrow> rbt_heap \<times> ptr \<Rightarrow> (rbt_heap \<times> ptr) option" where
  "tree_add key NIL n d s = rbt_insert_node key (snd s) n d NIL (fst s)"

definition tree_del :: "ptr \<Rightarrow> ptr \<Rightarrow> rbt_heap \<times> ptr \<Rightarrow> (rbt_heap \<times> ptr) option" where
  "tree_del NIL n s = rbt_remove_node (snd s) n NIL (fst s)"

definition tree_find :: "(ptr \<Rightarrow> u64) \<Rightarrow> ptr \<Rightarrow> u64 \<Rightarrow> rbt_heap \<times> ptr \<Rightarrow> ptr option option" where
  "tree_find key NIL k s = map_option (\<lambda>p. if p = NIL then None else Some p) (rbt_search_node key (snd s) k NIL (fst s))"

lemma entry_keys:
  assumes "search_tree key h t"
  shows "map (\<lambda>e. key (snd e)) (map (\<lambda>p. (p, the (n_data (h p)))) (ptrs t)) = map (node_key key h) (ptrs t)"
  using assms by (auto simp: search_tree_def node_key_def)

lemma entries_tree:
  assumes "tree_entries key NIL s es"
  obtains t where "rbt_ok key NIL (fst s) (snd s) t" "es = map (\<lambda>p. (p, the (n_data (fst s p)))) (ptrs t)"
    "\<And>p. p \<in> set (ptrs t) \<Longrightarrow> node_key key (fst s) p = key (the (n_data (fst s p)))" "fst ` set es = set (ptrs t)"
proof -
  obtain t where t: "rbt_ok key NIL (fst s) (snd s) t" "es = map (\<lambda>p. (p, the (n_data (fst s p)))) (ptrs t)" using assms by (auto simp: tree_entries_def)
  moreover have "fst ` set es = set (ptrs t)" using t(2) by force
  moreover have "node_key key (fst s) p = key (the (n_data (fst s p)))" if "p \<in> set (ptrs t)" for p
    using that t(1) by (auto simp: rbt_ok_def search_tree_def node_key_def)
  ultimately show ?thesis using that by blast
qed

lemma tree_entries_sorted: "tree_entries key NIL s es \<Longrightarrow> sorted (map (\<lambda>e. key (snd e)) es) \<and> distinct (map fst es)"
  using entry_keys [of key "fst s"] by (auto simp: tree_entries_def rbt_ok_def holds_def search_tree_def distinct_map inj_on_def simp del: map_map)

lemma tree_add_ok:
  assumes "tree_entries key NIL s es" and "n \<noteq> NIL" and "n \<notin> fst ` set es"
  shows "\<exists>s'. tree_add key NIL n d s = Some s' \<and> tree_entries key NIL s' (index_add key (n, d) es)"
proof -
  obtain t where t: "rbt_ok key NIL (fst s) (snd s) t" "es = map (\<lambda>p. (p, the (n_data (fst s p)))) (ptrs t)"
    "\<And>p. p \<in> set (ptrs t) \<Longrightarrow> node_key key (fst s) p = key (the (n_data (fst s p)))" "fst ` set es = set (ptrs t)"
    using entries_tree [OF assms(1)] by blast
  have n: "n \<notin> set (ptrs t)" using assms(3) t(4) by simp
  let ?P = "\<lambda>p. node_key key (fst s) p \<le> key d"
  obtain h' root' t' where h': "rbt_insert_node key (snd s) n d NIL (fst s) = Some (h', root')" "rbt_ok key NIL h' root' t'"
    "ptrs t' = takeWhile ?P (ptrs t) @ n # dropWhile ?P (ptrs t)" "n_data (h' n) = Some d" "\<forall>q. q \<noteq> n \<longrightarrow> n_data (h' q) = n_data (fst s q)"
    using rbt_insert_ok [OF t(1) n assms(2)] by blast
  have tw: "takeWhile ?P (ptrs t) = takeWhile (\<lambda>p. key (the (n_data (fst s p))) \<le> key d) (ptrs t)"
    "dropWhile ?P (ptrs t) = dropWhile (\<lambda>p. key (the (n_data (fst s p))) \<le> key d) (ptrs t)"
    by (rule takeWhile_cong dropWhile_cong; simp add: t(3))+
  have same: "n_data (h' p) = n_data (fst s p)" if "p \<in> set (ptrs t)" for p using that n h'(5) by metis
  have "index_add key (n, d) es = map (\<lambda>p. (p, the (n_data (h' p)))) (ptrs t')"
    using h'(4) unfolding h'(3) t(2) index_add_def
    by (auto simp: takeWhile_map dropWhile_map o_def tw same dest: set_takeWhileD set_dropWhileD)
  then show ?thesis using h' by (auto simp: tree_add_def tree_entries_def)
qed

lemma tree_del_ok:
  assumes "tree_entries key NIL s es" and "n \<in> fst ` set es"
  shows "\<exists>s'. tree_del NIL n s = Some s' \<and> tree_entries key NIL s' (filter (\<lambda>e. fst e \<noteq> n) es)"
proof -
  obtain t where t: "rbt_ok key NIL (fst s) (snd s) t" "es = map (\<lambda>p. (p, the (n_data (fst s p)))) (ptrs t)" "fst ` set es = set (ptrs t)"
    using entries_tree [OF assms(1)] by blast
  then have n: "n \<in> set (ptrs t)" using assms(2) by simp
  obtain h' root' t' where h': "rbt_remove_node (snd s) n NIL (fst s) = Some (h', root')" "rbt_ok key NIL h' root' t'"
    "ptrs t' = remove1 n (ptrs t)" "edits (set (ptrs t)) (fst s) h'" using rbt_remove_ok [OF t(1) n] by blast
  have "remove1 n (ptrs t) = filter (\<lambda>p. p \<noteq> n) (ptrs t)"
    using t(1) by (subst distinct_remove1_removeAll) (auto simp: rbt_ok_def holds_def removeAll_filter_not_eq intro: filter_cong)
  then show ?thesis using h' t(2) by (auto simp: tree_del_def tree_entries_def edits_def filter_map o_def)
qed

lemma tree_find_ok:
  assumes "tree_entries key NIL s es"
  shows "\<exists>r. tree_find key NIL k s = Some r \<and>
    (case r of None \<Rightarrow> k \<notin> (\<lambda>e. key (snd e)) ` set es | Some n \<Rightarrow> \<exists>d. (n, d) \<in> set es \<and> key d = k)"
proof -
  obtain t where t: "rbt_ok key NIL (fst s) (snd s) t" "es = map (\<lambda>p. (p, the (n_data (fst s p)))) (ptrs t)"
    "\<And>p. p \<in> set (ptrs t) \<Longrightarrow> node_key key (fst s) p = key (the (n_data (fst s p)))" using entries_tree [OF assms] by blast
  then have o: "repr NIL (fst s) NIL t" "search_tree key (fst s) t" "snd s = rootp NIL t" by (auto simp: rbt_ok_def holds_def)
  obtain p where p: "rbt_search_node key (rootp NIL t) k NIL (fst s) = Some p"
    "if k \<in> node_key key (fst s) ` set (ptrs t) then p \<in> set (ptrs t) \<and> node_key key (fst s) p = k else p = NIL" using search_ok [OF o(1,2)] by blast
  have ks: "(\<lambda>e. key (snd e)) ` set es = node_key key (fst s) ` set (ptrs t)" using arg_cong [OF entry_keys [OF o(2)], of set] t(2) by (simp add: image_image)
  have "p \<noteq> NIL" if "p \<in> set (ptrs t)" using that o(1) repr_not_NIL by blast
  then show ?thesis using p ks t(2,3) o(3) by (auto simp: tree_find_def split: if_splits)
qed

interpretation tree: sorted_index "tree_entries key NIL" "tree_add key NIL" "tree_del NIL" "tree_find key NIL" key "\<lambda>n. n \<noteq> NIL"
  for key NIL
  by unfold_locales (rule tree_entries_sorted tree_add_ok tree_del_ok tree_find_ok; assumption)+

section \<open>Properties\<close>

text \<open>The empty tree: the root is the sentinel, which \<^verbatim>\<open>INIT(vma)\<close> colours black.\<close>

lemma empty_entries: "colors h NIL = RBT_BLACK \<Longrightarrow> tree_entries key NIL (h, NIL) []"
  by (auto simp: tree_entries_def rbt_ok_def holds_def balanced_def search_tree_def intro!: exI [of _ Leaf])

text \<open>
  (C6) Red-black tree, refinement: starting from the empty tree, every sequence of \<^verbatim>\<open>rbt_insert_node\<close> calls with
  fresh nodes and \<^verbatim>\<open>rbt_remove_node\<close> calls with nodes of the tree runs to its end, and the heap then holds
  a balanced search tree whose nodes are, in order, those of the list that the same operations give on a list
  sorted by key; \<^verbatim>\<open>rbt_search_node\<close> on it returns, and returns the sentinel exactly when no node has the key.
\<close>

theorem rbt_refines_sorted_list:
  assumes "colors h NIL = RBT_BLACK" and "index_legal key (\<lambda>n. n \<noteq> NIL) ops []"
  shows "\<exists>h' root t p. run_index (tree_add key NIL) (tree_del NIL) ops (h, NIL) = Some (h', root) \<and> rbt_ok key NIL h' root t \<and>
    map (\<lambda>p. (p, the (n_data (h' p)))) (ptrs t) = fold (index_spec key) ops [] \<and> rbt_search_node key root k NIL h' = Some p \<and>
    (p = NIL \<longleftrightarrow> k \<notin> (\<lambda>e. key (snd e)) ` set (fold (index_spec key) ops [])) \<and>
    (p \<noteq> NIL \<longrightarrow> (\<exists>d. (p, d) \<in> set (fold (index_spec key) ops []) \<and> key d = k))"
proof -
  obtain s' r where s': "run_index (tree_add key NIL) (tree_del NIL) ops (h, NIL) = Some s'"
    "tree_entries key NIL s' (fold (index_spec key) ops [])" "tree_find key NIL k s' = Some r"
    "r = None \<longleftrightarrow> k \<notin> (\<lambda>e. key (snd e)) ` set (fold (index_spec key) ops [])"
    "\<forall>n. r = Some n \<longrightarrow> (\<exists>d. (n, d) \<in> set (fold (index_spec key) ops []) \<and> key d = k)"
    using tree.find_after [OF empty_entries [OF assms(1)] assms(2), of k] by blast
  obtain h' root where h': "s' = (h', root)" by (cases s')
  obtain t where t: "rbt_ok key NIL h' root t" "map (\<lambda>p. (p, the (n_data (h' p)))) (ptrs t) = fold (index_spec key) ops []"
    using s'(2) by (auto simp: tree_entries_def h')
  obtain p where p: "rbt_search_node key root k NIL h' = Some p" "r = (if p = NIL then None else Some p)"
    using s'(3) by (auto simp: tree_find_def h')
  then show ?thesis using s' t h' by (intro exI [of _ h'] exI [of _ root] exI [of _ t] exI [of _ p]) (auto split: if_splits)
qed

definition sample_nodes :: rbt_heap where
  "sample_nodes = (\<lambda>p. \<lparr>n_data = None, n_left = 0, n_right = 0, n_parent = 0, n_color = RBT_BLACK\<rparr>)"

theorem rbt_refines_sorted_list_witness:
  "\<exists>h' root t p. run_index (tree_add (\<lambda>d. d) 0) (tree_del 0) [Add 8 30, Add 16 10, Add 24 20, Remove 8] (sample_nodes, 0) = Some (h', root) \<and>
    rbt_ok (\<lambda>d. d) 0 h' root t \<and> map (\<lambda>p. (p, the (n_data (h' p)))) (ptrs t) = [(16, 10), (24, 20)] \<and>
    rbt_search_node (\<lambda>d. d) root 20 0 h' = Some p \<and> p \<noteq> 0"
proof -
  have l: "index_legal (\<lambda>d::u64. d) (\<lambda>n::u64. n \<noteq> 0) [Add 8 30, Add 16 10, Add 24 20, Remove 8] []"
    and f: "fold (index_spec (\<lambda>d::u64. d)) [Add 8 30, Add 16 10, Add 24 20, Remove 8] [] = [(16::u64, 10), (24, 20)]"
    by (simp_all add: index_add_def)
  have c: "colors sample_nodes 0 = RBT_BLACK" by (simp add: colors_def sample_nodes_def)
  have "20 \<in> (\<lambda>e. snd e) ` set [(16::u64, 10), (24, 20::u64)]" by simp
  then show ?thesis using rbt_refines_sorted_list [OF c l, of 20] unfolding f
    by (elim exE conjE) (intro exI conjI, assumption+, blast)
qed

text \<open>
  Insertion: in a balanced search tree \<^verbatim>\<open>rbt_insert_node\<close> returns for every fresh node, the tree is a balanced
  search tree again, the node stands behind all nodes with a key not above its own and before the others, and
  neither the data of another node nor any cell outside the tree changes.
\<close>

lemma rbt_insert_correct:
  assumes "rbt_ok key NIL h root t" and "z \<notin> set (ptrs t)" and "z \<noteq> NIL"
  shows "\<exists>h' root' t'. rbt_insert_node key root z d NIL h = Some (h', root') \<and> rbt_ok key NIL h' root' t' \<and>
    ptrs t' = takeWhile (\<lambda>p. node_key key h p \<le> key d) (ptrs t) @ z # dropWhile (\<lambda>p. node_key key h p \<le> key d) (ptrs t) \<and>
    n_data (h' z) = Some d \<and> (\<forall>q. q \<noteq> z \<longrightarrow> n_data (h' q) = n_data (h q)) \<and> (\<forall>q. q \<notin> insert z (set (ptrs t)) \<longrightarrow> h' q = h q)"
  by (rule rbt_insert_ok [OF assms])

lemma rbt_insert_correct_example:
  "\<exists>h' root' t'. rbt_insert_node (\<lambda>d. d) 0 8 30 0 sample_nodes = Some (h', root') \<and> rbt_ok (\<lambda>d. d) 0 h' root' t' \<and> ptrs t' = [8]"
proof -
  have "rbt_ok (\<lambda>d. d) 0 sample_nodes 0 Leaf" by (simp add: rbt_ok_def holds_def balanced_def search_tree_def colors_def sample_nodes_def)
  from rbt_insert_correct [OF this, of 8 30] show ?thesis by auto
qed

text \<open>
  (C9) Removal: \<^verbatim>\<open>rbt_remove_node\<close> of a node of a balanced search tree returns, the tree is a balanced search
  tree again with the other nodes in the same order, no node's data changes, and no cell outside the
  tree is written.
\<close>

theorem rbt_remove_correct:
  assumes "rbt_ok key NIL h root t" and "z \<in> set (ptrs t)"
  shows "\<exists>h' root' t'. rbt_remove_node root z NIL h = Some (h', root') \<and> rbt_ok key NIL h' root' t' \<and> ptrs t' = remove1 z (ptrs t) \<and>
    (\<forall>q. n_data (h' q) = n_data (h q)) \<and> (\<forall>q. q \<notin> set (ptrs t) \<longrightarrow> h' q = h q)"
  using rbt_remove_ok [OF assms] by (auto simp: edits_def)

definition sample_tree :: rbt_heap where
  "sample_tree = sample_nodes(8 := \<lparr>n_data = Some 30, n_left = 16, n_right = 24, n_parent = 0, n_color = RBT_BLACK\<rparr>,
     16 := \<lparr>n_data = Some 10, n_left = 0, n_right = 0, n_parent = 8, n_color = RBT_BLACK\<rparr>,
     24 := \<lparr>n_data = Some 40, n_left = 0, n_right = 0, n_parent = 8, n_color = RBT_BLACK\<rparr>)"

lemma sample_tree_ok: "rbt_ok (\<lambda>d. d) 0 sample_tree 8 (Node (Node Leaf 16 Leaf) 8 (Node Leaf 24 Leaf))"
  by (simp add: rbt_ok_def holds_def balanced_def search_tree_def node_key_def colors_def sample_tree_def sample_nodes_def)

theorem rbt_remove_correct_witness:
  "\<exists>h' root' t'. rbt_remove_node 8 16 0 sample_tree = Some (h', root') \<and> rbt_ok (\<lambda>d. d) 0 h' root' t' \<and> ptrs t' = [8, 24]"
  using rbt_remove_correct [OF sample_tree_ok, of 16] by auto

text \<open>
  (C34) Search and its cost: in a balanced search tree \<^verbatim>\<open>rbt_search_node\<close> returns a node with the key when there is
  one and the sentinel otherwise, and the way from the root to any node has at most twice the binary
  logarithm of the number of nodes plus one.
\<close>

theorem rbt_search_correct:
  assumes "rbt_ok key NIL h root t"
  shows "\<exists>p. rbt_search_node key root k NIL h = Some p \<and>
      (if k \<in> node_key key h ` set (ptrs t) then p \<in> set (ptrs t) \<and> node_key key h p = k else p = NIL) \<and>
      2 ^ height t \<le> (Suc (length (ptrs t)))\<^sup>2"
  using assms search_ok [of NIL h NIL t key k] height_bound [of NIL "colors h" t] by (auto simp: rbt_ok_def holds_def)

theorem rbt_search_correct_witness: "rbt_search_node (\<lambda>d. d) 8 20 0 sample_tree = Some 0"
  using rbt_search_correct [OF sample_tree_ok, of 20] by (auto simp: node_key_def sample_tree_def)

end
