(* ===== verification/Grow_Bitmap.thy ===== *)
theory Grow_Bitmap
  imports Paging_Walk
begin

text \<open>
  The allocator of virtual pages of \<^verbatim>\<open>kernel/libk/grow_bitmap.h\<close>, which slab caches and the kernel heap use: bit maps in
  physical frames, one for 32768 pages, whose number doubles when none has room. A frame is accessed through a
  temporary mapping in the code and directly in the model.
\<close>

section \<open>Operations\<close>

definition GROW_BITMAP_BLOCK_PAGES :: nat where "GROW_BITMAP_BLOCK_PAGES = 32768"
definition GROW_BITMAP_WORDS_PER_BLOCK :: nat where "GROW_BITMAP_WORDS_PER_BLOCK = 512"
definition GROW_BITMAP_ABSOLUTE_MAX_BLOCKS :: nat where "GROW_BITMAP_ABSOLUTE_MAX_BLOCKS = 256"

lemmas gb_consts = GROW_BITMAP_BLOCK_PAGES_def GROW_BITMAP_WORDS_PER_BLOCK_def GROW_BITMAP_ABSOLUTE_MAX_BLOCKS_def

record grow_bitmap =
  base_vaddr :: u64
  gb_page_size :: u64
  blocks_phys :: "nat \<Rightarrow> u64"
  active_blocks :: nat
  max_blocks :: nat

text \<open>The structure with the content of physical frames, word by word, and the physical allocator.\<close>

record grow =
  gw_map :: grow_bitmap
  gw_mem :: "u64 \<Rightarrow> nat \<Rightarrow> u64"
  gw_phys :: phys

definition map_bit :: "(nat \<Rightarrow> u64) \<Rightarrow> nat \<Rightarrow> bool" where
  "map_bit w i \<longleftrightarrow> bit (w (i div 64)) (i mod 64)"

definition set_map_bit :: "nat \<Rightarrow> (nat \<Rightarrow> u64) \<Rightarrow> nat \<Rightarrow> u64" where
  "set_map_bit i w = w(i div 64 := w (i div 64) OR push_bit (i mod 64) 1)"

definition clear_map_bit :: "nat \<Rightarrow> (nat \<Rightarrow> u64) \<Rightarrow> nat \<Rightarrow> u64" where
  "clear_map_bit i w = w(i div 64 := w (i div 64) AND NOT (push_bit (i mod 64) 1))"

definition grow_bitmap_init :: "u64 \<Rightarrow> u64 \<Rightarrow> nat \<Rightarrow> grow \<Rightarrow> grow" where
  "grow_bitmap_init base sz max_capacity_mb s =
     (let mb = (max_capacity_mb + 127) div 128;
          mb1 = (if mb = 0 then 1 else mb);
          mb2 = (if mb1 > GROW_BITMAP_ABSOLUTE_MAX_BLOCKS then GROW_BITMAP_ABSOLUTE_MAX_BLOCKS else mb1)
      in case phys_base_alloc 1 (gw_phys s) of
           (P, a) \<Rightarrow>
             s\<lparr>gw_map := \<lparr>base_vaddr = base, gb_page_size = sz, blocks_phys = (\<lambda>_. 0)(0 := of_nat a), active_blocks = 1, max_blocks = mb2\<rparr>,
               gw_mem := (gw_mem s)(of_nat a := (\<lambda>_. 0)), gw_phys := P\<rparr>)"

text \<open>The bits of one word, then the words of one block; \<open>Inl\<close> is the first page of a run that is long enough.\<close>

fun scan_word :: "(nat \<Rightarrow> u64) \<Rightarrow> nat \<Rightarrow> nat \<Rightarrow> nat \<Rightarrow> nat \<Rightarrow> nat \<Rightarrow> nat + nat \<times> nat" where
  "scan_word w n 0 i consecutive start = Inr (consecutive, start)"
| "scan_word w n (Suc left) i consecutive start =
     (if \<not> map_bit w i then
        let start1 = (if consecutive = 0 then i else start)
        in if Suc consecutive = n then Inl start1 else scan_word w n left (Suc i) (Suc consecutive) start1
      else scan_word w n left (Suc i) 0 start)"

fun scan_block :: "(nat \<Rightarrow> u64) \<Rightarrow> nat \<Rightarrow> nat \<Rightarrow> nat \<Rightarrow> nat \<Rightarrow> nat \<Rightarrow> nat option" where
  "scan_block w n 0 i consecutive start = None"
| "scan_block w n (Suc left) i consecutive start =
     (if w i = 0xFFFFFFFFFFFFFFFF then scan_block w n left (Suc i) 0 start
      else case scan_word w n 64 (i * 64) consecutive start of
             Inl p \<Rightarrow> Some p
           | Inr (c, st) \<Rightarrow> scan_block w n left (Suc i) c st)"

fun scan_blocks :: "nat list \<Rightarrow> nat \<Rightarrow> grow \<Rightarrow> (nat \<times> nat) option" where
  "scan_blocks [] n s = None"
| "scan_blocks (b # bs) n s =
     (case scan_block (gw_mem s (blocks_phys (gw_map s) b)) n GROW_BITMAP_WORDS_PER_BLOCK 0 0 0 of
        Some p \<Rightarrow> Some (b, p)
      | None \<Rightarrow> scan_blocks bs n s)"

text \<open>One turn of the loop that adds blocks; the first new block gives the pages of the request.\<close>

definition add_block :: "nat \<Rightarrow> nat \<Rightarrow> grow \<Rightarrow> grow" where
  "add_block n i s =
     (case phys_base_alloc 1 (gw_phys s) of
        (P, a) \<Rightarrow>
          let new_b = active_blocks (gw_map s)
          in s\<lparr>gw_map := (gw_map s)\<lparr>active_blocks := Suc new_b, blocks_phys := (blocks_phys (gw_map s))(new_b := of_nat a)\<rparr>,
               gw_mem := (gw_mem s)(of_nat a := (if i = 0 then fold set_map_bit [0..<n] (\<lambda>_. 0) else (\<lambda>_. 0))), gw_phys := P\<rparr>)"

definition page_vaddr :: "grow \<Rightarrow> nat \<Rightarrow> u64" where
  "page_vaddr s p = base_vaddr (gw_map s) + of_nat p * gb_page_size (gw_map s)"

definition grow_bitmap_alloc_pages :: "nat \<Rightarrow> grow \<Rightarrow> grow \<times> u64" where
  "grow_bitmap_alloc_pages page_count s =
     (if page_count = 0 \<or> page_count > GROW_BITMAP_BLOCK_PAGES then (s, 0)
      else case scan_blocks [0..<active_blocks (gw_map s)] page_count s of
             Some (b, start_bit) \<Rightarrow>
               let f = blocks_phys (gw_map s) b
               in (s\<lparr>gw_mem := (gw_mem s)(f := fold set_map_bit [start_bit..<start_bit + page_count] (gw_mem s f))\<rparr>,
                   page_vaddr s (b * GROW_BITMAP_BLOCK_PAGES + start_bit))
           | None \<Rightarrow>
               let act = active_blocks (gw_map s); mx = max_blocks (gw_map s)
               in if act < mx then
                    let blocks_to_add = (if act + act > mx then mx - act else act)
                    in (fold (add_block page_count) [0..<blocks_to_add] s, page_vaddr s (act * GROW_BITMAP_BLOCK_PAGES))
                  else (s, 0))"

definition grow_bitmap_alloc :: "grow \<Rightarrow> grow \<times> u64" where
  "grow_bitmap_alloc s = grow_bitmap_alloc_pages 1 s"

text \<open>A range that leaves the bit map of its block is written outside of the mapped frame: the call faults.\<close>

definition grow_bitmap_free_pages :: "u64 \<Rightarrow> nat \<Rightarrow> grow \<Rightarrow> grow option" where
  "grow_bitmap_free_pages vaddr page_count s =
     (let gb = gw_map s in
      if vaddr < base_vaddr gb then Some s
      else let total_page_idx = unat ((vaddr - base_vaddr gb) div gb_page_size gb);
               block_idx = total_page_idx div GROW_BITMAP_BLOCK_PAGES;
               bit_idx = total_page_idx mod GROW_BITMAP_BLOCK_PAGES
           in if block_idx \<ge> active_blocks gb \<or> blocks_phys gb block_idx = 0 then Some s
              else if page_count > 0 \<and> bit_idx + page_count > GROW_BITMAP_BLOCK_PAGES then None
              else let f = blocks_phys gb block_idx
                   in Some (s\<lparr>gw_mem := (gw_mem s)(f := fold clear_map_bit [bit_idx..<bit_idx + page_count] (gw_mem s f))\<rparr>))"

definition grow_bitmap_free :: "u64 \<Rightarrow> grow \<Rightarrow> grow option" where
  "grow_bitmap_free vaddr s = grow_bitmap_free_pages vaddr 1 s"

section \<open>The search of a block\<close>

lemma map_bit_set: "map_bit (set_map_bit i w) j \<longleftrightarrow> map_bit w j \<or> j = i"
proof -
  have "j = i \<longleftrightarrow> j div 64 = i div 64 \<and> j mod 64 = i mod 64" by (metis div_mult_mod_eq)
  then show ?thesis by (auto simp: map_bit_def set_map_bit_def bit_or_iff push_bit_of_1 bit_exp_iff)
qed

lemma map_bit_clear: "map_bit (clear_map_bit i w) j \<longleftrightarrow> map_bit w j \<and> j \<noteq> i"
proof -
  have "j = i \<longleftrightarrow> j div 64 = i div 64 \<and> j mod 64 = i mod 64" by (metis div_mult_mod_eq)
  then show ?thesis by (auto simp: map_bit_def clear_map_bit_def bit_and_iff bit_not_iff push_bit_of_1 bit_exp_iff)
qed

lemma fold_map_bits:
  "map_bit (fold set_map_bit [p..<p + n] w) j \<longleftrightarrow> map_bit w j \<or> p \<le> j \<and> j < p + n"
  "map_bit (fold clear_map_bit [p..<p + n] w) j \<longleftrightarrow> map_bit w j \<and> \<not> (p \<le> j \<and> j < p + n)"
  by (induction n) (auto simp: map_bit_set map_bit_clear less_Suc_eq)

lemma scan_word_inv:
  assumes "scan_inv (map_bit w) tot n i c st" and "i + left \<le> tot"
  shows "case scan_word w n left i c st of
      Inl p \<Rightarrow> first_fit (map_bit w) tot n = Some p
    | Inr (c1, st1) \<Rightarrow> scan_inv (map_bit w) tot n (i + left) c1 st1"
  using assms
proof (induction left arbitrary: i c st)
  case (Suc left)
  have "i < tot" using Suc.prems(2) by simp
  note sf = scan_free [OF Suc.prems(1)] and su = scan_used [OF Suc.prems(1)] and fd = scan_found [OF Suc.prems(1) _ _ this]
  have e: "i + Suc left = Suc i + left" by simp
  show ?case unfolding e using Suc.IH [OF sf] Suc.IH [OF su] fd Suc.prems(2) by (auto simp: Let_def)
qed simp

lemma full_word: "w i = 0xFFFFFFFFFFFFFFFF \<Longrightarrow> i * 64 \<le> j \<Longrightarrow> j < i * 64 + 64 \<Longrightarrow> map_bit w j"
proof -
  assume w: "w i = 0xFFFFFFFFFFFFFFFF" and j: "i * 64 \<le> j" "j < i * 64 + 64"
  have "w i = - 1" using w by simp
  moreover have "j div 64 = i" using j by (simp add: div_nat_eqI)
  ultimately show ?thesis by (simp add: map_bit_def)
qed

lemma scan_block_first_fit:
  assumes "scan_inv (map_bit w) (64 * m) n (i * 64) c st" and "i + left = m"
  shows "scan_block w n left i c st = first_fit (map_bit w) (64 * m) n"
  using assms
proof (induction left arbitrary: i c st)
  case 0
  then show ?case using scan_end [OF 0(1)] by simp
next
  case (Suc left)
  show ?case
  proof (cases "w i = 0xFFFFFFFFFFFFFFFF")
    case True
    have "scan_inv (map_bit w) (64 * m) n (i * 64 + 64) 0 st" by (rule scan_skip [OF Suc.prems(1)]) (use full_word [of w i] True in auto)
    then show ?thesis using Suc.IH [of "Suc i" 0 st] Suc.prems(2) True by (simp add: add.commute)
  next
    case False
    have "case scan_word w n 64 (i * 64) c st of Inl p \<Rightarrow> first_fit (map_bit w) (64 * m) n = Some p
      | Inr (c1, st1) \<Rightarrow> scan_inv (map_bit w) (64 * m) n (i * 64 + 64) c1 st1"
      by (rule scan_word_inv [OF Suc.prems(1)]) (use Suc.prems(2) in auto)
    then show ?thesis using Suc.IH [of "Suc i"] Suc.prems(2) False by (auto simp: add.commute split: sum.splits)
  qed
qed

lemma scan_block_eq:
  assumes "0 < n"
  shows "scan_block w n GROW_BITMAP_WORDS_PER_BLOCK 0 0 0 = first_fit (map_bit w) GROW_BITMAP_BLOCK_PAGES n"
  using scan_block_first_fit [of w 512 n 0 0 0 512] scan_start [OF assms] by (simp add: gb_consts)


section \<open>The invariant\<close>

text \<open>
  The bit maps of the active blocks lie in different frames that belong to the allocator, memory suffices for the blocks that
  may still be added, and the pages fit into the address range.
\<close>

definition gb_inv :: "grow \<Rightarrow> bool" where
  "gb_inv s \<longleftrightarrow> phys_ok (gw_phys s) \<and> 0 < active_blocks (gw_map s) \<and> active_blocks (gw_map s) \<le> max_blocks (gw_map s) \<and>
     gb_page_size (gw_map s) = 4096 \<and> base_vaddr (gw_map s) \<noteq> 0 \<and>
     unat (base_vaddr (gw_map s)) + max_blocks (gw_map s) * GROW_BITMAP_BLOCK_PAGES * 4096 \<le> 2 ^ 64 \<and>
     inj_on (blocks_phys (gw_map s)) {..<active_blocks (gw_map s)} \<and>
     (\<forall>b < active_blocks (gw_map s). blocks_phys (gw_map s) b \<noteq> 0 \<and> in_use (gw_phys s) (blocks_phys (gw_map s) b)) \<and>
     max_blocks (gw_map s) \<le> active_blocks (gw_map s) + free_blocks (gw_phys s)"

definition gb_taken :: "grow \<Rightarrow> nat \<Rightarrow> bool" where
  "gb_taken s j \<longleftrightarrow> j div GROW_BITMAP_BLOCK_PAGES < active_blocks (gw_map s) \<and>
     map_bit (gw_mem s (blocks_phys (gw_map s) (j div GROW_BITMAP_BLOCK_PAGES))) (j mod GROW_BITMAP_BLOCK_PAGES)"

lemma phys_one:
  assumes "phys_ok P" and "0 < free_blocks P"
  obtains P' a where "phys_base_alloc 1 P = (P', a)" "phys_ok P'" "\<not> in_use P (of_nat a)" "of_nat a \<noteq> (0 :: u64)"
    "\<And>u. in_use P' u \<longleftrightarrow> in_use P u \<or> u = of_nat a" "Suc (free_blocks P') = free_blocks P"
proof -
  let ?s = "\<lparr>pg_mem = (\<lambda>_ _. 0), pg_phys = P, pg_kernel = 0\<rparr>"
  have ok: "phys_ok (pg_phys ?s)" "0 < free_blocks (pg_phys ?s)" using assms by simp_all
  obtain P1 a where a: "phys_base_alloc 1 P = (P1, a)" by (cases "phys_base_alloc 1 P")
  show thesis
  proof (rule new_table_ok [OF ok, of "\<lambda>_. 0"])
    fix P' t
    assume t: "new_table (\<lambda>_. 0) ?s = (?s\<lparr>pg_phys := P', pg_mem := (pg_mem ?s)(t := (\<lambda>_. 0))\<rparr>, t)" "phys_ok P'" "\<not> in_use (pg_phys ?s) t"
      "\<And>u. in_use P' u \<longleftrightarrow> in_use (pg_phys ?s) u \<or> u = t" "Suc (free_blocks P') = free_blocks (pg_phys ?s)"
    have e: "P' = P1" "t = of_nat a" using t(1) unfolding new_table_def paging.simps a by auto
    have "in_use P 0" using assms(1) by (simp add: in_use_def frame_def phys_ok_def phys_inv_def)
    then have "t \<noteq> 0" using t(3) by auto
    then show thesis using that [OF a] t(2-5) e by simp
  qed
qed

lemma add_block_ok:
  assumes inv: "gb_inv s" and lt: "active_blocks (gw_map s) < max_blocks (gw_map s)"
  obtains f where "gb_inv (add_block n i s)" "gw_map (add_block n i s) =
      (gw_map s)\<lparr>active_blocks := Suc (active_blocks (gw_map s)), blocks_phys := (blocks_phys (gw_map s))(active_blocks (gw_map s) := f)\<rparr>"
    "gw_mem (add_block n i s) = (gw_mem s)(f := (if i = 0 then fold set_map_bit [0..<n] (\<lambda>_. 0) else (\<lambda>_. 0)))"
    "\<And>b. b < active_blocks (gw_map s) \<Longrightarrow> blocks_phys (gw_map s) b \<noteq> f"
proof -
  have P: "phys_ok (gw_phys s)" "0 < free_blocks (gw_phys s)" using inv lt by (auto simp: gb_inv_def)
  obtain P' a where a: "phys_base_alloc 1 (gw_phys s) = (P', a)" "phys_ok P'" "\<not> in_use (gw_phys s) (of_nat a)" "of_nat a \<noteq> (0 :: u64)"
    "\<And>u. in_use P' u \<longleftrightarrow> in_use (gw_phys s) u \<or> u = of_nat a" "Suc (free_blocks P') = free_blocks (gw_phys s)"
    using phys_one [OF P] by blast
  let ?f = "of_nat a :: u64"
  have new: "blocks_phys (gw_map s) b \<noteq> ?f" if "b < active_blocks (gw_map s)" for b using that inv a(3) by (auto simp: gb_inv_def)
  have e: "add_block n i s = s\<lparr>gw_map := (gw_map s)\<lparr>active_blocks := Suc (active_blocks (gw_map s)),
      blocks_phys := (blocks_phys (gw_map s))(active_blocks (gw_map s) := ?f)\<rparr>,
    gw_mem := (gw_mem s)(?f := (if i = 0 then fold set_map_bit [0..<n] (\<lambda>_. 0) else (\<lambda>_. 0))), gw_phys := P'\<rparr>"
    unfolding add_block_def a(1) by (simp add: Let_def)
  have "inj_on ((blocks_phys (gw_map s))(active_blocks (gw_map s) := ?f)) {..<Suc (active_blocks (gw_map s))}"
  proof -
    have "\<forall>b < active_blocks (gw_map s). blocks_phys (gw_map s) b \<noteq> ?f \<and> ?f \<noteq> blocks_phys (gw_map s) b" using new by metis
    then show ?thesis using inv by (auto simp: gb_inv_def inj_on_def less_Suc_eq)
  qed
  then have "gb_inv (add_block n i s)" using inv lt a unfolding e gb_inv_def by (auto simp: less_Suc_eq)
  then show thesis using that [of ?f] e new by simp
qed

text \<open>The blocks that a growing map gets.\<close>

definition grown :: "nat \<Rightarrow> nat \<Rightarrow> grow \<Rightarrow> grow \<Rightarrow> bool" where
  "grown n k s s' \<longleftrightarrow> gb_inv s' \<and> active_blocks (gw_map s') = active_blocks (gw_map s) + k \<and> max_blocks (gw_map s') = max_blocks (gw_map s) \<and>
     base_vaddr (gw_map s') = base_vaddr (gw_map s) \<and>
     (\<forall>b < active_blocks (gw_map s). blocks_phys (gw_map s') b = blocks_phys (gw_map s) b \<and> gw_mem s' (blocks_phys (gw_map s') b) = gw_mem s (blocks_phys (gw_map s) b)) \<and>
     (\<forall>b. active_blocks (gw_map s) \<le> b \<longrightarrow> b < active_blocks (gw_map s) + k \<longrightarrow>
       gw_mem s' (blocks_phys (gw_map s') b) = (if b = active_blocks (gw_map s) then fold set_map_bit [0..<n] (\<lambda>_. 0) else (\<lambda>_. 0)))"

lemma add_blocks_ok:
  assumes inv: "gb_inv s" and "active_blocks (gw_map s) + k \<le> max_blocks (gw_map s)"
  shows "grown n k s (fold (add_block n) [0..<k] s)"
  using assms(2)
proof (induction k)
  case 0
  then show ?case using inv by (simp add: grown_def)
next
  case (Suc k)
  let ?s = "fold (add_block n) [0..<k] s"
  have g: "grown n k s ?s" using Suc by simp
  then have i: "gb_inv ?s" "active_blocks (gw_map ?s) < max_blocks (gw_map ?s)" "active_blocks (gw_map ?s) = active_blocks (gw_map s) + k"
    using Suc.prems by (auto simp: grown_def)
  obtain f where f: "gb_inv (add_block n k ?s)" "gw_map (add_block n k ?s) =
      (gw_map ?s)\<lparr>active_blocks := Suc (active_blocks (gw_map ?s)), blocks_phys := (blocks_phys (gw_map ?s))(active_blocks (gw_map ?s) := f)\<rparr>"
    "gw_mem (add_block n k ?s) = (gw_mem ?s)(f := (if k = 0 then fold set_map_bit [0..<n] (\<lambda>_. 0) else (\<lambda>_. 0)))"
    "\<And>b. b < active_blocks (gw_map ?s) \<Longrightarrow> blocks_phys (gw_map ?s) b \<noteq> f" using add_block_ok [OF i(1,2)] by blast
  have new: "\<forall>b < active_blocks (gw_map s) + k. blocks_phys (gw_map ?s) b \<noteq> f" using f(4) i(3) by simp
  have "grown n (Suc k) s (add_block n k ?s)"
    using g f(1-3) new i(3) unfolding grown_def by (auto simp: less_Suc_eq)
  then show ?case by simp
qed

lemma grown_taken:
  assumes inv: "gb_inv s" and g: "grown n k s s'" and n: "n \<le> GROW_BITMAP_BLOCK_PAGES" and k: "0 < k"
  shows "gb_taken s' j \<longleftrightarrow> gb_taken s j \<or> active_blocks (gw_map s) * GROW_BITMAP_BLOCK_PAGES \<le> j \<and> j < active_blocks (gw_map s) * GROW_BITMAP_BLOCK_PAGES + n"
proof -
  let ?B = "GROW_BITMAP_BLOCK_PAGES" and ?a = "active_blocks (gw_map s)"
  have B: "0 < ?B" by (simp add: gb_consts)
  have j: "j = (j div ?B) * ?B + j mod ?B" "j mod ?B < ?B" using B by simp_all
  have fm: "map_bit (fold set_map_bit [0..<n] (\<lambda>_. 0)) i \<longleftrightarrow> i < n" for i using fold_map_bits(1) [of 0 n "\<lambda>_. 0" i] by (simp add: map_bit_def)
  consider "j div ?B < ?a" | "j div ?B = ?a" | "?a < j div ?B" by linarith
  then show ?thesis
  proof cases
    case 1
    then have "Suc (j div ?B) * ?B \<le> ?a * ?B" by (intro mult_le_mono1) simp
    then have "j < ?a * ?B" using j unfolding mult_Suc by linarith
    then show ?thesis using 1 g by (auto simp: gb_taken_def grown_def)
  next
    case 2
    then have "gb_taken s' j \<longleftrightarrow> j mod ?B < n" using g k fm by (auto simp: gb_taken_def grown_def)
    moreover have "j = ?a * ?B + j mod ?B" using 2 j(1) by simp
    then have "j < ?a * ?B + n \<longleftrightarrow> j mod ?B < n" "?a * ?B \<le> j" by linarith+
    ultimately show ?thesis using 2 by (simp add: gb_taken_def)
  next
    case 3
    then have "Suc ?a * ?B \<le> j div ?B * ?B" by (intro mult_le_mono1) simp
    then have "\<not> j < ?a * ?B + n" using j n unfolding mult_Suc by linarith
    moreover have "\<not> gb_taken s' j" using 3 g by (auto simp: gb_taken_def grown_def map_bit_def)
    ultimately show ?thesis using 3 by (simp add: gb_taken_def)
  qed
qed


section \<open>Allocation\<close>

lemma scan_blocks_spec:
  assumes "0 < n"
  shows "scan_blocks bs n s = Some (b, p) \<Longrightarrow> b \<in> set bs \<and> first_fit (map_bit (gw_mem s (blocks_phys (gw_map s) b))) GROW_BITMAP_BLOCK_PAGES n = Some p"
    and "scan_blocks bs n s = None \<Longrightarrow> \<forall>b \<in> set bs. first_fit (map_bit (gw_mem s (blocks_phys (gw_map s) b))) GROW_BITMAP_BLOCK_PAGES n = None"
  by (induction bs) (auto simp: scan_block_eq [OF assms] split: option.splits)

text \<open>Setting the bits of a run in one block.\<close>

definition mark :: "nat \<Rightarrow> nat \<Rightarrow> nat \<Rightarrow> grow \<Rightarrow> grow" where
  "mark b p n s = s\<lparr>gw_mem := (gw_mem s)(blocks_phys (gw_map s) b := fold set_map_bit [p..<p + n] (gw_mem s (blocks_phys (gw_map s) b)))\<rparr>"

definition unmark :: "nat \<Rightarrow> nat \<Rightarrow> nat \<Rightarrow> grow \<Rightarrow> grow" where
  "unmark b p n s = s\<lparr>gw_mem := (gw_mem s)(blocks_phys (gw_map s) b := fold clear_map_bit [p..<p + n] (gw_mem s (blocks_phys (gw_map s) b)))\<rparr>"

lemma block_range:
  assumes "p + n \<le> B" and "0 < (B :: nat)"
  shows "j div B = b \<and> p \<le> j mod B \<and> j mod B < p + n \<longleftrightarrow> b * B + p \<le> j \<and> j < b * B + p + n"
proof
  assume r: "b * B + p \<le> j \<and> j < b * B + p + n"
  then have "b * B \<le> j" "j < Suc b * B" using assms(1) by auto
  then have "j div B = b" by (intro div_nat_eqI) (auto simp: mult.commute)
  then have "j = b * B + j mod B" by (metis div_mult_mod_eq)
  then have "p \<le> j mod B \<and> j mod B < p + n" using r by linarith
  then show "j div B = b \<and> p \<le> j mod B \<and> j mod B < p + n" using \<open>j div B = b\<close> by blast
next
  assume l: "j div B = b \<and> p \<le> j mod B \<and> j mod B < p + n"
  have "j = b * B + j mod B" using l by (metis div_mult_mod_eq)
  then show "b * B + p \<le> j \<and> j < b * B + p + n" using l by linarith
qed

lemma mark_ok:
  assumes inv: "gb_inv s" and b: "b < active_blocks (gw_map s)" and p: "p + n \<le> GROW_BITMAP_BLOCK_PAGES"
  shows "gb_inv (mark b p n s)" "gb_inv (unmark b p n s)"
    "gb_taken (mark b p n s) j \<longleftrightarrow> gb_taken s j \<or> b * GROW_BITMAP_BLOCK_PAGES + p \<le> j \<and> j < b * GROW_BITMAP_BLOCK_PAGES + p + n"
    "gb_taken (unmark b p n s) j \<longleftrightarrow> gb_taken s j \<and> \<not> (b * GROW_BITMAP_BLOCK_PAGES + p \<le> j \<and> j < b * GROW_BITMAP_BLOCK_PAGES + p + n)"
proof -
  show "gb_inv (mark b p n s)" "gb_inv (unmark b p n s)" using inv by (simp_all add: gb_inv_def mark_def unmark_def)
  have inj: "blocks_phys (gw_map s) c = blocks_phys (gw_map s) b \<longleftrightarrow> c = b" if "c < active_blocks (gw_map s)" for c
    using inv b that by (auto simp: gb_inv_def inj_on_def)
  have B: "0 < GROW_BITMAP_BLOCK_PAGES" by (simp add: gb_consts)
  show "gb_taken (mark b p n s) j \<longleftrightarrow> gb_taken s j \<or> b * GROW_BITMAP_BLOCK_PAGES + p \<le> j \<and> j < b * GROW_BITMAP_BLOCK_PAGES + p + n"
    "gb_taken (unmark b p n s) j \<longleftrightarrow> gb_taken s j \<and> \<not> (b * GROW_BITMAP_BLOCK_PAGES + p \<le> j \<and> j < b * GROW_BITMAP_BLOCK_PAGES + p + n)"
    unfolding block_range [OF p B, symmetric] using b inj by (auto simp: gb_taken_def mark_def unmark_def fold_map_bits)
qed

lemma page_vaddr_inj:
  assumes inv: "gb_inv s" and p: "p < max_blocks (gw_map s) * GROW_BITMAP_BLOCK_PAGES"
  shows "page_vaddr s p \<noteq> 0" "unat ((page_vaddr s p - base_vaddr (gw_map s)) div gb_page_size (gw_map s)) = p" "base_vaddr (gw_map s) \<le> page_vaddr s p"
proof -
  have i: "unat (base_vaddr (gw_map s)) + max_blocks (gw_map s) * GROW_BITMAP_BLOCK_PAGES * 4096 \<le> 2 ^ 64" "base_vaddr (gw_map s) \<noteq> 0" "gb_page_size (gw_map s) = 4096"
    using inv by (auto simp: gb_inv_def)
  have "Suc p * 4096 \<le> max_blocks (gw_map s) * GROW_BITMAP_BLOCK_PAGES * 4096" using p by (intro mult_le_mono1) simp
  then have le: "unat (base_vaddr (gw_map s)) + p * 4096 < 2 ^ 64" using i(1) by simp
  have p64: "p * 4096 < 2 ^ 64" using le by simp
  have up: "unat (of_nat p * 4096 :: u64) = p * 4096" using p64 by (simp add: unat_word_ariths unat_of_nat)
  have u: "unat (page_vaddr s p) = unat (base_vaddr (gw_map s)) + p * 4096" unfolding page_vaddr_def i(3) unat_word_ariths(1) up using le by simp
  have "0 < unat (base_vaddr (gw_map s))" using i(2) by (simp add: unat_gt_0)
  then show "page_vaddr s p \<noteq> 0" using u by auto
  show "base_vaddr (gw_map s) \<le> page_vaddr s p" using u by (simp add: word_le_nat_alt)
  have "page_vaddr s p - base_vaddr (gw_map s) = of_nat p * 4096" by (simp add: page_vaddr_def i(3))
  then show "unat ((page_vaddr s p - base_vaddr (gw_map s)) div gb_page_size (gw_map s)) = p" using up by (simp add: i(3) unat_div)
qed

text \<open>The allocator by page numbers.\<close>

definition vpages :: "nat \<Rightarrow> grow \<Rightarrow> grow \<times> nat option" where
  "vpages n s = (case grow_bitmap_alloc_pages n s of (s1, a) \<Rightarrow>
     (s1, if a = 0 then None else Some (unat ((a - base_vaddr (gw_map s)) div gb_page_size (gw_map s)))))"

definition vrelease :: "nat \<Rightarrow> nat \<Rightarrow> grow \<Rightarrow> grow" where
  "vrelease p n s = (case grow_bitmap_free_pages (page_vaddr s p) n s of None \<Rightarrow> s | Some s1 \<Rightarrow> s1)"

definition vowned :: "grow \<Rightarrow> nat \<Rightarrow> nat \<Rightarrow> bool" where
  "vowned s p n \<longleftrightarrow> p div GROW_BITMAP_BLOCK_PAGES < active_blocks (gw_map s) \<and> p mod GROW_BITMAP_BLOCK_PAGES + n \<le> GROW_BITMAP_BLOCK_PAGES"

lemma vpages_cases:
  assumes inv: "gb_inv s"
  obtains (bad) "n = 0 \<or> GROW_BITMAP_BLOCK_PAGES < n" "vpages n s = (s, None)"
  | (hit) b p where "0 < n" "b < active_blocks (gw_map s)" "first_fit (map_bit (gw_mem s (blocks_phys (gw_map s) b))) GROW_BITMAP_BLOCK_PAGES n = Some p"
      "vpages n s = (mark b p n s, Some (b * GROW_BITMAP_BLOCK_PAGES + p))"
  | (grow) k s' where "0 < n" "n \<le> GROW_BITMAP_BLOCK_PAGES" "0 < k" "grown n k s s'"
      "\<forall>b < active_blocks (gw_map s). first_fit (map_bit (gw_mem s (blocks_phys (gw_map s) b))) GROW_BITMAP_BLOCK_PAGES n = None"
      "vpages n s = (s', Some (active_blocks (gw_map s) * GROW_BITMAP_BLOCK_PAGES))"
  | (full) "0 < n" "\<forall>b < max_blocks (gw_map s). first_fit (map_bit (gw_mem s (blocks_phys (gw_map s) b))) GROW_BITMAP_BLOCK_PAGES n = None" "vpages n s = (s, None)"
proof -
  let ?B = "GROW_BITMAP_BLOCK_PAGES" and ?a = "active_blocks (gw_map s)" and ?m = "max_blocks (gw_map s)"
  have B: "0 < ?B" by (simp add: gb_consts)
  have am: "?a \<le> ?m" "0 < ?a" using inv by (auto simp: gb_inv_def)
  show thesis
  proof (cases "n = 0 \<or> ?B < n")
    case True
    then show thesis by (intro bad) (auto simp: vpages_def grow_bitmap_alloc_pages_def)
  next
    case False
    then have n: "0 < n" "n \<le> ?B" by auto
    note sp = scan_blocks_spec [OF n(1), of "[0..<?a]" s]
    show thesis
    proof (cases "scan_blocks [0..<?a] n s")
      case (Some bp)
      then obtain b p where bp: "scan_blocks [0..<?a] n s = Some (b, p)" by (cases bp) auto
      have h: "b < ?a" "first_fit (map_bit (gw_mem s (blocks_phys (gw_map s) b))) ?B n = Some p" using sp(1) [OF bp] by auto
      have "p + n \<le> ?B" using first_fit_SomeD [OF h(2)] by (simp add: free_run_iff)
      then have "b * ?B + p < Suc b * ?B" using n by simp
      moreover have "Suc b * ?B \<le> ?m * ?B" using h(1) am by (intro mult_le_mono1) simp
      ultimately have "b * ?B + p < ?m * ?B" by (rule less_le_trans)
      note v = page_vaddr_inj [OF inv this]
      show thesis by (rule hit [OF n(1) h]) (use False bp v in \<open>simp add: vpages_def grow_bitmap_alloc_pages_def mark_def Let_def\<close>)
    next
      case None
      have no: "\<forall>b < ?a. first_fit (map_bit (gw_mem s (blocks_phys (gw_map s) b))) ?B n = None" using sp(2) [OF None] by auto
      show thesis
      proof (cases "?a < ?m")
        case True
        define k where "k = (if ?a + ?a > ?m then ?m - ?a else ?a)"
        have k: "0 < k" "?a + k \<le> ?m" using True am by (auto simp: k_def)
        have "Suc ?a * ?B \<le> ?m * ?B" using True by (intro mult_le_mono1) simp
        then have "?a * ?B < ?m * ?B" using B unfolding mult_Suc by linarith
        note v = page_vaddr_inj [OF inv this]
        show thesis by (rule grow [OF n k(1) add_blocks_ok [OF inv k(2)] no]) (use False None True v in \<open>simp add: vpages_def grow_bitmap_alloc_pages_def Let_def k_def\<close>)
      next
        case False
        then have "?a = ?m" using am by simp
        then show thesis using full [OF n(1)] no None n False by (simp add: vpages_def grow_bitmap_alloc_pages_def Let_def)
      qed
    qed
  qed
qed


lemma vrelease_eq:
  assumes inv: "gb_inv s" and o: "vowned s p n"
  shows "vrelease p n s = unmark (p div GROW_BITMAP_BLOCK_PAGES) (p mod GROW_BITMAP_BLOCK_PAGES) n s"
proof -
  let ?B = "GROW_BITMAP_BLOCK_PAGES"
  have b: "p div ?B < active_blocks (gw_map s)" "p mod ?B + n \<le> ?B" "blocks_phys (gw_map s) (p div ?B) \<noteq> 0" "active_blocks (gw_map s) \<le> max_blocks (gw_map s)"
    using o inv by (auto simp: vowned_def gb_inv_def)
  have "Suc (p div ?B) * ?B \<le> max_blocks (gw_map s) * ?B" using b by (intro mult_le_mono1) simp
  moreover have "p < Suc (p div ?B) * ?B" using dividend_less_div_times [of ?B p] by (simp add: gb_consts)
  ultimately have "p < max_blocks (gw_map s) * ?B" by simp
  note v = page_vaddr_inj [OF inv this]
  show ?thesis using b v by (simp add: vrelease_def grow_bitmap_free_pages_def Let_def unmark_def not_less)
qed

lemma div_block: "p + n \<le> B \<Longrightarrow> 0 < n \<Longrightarrow> (b * B + p) div B = b \<and> (b * B + p) mod B = p" for b B :: nat
  by simp

interpretation vp: page_allocator gb_inv gb_taken vowned vpages vrelease
proof (unfold_locales, goal_cases)
  case (1 s n s')
  then show ?case by (cases rule: vpages_cases [of s n]) auto
next
  case (2 s n s' p)
  show ?case
  proof (cases rule: vpages_cases [OF 2(1), of n])
    case (2 b q)
    note r = first_fit_SomeD [OF 2(3)]
    have q: "q + n \<le> GROW_BITMAP_BLOCK_PAGES" "\<And>j. q \<le> j \<Longrightarrow> j < q + n \<Longrightarrow> \<not> map_bit (gw_mem s (blocks_phys (gw_map s) b)) j" using r by (auto simp: free_run_iff)
    have e: "s' = mark b q n s" "p = b * GROW_BITMAP_BLOCK_PAGES + q" using 2(4) \<open>vpages n s = (s', Some p)\<close> by auto
    note m = mark_ok [OF \<open>gb_inv s\<close> 2(2) q(1)] and d = div_block [OF q(1) 2(1), of b]
    have "\<not> gb_taken s j" if "p \<le> j" "j < p + n" for j
      using block_range [OF q(1), of j b] that q(2) unfolding e by (auto simp: gb_taken_def gb_consts)
    moreover have "vowned s' p n" using d 2(2) q(1) unfolding e by (simp add: vowned_def mark_def)
    ultimately show ?thesis using m(1,3) 2(1) unfolding e by blast
  next
    case (3 k t)
    have e: "s' = t" "p = active_blocks (gw_map s) * GROW_BITMAP_BLOCK_PAGES" using 3(6) \<open>vpages n s = (s', Some p)\<close> by auto
    have "\<not> gb_taken s j" if "p \<le> j" for j
      using that unfolding e gb_taken_def by (simp add: gb_consts div_less_iff_less_mult)
    moreover have "vowned s' p n" using 3(2,3,4) unfolding e by (simp add: vowned_def grown_def gb_consts)
    moreover have "gb_inv s'" using 3(4) e by (simp add: grown_def)
    ultimately show ?thesis using grown_taken [OF \<open>gb_inv s\<close> 3(4,2,3)] 3(1) unfolding e by blast
  qed (use 2(2) in auto)
next
  case (3 s n s' r q m)
  then show ?case by (cases rule: vpages_cases [OF 3(1), of n]) (auto simp: vowned_def mark_def grown_def)
next
  case (4 s p n)
  let ?B = "GROW_BITMAP_BLOCK_PAGES"
  have o: "p div ?B < active_blocks (gw_map s)" "p mod ?B + n \<le> ?B" using 4(2) by (auto simp: vowned_def)
  note m = mark_ok [OF 4(1) o]
  have "p div ?B * ?B + p mod ?B = p" by simp
  then show ?case using m(2,4) unfolding vrelease_eq [OF 4] by (auto simp: vowned_def unmark_def)
qed

section \<open>Properties\<close>

lemma grow_init_ok:
  assumes P: "phys_ok (gw_phys s)" and n: "(mb + 127) div 128 \<le> free_blocks (gw_phys s)" "0 < free_blocks (gw_phys s)"
    and b: "base \<noteq> 0" "unat base + max 1 (min 256 ((mb + 127) div 128)) * 134217728 \<le> 2 ^ 64"
  shows "gb_inv (grow_bitmap_init base 4096 mb s)" "gb_taken (grow_bitmap_init base 4096 mb s) j \<longleftrightarrow> False"
    "base_vaddr (gw_map (grow_bitmap_init base 4096 mb s)) = base"
proof -
  obtain P' a where a: "phys_base_alloc 1 (gw_phys s) = (P', a)" "phys_ok P'" "of_nat a \<noteq> (0 :: u64)"
    "\<And>u. in_use P' u \<longleftrightarrow> in_use (gw_phys s) u \<or> u = of_nat a" "Suc (free_blocks P') = free_blocks (gw_phys s)" using phys_one [OF P n(2)] by metis
  define mb2 where "mb2 = max 1 (min 256 ((mb + 127) div 128))"
  have mb2: "mb2 \<le> Suc (free_blocks P')" "1 \<le> mb2" using n a(5) by (auto simp: mb2_def)
  have e: "grow_bitmap_init base 4096 mb s =
    s\<lparr>gw_map := \<lparr>base_vaddr = base, gb_page_size = 4096, blocks_phys = (\<lambda>_. 0)(0 := of_nat a), active_blocks = 1, max_blocks = mb2\<rparr>,
      gw_mem := (gw_mem s)(of_nat a := (\<lambda>_. 0)), gw_phys := P'\<rparr>"
    unfolding grow_bitmap_init_def a(1) Let_def by (auto simp: mb2_def gb_consts)
  show "gb_inv (grow_bitmap_init base 4096 mb s)" unfolding e using a(2-5) mb2 b(1) b(2) [folded mb2_def] by (simp add: gb_inv_def inj_on_def gb_consts mult.assoc)
  show "gb_taken (grow_bitmap_init base 4096 mb s) j \<longleftrightarrow> False" unfolding e by (simp add: gb_taken_def map_bit_def)
  show "base_vaddr (gw_map (grow_bitmap_init base 4096 mb s)) = base" unfolding e by simp
qed

text \<open>
  (C20) Virtual pages: after \<^verbatim>\<open>grow_bitmap_init\<close> with enough physical memory for the bit maps, whatever sequence of
  \<^verbatim>\<open>grow_bitmap_alloc_pages\<close> and \<^verbatim>\<open>grow_bitmap_free_pages\<close> calls follows, growing included, the page ranges handed out and not
  given back are pairwise disjoint, and each lies within one block.
\<close>

theorem vaddr_ranges_apart:
  assumes "phys_ok (gw_phys s)" and "(mb + 127) div 128 \<le> free_blocks (gw_phys s)" and "0 < free_blocks (gw_phys s)"
    and "base \<noteq> 0" and "unat base + max 1 (min 256 ((mb + 127) div 128)) * 134217728 \<le> 2 ^ 64"
    and "run_pages vpages vrelease ops (grow_bitmap_init base 4096 mb s) [] = (s', live)"
  shows "gb_inv s' \<and> sorted_wrt apart live \<and> (\<forall>(p, n) \<in> set live. p mod 32768 + n \<le> 32768 \<and> (\<forall>j. p \<le> j \<longrightarrow> j < p + n \<longrightarrow> gb_taken s' j))"
proof -
  have "vp.live_ok {} (grow_bitmap_init base 4096 mb s) []" unfolding vp.live_ok_def using grow_init_ok(1) [OF assms(1-5)] by simp
  then have "vp.live_ok {} s' live" using assms(6) by (rule vp.run_pages_ok)
  then show ?thesis unfolding vp.live_ok_def by (auto simp: vowned_def gb_consts)
qed


definition sample_grow :: "phys \<Rightarrow> grow" where
  "sample_grow P = \<lparr>gw_map = \<lparr>base_vaddr = 0, gb_page_size = 0, blocks_phys = (\<lambda>_. 0), active_blocks = 0, max_blocks = 0\<rparr>, gw_mem = (\<lambda>_ _. 0), gw_phys = P\<rparr>"

definition sample_blocks :: phys where
  "sample_blocks = \<lparr>bitmap_base = 1 # replicate 7 0, higher_base_length = 65536, usable_total = 0\<rparr>"

lemma sample_blocks_ok: "phys_ok sample_blocks" "free_blocks sample_blocks = 15"
proof -
  have t: "total_blocks sample_blocks = 16" by (simp add: sample_blocks_def total_blocks_def BLOCK_SIZE_def)
  have b: "bit_used (bitmap_base sample_blocks) i \<longleftrightarrow> i = 0" if "i < 16" for i
  proof -
    have "(1 # replicate 7 0 :: u8 list) ! (i div 8) = (if i < 8 then 1 else 0)" using that by (auto simp: nth_Cons' not_less)
    then show ?thesis by (auto simp: bit_used_def sample_blocks_def bit_1_iff)
  qed
  show "phys_ok sample_blocks" using b [of 0] t by (simp add: phys_ok_def phys_inv_def covers_def sample_blocks_def)
  have "{i. i < 16 \<and> \<not> bit_used (bitmap_base sample_blocks) i} = {1..<16}" using b by auto
  then show "free_blocks sample_blocks = 15" by (simp add: free_blocks_card t)
qed

theorem vaddr_ranges_apart_witness:
  "\<exists>s live. run_pages vpages vrelease [Alloc 3, Alloc 32768, Release 0, Alloc 5] (grow_bitmap_init 0xFFFF828000000000 4096 256 (sample_grow sample_blocks)) [] = (s, live) \<and>
    gb_inv s \<and> sorted_wrt apart live"
proof -
  obtain s live where r: "run_pages vpages vrelease [Alloc 3, Alloc 32768, Release 0, Alloc 5]
      (grow_bitmap_init 0xFFFF828000000000 4096 256 (sample_grow sample_blocks)) [] = (s, live)" by (rule prod.exhaust)
  then show ?thesis
    using vaddr_ranges_apart [of "sample_grow sample_blocks" 256 "0xFFFF828000000000", OF _ _ _ _ _ r] sample_blocks_ok by (simp add: sample_grow_def)
qed

end
