(* ===== verification/Vma.thy ===== *)
theory Vma
  imports Rbt_Props Paging
begin

text \<open>
  The address spaces of \<^verbatim>\<open>kernel/memory/vm_manager.c\<close>: the areas of a space in a red-black tree ordered by their
  start address, the zones from which free virtual addresses are taken, and the walks over the areas that map, clone
  and remove them. The objects of the four slab caches are the cells of explicit stores; of a cache the model
  has the list of the objects it hands out next. Each call runs under the lock of its space. \<open>None\<close> is a call that
  does not return or writes through a null pointer.
\<close>

section \<open>Objects\<close>

definition REGION_SIZE :: u64 where "REGION_SIZE = 0x400000000"
definition USER_MMAP_BASE :: u64 where "USER_MMAP_BASE = 0x100000000"
definition VMA_REGION_A :: u64 where "VMA_REGION_A = 0xffffff8000000000"
definition VMA_REGION_B :: u64 where "VMA_REGION_B = VMA_REGION_A + REGION_SIZE"
definition VMA_REGION_C :: u64 where "VMA_REGION_C = VMA_REGION_B + REGION_SIZE"
definition VMA_REGION_KMODULE :: u64 where "VMA_REGION_KMODULE = VMA_REGION_C + REGION_SIZE"
definition VMA_REGION_PROCESS :: u64 where "VMA_REGION_PROCESS = 0x400000"

record virtual_memory =
  start_address :: u64
  end_address :: u64
  phys_address :: u64
  vm_length :: u64
  vm_flags :: u64
  vm_core :: int

text \<open>The nodes of a zone in the order of their \<^verbatim>\<open>next\<close> pointers, each with its address.\<close>

record virtual_memory_tree_node =
  zn_self :: ptr
  zn_start :: u64
  zn_end :: u64

record virtual_memory_tree =
  zt_active :: "virtual_memory_tree_node list"
  zt_unused :: "virtual_memory_tree_node list"

record virtual_memory_page =
  vma_tree_zone_process :: virtual_memory_tree
  vma_tree_zone_a :: virtual_memory_tree
  vp_tree :: ptr
  vma_tree_zone_b :: virtual_memory_tree
  vma_tree_zone_c :: virtual_memory_tree
  vma_tree_zone_kmodule :: virtual_memory_tree
  vma_tree_zone_user_mmap :: virtual_memory_tree

record vm =
  v_nodes :: rbt_heap
  v_vmas :: "ptr \<Rightarrow> virtual_memory"
  v_pages :: "ptr \<rightharpoonup> virtual_memory_page"
  rbt_node_cache :: "ptr list"
  vma_cache :: "ptr list"
  vma_tree_zone_cache :: "ptr list"
  vma_page :: "ptr list"
  VMA_RBT_NIL :: ptr
  kernel_vmm_page :: ptr

text \<open>\<^verbatim>\<open>FIELD_ACCESS(data, start_address)\<close>, the key of the tree.\<close>

definition vma_key :: "vm \<Rightarrow> ptr \<Rightarrow> u64" where
  "vma_key s d = start_address (v_vmas s d)"

definition set_page :: "ptr \<Rightarrow> virtual_memory_page \<Rightarrow> vm \<Rightarrow> vm" where
  "set_page p pg s = s\<lparr>v_pages := (v_pages s)(p \<mapsto> pg)\<rparr>"

definition empty_tree :: virtual_memory_tree where
  "empty_tree = \<lparr>zt_active = [], zt_unused = []\<rparr>"

definition create_vmm_page :: "vm \<Rightarrow> (vm \<times> ptr) option" where
  "create_vmm_page s =
     (case vma_page s of
        [] \<Rightarrow> None
      | p # ps \<Rightarrow>
          Some (set_page p \<lparr>vma_tree_zone_process = empty_tree, vma_tree_zone_a = empty_tree, vp_tree = VMA_RBT_NIL s,
                  vma_tree_zone_b = empty_tree, vma_tree_zone_c = empty_tree, vma_tree_zone_kmodule = empty_tree,
                  vma_tree_zone_user_mmap = empty_tree\<rparr> (s\<lparr>vma_page := ps\<rparr>), p))"

text \<open>The part of \<^verbatim>\<open>INIT(vma)\<close> after the caches exist.\<close>

definition vma_init :: "vm \<Rightarrow> vm option" where
  "vma_init s =
     (case rbt_node_cache s of
        [] \<Rightarrow> None
      | nil # ns \<Rightarrow>
          case create_vmm_page (s\<lparr>rbt_node_cache := ns, VMA_RBT_NIL := nil,
                 v_nodes := (v_nodes s)(nil := \<lparr>n_data = None, n_left = nil, n_right = nil, n_parent = nil, n_color = RBT_BLACK\<rparr>)\<rparr>) of
            None \<Rightarrow> None
          | Some (s1, p) \<Rightarrow> Some (s1\<lparr>kernel_vmm_page := p\<rparr>))"

section \<open>Areas\<close>

definition vma_register_locked :: "ptr option \<Rightarrow> u64 \<Rightarrow> u64 \<Rightarrow> u64 \<Rightarrow> u64 \<Rightarrow> vm \<Rightarrow> vm option" where
  "vma_register_locked page phys virt_addr sz flags s =
     (case page of
        None \<Rightarrow> Some s
      | Some p \<Rightarrow>
          case v_pages s p of
            None \<Rightarrow> None
          | Some pg \<Rightarrow>
              case rbt_search_node (vma_key s) (vp_tree pg) virt_addr (VMA_RBT_NIL s) (v_nodes s) of
                None \<Rightarrow> None
              | Some existing \<Rightarrow>
                  if existing \<noteq> VMA_RBT_NIL s then Some s
                  else case (vma_cache s, rbt_node_cache s) of
                         (node # vs, n # ns) \<Rightarrow>
                           let s1 = s\<lparr>vma_cache := vs, rbt_node_cache := ns,
                                      v_vmas := (v_vmas s)(node := \<lparr>start_address = virt_addr, end_address = virt_addr + sz,
                                        phys_address = phys, vm_length = sz, vm_flags = flags, vm_core = 0\<rparr>)\<rparr>
                           in (case rbt_insert_node (vma_key s1) (vp_tree pg) n node (VMA_RBT_NIL s1) (v_nodes s1) of
                                 None \<Rightarrow> None
                               | Some (h, root) \<Rightarrow> Some (set_page p (pg\<lparr>vp_tree := root\<rparr>) (s1\<lparr>v_nodes := h\<rparr>)))
                       | _ \<Rightarrow> None)"

definition vma_register :: "ptr option \<Rightarrow> u64 \<Rightarrow> u64 \<Rightarrow> u64 \<Rightarrow> u64 \<Rightarrow> vm \<Rightarrow> vm option" where
  "vma_register page phys virt_addr sz flags s =
     (case page of None \<Rightarrow> Some s | Some p \<Rightarrow> vma_register_locked page phys virt_addr sz flags s)"

text \<open>The area that starts at the address, if there is one.\<close>

definition vma_find :: "ptr \<Rightarrow> u64 \<Rightarrow> vm \<Rightarrow> ptr option option" where
  "vma_find p virt_addr s =
     (case v_pages s p of
        None \<Rightarrow> None
      | Some pg \<Rightarrow>
          case rbt_search_node (vma_key s) (vp_tree pg) virt_addr (VMA_RBT_NIL s) (v_nodes s) of
            None \<Rightarrow> None
          | Some n \<Rightarrow> Some (if n \<noteq> VMA_RBT_NIL s then n_data (v_nodes s n) else None))"

text \<open>The search for the area that contains an address.\<close>

partial_function (option) find_area :: "u64 \<Rightarrow> vm \<Rightarrow> ptr \<Rightarrow> ptr option option" where
  "find_area addr s cur =
     (if cur = 0 \<or> cur = VMA_RBT_NIL s then Some None
      else case n_data (v_nodes s cur) of
             None \<Rightarrow> Some None
           | Some vma \<Rightarrow>
               if start_address (v_vmas s vma) \<le> addr \<and> addr < end_address (v_vmas s vma) then Some (Some vma)
               else if addr < start_address (v_vmas s vma) then find_area addr s (n_left (v_nodes s cur))
               else find_area addr s (n_right (v_nodes s cur)))"

definition vma_find_contains :: "ptr option \<Rightarrow> u64 \<Rightarrow> vm \<Rightarrow> ptr option option" where
  "vma_find_contains page virt_addr s =
     (case page of
        None \<Rightarrow> Some None
      | Some p \<Rightarrow> case v_pages s p of None \<Rightarrow> None | Some pg \<Rightarrow> find_area virt_addr s (vp_tree pg))"

definition vma_unregister :: "ptr \<Rightarrow> u64 \<Rightarrow> vm \<Rightarrow> vm option" where
  "vma_unregister p virt_addr s =
     (case v_pages s p of
        None \<Rightarrow> None
      | Some pg \<Rightarrow>
          case rbt_search_node (vma_key s) (vp_tree pg) virt_addr (VMA_RBT_NIL s) (v_nodes s) of
            None \<Rightarrow> None
          | Some n \<Rightarrow>
              if n = VMA_RBT_NIL s then Some s
              else case rbt_remove_node (vp_tree pg) n (VMA_RBT_NIL s) (v_nodes s) of
                     None \<Rightarrow> None
                   | Some (h, root) \<Rightarrow>
                       Some (set_page p (pg\<lparr>vp_tree := root\<rparr>) (s\<lparr>v_nodes := h, rbt_node_cache := n # rbt_node_cache s,
                         vma_cache := (case n_data (v_nodes s n) of None \<Rightarrow> vma_cache s | Some vma \<Rightarrow> vma # vma_cache s)\<rparr>)))"

section \<open>Free addresses\<close>

definition zone_of :: "u64 \<Rightarrow> virtual_memory_page \<Rightarrow> virtual_memory_tree option" where
  "zone_of region pg =
     (if region = VMA_REGION_A then Some (vma_tree_zone_a pg)
      else if region = VMA_REGION_B then Some (vma_tree_zone_b pg)
      else if region = VMA_REGION_C then Some (vma_tree_zone_c pg)
      else if region = VMA_REGION_KMODULE then Some (vma_tree_zone_kmodule pg)
      else if region = VMA_REGION_PROCESS then Some (vma_tree_zone_process pg)
      else if region = USER_MMAP_BASE then Some (vma_tree_zone_user_mmap pg)
      else None)"

definition push_zone :: "virtual_memory_tree_node \<Rightarrow> virtual_memory_tree \<Rightarrow> virtual_memory_tree" where
  "push_zone node z = z\<lparr>zt_active := node # zt_active z\<rparr>"

definition vma_tree_add_locked :: "ptr \<Rightarrow> u64 \<Rightarrow> u64 \<Rightarrow> u64 \<Rightarrow> vm \<Rightarrow> vm option" where
  "vma_tree_add_locked p region start_addr end_addr s =
     (case (vma_tree_zone_cache s, v_pages s p) of
        (z # zs, Some pg) \<Rightarrow>
          let node = \<lparr>zn_self = z, zn_start = start_addr, zn_end = end_addr\<rparr>; s1 = s\<lparr>vma_tree_zone_cache := zs\<rparr>
          in Some (if region = VMA_REGION_A then set_page p (pg\<lparr>vma_tree_zone_a := push_zone node (vma_tree_zone_a pg)\<rparr>) s1
                   else if region = VMA_REGION_B then set_page p (pg\<lparr>vma_tree_zone_b := push_zone node (vma_tree_zone_b pg)\<rparr>) s1
                   else if region = VMA_REGION_C then set_page p (pg\<lparr>vma_tree_zone_c := push_zone node (vma_tree_zone_c pg)\<rparr>) s1
                   else if region = VMA_REGION_KMODULE then set_page p (pg\<lparr>vma_tree_zone_kmodule := push_zone node (vma_tree_zone_kmodule pg)\<rparr>) s1
                   else if region = VMA_REGION_PROCESS then set_page p (pg\<lparr>vma_tree_zone_process := push_zone node (vma_tree_zone_process pg)\<rparr>) s1
                   else if region = USER_MMAP_BASE then set_page p (pg\<lparr>vma_tree_zone_user_mmap := push_zone node (vma_tree_zone_user_mmap pg)\<rparr>) s1
                   else s1\<lparr>vma_tree_zone_cache := z # zs\<rparr>)
      | _ \<Rightarrow> None)"

text \<open>
  The loop over the pages of a candidate range: the end of the first area that contains the start of one of them.
\<close>

fun collision :: "nat \<Rightarrow> u64 \<Rightarrow> vm \<Rightarrow> ptr \<Rightarrow> u64 option option" where
  "collision 0 addr s root = Some None"
| "collision (Suc n) addr s root =
     (case find_area addr s root of
        None \<Rightarrow> None
      | Some (Some v) \<Rightarrow> Some (Some (end_address (v_vmas s v)))
      | Some None \<Rightarrow> collision n (addr + of_nat BLOCK_SIZE) s root)"

partial_function (option) free_range :: "u64 \<Rightarrow> vm \<Rightarrow> ptr \<Rightarrow> u64 \<Rightarrow> u64 option" where
  "free_range sz s root result =
     (case collision (unat sz) result s root of
        None \<Rightarrow> None
      | Some None \<Rightarrow> Some result
      | Some (Some e) \<Rightarrow> free_range sz s root e)"

text \<open>Where the search starts.\<close>

definition zone_next :: "u64 \<Rightarrow> virtual_memory_tree \<Rightarrow> u64" where
  "zone_next region z = (case zt_active z of [] \<Rightarrow> region | cur # _ \<Rightarrow> zn_end cur)"

definition vma_lookup_free_vaddr :: "ptr option \<Rightarrow> u64 \<Rightarrow> u64 \<Rightarrow> vm \<Rightarrow> (vm \<times> u64) option" where
  "vma_lookup_free_vaddr page region sz s =
     (case page of
        None \<Rightarrow> Some (s, 0)
      | Some p \<Rightarrow>
          case v_pages s p of
            None \<Rightarrow> None
          | Some pg \<Rightarrow>
              case zone_of region pg of
                None \<Rightarrow> Some (s, 0)
              | Some z \<Rightarrow>
                  case free_range sz s (vp_tree pg) (zone_next region z) of
                    None \<Rightarrow> None
                  | Some result \<Rightarrow> map_option (\<lambda>s1. (s1, result)) (vma_tree_add_locked p region result (result + of_nat BLOCK_SIZE * sz) s))"

section \<open>Walks over the areas\<close>

definition area_pages :: "virtual_memory \<Rightarrow> u64" where
  "area_pages vma =
     (let pages = (end_address vma - start_address vma + 4095) div of_nat BLOCK_SIZE in if pages = 0 then 1 else pages)"

partial_function (option) vma_mmap_recursive :: "vm \<Rightarrow> u64 \<Rightarrow> ptr \<Rightarrow> paging \<Rightarrow> paging option" where
  "vma_mmap_recursive s pml4 node g =
     (if node = VMA_RBT_NIL s \<or> node = 0 then Some g
      else Option.bind (vma_mmap_recursive s pml4 (n_left (v_nodes s node)) g)
             (\<lambda>g1. Option.bind
                (case n_data (v_nodes s node) of
                   None \<Rightarrow> Some g1
                 | Some d \<Rightarrow> let vma = v_vmas s d
                            in paging_multiple_mmap pml4 (start_address vma) (phys_address vma) (area_pages vma) (vm_flags vma) g1)
                (\<lambda>g2. vma_mmap_recursive s pml4 (n_right (v_nodes s node)) g2)))"

definition vma_mmap :: "ptr \<Rightarrow> u64 \<Rightarrow> vm \<Rightarrow> paging \<Rightarrow> paging option" where
  "vma_mmap p pml4 s g = (case v_pages s p of None \<Rightarrow> None | Some pg \<Rightarrow> vma_mmap_recursive s pml4 (vp_tree pg) g)"

text \<open>The copy has its own nodes, one for each of the source, in the same order.\<close>

fun clone_nodes :: "virtual_memory_tree_node list \<Rightarrow> ptr list \<Rightarrow> (virtual_memory_tree_node list \<times> ptr list) option" where
  "clone_nodes [] pool = Some ([], pool)"
| "clone_nodes (n # ns) [] = None"
| "clone_nodes (n # ns) (z # pool) = map_option (apfst ((#) (n\<lparr>zn_self := z\<rparr>))) (clone_nodes ns pool)"

definition vma_tree_clone :: "virtual_memory_tree \<Rightarrow> vm \<Rightarrow> (vm \<times> virtual_memory_tree) option" where
  "vma_tree_clone src s =
     (case clone_nodes (zt_active src) (vma_tree_zone_cache s) of
        None \<Rightarrow> None
      | Some (ns, pool) \<Rightarrow> Some (s\<lparr>vma_tree_zone_cache := pool\<rparr>, \<lparr>zt_active = ns, zt_unused = []\<rparr>))"

text \<open>One page of an area of the parent: copy on write on both sides.\<close>

definition clone_page :: "u64 \<Rightarrow> u64 \<Rightarrow> u64 \<Rightarrow> paging \<Rightarrow> paging" where
  "clone_page child_pml4 parent_pml4 virt g =
     (if has (paging_get_entry parent_pml4 virt g) 1 then
        let g1 = paging_make_cow parent_pml4 virt g;
            phys = vaddr_to_paddr parent_pml4 virt g1;
            new_entry = paging_get_entry parent_pml4 virt g1;
            child_flags = PAGE_PRESENT OR PAGE_USER OR (if has new_entry PAGE_COW then PAGE_COW else 0)
              OR (if has new_entry PAGE_NO_EXECUTE then PAGE_NO_EXECUTE else 0)
              OR (if has new_entry PAGE_WRITABLE then PAGE_WRITABLE else 0)
        in paging_mmap child_pml4 virt phys child_flags g1
      else g)"

definition clone_area :: "ptr \<Rightarrow> u64 \<Rightarrow> u64 \<Rightarrow> ptr \<Rightarrow> vm \<times> paging \<Rightarrow> (vm \<times> paging) option" where
  "clone_area child child_pml4 parent_pml4 d sg =
     (case sg of (s, g) \<Rightarrow>
        let vma = v_vmas s d; pages = area_pages vma
        in if start_address vma < end_address vma \<and> pages < 1000000 then
             case (if start_address vma < VMA_REGION_A
                   then Some (fold (\<lambda>i. clone_page child_pml4 parent_pml4 (start_address vma + of_nat i * of_nat BLOCK_SIZE)) [0..<unat pages] g)
                   else paging_multiple_mmap child_pml4 (start_address vma) (phys_address vma) pages (vm_flags vma) g) of
               None \<Rightarrow> None
             | Some g1 \<Rightarrow>
                 map_option (\<lambda>s1. (s1, g1))
                   (vma_register_locked (Some child) (phys_address vma) (start_address vma) (end_address vma - start_address vma) (vm_flags vma) s)
           else Some sg)"

partial_function (option) vma_clone_cow_recursive :: "ptr \<Rightarrow> u64 \<Rightarrow> u64 \<Rightarrow> ptr \<Rightarrow> vm \<times> paging \<Rightarrow> (vm \<times> paging) option" where
  "vma_clone_cow_recursive child child_pml4 parent_pml4 node sg =
     (if node = VMA_RBT_NIL (fst sg) \<or> node = 0 then Some sg
      else Option.bind (vma_clone_cow_recursive child child_pml4 parent_pml4 (n_left (v_nodes (fst sg) node)) sg)
             (\<lambda>sg1. Option.bind
                (case n_data (v_nodes (fst sg1) node) of None \<Rightarrow> Some sg1 | Some d \<Rightarrow> clone_area child child_pml4 parent_pml4 d sg1)
                (\<lambda>sg2. vma_clone_cow_recursive child child_pml4 parent_pml4 (n_right (v_nodes (fst sg2) node)) sg2)))"

definition clone_zones :: "virtual_memory_page \<Rightarrow> virtual_memory_page \<Rightarrow> vm \<Rightarrow> (vm \<times> virtual_memory_page) option" where
  "clone_zones parent child s =
     Option.bind (vma_tree_clone (vma_tree_zone_process parent) s) (\<lambda>(s1, zp).
     Option.bind (vma_tree_clone (vma_tree_zone_a parent) s1) (\<lambda>(s2, za).
     Option.bind (vma_tree_clone (vma_tree_zone_b parent) s2) (\<lambda>(s3, zb).
     Option.bind (vma_tree_clone (vma_tree_zone_c parent) s3) (\<lambda>(s4, zc).
     Option.bind (vma_tree_clone (vma_tree_zone_kmodule parent) s4) (\<lambda>(s5, zk).
     Some (s5, child\<lparr>vma_tree_zone_process := zp, vma_tree_zone_a := za, vma_tree_zone_b := zb, vma_tree_zone_c := zc,
       vma_tree_zone_kmodule := zk\<rparr>))))))"

text \<open>The result is the return value; the recursion never returns an error.\<close>

definition vma_clone_cow :: "ptr \<Rightarrow> ptr \<Rightarrow> u64 \<Rightarrow> u64 \<Rightarrow> vm \<times> paging \<Rightarrow> ((vm \<times> paging) \<times> int) option" where
  "vma_clone_cow parent child child_pml4 parent_pml4 sg =
     (if parent = child then Some (sg, - 1)
      else case (v_pages (fst sg) parent, v_pages (fst sg) child) of
             (Some pp, Some pc) \<Rightarrow>
               Option.bind (clone_zones pp pc (fst sg)) (\<lambda>(s1, pc1).
                 map_option (\<lambda>r. (r, 0)) (vma_clone_cow_recursive child child_pml4 parent_pml4 (vp_tree pp) (set_page child pc1 s1, snd sg)))
           | _ \<Rightarrow> None)"

text \<open>The release of all areas: \<open>pml4\<close> is \<open>None\<close> when there is no page table to clean.\<close>

definition release_area :: "u64 option \<Rightarrow> ptr \<Rightarrow> vm \<times> paging \<Rightarrow> (vm \<times> paging) option" where
  "release_area pml4 node sg =
     (case sg of (s, g) \<Rightarrow>
        case n_data (v_nodes s node) of
          None \<Rightarrow> Some (s\<lparr>rbt_node_cache := node # rbt_node_cache s\<rparr>, g)
        | Some d \<Rightarrow>
            map_option (\<lambda>g1. (s\<lparr>vma_cache := d # vma_cache s, rbt_node_cache := node # rbt_node_cache s\<rparr>, g1))
              (case pml4 of None \<Rightarrow> Some g | Some t \<Rightarrow> paging_multiple_unmap t (start_address (v_vmas s d)) (area_pages (v_vmas s d)) g))"

partial_function (option) vma_unmap_all_recursive :: "u64 option \<Rightarrow> ptr \<Rightarrow> vm \<times> paging \<Rightarrow> (vm \<times> paging) option" where
  "vma_unmap_all_recursive pml4 node sg =
     (if node = VMA_RBT_NIL (fst sg) \<or> node = 0 then Some sg
      else Option.bind (vma_unmap_all_recursive pml4 (n_left (v_nodes (fst sg) node)) sg)
             (\<lambda>sg1. Option.bind (vma_unmap_all_recursive pml4 (n_right (v_nodes (fst sg1) node)) sg1)
                (release_area pml4 node)))"

definition vma_tree_zone_free :: "virtual_memory_tree \<Rightarrow> vm \<Rightarrow> vm" where
  "vma_tree_zone_free z s =
     s\<lparr>vma_tree_zone_cache := fold (\<lambda>n pool. zn_self n # pool) (zt_unused z) (fold (\<lambda>n pool. zn_self n # pool) (zt_active z) (vma_tree_zone_cache s))\<rparr>"

definition vma_unmap_all :: "ptr \<Rightarrow> u64 option \<Rightarrow> vm \<times> paging \<Rightarrow> (vm \<times> paging) option" where
  "vma_unmap_all p pml4 sg =
     (case v_pages (fst sg) p of
        None \<Rightarrow> None
      | Some pg \<Rightarrow>
          Option.bind (vma_unmap_all_recursive pml4 (vp_tree pg) sg) (\<lambda>(s, g).
            let s1 = vma_tree_zone_free (vma_tree_zone_kmodule pg) (vma_tree_zone_free (vma_tree_zone_c pg) (vma_tree_zone_free (vma_tree_zone_b pg)
                       (vma_tree_zone_free (vma_tree_zone_a pg) (vma_tree_zone_free (vma_tree_zone_process pg) s))))
            in Some (set_page p (pg\<lparr>vp_tree := VMA_RBT_NIL s, vma_tree_zone_process := empty_tree, vma_tree_zone_a := empty_tree,
                 vma_tree_zone_b := empty_tree, vma_tree_zone_c := empty_tree, vma_tree_zone_kmodule := empty_tree\<rparr>) s1, g)))"

end
