(* ===== verification/Vma_Props.thy ===== *)
theory Vma_Props
  imports Vma Paging_Props
begin

text \<open>
  The areas of an address space: the tree of areas implements a finite map from start addresses, kept separate for each space,
  the search for the area that contains an address is right, and free addresses are free.
\<close>

section \<open>The invariant\<close>

lemma rbt_ok_frame:
  assumes "rbt_ok key NIL h root t" and "\<And>q. q \<in> set (ptrs t) \<Longrightarrow> h' q = h q" and "colors h' NIL = RBT_BLACK"
    and "\<And>q. q \<in> set (ptrs t) \<Longrightarrow> node_key key' h q = node_key key h q"
  shows "rbt_ok key' NIL h' root t"
proof -
  have o: "repr NIL h NIL t" "root = rootp NIL t" "distinct (ptrs t)" "invc NIL (colors h) t" "invh (colors h) t" "colors h (rootp NIL t) = RBT_BLACK"
    "colors h NIL = RBT_BLACK" "search_tree key h t" using assms(1) by (auto simp: rbt_ok_def holds_def balanced_def)
  have c: "colors h' q = colors h q" if "q \<in> insert NIL (set (ptrs t))" for q using that assms(2,3) o(7) by (auto simp: colors_def)
  have "invc NIL (colors h') t" "invh (colors h') t" using o(4,5) c invc_cong [of NIL t "colors h'" "colors h"] color_cong(2) [of t "colors h'" "colors h"] by auto
  moreover have "colors h' (rootp NIL t) = RBT_BLACK" using o(6) c by (cases t) auto
  moreover have "repr NIL h' NIL t" by (rule repr_frame [OF o(1)]) (simp add: same_links_def assms(2))
  moreover have "map (node_key key' h') (ptrs t) = map (node_key key h) (ptrs t)" using assms(2,4) by (auto simp: node_key_def)
  then have "search_tree key' h' t" using o(8) assms(2) unfolding search_tree_def by (metis (no_types))
  ultimately show ?thesis using o assms(3) by (auto simp: rbt_ok_def holds_def balanced_def)
qed

definition node_area :: "vm \<Rightarrow> ptr \<Rightarrow> ptr" where
  "node_area s q = the (n_data (v_nodes s q))"

text \<open>The objects of the areas of a tree, and the map they make.\<close>

definition area_objs :: "vm \<Rightarrow> ptree \<Rightarrow> ptr list" where
  "area_objs s t = map (node_area s) (ptrs t)"

definition areas :: "vm \<Rightarrow> ptree \<Rightarrow> u64 \<rightharpoonup> virtual_memory" where
  "areas s t = map_of (map (\<lambda>d. (vma_key s d, v_vmas s d)) (area_objs s t))"

definition space_ok :: "vm \<Rightarrow> ptr \<Rightarrow> ptree \<Rightarrow> bool" where
  "space_ok s p t \<longleftrightarrow> (\<exists>pg. v_pages s p = Some pg \<and> rbt_ok (vma_key s) (VMA_RBT_NIL s) (v_nodes s) (vp_tree pg) t) \<and>
     distinct (area_objs s t) \<and> distinct (map (vma_key s) (area_objs s t)) \<and>
     0 \<notin> set (ptrs t) \<and> set (ptrs t) \<inter> set (rbt_node_cache s) = {} \<and> set (area_objs s t) \<inter> set (vma_cache s) = {}"

text \<open>
  The spaces of the system, each with the tree its nodes form: they share no object, neither with each other nor with
  the caches.
\<close>

definition vm_ok :: "vm \<Rightarrow> (ptr \<rightharpoonup> ptree) \<Rightarrow> bool" where
  "vm_ok s T \<longleftrightarrow> dom T = dom (v_pages s) \<and> (\<forall>p t. T p = Some t \<longrightarrow> space_ok s p t) \<and>
     (\<forall>p q t u. p \<noteq> q \<and> T p = Some t \<and> T q = Some u \<longrightarrow> set (ptrs t) \<inter> set (ptrs u) = {} \<and> set (area_objs s t) \<inter> set (area_objs s u) = {}) \<and>
     colors (v_nodes s) (VMA_RBT_NIL s) = RBT_BLACK \<and> VMA_RBT_NIL s \<notin> set (rbt_node_cache s) \<and> 0 \<notin> set (rbt_node_cache s) \<and>
     distinct (rbt_node_cache s) \<and> distinct (vma_cache s)"

lemma vm_okD:
  assumes "vm_ok s T"
  shows "dom T = dom (v_pages s)" "T p = Some t \<Longrightarrow> space_ok s p t"
    "p \<noteq> q \<Longrightarrow> T p = Some t \<Longrightarrow> T q = Some u \<Longrightarrow> set (ptrs t) \<inter> set (ptrs u) = {} \<and> set (area_objs s t) \<inter> set (area_objs s u) = {}"
    "colors (v_nodes s) (VMA_RBT_NIL s) = RBT_BLACK" "VMA_RBT_NIL s \<notin> set (rbt_node_cache s)" "0 \<notin> set (rbt_node_cache s)"
    "distinct (rbt_node_cache s)" "distinct (vma_cache s)"
  using assms unfolding vm_ok_def by blast+

lemma node_keys:
  assumes "rbt_ok (vma_key s) NIL (v_nodes s) root t" and "q \<in> set (ptrs t)"
  shows "node_key (vma_key s) (v_nodes s) q = vma_key s (node_area s q)" "n_data (v_nodes s q) = Some (node_area s q)"
  using assms by (auto simp: rbt_ok_def search_tree_def node_key_def node_area_def)

lemma same_areas:
  assumes "v_nodes s' = v_nodes s" and "v_vmas s' = v_vmas s"
  shows "vma_key s' = vma_key s" "node_area s' = node_area s" "area_objs s' = area_objs s" "areas s' = areas s"
  using assms unfolding vma_key_def node_area_def area_objs_def areas_def by simp_all

lemma areas_Some:
  assumes "distinct (map (vma_key s) (area_objs s t))"
  shows "areas s t a = Some v \<longleftrightarrow> (\<exists>d \<in> set (area_objs s t). vma_key s d = a \<and> v_vmas s d = v)"
  unfolding areas_def using assms by (subst map_of_eq_Some_iff) (auto simp: o_def)

lemma areas_None: "areas s t a = None \<longleftrightarrow> a \<notin> vma_key s ` set (area_objs s t)"
  unfolding areas_def by (simp add: map_of_eq_None_iff image_image)

text \<open>Searching a space for the start of an area.\<close>

lemma space_search:
  assumes ok: "space_ok s p t" and pg: "v_pages s p = Some pg"
  obtains (hit) q where "rbt_search_node (vma_key s) (vp_tree pg) k (VMA_RBT_NIL s) (v_nodes s) = Some q" "q \<in> set (ptrs t)" "q \<noteq> VMA_RBT_NIL s"
      "vma_key s (node_area s q) = k" "n_data (v_nodes s q) = Some (node_area s q)" "areas s t k = Some (v_vmas s (node_area s q))"
  | (miss) "rbt_search_node (vma_key s) (vp_tree pg) k (VMA_RBT_NIL s) (v_nodes s) = Some (VMA_RBT_NIL s)" "areas s t k = None"
proof -
  have r: "rbt_ok (vma_key s) (VMA_RBT_NIL s) (v_nodes s) (vp_tree pg) t" and d: "distinct (map (vma_key s) (area_objs s t))"
    using ok pg by (auto simp: space_ok_def)
  have rr: "repr (VMA_RBT_NIL s) (v_nodes s) (VMA_RBT_NIL s) t" "search_tree (vma_key s) (v_nodes s) t" "vp_tree pg = rootp (VMA_RBT_NIL s) t"
    using r by (auto simp: rbt_ok_def holds_def)
  obtain q where q: "rbt_search_node (vma_key s) (vp_tree pg) k (VMA_RBT_NIL s) (v_nodes s) = Some q"
    "if k \<in> node_key (vma_key s) (v_nodes s) ` set (ptrs t) then q \<in> set (ptrs t) \<and> node_key (vma_key s) (v_nodes s) q = k else q = VMA_RBT_NIL s"
    using search_ok [OF rr(1,2), of k] rr(3) by metis
  have im: "node_key (vma_key s) (v_nodes s) ` set (ptrs t) = vma_key s ` set (area_objs s t)"
    unfolding area_objs_def set_map image_image by (rule image_cong [OF refl]) (rule node_keys [OF r])
  show thesis
  proof (cases "k \<in> vma_key s ` set (area_objs s t)")
    case True
    then have h: "q \<in> set (ptrs t)" "node_key (vma_key s) (v_nodes s) q = k" using q(2) im by auto
    note nk = node_keys [OF r h(1)]
    have "node_area s q \<in> set (area_objs s t)" using h(1) by (simp add: area_objs_def)
    moreover have "vma_key s (node_area s q) = k" using nk(1) h(2) by simp
    ultimately have "areas s t k = Some (v_vmas s (node_area s q))" using areas_Some [OF d] by blast
    then show thesis using hit [OF q(1) h(1) _ \<open>vma_key s (node_area s q) = k\<close> nk(2)] repr_not_NIL [OF rr(1)] h(1) by blast
  next
    case False
    then show thesis using miss q im areas_None [of s t k] by auto
  qed
qed

section \<open>Registering\<close>

definition new_area :: "u64 \<Rightarrow> u64 \<Rightarrow> u64 \<Rightarrow> u64 \<Rightarrow> virtual_memory" where
  "new_area phys virt sz flags = \<lparr>start_address = virt, end_address = virt + sz, phys_address = phys, vm_length = sz, vm_flags = flags, vm_core = 0\<rparr>"

text \<open>A change of one space that leaves the others alone.\<close>

lemma space_frame:
  assumes "space_ok s q u" and "v_pages s' q = v_pages s q" and "VMA_RBT_NIL s' = VMA_RBT_NIL s"
    and "\<And>n. n \<in> set (ptrs u) \<Longrightarrow> v_nodes s' n = v_nodes s n" and "colors (v_nodes s') (VMA_RBT_NIL s) = RBT_BLACK"
    and "\<And>d. d \<in> set (area_objs s u) \<Longrightarrow> v_vmas s' d = v_vmas s d"
    and "set (ptrs u) \<inter> set (rbt_node_cache s') = {}" and "set (area_objs s u) \<inter> set (vma_cache s') = {}"
  shows "space_ok s' q u" and "areas s' u = areas s u" and "area_objs s' u = area_objs s u"
proof -
  obtain pg where pg: "v_pages s q = Some pg" "rbt_ok (vma_key s) (VMA_RBT_NIL s) (v_nodes s) (vp_tree pg) u" using assms(1) by (auto simp: space_ok_def)
  show o: "area_objs s' u = area_objs s u" using assms(4) by (simp add: area_objs_def node_area_def)
  have k: "vma_key s' d = vma_key s d" if "d \<in> set (area_objs s u)" for d using assms(6) that by (simp add: vma_key_def)
  have "rbt_ok (vma_key s') (VMA_RBT_NIL s) (v_nodes s') (vp_tree pg) u"
  proof (rule rbt_ok_frame [OF pg(2)])
    fix n assume "n \<in> set (ptrs u)"
    then show "node_key (vma_key s') (v_nodes s) n = node_key (vma_key s) (v_nodes s) n"
      using node_keys [OF pg(2)] k [of "node_area s n"] by (simp add: area_objs_def node_key_def)
  qed (use assms in auto)
  moreover have "map (vma_key s') (area_objs s u) = map (vma_key s) (area_objs s u)" by (rule map_cong [OF refl k])
  ultimately show "space_ok s' q u" using assms(1,2,3,7,8) pg(1) unfolding space_ok_def o by (metis (no_types))
  show "areas s' u = areas s u" unfolding areas_def o using k assms(6) by (auto intro: arg_cong [of _ _ map_of])
qed


lemma vm_update:
  assumes ok: "vm_ok s T" and t: "T p = Some t" and pages: "v_pages s' = (v_pages s)(p \<mapsto> pg)" and NIL: "VMA_RBT_NIL s' = VMA_RBT_NIL s"
    and sp: "space_ok s' p t'"
    and nodes: "\<And>n. n \<notin> set (ptrs t) \<Longrightarrow> n \<notin> set (rbt_node_cache s) \<Longrightarrow> v_nodes s' n = v_nodes s n"
    and objs: "\<And>d. d \<notin> set (area_objs s t) \<Longrightarrow> d \<notin> set (vma_cache s) \<Longrightarrow> v_vmas s' d = v_vmas s d"
    and c1: "set (ptrs t') \<union> set (rbt_node_cache s') \<subseteq> set (ptrs t) \<union> set (rbt_node_cache s)" "distinct (rbt_node_cache s')"
    and c2: "set (area_objs s' t') \<union> set (vma_cache s') \<subseteq> set (area_objs s t) \<union> set (vma_cache s)" "distinct (vma_cache s')"
  shows "vm_ok s' (T(p \<mapsto> t'))" and "\<And>q u. q \<noteq> p \<Longrightarrow> T q = Some u \<Longrightarrow> areas s' u = areas s u"
proof -
  have NILt: "VMA_RBT_NIL s \<notin> set (ptrs t)" "0 \<notin> set (ptrs t)" using vm_okD(2) [OF ok t] by (auto simp: space_ok_def rbt_ok_def holds_def dest: repr_not_NIL)
  have col: "colors (v_nodes s') (VMA_RBT_NIL s) = RBT_BLACK" using nodes [OF NILt(1)] vm_okD(4,5) [OF ok] by (simp add: colors_def)
  have fr: "space_ok s' q u \<and> areas s' u = areas s u \<and> area_objs s' u = area_objs s u" if q: "q \<noteq> p" "T q = Some u" for q u
  proof -
    have d: "set (ptrs u) \<inter> set (ptrs t) = {}" "set (area_objs s u) \<inter> set (area_objs s t) = {}" using vm_okD(3) [OF ok q t] by auto
    have e: "set (ptrs u) \<inter> set (rbt_node_cache s) = {}" "set (area_objs s u) \<inter> set (vma_cache s) = {}"
      using vm_okD(2) [OF ok q(2)] by (auto simp: space_ok_def)
    have "set (ptrs u) \<inter> set (rbt_node_cache s') = {}" "set (area_objs s u) \<inter> set (vma_cache s') = {}" using d e c1(1) c2(1) by blast+
    then show ?thesis using space_frame [OF vm_okD(2) [OF ok q(2)] _ NIL _ col] pages q(1) d e nodes objs by (simp add: disjoint_iff)
  qed
  then show "\<And>q u. q \<noteq> p \<Longrightarrow> T q = Some u \<Longrightarrow> areas s' u = areas s u" by blast
  have dj: "set (ptrs t') \<inter> set (ptrs u) = {} \<and> set (area_objs s' t') \<inter> set (area_objs s' u) = {}" if q: "q \<noteq> p" "T q = Some u" for q u
  proof -
    have "set (ptrs u) \<inter> set (rbt_node_cache s) = {}" "set (area_objs s u) \<inter> set (vma_cache s) = {}"
      using vm_okD(2) [OF ok q(2)] by (auto simp: space_ok_def)
    moreover have "set (ptrs u) \<inter> set (ptrs t) = {}" "set (area_objs s u) \<inter> set (area_objs s t) = {}" using vm_okD(3) [OF ok q t] by auto
    ultimately have "set (ptrs u) \<inter> (set (ptrs t) \<union> set (rbt_node_cache s)) = {}" "set (area_objs s u) \<inter> (set (area_objs s t) \<union> set (vma_cache s)) = {}" by blast+
    moreover have "area_objs s' u = area_objs s u" using fr [OF q] by blast
    ultimately show ?thesis using c1(1) c2(1) by auto
  qed
  have others: "set (ptrs u) \<inter> set (ptrs w) = {} \<and> set (area_objs s' u) \<inter> set (area_objs s' w) = {}"
    if "q \<noteq> r" "(T(p \<mapsto> t')) q = Some u" "(T(p \<mapsto> t')) r = Some w" for q r u w
  proof (cases "q = p \<or> r = p")
    case True
    then show ?thesis using that dj [of r w] dj [of q u] by auto
  next
    case False
    then show ?thesis using fr [of q u] fr [of r w] that vm_okD(3) [OF ok that(1)] by simp
  qed
  have "dom (T(p \<mapsto> t')) = dom (v_pages s')" using vm_okD(1) [OF ok] pages by simp
  moreover have "space_ok s' q u" if "(T(p \<mapsto> t')) q = Some u" for q u using that sp fr by (cases "q = p") auto
  moreover have "VMA_RBT_NIL s \<notin> set (rbt_node_cache s') \<and> 0 \<notin> set (rbt_node_cache s')" using c1(1) NILt vm_okD(5,6) [OF ok] by blast
  ultimately show "vm_ok s' (T(p \<mapsto> t'))" unfolding vm_ok_def NIL using others col c1(2) c2(2) by (metis (no_types))
qed

definition touches :: "vm \<Rightarrow> ptr \<Rightarrow> ptree \<Rightarrow> vm \<Rightarrow> bool" where
  "touches s p t s' \<longleftrightarrow> (\<forall>n. n \<notin> set (ptrs t) \<longrightarrow> n \<notin> set (rbt_node_cache s) \<longrightarrow> v_nodes s' n = v_nodes s n) \<and>
     (\<forall>d. d \<notin> set (area_objs s t) \<longrightarrow> d \<notin> set (vma_cache s) \<longrightarrow> v_vmas s' d = v_vmas s d) \<and>
     VMA_RBT_NIL s' = VMA_RBT_NIL s \<and> (\<forall>q. q \<noteq> p \<longrightarrow> v_pages s' q = v_pages s q)"

lemma areas_insert:
  assumes d: "distinct (map (vma_key s) (area_objs s t))" and o: "area_objs s' t' = xs @ d' # ys" "area_objs s t = xs @ ys" "d' \<notin> set (area_objs s t)"
    and v: "v_vmas s' = (v_vmas s)(d' := v)" and k: "start_address v \<notin> vma_key s ` set (area_objs s t)"
  shows "areas s' t' = (areas s t)(start_address v \<mapsto> v)" and "distinct (map (vma_key s') (area_objs s' t'))"
proof -
  have e: "vma_key s' d = vma_key s d" "v_vmas s' d = v_vmas s d" if "d \<in> set (area_objs s t)" for d using that o(3) by (auto simp: v vma_key_def)
  have m: "map (vma_key s') zs = map (vma_key s) zs" if "set zs \<subseteq> set (area_objs s t)" for zs using that e by (intro map_cong) auto
  have "distinct (map (vma_key s) xs @ start_address v # map (vma_key s) ys)" using d k unfolding o(2) by auto
  moreover have "vma_key s' d' = start_address v" by (simp add: v vma_key_def)
  ultimately show ds: "distinct (map (vma_key s') (area_objs s' t'))" unfolding o(1) map_append list.map using m [of xs] m [of ys] o(2) by (metis set_append sup.cobounded1 sup.cobounded2)
  show "areas s' t' = (areas s t)(start_address v \<mapsto> v)"
  proof (rule ext, rule option.expand)
    fix a
    show "(areas s' t' a = None) = (((areas s t)(start_address v \<mapsto> v)) a = None)"
      using e unfolding o(1) areas_None fun_upd_apply by (auto simp: areas_None o v vma_key_def)
    assume "areas s' t' a \<noteq> None"
    then obtain w where w: "areas s' t' a = Some w" by blast
    then obtain d where dd: "d \<in> set (area_objs s' t')" "vma_key s' d = a" "v_vmas s' d = w" using areas_Some [OF ds] by blast
    have "((areas s t)(start_address v \<mapsto> v)) a = Some w"
    proof (cases "d = d'")
      case True
      then show ?thesis using dd by (simp add: v vma_key_def)
    next
      case False
      then have "d \<in> set (area_objs s t)" using dd(1) o by auto
      then have m: "vma_key s d = a" "v_vmas s d = w" "a \<in> vma_key s ` set (area_objs s t)" using e dd by auto
      then have "areas s t a = Some w" "a \<noteq> start_address v" using areas_Some [OF d, of a w] k \<open>d \<in> set (area_objs s t)\<close> by blast+
      then show ?thesis by simp
    qed
    then show "the (areas s' t' a) = the (((areas s t)(start_address v \<mapsto> v)) a)" using w by simp
  qed
qed

lemma register_ok:
  assumes ok: "vm_ok s T" and t: "T p = Some t" and ne: "rbt_node_cache s = n # ns" "vma_cache s = d # ds"
  obtains s' t' where "vma_register_locked (Some p) phys virt sz flags s = Some s'" "vm_ok s' (T(p \<mapsto> t'))"
    "areas s' t' = (if virt \<in> dom (areas s t) then areas s t else (areas s t)(virt \<mapsto> new_area phys virt sz flags))"
    "\<And>q u. q \<noteq> p \<Longrightarrow> T q = Some u \<Longrightarrow> areas s' u = areas s u"
    "length (rbt_node_cache s) \<le> Suc (length (rbt_node_cache s'))" "length (vma_cache s) \<le> Suc (length (vma_cache s'))"
    "touches s p t s'"
proof -
  have sp: "space_ok s p t" by (rule vm_okD(2) [OF ok t])
  then obtain pg where pg: "v_pages s p = Some pg" and r: "rbt_ok (vma_key s) (VMA_RBT_NIL s) (v_nodes s) (vp_tree pg) t"
    and ds1: "distinct (map (vma_key s) (area_objs s t))" and ds0: "distinct (area_objs s t)" by (auto simp: space_ok_def)
  show thesis
  proof (cases rule: space_search [OF sp pg, of virt])
    case (1 q)
    then have "vma_register_locked (Some p) phys virt sz flags s = Some s" by (simp add: vma_register_locked_def pg)
    moreover have "T(p \<mapsto> t) = T" using t by auto
    moreover have "virt \<in> dom (areas s t)" using 1(6) by blast
    ultimately show thesis using that [of s t] ok by (simp add: touches_def)
  next
    case 2
    let ?v = "new_area phys virt sz flags"
    define s1 where "s1 = s\<lparr>vma_cache := ds, rbt_node_cache := ns, v_vmas := (v_vmas s)(d := ?v)\<rparr>"
    have n: "n \<notin> set (ptrs t)" "n \<noteq> VMA_RBT_NIL s" "n \<noteq> 0" and d: "d \<notin> set (area_objs s t)"
      using sp vm_okD(5,6) [OF ok] ne by (auto simp: space_ok_def)
    have key: "vma_key s1 e = vma_key s e" if "e \<noteq> d" for e using that by (simp add: s1_def vma_key_def)
    have nk: "node_key (vma_key s1) (v_nodes s) q = node_key (vma_key s) (v_nodes s) q" if "q \<in> set (ptrs t)" for q
    proof -
      have "node_area s q \<noteq> d" using that d by (auto simp: area_objs_def)
      then show ?thesis using node_keys [OF r that] key by (simp add: node_key_def)
    qed
    have r1: "rbt_ok (vma_key s1) (VMA_RBT_NIL s) (v_nodes s) (vp_tree pg) t" by (rule rbt_ok_frame [OF r _ vm_okD(4) [OF ok] nk]) simp_all
    let ?P = "\<lambda>q. node_key (vma_key s1) (v_nodes s) q \<le> vma_key s1 d"
    obtain h root t' where h: "rbt_insert_node (vma_key s1) (vp_tree pg) n d (VMA_RBT_NIL s) (v_nodes s) = Some (h, root)"
      "rbt_ok (vma_key s1) (VMA_RBT_NIL s) h root t'" "ptrs t' = takeWhile ?P (ptrs t) @ n # dropWhile ?P (ptrs t)"
      "n_data (h n) = Some d" "\<forall>q. q \<noteq> n \<longrightarrow> n_data (h q) = n_data (v_nodes s q)" "\<forall>q. q \<notin> insert n (set (ptrs t)) \<longrightarrow> h q = v_nodes s q"
      using rbt_insert_ok [OF r1 n(1,2), of d] by blast
    define s' where "s' = set_page p (pg\<lparr>vp_tree := root\<rparr>) (s1\<lparr>v_nodes := h\<rparr>)"
    have reg: "vma_register_locked (Some p) phys virt sz flags s = Some s'"
      using 2 h(1) pg ne by (simp add: vma_register_locked_def s'_def s1_def new_area_def Let_def)
    have f: "v_nodes s' = h" "v_vmas s' = (v_vmas s)(d := ?v)" "vma_cache s' = ds" "rbt_node_cache s' = ns" "VMA_RBT_NIL s' = VMA_RBT_NIL s"
      "v_pages s' = (v_pages s)(p \<mapsto> pg\<lparr>vp_tree := root\<rparr>)" "vma_key s' = vma_key s1"
      by (simp_all add: s'_def s1_def set_page_def vma_key_def fun_eq_iff)
    have sp': "set (ptrs t') = insert n (set (ptrs t))"
      unfolding h(3) by (metis (no_types) set_append list.set(2) takeWhile_dropWhile_id Un_insert_right)
    let ?xs = "map (node_area s) (takeWhile ?P (ptrs t))" and ?ys = "map (node_area s) (dropWhile ?P (ptrs t))"
    have na: "node_area s' q = node_area s q" if "q \<in> set (ptrs t)" for q using that n(1) h(5) by (auto simp: node_area_def f)
    have "node_area s' n = d" using h(4) by (simp add: node_area_def f)
    then have o: "area_objs s' t' = ?xs @ d # ?ys" "area_objs s t = ?xs @ ?ys"
      using na unfolding area_objs_def h(3) map_append list.map
      by (auto dest: set_takeWhileD set_dropWhileD intro!: map_cong) (simp flip: map_append)
    have "start_address ?v \<notin> vma_key s ` set (area_objs s t)" using 2(2) unfolding areas_None by (simp add: new_area_def)
    note ai = areas_insert [OF ds1 o d f(2) this]
    have objs: "set (area_objs s' t') = insert d (set (area_objs s t))" "distinct (area_objs s' t')" using ds0 d unfolding o by auto
    have sp1: "space_ok s' p t'"
      using h(2) ai(2) objs sp n(3) vm_okD(7,8) [OF ok] ne d n(1) unfolding space_ok_def f sp' by auto
    have up: "vm_ok s' (T(p \<mapsto> t'))" "\<And>q u. q \<noteq> p \<Longrightarrow> T q = Some u \<Longrightarrow> areas s' u = areas s u"
      by (rule vm_update [OF ok t f(6,5) sp1]; use f h(6) ne sp' objs vm_okD(7,8) [OF ok] in auto)+
    show thesis by (rule that [OF reg up(1) _ up(2)]) (use 2(2) ai(1) ne h(6) in \<open>auto simp: f new_area_def touches_def\<close>)
  qed
qed


lemma register_zones:
  assumes "vma_register (Some p) phys virt sz flags s = Some s'" and "v_pages s p = Some pg"
  shows "\<exists>root. v_pages s' p = Some (pg\<lparr>vp_tree := root\<rparr>) \<and> vma_tree_zone_cache s' = vma_tree_zone_cache s"
proof -
  have "\<exists>root. pg = pg\<lparr>vp_tree := root\<rparr>" by (rule exI [of _ "vp_tree pg"]) simp
  then show ?thesis using assms
    by (auto simp: vma_register_def vma_register_locked_def set_page_def Let_def split: option.splits if_splits list.splits)
qed

section \<open>Finding and unregistering\<close>

lemma vma_find_ok:
  assumes ok: "vm_ok s T" and t: "T p = Some t"
  obtains r where "vma_find p virt s = Some r" "map_option (v_vmas s) r = areas s t virt" "\<forall>d. r = Some d \<longrightarrow> d \<in> set (area_objs s t)"
proof -
  have sp: "space_ok s p t" by (rule vm_okD(2) [OF ok t])
  then obtain pg where pg: "v_pages s p = Some pg" by (auto simp: space_ok_def)
  show thesis
  proof (cases rule: space_search [OF sp pg, of virt])
    case (1 q)
    then show thesis using that [of "Some (node_area s q)"] by (simp add: vma_find_def pg area_objs_def)
  next
    case 2
    then show thesis using that [of None] by (simp add: vma_find_def pg)
  qed
qed

lemma areas_remove:
  assumes "distinct (map (vma_key s) (area_objs s t))" and "distinct (area_objs s t)" and "area_objs s' t' = remove1 d (area_objs s t)"
    and "v_vmas s' = v_vmas s" and "d \<in> set (area_objs s t)"
  shows "areas s' t' = (areas s t)(vma_key s d := None)" and "distinct (map (vma_key s') (area_objs s' t'))"
proof -
  have k: "vma_key s' = vma_key s" using assms(4) by (simp add: vma_key_def fun_eq_iff)
  have st: "set (area_objs s' t') = set (area_objs s t) - {d}" using assms(2,3) by simp
  have inj: "inj_on (vma_key s) (set (area_objs s t))" using assms(1) by (simp add: distinct_map)
  show ds: "distinct (map (vma_key s') (area_objs s' t'))" using assms(2) inj unfolding k by (simp add: distinct_map st inj_on_diff assms(3))
  show "areas s' t' = (areas s t)(vma_key s d := None)"
  proof (rule ext, rule option.expand)
    fix a
    show n: "(areas s' t' a = None) = (((areas s t)(vma_key s d := None)) a = None)"
      using inj assms(5) unfolding areas_None fun_upd_apply by (auto simp: areas_None st k inj_on_def)
    assume "areas s' t' a \<noteq> None"
    then obtain w where w: "areas s' t' a = Some w" by blast
    then have "areas s t a = Some w" using areas_Some [OF ds] areas_Some [OF assms(1)] st k assms(4) by (metis Diff_iff)
    then show "the (areas s' t' a) = the (((areas s t)(vma_key s d := None)) a)" using w n by (auto split: if_splits)
  qed
qed

lemma map_remove1_inj: "inj_on f (set xs) \<Longrightarrow> x \<in> set xs \<Longrightarrow> map f (remove1 x xs) = remove1 (f x) (map f xs)"
  by (induction xs) (auto simp: inj_on_def)

lemma unregister_ok:
  assumes ok: "vm_ok s T" and t: "T p = Some t"
  obtains s' t' where "vma_unregister p virt s = Some s'" "vm_ok s' (T(p \<mapsto> t'))" "areas s' t' = (areas s t)(virt := None)"
    "\<And>q u. q \<noteq> p \<Longrightarrow> T q = Some u \<Longrightarrow> areas s' u = areas s u"
    "length (rbt_node_cache s) \<le> length (rbt_node_cache s')" "length (vma_cache s) \<le> length (vma_cache s')"
proof -
  have sp: "space_ok s p t" by (rule vm_okD(2) [OF ok t])
  then obtain pg where pg: "v_pages s p = Some pg" and r: "rbt_ok (vma_key s) (VMA_RBT_NIL s) (v_nodes s) (vp_tree pg) t"
    and ds: "distinct (map (vma_key s) (area_objs s t))" "distinct (area_objs s t)" by (auto simp: space_ok_def)
  show thesis
  proof (cases rule: space_search [OF sp pg, of virt])
    case (1 n)
    let ?d = "node_area s n"
    obtain h root t' where h: "rbt_remove_node (vp_tree pg) n (VMA_RBT_NIL s) (v_nodes s) = Some (h, root)"
      "rbt_ok (vma_key s) (VMA_RBT_NIL s) h root t'" "ptrs t' = remove1 n (ptrs t)" "edits (set (ptrs t)) (v_nodes s) h"
      using rbt_remove_ok [OF r 1(2)] by blast
    define s' where "s' = set_page p (pg\<lparr>vp_tree := root\<rparr>) (s\<lparr>v_nodes := h, rbt_node_cache := n # rbt_node_cache s, vma_cache := ?d # vma_cache s\<rparr>)"
    have un: "vma_unregister p virt s = Some s'" using 1 h(1) by (simp add: vma_unregister_def pg s'_def)
    have f: "v_nodes s' = h" "v_vmas s' = v_vmas s" "vma_cache s' = ?d # vma_cache s" "rbt_node_cache s' = n # rbt_node_cache s" "VMA_RBT_NIL s' = VMA_RBT_NIL s"
      "v_pages s' = (v_pages s)(p \<mapsto> pg\<lparr>vp_tree := root\<rparr>)" "vma_key s' = vma_key s"
      by (simp_all add: s'_def set_page_def vma_key_def fun_eq_iff)
    have dp: "distinct (ptrs t)" using r by (simp add: rbt_ok_def holds_def)
    have sn: "set (ptrs t') = set (ptrs t) - {n}" using dp h(3) by simp
    have na: "node_area s' = node_area s" using h(4) by (simp add: node_area_def f edits_def fun_eq_iff)
    have "inj_on (node_area s) (set (ptrs t))" using ds(2) by (simp add: area_objs_def distinct_map)
    then have o: "area_objs s' t' = remove1 ?d (area_objs s t)" unfolding area_objs_def na h(3) by (rule map_remove1_inj) (rule 1(2))
    have dm: "?d \<in> set (area_objs s t)" using 1(2) by (simp add: area_objs_def)
    note ar = areas_remove [OF ds o f(2) dm]
    have so: "set (area_objs s' t') = set (area_objs s t) - {?d}" "distinct (area_objs s' t')" using ds(2) unfolding o by auto
    have nc: "n \<notin> set (rbt_node_cache s)" "?d \<notin> set (vma_cache s)" using sp 1(2) dm by (auto simp: space_ok_def)
    have sp1: "space_ok s' p t'" using h(2) ar(2) so sp unfolding space_ok_def f sn by auto
    have up: "vm_ok s' (T(p \<mapsto> t'))" "\<And>q u. q \<noteq> p \<Longrightarrow> T q = Some u \<Longrightarrow> areas s' u = areas s u"
      by (rule vm_update [OF ok t f(6,5) sp1]; use f h(4) sn so dm 1(2) nc vm_okD(7,8) [OF ok] in \<open>auto simp: edits_def\<close>)+
    show thesis by (rule that [OF un up(1) _ up(2)]) (use ar(1) 1(4) in \<open>auto simp: f\<close>)
  next
    case 2
    then have "vma_unregister p virt s = Some s" by (simp add: vma_unregister_def pg)
    moreover have "T(p \<mapsto> t) = T" "(areas s t)(virt := None) = areas s t" using t 2(2) by auto
    ultimately show thesis using that [of s t] ok by simp
  qed
qed


section \<open>The area that contains an address\<close>

definition inside :: "u64 \<Rightarrow> virtual_memory \<Rightarrow> bool" where
  "inside a v \<longleftrightarrow> start_address v \<le> a \<and> a < end_address v"

text \<open>The areas of a space follow each other.\<close>

definition separate :: "(u64 \<rightharpoonup> virtual_memory) \<Rightarrow> bool" where
  "separate A \<longleftrightarrow> (\<forall>a b v w. A a = Some v \<longrightarrow> A b = Some w \<longrightarrow> a < b \<longrightarrow> end_address v \<le> b)"

definition areas_apart :: "vm \<Rightarrow> ptr set \<Rightarrow> bool" where
  "areas_apart s X \<longleftrightarrow> inj_on (vma_key s) X \<and> (\<forall>x \<in> X. \<forall>y \<in> X. vma_key s x < vma_key s y \<longrightarrow> end_address (v_vmas s x) \<le> vma_key s y)"

lemma areas_apart_subset: "areas_apart s X \<Longrightarrow> Y \<subseteq> X \<Longrightarrow> areas_apart s Y"
  unfolding areas_apart_def by (blast intro: inj_on_subset)

lemma find_area_walk:
  assumes "repr (VMA_RBT_NIL s) (v_nodes s) par t" and "search_tree (vma_key s) (v_nodes s) t" and "0 \<notin> set (ptrs t)"
  shows "\<exists>r. find_area a s (rootp (VMA_RBT_NIL s) t) = Some r \<and>
    (\<forall>d. r = Some d \<longrightarrow> d \<in> set (area_objs s t) \<and> inside a (v_vmas s d)) \<and>
    (r = None \<longrightarrow> areas_apart s (set (area_objs s t)) \<longrightarrow> (\<forall>d \<in> set (area_objs s t). \<not> inside a (v_vmas s d)))"
  using assms
proof (induction t arbitrary: par)
  case Leaf
  then show ?case by (subst find_area.simps) (simp add: area_objs_def)
next
  case (Node l p r)
  obtain d where d: "n_data (v_nodes s p) = Some d" "node_key (vma_key s) (v_nodes s) p = vma_key s d" "node_area s p = d"
    using Node.prems(2) by (auto simp: search_tree_def node_key_def node_area_def)
  have ke: "node_key (vma_key s) (v_nodes s) q = vma_key s (node_area s q)" if "q \<in> set (ptrs (Node l p r))" for q
    using Node.prems(2) that unfolding search_tree_def node_key_def node_area_def by (auto simp del: ptrs.simps)
  have lt: "\<forall>x \<in> set (area_objs s l). vma_key s x \<le> vma_key s d" "\<forall>x \<in> set (area_objs s r). vma_key s d \<le> vma_key s x"
    and st: "search_tree (vma_key s) (v_nodes s) l" "search_tree (vma_key s) (v_nodes s) r"
    using Node.prems(2) d(2) ke by (auto simp: search_tree_def sorted_append area_objs_def)
  have rp: "p \<noteq> VMA_RBT_NIL s" "p \<noteq> 0" "repr (VMA_RBT_NIL s) (v_nodes s) p l" "repr (VMA_RBT_NIL s) (v_nodes s) p r"
    "n_left (v_nodes s p) = rootp (VMA_RBT_NIL s) l" "n_right (v_nodes s p) = rootp (VMA_RBT_NIL s) r" "0 \<notin> set (ptrs l)" "0 \<notin> set (ptrs r)"
    using Node.prems by auto
  have ob: "set (area_objs s (Node l p r)) = insert d (set (area_objs s l) \<union> set (area_objs s r))" using d(3) by (auto simp: area_objs_def)
  have sk: "start_address (v_vmas s x) = vma_key s x" for x by (simp add: vma_key_def)
  consider "inside a (v_vmas s d)" | "\<not> inside a (v_vmas s d)" "a < vma_key s d" | "\<not> inside a (v_vmas s d)" "vma_key s d \<le> a" by force
  then show ?case
  proof cases
    case 1
    then have "find_area a s p = Some (Some d)" using d(1) rp by (subst find_area.simps) (simp add: inside_def)
    then show ?thesis using 1 ob by auto
  next
    case 2
    have e: "find_area a s p = find_area a s (rootp (VMA_RBT_NIL s) l)"
      by (subst find_area.simps) (use d(1) rp 2 in \<open>auto simp: inside_def vma_key_def\<close>)
    have "\<not> inside a (v_vmas s x)" if "x \<in> set (area_objs s r)" for x using lt(2) that 2 sk by (force simp: inside_def)
    moreover obtain q where "find_area a s (rootp (VMA_RBT_NIL s) l) = Some q"
      "\<forall>d. q = Some d \<longrightarrow> d \<in> set (area_objs s l) \<and> inside a (v_vmas s d)"
      "q = None \<longrightarrow> areas_apart s (set (area_objs s l)) \<longrightarrow> (\<forall>d \<in> set (area_objs s l). \<not> inside a (v_vmas s d))"
      using Node.IH(1) [OF rp(3) st(1) rp(7)] by blast
    ultimately show ?thesis using 2(1) areas_apart_subset [of s "set (area_objs s (Node l p r))" "set (area_objs s l)"]
      unfolding rootp.simps e ob by (intro exI [of _ q]) auto
  next
    case 3
    have e: "find_area a s p = find_area a s (rootp (VMA_RBT_NIL s) r)"
      by (subst find_area.simps) (use d(1) rp 3 in \<open>auto simp: inside_def vma_key_def\<close>)
    have lf: "\<not> inside a (v_vmas s x)" if x: "x \<in> set (area_objs s l)" and ap: "areas_apart s (set (area_objs s (Node l p r)))" for x
    proof (cases "x = d")
      case False
      have m: "x \<in> set (area_objs s (Node l p r))" "d \<in> set (area_objs s (Node l p r))" using x ob by auto
      then have "vma_key s x < vma_key s d" using lt(1) x ap False by (metis areas_apart_def inj_onD order_le_less)
      then have "end_address (v_vmas s x) \<le> vma_key s d" using ap m unfolding areas_apart_def by blast
      then show ?thesis using 3(2) unfolding inside_def by (meson leD order.trans)
    qed (use 3(1) in simp)
    obtain q where "find_area a s (rootp (VMA_RBT_NIL s) r) = Some q"
      "\<forall>d. q = Some d \<longrightarrow> d \<in> set (area_objs s r) \<and> inside a (v_vmas s d)"
      "q = None \<longrightarrow> areas_apart s (set (area_objs s r)) \<longrightarrow> (\<forall>d \<in> set (area_objs s r). \<not> inside a (v_vmas s d))"
      using Node.IH(2) [OF rp(4) st(2) rp(8)] by blast
    then show ?thesis using 3(1) lf areas_apart_subset [of s "set (area_objs s (Node l p r))" "set (area_objs s r)"]
      unfolding rootp.simps e ob by (intro exI [of _ q]) auto
  qed
qed

lemma find_area_ok:
  assumes ok: "space_ok s p t" and pg: "v_pages s p = Some pg"
  obtains r where "find_area a s (vp_tree pg) = Some r" "\<And>d. r = Some d \<Longrightarrow> d \<in> set (area_objs s t) \<and> inside a (v_vmas s d)"
    "r = None \<Longrightarrow> separate (areas s t) \<Longrightarrow> \<forall>v \<in> ran (areas s t). \<not> inside a v"
proof -
  have r: "repr (VMA_RBT_NIL s) (v_nodes s) (VMA_RBT_NIL s) t" "search_tree (vma_key s) (v_nodes s) t" "0 \<notin> set (ptrs t)" "vp_tree pg = rootp (VMA_RBT_NIL s) t"
    and ds: "distinct (map (vma_key s) (area_objs s t))" using ok pg by (auto simp: space_ok_def rbt_ok_def holds_def)
  obtain r where w: "find_area a s (vp_tree pg) = Some r" "\<forall>d. r = Some d \<longrightarrow> d \<in> set (area_objs s t) \<and> inside a (v_vmas s d)"
    "r = None \<longrightarrow> areas_apart s (set (area_objs s t)) \<longrightarrow> (\<forall>d \<in> set (area_objs s t). \<not> inside a (v_vmas s d))"
    using find_area_walk [OF r(1,2,3), of a] r(4) by metis
  have "\<forall>v \<in> ran (areas s t). \<not> inside a v" if n: "r = None" and sep: "separate (areas s t)"
  proof -
    have "inj_on (vma_key s) (set (area_objs s t))" using ds by (simp add: distinct_map)
    then have "areas_apart s (set (area_objs s t))" using sep areas_Some [OF ds] unfolding separate_def areas_apart_def by blast
    then show ?thesis using w(3) n areas_Some [OF ds] by (auto simp: ran_def)
  qed
  then show thesis using that w(1,2) by blast
qed


section \<open>Free addresses\<close>

definition page_at :: "u64 \<Rightarrow> nat \<Rightarrow> u64" where
  "page_at a i = a + of_nat i * of_nat BLOCK_SIZE"

lemma page_at_simps: "page_at a 0 = a" "page_at (a + of_nat BLOCK_SIZE) i = page_at a (Suc i)"
  by (simp_all add: page_at_def algebra_simps)

lemma unat_page_at: "unat a + 4096 * Suc i \<le> 2 ^ 64 \<Longrightarrow> unat (page_at a i) = unat a + 4096 * i"
  by (simp add: page_at_def BLOCK_SIZE_def unat_word_ariths unat_of_nat mod_simps)

lemma collision_ok:
  assumes ok: "space_ok s p t" and pg: "v_pages s p = Some pg" and sep: "separate (areas s t)"
  obtains "collision n a s (vp_tree pg) = Some None" "\<forall>i < n. \<forall>v \<in> ran (areas s t). \<not> inside (page_at a i) v"
  | i v where "collision n a s (vp_tree pg) = Some (Some (end_address v))" "i < n" "v \<in> ran (areas s t)" "inside (page_at a i) v"
proof (induction n arbitrary: a thesis)
  case 0
  then show ?case by simp
next
  case (Suc n)
  have ds: "distinct (map (vma_key s) (area_objs s t))" using ok by (simp add: space_ok_def)
  show ?case
  proof (rule find_area_ok [OF ok pg, of a])
    fix r
    assume r: "find_area a s (vp_tree pg) = Some r" "\<And>d. r = Some d \<Longrightarrow> d \<in> set (area_objs s t) \<and> inside a (v_vmas s d)"
      "r = None \<Longrightarrow> separate (areas s t) \<Longrightarrow> \<forall>v \<in> ran (areas s t). \<not> inside a v"
    show thesis
    proof (cases r)
      case None
      show thesis
      proof (rule Suc.IH [of "a + of_nat BLOCK_SIZE"])
        assume c: "collision n (a + of_nat BLOCK_SIZE) s (vp_tree pg) = Some None"
          "\<forall>i < n. \<forall>v \<in> ran (areas s t). \<not> inside (page_at (a + of_nat BLOCK_SIZE) i) v"
        have "\<forall>v \<in> ran (areas s t). \<not> inside (page_at a i) v" if "i < Suc n" for i
          using that c(2) r(3) [OF None sep] by (cases i) (auto simp: page_at_simps)
        then show thesis using Suc.prems(1) c(1) r(1) None by simp
      next
        fix i v
        assume "collision n (a + of_nat BLOCK_SIZE) s (vp_tree pg) = Some (Some (end_address v))" "i < n" "v \<in> ran (areas s t)"
          "inside (page_at (a + of_nat BLOCK_SIZE) i) v"
        then show thesis using Suc.prems(2) [of v "Suc i"] r(1) None by (simp add: page_at_simps)
      qed
    next
      case (Some d)
      then have "v_vmas s d \<in> ran (areas s t)" "inside a (v_vmas s d)" using r(2) areas_Some [OF ds] by (auto simp: ran_def)
      then show thesis using Suc.prems(2) [of "v_vmas s d" 0] r(1) Some by (simp add: page_at_simps)
    qed
  qed
qed

lemma free_range_ok:
  assumes ok: "space_ok s p t" and pg: "v_pages s p = Some pg" and sep: "separate (areas s t)"
    and fits: "\<forall>v \<in> ran (areas s t). unat (end_address v) + 4096 * unat sz \<le> 2 ^ 64"
    and "unat first + 4096 * unat sz \<le> 2 ^ 64"
  shows "\<exists>r. free_range sz s (vp_tree pg) first = Some r \<and> first \<le> r \<and> unat r + 4096 * unat sz \<le> 2 ^ 64 \<and>
    (r = first \<or> r \<in> end_address ` ran (areas s t)) \<and> (\<forall>i < unat sz. \<forall>v \<in> ran (areas s t). \<not> inside (page_at r i) v)"
  using assms(5)
proof (induction "card {v \<in> ran (areas s t). first < end_address v}" arbitrary: first rule: less_induct)
  case less
  show ?case
  proof (rule collision_ok [OF ok pg sep, of "unat sz" first])
    assume "collision (unat sz) first s (vp_tree pg) = Some None" "\<forall>i < unat sz. \<forall>v \<in> ran (areas s t). \<not> inside (page_at first i) v"
    then show ?thesis using less.prems by (subst free_range.simps) simp
  next
    fix i v
    assume c: "collision (unat sz) first s (vp_tree pg) = Some (Some (end_address v))" "i < unat sz" "v \<in> ran (areas s t)" "inside (page_at first i) v"
    have "4096 * Suc i \<le> 4096 * unat sz" using c(2) by simp
    then have "unat (page_at first i) = unat first + 4096 * i" using less.prems by (intro unat_page_at) linarith
    then have "first \<le> page_at first i" by (simp add: word_le_nat_alt)
    then have lt: "first < end_address v" using c(4) by (auto simp: inside_def)
    have "finite (ran (areas s t))" by (rule finite_ran) (simp add: areas_def finite_dom_map_of)
    moreover have "{w \<in> ran (areas s t). end_address v < end_address w} \<subseteq> {w \<in> ran (areas s t). first < end_address w}"
      using lt by (blast intro: order.strict_trans)
    then have "{w \<in> ran (areas s t). end_address v < end_address w} \<subset> {w \<in> ran (areas s t). first < end_address w}" using lt c(3) by blast
    ultimately have "card {w \<in> ran (areas s t). end_address v < end_address w} < card {w \<in> ran (areas s t). first < end_address w}"
      by (intro psubset_card_mono) auto
    then obtain r where "free_range sz s (vp_tree pg) (end_address v) = Some r" "end_address v \<le> r" "unat r + 4096 * unat sz \<le> 2 ^ 64"
      "r = end_address v \<or> r \<in> end_address ` ran (areas s t)" "\<forall>i < unat sz. \<forall>v \<in> ran (areas s t). \<not> inside (page_at r i) v"
      using less.hyps [of "end_address v"] fits c(3) by blast
    then show ?thesis using c(1,3) lt by (subst free_range.simps) (auto intro: exI [of _ r])
  qed
qed


text \<open>The zone of a region after an address was taken from it.\<close>

definition zone_taken :: "u64 \<Rightarrow> ptr \<Rightarrow> u64 \<Rightarrow> u64 \<Rightarrow> virtual_memory_page \<Rightarrow> virtual_memory_page \<Rightarrow> bool" where
  "zone_taken region z a e pg pg' \<longleftrightarrow> vp_tree pg' = vp_tree pg \<and>
     (\<forall>r. zone_of r pg' = (if r = region then map_option (push_zone \<lparr>zn_self = z, zn_start = a, zn_end = e\<rparr>) (zone_of r pg) else zone_of r pg))"

lemmas region_defs = VMA_REGION_A_def VMA_REGION_B_def VMA_REGION_C_def VMA_REGION_KMODULE_def VMA_REGION_PROCESS_def USER_MMAP_BASE_def REGION_SIZE_def

lemma zone_add_ok:
  assumes "vma_tree_zone_cache s = z # zs" and "v_pages s p = Some pg" and "zone_of region pg \<noteq> None"
  shows "\<exists>pg'. vma_tree_add_locked p region a e s = Some (set_page p pg' (s\<lparr>vma_tree_zone_cache := zs\<rparr>)) \<and> zone_taken region z a e pg pg'"
  using assms by (auto simp: vma_tree_add_locked_def zone_of_def zone_taken_def Let_def region_defs split: if_splits)


section \<open>The contract of the area store\<close>

datatype vm_op = Register ptr u64 u64 u64 u64 | Unregister ptr u64

fun vm_spec :: "vm_op \<Rightarrow> (ptr \<rightharpoonup> u64 \<rightharpoonup> virtual_memory) \<Rightarrow> (ptr \<rightharpoonup> u64 \<rightharpoonup> virtual_memory)" where
  "vm_spec (Register p phys virt sz flags) M =
     M(p := map_option (\<lambda>A. if virt \<in> dom A then A else A(virt \<mapsto> new_area phys virt sz flags)) (M p))"
| "vm_spec (Unregister p virt) M = M(p := map_option (\<lambda>A. A(virt := None)) (M p))"

fun op_space :: "vm_op \<Rightarrow> ptr" where
  "op_space (Register p phys virt sz flags) = p"
| "op_space (Unregister p virt) = p"

fun run_vm :: "(vm_op \<Rightarrow> 's \<Rightarrow> 's option) \<Rightarrow> vm_op list \<Rightarrow> 's \<Rightarrow> 's option" where
  "run_vm step [] s = Some s"
| "run_vm step (op # ops) s = (case step op s of None \<Rightarrow> None | Some s' \<Rightarrow> run_vm step ops s')"

text \<open>\<open>holds n s M\<close>: the spaces of \<open>M\<close> have the areas it gives, and \<open>n\<close> more areas can be registered.\<close>

locale area_store =
  fixes holds_areas :: "nat \<Rightarrow> 's \<Rightarrow> (ptr \<rightharpoonup> u64 \<rightharpoonup> virtual_memory) \<Rightarrow> bool"
    and step :: "vm_op \<Rightarrow> 's \<Rightarrow> 's option"
    and look :: "ptr \<Rightarrow> u64 \<Rightarrow> 's \<Rightarrow> virtual_memory option option"
  assumes step_ok: "holds_areas (Suc n) s M \<Longrightarrow> op_space op \<in> dom M \<Longrightarrow> \<exists>s'. step op s = Some s' \<and> holds_areas n s' (vm_spec op M)"
    and look_ok: "holds_areas n s M \<Longrightarrow> M p = Some A \<Longrightarrow> look p virt s = Some (A virt)"
begin

lemma spec_dom: "op_space op \<in> dom M \<Longrightarrow> dom (vm_spec op M) = dom M"
  by (cases op) auto

lemma run_store:
  "holds_areas (length ops + n) s M \<Longrightarrow> op_space ` set ops \<subseteq> dom M \<Longrightarrow> \<exists>s'. run_vm step ops s = Some s' \<and> holds_areas n s' (fold vm_spec ops M)"
proof (induction ops arbitrary: s M)
  case (Cons op ops)
  then obtain s1 where "step op s = Some s1" "holds_areas (length ops + n) s1 (vm_spec op M)" using step_ok [of "length ops + n" s M op] by auto
  then show ?case using Cons.IH [of s1 "vm_spec op M"] Cons.prems(2) spec_dom [of op M] by auto
qed simp

lemma look_after:
  assumes "holds_areas (length ops) s M" and "op_space ` set ops \<subseteq> dom M" and "p \<in> dom M"
  shows "\<exists>s' A. run_vm step ops s = Some s' \<and> fold vm_spec ops M p = Some A \<and> look p virt s' = Some (A virt)"
proof -
  obtain s' where s': "run_vm step ops s = Some s'" "holds_areas 0 s' (fold vm_spec ops M)" using run_store [of ops 0 s M] assms(1,2) by auto
  have "dom (fold vm_spec ops M) = dom M" using assms(2)
  proof (induction ops arbitrary: M)
    case (Cons op ops)
    then show ?case using Cons.IH [of "vm_spec op M"] spec_dom [of op M] by auto
  qed simp
  then obtain A where "fold vm_spec ops M p = Some A" using assms(3) by auto
  then show ?thesis using s' look_ok by blast
qed

end

section \<open>The address spaces are an area store\<close>

fun vm_step :: "vm_op \<Rightarrow> vm \<Rightarrow> vm option" where
  "vm_step (Register p phys virt sz flags) s = vma_register (Some p) phys virt sz flags s"
| "vm_step (Unregister p virt) s = vma_unregister p virt s"

definition vm_look :: "ptr \<Rightarrow> u64 \<Rightarrow> vm \<Rightarrow> virtual_memory option option" where
  "vm_look p virt s = map_option (map_option (v_vmas s)) (vma_find p virt s)"

definition vm_areas :: "nat \<Rightarrow> vm \<Rightarrow> (ptr \<rightharpoonup> u64 \<rightharpoonup> virtual_memory) \<Rightarrow> bool" where
  "vm_areas n s M \<longleftrightarrow> (\<exists>T. vm_ok s T \<and> M = (\<lambda>p. map_option (areas s) (T p)) \<and> n \<le> length (rbt_node_cache s) \<and> n \<le> length (vma_cache s))"

lemma other_areas:
  assumes "\<forall>q u. q \<noteq> p \<longrightarrow> T q = Some u \<longrightarrow> areas s' u = areas s u" and "areas s' t' = A"
  shows "(\<lambda>q. map_option (areas s') ((T(p \<mapsto> t')) q)) = (\<lambda>q. map_option (areas s) (T q))(p \<mapsto> A)"
  using assms by (auto simp: fun_eq_iff intro!: option.map_cong)

lemma vm_step_ok:
  assumes "vm_areas (Suc n) s M" and "op_space op \<in> dom M"
  shows "\<exists>s'. vm_step op s = Some s' \<and> vm_areas n s' (vm_spec op M)"
proof -
  obtain T where T: "vm_ok s T" "M = (\<lambda>p. map_option (areas s) (T p))" "Suc n \<le> length (rbt_node_cache s)" "Suc n \<le> length (vma_cache s)"
    using assms(1) by (auto simp: vm_areas_def)
  obtain t where t: "T (op_space op) = Some t" using assms(2) T(2) by auto
  show ?thesis
  proof (cases op)
    case (Register p phys virt sz flags)
    obtain b bs d ds where "rbt_node_cache s = b # bs" "vma_cache s = d # ds"
      using T(3,4) by (cases "rbt_node_cache s"; cases "vma_cache s"; simp)
    note reg = register_ok [OF T(1) _ this, of p t phys virt sz flags]
    show ?thesis
    proof (rule reg)
      show "T p = Some t" using t Register by simp
      fix s' t'
      assume r: "vma_register_locked (Some p) phys virt sz flags s = Some s'" "vm_ok s' (T(p \<mapsto> t'))"
        "areas s' t' = (if virt \<in> dom (areas s t) then areas s t else (areas s t)(virt \<mapsto> new_area phys virt sz flags))"
        "\<And>q u. q \<noteq> p \<Longrightarrow> T q = Some u \<Longrightarrow> areas s' u = areas s u"
        "length (rbt_node_cache s) \<le> Suc (length (rbt_node_cache s'))" "length (vma_cache s) \<le> Suc (length (vma_cache s'))"
      have "vm_spec op M = (\<lambda>q. map_option (areas s') ((T(p \<mapsto> t')) q))"
        using other_areas [OF _ r(3), of p T s] r(4) t Register T(2) by (simp del: fun_upd_apply)
      then have "vm_areas n s' (vm_spec op M)" using r(2,5,6) T(3,4) unfolding vm_areas_def by (intro exI [of _ "T(p \<mapsto> t')"]) simp
      then show ?thesis using r(1) Register by (simp add: vma_register_def)
    qed
  next
    case (Unregister p virt)
    show ?thesis
    proof (rule unregister_ok [OF T(1), of p t virt])
      show "T p = Some t" using t Unregister by simp
      fix s' t'
      assume r: "vma_unregister p virt s = Some s'" "vm_ok s' (T(p \<mapsto> t'))" "areas s' t' = (areas s t)(virt := None)"
        "\<And>q u. q \<noteq> p \<Longrightarrow> T q = Some u \<Longrightarrow> areas s' u = areas s u"
        "length (rbt_node_cache s) \<le> length (rbt_node_cache s')" "length (vma_cache s) \<le> length (vma_cache s')"
      have "vm_spec op M = (\<lambda>q. map_option (areas s') ((T(p \<mapsto> t')) q))"
        using other_areas [OF _ r(3), of p T s] r(4) t Unregister T(2) by (simp del: fun_upd_apply)
      then have "vm_areas n s' (vm_spec op M)" using r(2,5,6) T(3,4) unfolding vm_areas_def by (intro exI [of _ "T(p \<mapsto> t')"]) simp
      then show ?thesis using r(1) Unregister by simp
    qed
  qed
qed

lemma vm_look_ok: "vm_areas n s M \<Longrightarrow> M p = Some A \<Longrightarrow> vm_look p virt s = Some (A virt)"
  by (auto simp: vm_areas_def vm_look_def elim: vma_find_ok [of s _ p _ virt])

interpretation areas: area_store vm_areas vm_step vm_look
  by unfold_locales (rule vm_step_ok vm_look_ok; assumption)+

section \<open>Creation\<close>

lemma create_page_ok:
  assumes ok: "vm_ok s T" and p: "vma_page s = p # ps" "v_pages s p = None"
  shows "\<exists>s'. create_vmm_page s = Some (s', p) \<and> vm_ok s' (T(p \<mapsto> Leaf)) \<and> areas s' Leaf = Map.empty \<and> (\<forall>q u. T q = Some u \<longrightarrow> areas s' u = areas s u)"
proof -
  obtain s' where s': "create_vmm_page s = Some (s', p)" "v_nodes s' = v_nodes s" "v_vmas s' = v_vmas s" "rbt_node_cache s' = rbt_node_cache s"
    "vma_cache s' = vma_cache s" "VMA_RBT_NIL s' = VMA_RBT_NIL s" "\<exists>pg. v_pages s' = (v_pages s)(p \<mapsto> pg) \<and> vp_tree pg = VMA_RBT_NIL s"
    using p(1) by (simp add: create_vmm_page_def set_page_def exI [of _ "\<lparr>vma_tree_zone_process = empty_tree, vma_tree_zone_a = empty_tree,
      vp_tree = VMA_RBT_NIL s, vma_tree_zone_b = empty_tree, vma_tree_zone_c = empty_tree, vma_tree_zone_kmodule = empty_tree, vma_tree_zone_user_mmap = empty_tree\<rparr>"])
  have Tp: "T p = None" using vm_okD(1) [OF ok] p(2) by auto
  have k: "vma_key s' = vma_key s" "node_area s' = node_area s" "area_objs s' = area_objs s" "areas s' = areas s"
    by (rule same_areas [OF s'(2,3)])+
  have "space_ok s' p Leaf" using s'(7) vm_okD(4) [OF ok]
    by (auto simp: space_ok_def area_objs_def rbt_ok_def holds_def balanced_def search_tree_def s'(2,6))
  moreover have "space_ok s' q u" if "T q = Some u" for q u
  proof -
    have "q \<noteq> p" using that Tp by auto
    then show ?thesis using vm_okD(2) [OF ok that] s'(7) by (auto simp: space_ok_def k s'(2,4,5,6))
  qed
  moreover have "dom (T(p \<mapsto> Leaf)) = dom (v_pages s')" using vm_okD(1) [OF ok] s'(7) by auto
  ultimately have "vm_ok s' (T(p \<mapsto> Leaf))"
    using ok unfolding vm_ok_def s'(2,4,5,6) k by (simp add: area_objs_def)
  moreover have "areas s Leaf = Map.empty" by (simp add: areas_def area_objs_def)
  ultimately show ?thesis using s'(1) by (simp add: k)
qed

lemma create_areas:
  assumes a: "vm_areas n s M" and p: "vma_page s = p # ps" "v_pages s p = None"
  shows "\<exists>s'. create_vmm_page s = Some (s', p) \<and> vm_areas n s' (M(p \<mapsto> Map.empty)) \<and>
    (\<forall>q. q \<noteq> p \<longrightarrow> v_pages s' q = v_pages s q) \<and> vma_tree_zone_cache s' = vma_tree_zone_cache s"
proof -
  obtain T where T: "vm_ok s T" "M = (\<lambda>p. map_option (areas s) (T p))" "n \<le> length (rbt_node_cache s)" "n \<le> length (vma_cache s)"
    using a by (auto simp: vm_areas_def)
  obtain s' where s': "create_vmm_page s = Some (s', p)" "vm_ok s' (T(p \<mapsto> Leaf))" "areas s' Leaf = Map.empty" "\<forall>q u. T q = Some u \<longrightarrow> areas s' u = areas s u"
    using create_page_ok [OF T(1) p] by blast
  have "n \<le> length (rbt_node_cache s') \<and> n \<le> length (vma_cache s') \<and> (\<forall>q. q \<noteq> p \<longrightarrow> v_pages s' q = v_pages s q) \<and> vma_tree_zone_cache s' = vma_tree_zone_cache s"
    using s'(1) p(1) T(3,4) by (auto simp: create_vmm_page_def set_page_def)
  moreover have "vm_areas n s' (M(p \<mapsto> Map.empty))"
    using other_areas [of p T s' s Leaf, OF _ s'(3)] s'(2,4) calculation unfolding vm_areas_def T(2) by (intro exI [of _ "T(p \<mapsto> Leaf)"]) simp
  ultimately show ?thesis using s'(1) by blast
qed

lemma init_ok:
  assumes "v_pages s = Map.empty" and "rbt_node_cache s = nil # ns" and "distinct (nil # ns)" and "0 \<notin> set (nil # ns)" and "distinct (vma_cache s)"
    and "vma_page s = p # ps"
  shows "\<exists>s'. vma_init s = Some s' \<and> vm_areas (min (length ns) (length (vma_cache s))) s' [p \<mapsto> Map.empty] \<and> kernel_vmm_page s' = p"
proof -
  define s1 where "s1 = s\<lparr>rbt_node_cache := ns, VMA_RBT_NIL := nil,
    v_nodes := (v_nodes s)(nil := \<lparr>n_data = None, n_left = nil, n_right = nil, n_parent = nil, n_color = RBT_BLACK\<rparr>)\<rparr>"
  have "vm_ok s1 Map.empty" using assms by (simp add: vm_ok_def s1_def colors_def)
  moreover have "vma_page s1 = p # ps" "v_pages s1 p = None" using assms by (simp_all add: s1_def)
  ultimately obtain s' where s': "create_vmm_page s1 = Some (s', p)" "vm_ok s' [p \<mapsto> Leaf]" "areas s' Leaf = Map.empty" using create_page_ok by blast
  have f: "rbt_node_cache s' = ns" "vma_cache s' = vma_cache s" using s'(1) assms(6) by (auto simp: create_vmm_page_def s1_def set_page_def)
  define s2 where "s2 = s'\<lparr>kernel_vmm_page := p\<rparr>"
  have f2: "rbt_node_cache s2 = ns" "vma_cache s2 = vma_cache s" by (simp_all add: s2_def f)
  have k: "vma_key s2 = vma_key s'" "area_objs s2 = area_objs s'" "areas s2 = areas s'" by (rule same_areas; simp add: s2_def)+
  have "vm_ok s2 [p \<mapsto> Leaf]" using s'(2) unfolding vm_ok_def space_ok_def k by (simp add: s2_def)
  then have "vm_areas (min (length ns) (length (vma_cache s))) s2 [p \<mapsto> Map.empty]"
    unfolding vm_areas_def by (intro exI [of _ "[p \<mapsto> Leaf]"]) (auto simp: k s'(3) fun_eq_iff f2)
  moreover have "vma_init s = Some s2" using s'(1) assms(2) by (simp add: vma_init_def s1_def s2_def)
  ultimately show ?thesis by (auto simp: s2_def)
qed


section \<open>Properties\<close>

text \<open>
  (C15) Address spaces, refinement: in a system whose spaces hold the areas of the map \<open>M\<close> (\<open>vm_areas\<close>, which \<^verbatim>\<open>INIT(vma)\<close>
  establishes) every sequence of \<^verbatim>\<open>vma_register\<close> and \<^verbatim>\<open>vma_unregister\<close> calls on them, with as many free objects as calls,
  runs to its end, and \<^verbatim>\<open>vma_find\<close> on each space then returns exactly what the same operations give on finite maps from start addresses to
  areas: a registered start address is kept as it is, and no call on one space shows in another.
\<close>

theorem vma_refines_maps:
  assumes "vm_areas (length ops) s M" and "op_space ` set ops \<subseteq> dom M" and "p \<in> dom M"
  shows "\<exists>s' A r. run_vm vm_step ops s = Some s' \<and> vm_areas 0 s' (fold vm_spec ops M) \<and> fold vm_spec ops M p = Some A \<and>
    vma_find p virt s' = Some r \<and> map_option (v_vmas s') r = A virt"
proof -
  obtain s' A where s': "run_vm vm_step ops s = Some s'" "fold vm_spec ops M p = Some A" "vm_look p virt s' = Some (A virt)"
    using areas.look_after [OF assms] by blast
  moreover have "vm_areas 0 s' (fold vm_spec ops M)" using areas.run_store [of ops 0 s M] assms(1,2) s'(1) by auto
  moreover obtain r where "vma_find p virt s' = Some r" "map_option (v_vmas s') r = A virt" using s'(3) by (auto simp: vm_look_def)
  ultimately show ?thesis by blast
qed

definition sample_vm :: vm where
  "sample_vm = \<lparr>v_nodes = (\<lambda>_. \<lparr>n_data = None, n_left = 0, n_right = 0, n_parent = 0, n_color = RBT_RED\<rparr>), v_vmas = (\<lambda>_. new_area 0 0 0 0),
     v_pages = Map.empty, rbt_node_cache = [64, 128, 192, 256], vma_cache = [1024, 1088, 1152], vma_tree_zone_cache = [4096, 4128],
     vma_page = [8192, 8448], VMA_RBT_NIL = 0, kernel_vmm_page = 0\<rparr>"

lemma sample_vm_init:
  obtains s where "vma_init sample_vm = Some s" "vm_areas (Suc (Suc (Suc 0))) s [8192 \<mapsto> Map.empty]" "kernel_vmm_page s = 8192"
  using init_ok [of sample_vm 64 "[128, 192, 256]" 8192 "[8448]"] by (auto simp: sample_vm_def)

theorem vma_refines_maps_witness:
  "\<exists>s s' r. vma_init sample_vm = Some s \<and>
    run_vm vm_step [Register 8192 0x8000 0x400000 0x2000 7, Register 8192 0x9000 0x500000 0x1000 7, Unregister 8192 0x400000] s = Some s' \<and>
    vma_find 8192 0x500000 s' = Some r \<and> map_option (v_vmas s') r = Some (new_area 0x9000 0x500000 0x1000 7)"
proof -
  obtain s where s: "vma_init sample_vm = Some s" "vm_areas (Suc (Suc (Suc 0))) s [8192 \<mapsto> Map.empty]" using sample_vm_init by blast
  let ?ops = "[Register 8192 0x8000 0x400000 0x2000 7, Register 8192 0x9000 0x500000 0x1000 7, Unregister 8192 0x400000]"
  obtain s' A r where r: "run_vm vm_step ?ops s = Some s'" "fold vm_spec ?ops [8192 \<mapsto> Map.empty] 8192 = Some A"
    "vma_find 8192 0x500000 s' = Some r" "map_option (v_vmas s') r = A 0x500000"
    using vma_refines_maps [of ?ops s "[8192 \<mapsto> Map.empty]" 8192 "0x500000"] s(2) by auto
  moreover have "A 0x500000 = Some (new_area 0x9000 0x500000 0x1000 7)" using r(2) by auto
  ultimately show ?thesis using s(1) by metis
qed

text \<open>
  (C35) Address spaces, containment: the search of \<^verbatim>\<open>vma_find_contains\<close> returns, an area it returns belongs to the space and contains the
  address, and when the areas of the space do not overlap it returns nothing only if no area of the space contains the address.
\<close>

theorem vma_find_contains_correct:
  assumes "vm_areas n s M" and "M p = Some A"
  shows "\<exists>r. vma_find_contains (Some p) a s = Some r \<and>
    (case r of None \<Rightarrow> separate A \<longrightarrow> (\<forall>v \<in> ran A. \<not> inside a v) | Some d \<Rightarrow> v_vmas s d \<in> ran A \<and> inside a (v_vmas s d))"
proof -
  obtain T t where T: "vm_ok s T" "T p = Some t" "A = areas s t" using assms by (auto simp: vm_areas_def)
  have sp: "space_ok s p t" by (rule vm_okD(2) [OF T(1,2)])
  obtain pg where pg: "v_pages s p = Some pg" and ds: "distinct (map (vma_key s) (area_objs s t))" using sp by (auto simp: space_ok_def)
  obtain r where r: "find_area a s (vp_tree pg) = Some r" "\<And>d. r = Some d \<Longrightarrow> d \<in> set (area_objs s t) \<and> inside a (v_vmas s d)"
    "r = None \<Longrightarrow> separate (areas s t) \<Longrightarrow> \<forall>v \<in> ran (areas s t). \<not> inside a v" using find_area_ok [OF sp pg] by blast
  have "v_vmas s d \<in> ran A" if "d \<in> set (area_objs s t)" for d using areas_Some [OF ds] that T(3) by (auto simp: ran_def)
  then show ?thesis using r T(3) by (auto simp: vma_find_contains_def pg split: option.split)
qed

theorem vma_find_contains_correct_witness:
  "\<exists>s s' d. vma_init sample_vm = Some s \<and> run_vm vm_step [Register 8192 0x8000 0x400000 0x2000 7, Register 8192 0x9000 0x500000 0x1000 7] s = Some s' \<and>
    vma_find_contains (Some 8192) 0x401234 s' = Some (Some d) \<and> v_vmas s' d = new_area 0x8000 0x400000 0x2000 7"
proof -
  obtain s where s: "vma_init sample_vm = Some s" "vm_areas (Suc (Suc (Suc 0))) s [8192 \<mapsto> Map.empty]" using sample_vm_init by blast
  let ?ops = "[Register 8192 0x8000 0x400000 0x2000 7, Register 8192 0x9000 0x500000 0x1000 7]"
  let ?A = "[0x400000 \<mapsto> new_area 0x8000 0x400000 0x2000 7, 0x500000 \<mapsto> new_area 0x9000 0x500000 0x1000 7] :: u64 \<rightharpoonup> virtual_memory"
  obtain s' where s': "run_vm vm_step ?ops s = Some s'" "vm_areas 1 s' (fold vm_spec ?ops [8192 \<mapsto> Map.empty])"
    using areas.run_store [of ?ops 1 s "[8192 \<mapsto> Map.empty]"] s(2) by auto
  have M: "fold vm_spec ?ops [8192 \<mapsto> Map.empty] 8192 = Some ?A" by simp
  have ran: "ran ?A = {new_area 0x8000 0x400000 0x2000 7, new_area 0x9000 0x500000 0x1000 7}" by (simp add: ran_map_upd insert_commute)
  have "separate ?A" by (auto simp: separate_def new_area_def split: if_splits)
  moreover have ins: "inside 0x401234 (new_area 0x8000 0x400000 0x2000 7)" "\<not> inside 0x401234 (new_area 0x9000 0x500000 0x1000 7)"
    by (simp_all add: inside_def new_area_def)
  moreover obtain r where r: "vma_find_contains (Some 8192) 0x401234 s' = Some r"
    "case r of None \<Rightarrow> separate ?A \<longrightarrow> (\<forall>v \<in> ran ?A. \<not> inside 0x401234 v) | Some d \<Rightarrow> v_vmas s' d \<in> ran ?A \<and> inside 0x401234 (v_vmas s' d)"
    using vma_find_contains_correct [OF s'(2) M, of "0x401234"] by blast
  ultimately obtain d where "r = Some d" "v_vmas s' d = new_area 0x8000 0x400000 0x2000 7"
    unfolding ran by (cases r) (simp, auto simp del: fun_upd_apply)
  then show ?thesis using s(1) s'(1) r(1) by blast
qed


definition page_areas :: "(u64 \<rightharpoonup> virtual_memory) \<Rightarrow> bool" where
  "page_areas A \<longleftrightarrow> (\<forall>v \<in> ran A. 4096 dvd unat (start_address v) \<and> 4096 dvd unat (end_address v))"

lemma page_free:
  assumes fr: "\<forall>i < n. \<not> inside (page_at r i) v" and al: "4096 dvd unat (start_address v)" "4096 dvd unat r" and le: "unat r + 4096 * n \<le> 2 ^ 64"
    and a: "r \<le> a" "unat a < unat r + 4096 * n"
  shows "\<not> inside a v"
proof
  assume ins: "inside a v"
  define i where "i = (unat a - unat r) div 4096"
  have ra: "unat r \<le> unat a" using a(1) by (simp add: word_le_nat_alt)
  have i: "i < n" using a(2) ra unfolding i_def by (simp add: div_less_iff_less_mult algebra_simps)
  have "4096 * Suc i \<le> 4096 * n" using i by simp
  then have pa: "unat (page_at r i) = unat r + 4096 * i" using le by (intro unat_page_at) linarith
  have pd: "unat (page_at r i) = 4096 * (unat a div 4096)"
  proof -
    obtain k where "unat r = 4096 * k" using al(2) by blast
    moreover have "unat a div 4096 = k + i" if "unat r = 4096 * k" for k
      using ra that unfolding i_def by (metis add_diff_inverse_nat div_mult_self4 not_less zero_neq_numeral)
    ultimately show ?thesis unfolding pa by simp
  qed
  obtain k where k: "unat (start_address v) = 4096 * k" using al(1) by blast
  have "4096 * k \<le> unat a" using ins k by (simp add: inside_def word_le_nat_alt)
  then have "k \<le> unat a div 4096" by (simp add: less_eq_div_iff_mult_less_eq mult.commute)
  then have "start_address v \<le> page_at r i" using k pd by (simp add: word_le_nat_alt)
  moreover have "page_at r i \<le> a" using pd by (simp add: word_le_nat_alt)
  ultimately have "inside (page_at r i) v" using ins by (auto simp: inside_def)
  then show False using fr i by blast
qed



end
