(* ===== verification/Vma_Clone.thy ===== *)
theory Vma_Clone
  imports Vma_Props
begin

text \<open>
  Copying an address space for a new process: \<^verbatim>\<open>vma_clone_cow\<close> gives the child the areas of the parent and maps its
  pages to the same memory, and no page that was writable is writable afterwards on either side. The two directories may share
  the tables of the kernel half; the lemmas keep those of the user half apart.
\<close>

section \<open>The user half of a directory\<close>

definition low :: "table_mem \<Rightarrow> u64 \<Rightarrow> u64 set" where
  "low m d = insert d (\<Union>i < 256. set (below 2 m (m d i)))"

lemma low_tables: "low m d \<subseteq> set (tables 3 m d)"
  using set_tables [of 2 m d] by (auto simp: low_def numeral_3_eq_3)

definition user_addr :: "u64 \<Rightarrow> bool" where
  "user_addr v \<longleftrightarrow> table_index 3 v < 256"

text \<open>A walk for an address of the user half changes no table of the kernel half.\<close>

lemma low_walk:
  assumes ok: "dir_ok s d" and fr: "3 \<le> free_blocks (pg_phys s)" and al: "phys AND PAGE_PHYS_MASK AND mask (12 + 9 * target flags) = 0" and u: "user_addr virt"
  defines "s' \<equiv> mmap_walk 3 d virt phys flags s"
  shows "grows (low (pg_mem s) d) s s'" and "low (pg_mem s') d \<subseteq> low (pg_mem s) d \<union> {t. \<not> in_use (pg_phys s) t}"
proof -
  let ?m = "pg_mem s" and ?i = "table_index 3 virt"
  define s1 where "s1 = open_entry 3 d ?i (PAGE_PRESENT OR PAGE_WRITABLE OR (flags AND PAGE_USER)) s"
  have k: "Suc 2 = 3" by simp
  have ok3: "pt_ok (Suc 2) s d" using ok by (simp only: k)
  have "\<exists>e c. opened 2 s d ?i (open_entry (Suc 2) d ?i (PAGE_PRESENT OR PAGE_WRITABLE OR (flags AND PAGE_USER)) s) e c"
    by (rule open_entry_ok [OF ok3 _ _ _ refl]) (use fr in simp_all)
  then obtain e c where op: "opened 2 s d ?i s1 e c" unfolding s1_def k by blast
  note o = openedD [OF op]
  have s': "s' = mmap_walk 2 c virt phys flags s1"
    using walk_above_target [of flags 2 d virt phys s] target_le [of flags] o(1,4) unfolding s'_def s1_def k by (simp add: Let_def)
  have w: "walk_ok 2 c virt phys flags s1 s'"
    unfolding s' using o(5) o(9) fr al target_le [of flags] by (intro walk_ok_all) auto
  note w' = walk_okD(1-3) [OF w]
  have sd: "d \<notin> set (below 2 ?m (?m d i))" "set (below 2 ?m (?m d i)) \<subseteq> set (tables 3 ?m d)" "distinct (tables 3 ?m d)" if "i < 512" for i
    using ok that distinct_tables [of 2 ?m d] set_tables [of 2 ?m d] unfolding pt_ok_def k by auto
  have iu: "in_use (pg_phys s) t" if "t \<in> set (tables 3 ?m d)" for t using ok that by (auto simp: pt_ok_def)
  have i: "?i < 256" using u by (simp add: user_addr_def)
  have bi: "set (below 2 ?m (?m d ?i)) \<subseteq> low ?m d" using i by (auto simp: low_def)
  have "grows (low ?m d) s s1" using o(6) by (auto simp: grows_def low_def)
  then show g: "grows (low ?m d) s s'" by (rule grows_trans [OF _ w'(2)]) (use o(7) bi in blast)
  have cd: "d \<notin> set (tables 2 (pg_mem s1) c)" using o(7) sd(1) [of ?i] i iu [of d] by auto
  have g1: "in_use (pg_phys s1) t" "t \<noteq> d \<Longrightarrow> pg_mem s1 t = ?m t" if "in_use (pg_phys s) t" for t using o(6) that by (auto simp: grows_def)
  have m2: "pg_mem s' t = pg_mem s1 t" if "in_use (pg_phys s1) t" "t \<notin> set (tables 2 (pg_mem s1) c)" for t using w'(2) that by (auto simp: grows_def)
  have md: "pg_mem s' d = (?m d)(?i := e)" using m2 [of d] g1(1) [of d] iu [of d] cd o(1) by simp
  have oth: "below 2 (pg_mem s') (?m d j) = below 2 ?m (?m d j)" if j: "j < 256" "j \<noteq> ?i" for j
  proof (rule below_frame)
    fix t
    assume t: "t \<in> set (below 2 ?m (?m d j))"
    have j5: "j < 512" "?i < 512" using j i by auto
    have "set (below 2 ?m (?m d j)) \<inter> set (below 2 ?m (?m d ?i)) = {}" using sd(3) [OF j5(1)] j(2) j5 distinct_tables [of 2 ?m d] unfolding k by blast
    moreover have ti: "in_use (pg_phys s) t" using sd(2) [OF j5(1)] t iu by blast
    ultimately have "t \<notin> set (tables 2 (pg_mem s1) c)" "t \<noteq> d" using o(7) t sd(1) [OF j5(1)] by auto
    then show "pg_mem s' t = ?m t" using m2 [of t] g1 [OF ti] by simp
  qed
  have "below 2 (pg_mem s') e = tables 2 (pg_mem s') c" using o(2-4) by (simp add: below_Some)
  then have "set (below 2 (pg_mem s') e) \<subseteq> set (below 2 ?m (?m d ?i)) \<union> {t. \<not> in_use (pg_phys s) t}" using w'(3) o(7) g1(1) by auto
  moreover have "set (below 2 (pg_mem s') (pg_mem s' d j)) \<subseteq> low ?m d \<union> set (below 2 (pg_mem s') e)" if "j < 256" for j
    using that oth [of j] unfolding md low_def by (cases "j = ?i") auto
  ultimately show "low (pg_mem s') d \<subseteq> low ?m d \<union> {t. \<not> in_use (pg_phys s) t}" using bi unfolding low_def [of "pg_mem s'"] by (auto simp: low_def)
qed

text \<open>Two directories that share no table of the user half.\<close>

definition pair_ok :: "paging \<Rightarrow> u64 \<Rightarrow> u64 \<Rightarrow> bool" where
  "pair_ok s p c \<longleftrightarrow> dir_ok s p \<and> dir_ok s c \<and> low (pg_mem s) p \<inter> set (tables 3 (pg_mem s) c) = {} \<and> low (pg_mem s) c \<inter> set (tables 3 (pg_mem s) p) = {}"

lemma pair_sym: "pair_ok s p c \<longleftrightarrow> pair_ok s c p"
  by (auto simp: pair_ok_def)

lemma pair_walk:
  assumes ok: "pair_ok s p c" and fr: "3 \<le> free_blocks (pg_phys s)" and al: "phys AND PAGE_PHYS_MASK AND mask (12 + 9 * target flags) = 0" and u: "user_addr virt"
  defines "s' \<equiv> mmap_walk 3 p virt phys flags s"
  shows "pair_ok s' p c" and "translate s' c v = translate s c v" and "walk_ok 3 p virt phys flags s s'"
proof -
  have P: "dir_ok s p" "dir_ok s c" "low (pg_mem s) p \<inter> set (tables 3 (pg_mem s) c) = {}" "low (pg_mem s) c \<inter> set (tables 3 (pg_mem s) p) = {}"
    using ok by (auto simp: pair_ok_def)
  note lw = low_walk [OF P(1) fr al u, folded s'_def]
  show w: "walk_ok 3 p virt phys flags s s'" unfolding s'_def using fr target_le [of flags] al by (intro walk_ok_all [OF P(1)]) auto
  have "set (tables 3 (pg_mem s) c) \<inter> low (pg_mem s) p = {}" using P(3) by blast
  note od = other_dir_frame [OF lw(1) P(2) this]
  show "translate s' c v = translate s c v" by (rule od(2))
  have iu: "in_use (pg_phys s) t" "pg_mem s' t = pg_mem s t" if "t \<in> set (tables 3 (pg_mem s) c)" for t
    using P(2,3) lw(1) that by (auto simp: pt_ok_def grows_def)
  have tc: "tables 3 (pg_mem s') c = tables 3 (pg_mem s) c" by (rule tables_frame(1)) (rule iu(2))
  have "below 2 (pg_mem s') (pg_mem s c i) = below 2 (pg_mem s) (pg_mem s c i)" if "i < 256" for i
    by (rule below_frame) (use that low_tables [of "pg_mem s" c] iu(2) in \<open>auto simp: low_def\<close>)
  moreover have "pg_mem s' c = pg_mem s c" by (rule iu(2)) simp
  ultimately have lc: "low (pg_mem s') c = low (pg_mem s) c" by (simp add: low_def)
  have "low (pg_mem s') p \<inter> set (tables 3 (pg_mem s) c) = {}" using lw(2) P(3) iu(1) by blast
  moreover have "low (pg_mem s) c \<inter> set (tables 3 (pg_mem s') p) = {}" using walk_okD(3) [OF w] P(4) iu(1) low_tables [of "pg_mem s" c] by blast
  ultimately show "pair_ok s' p c" using walk_okD(1) [OF w] od(1) unfolding pair_ok_def tc lc by blast
qed


section \<open>One page\<close>

definition cowed :: "u64 \<Rightarrow> u64" where
  "cowed f = (if bit f 1 then cow_flags f else f)"

text \<open>The flags of the child's page for a page of the parent with flags \<open>f\<close>.\<close>

definition share :: "u64 \<Rightarrow> u64" where
  "share f = PAGE_PRESENT OR PAGE_USER OR (if bit (cowed f) 9 then PAGE_COW else 0) OR (if bit (cowed f) 63 then PAGE_NO_EXECUTE else 0)
     OR (if bit (cowed f) 1 then PAGE_WRITABLE else 0)"

lemma cowed_bit: "bit (cowed f) n \<longleftrightarrow> (if n = 1 then False else if n = 9 then bit f 9 \<or> bit f 1 else bit f n)"
  using bit_imp_le_length [of f n] by (auto simp: cowed_def cow_flags_def bit_or_iff bit_and_iff bit_not_iff)

lemma cowed_cowed [simp]: "cowed (cowed f) = cowed f"
  by (rule bit_eqI) (auto simp: cowed_bit)

lemma share_cowed [simp]: "share (cowed f) = share f"
  by (simp add: share_def)

lemma bit_share: "bit (share f) n \<longleftrightarrow> n = 0 \<or> n = 2 \<or> n = 9 \<and> (bit f 9 \<or> bit f 1) \<or> n = 63 \<and> bit f 63"
  by (auto simp: share_def bit_or_iff cowed_bit)

lemma share_hw: "share f AND PAGE_HW_FLAG = share f"
  by (rule bit_eqI) (auto simp: bit_and_iff bit_share)

lemma same_page_bit:
  assumes "same_piece 0 3 virt v" and "12 \<le> n" and "n < 48"
  shows "bit v n \<longleftrightarrow> bit virt n"
proof -
  let ?j = "(n - 12) div 9" and ?r = "(n - 12) mod 9"
  have n: "n = 12 + 9 * ?j + ?r" using assms(2) by simp
  have "?j \<le> 3" using assms(3) by linarith
  then have "table_index ?j v = table_index ?j virt" using assms(1) by (simp add: same_piece_def)
  then have "bit (table_index ?j v) ?r \<longleftrightarrow> bit (table_index ?j virt) ?r" by simp
  then show ?thesis unfolding bit_index n [symmetric] by simp
qed

lemma same_piece_mono: "same_piece 0 l virt v \<Longrightarrow> same_piece k l virt v"
  by (simp add: same_piece_def)

lemma view_page_None: "same_piece 0 l virt v \<Longrightarrow> view l m b v = None \<longleftrightarrow> view l m b virt = None"
proof (induction l arbitrary: b)
  case 0
  then show ?case by (simp add: same_piece_def level_simps)
next
  case (Suc l)
  then have "table_index (Suc l) v = table_index (Suc l) virt" "same_piece 0 l virt v" by (auto simp: same_piece_def)
  then show ?case using Suc.IH by (simp add: level_simps)
qed

lemma cow_walk:
  assumes ok: "dir_ok s dir" and e: "paging_get_entry_ext dir virt 0 s = (e, k)" and w: "bit e 1"
  obtains nf where "paging_make_cow dir virt s = mmap_walk 3 dir virt (e AND PAGE_PHYS_MASK) nf s"
    "e AND PAGE_PHYS_MASK AND PAGE_PHYS_MASK AND mask (12 + 9 * target nf) = 0"
proof -
  have "if bit e 0 then k \<le> 2 \<and> k \<le> 3 \<and> (bit e 7 \<longleftrightarrow> k \<noteq> 0) \<and> page_bits e \<and> e AND PAGE_PHYS_MASK AND mask (12 + 9 * k) = 0 \<and>
      (\<forall>w. same_piece k 3 virt w \<longrightarrow> translate s dir w = Some (leaf k e w))
    else e = 0 \<and> translate s dir virt = None"
    using get_entry_view [of 3 "pg_mem s" dir virt 0] ok e by (simp add: pt_ok_def paging_get_entry_ext_def)
  moreover have "e \<noteq> 0" using w by auto
  ultimately have g: "k \<le> 2" "bit e 7 \<longleftrightarrow> k \<noteq> 0" "page_bits e" "e AND PAGE_PHYS_MASK AND mask (12 + 9 * k) = 0" by (auto split: if_splits)
  define nf where "nf = cow_flags e OR (if k = 0 then 0 else if k = 2 then PAGE_1GB else PAGE_2MB)"
  have "\<not> bit e 61" "\<not> bit e 62" using g(3) by (simp_all add: page_bits_def)
  then have "target nf = k" using g(1) by (auto simp: target_def nf_def cow_flags_def bit_or_iff bit_and_iff)
  moreover have "paging_make_cow dir virt s = mmap_walk 3 dir virt (e AND PAGE_PHYS_MASK) nf s"
    using w g(2) by (simp add: paging_make_cow_def e Let_def nf_def cow_flags_def paging_mmap_def mmap_internal_def)
  ultimately show thesis using that [of nf] g(4) by (simp add: ac_simps)
qed

text \<open>The pages of \<open>V\<close> have been shared between parent and child.\<close>

definition cloned :: "u64 \<Rightarrow> u64 \<Rightarrow> u64 set \<Rightarrow> nat \<Rightarrow> paging \<Rightarrow> paging \<Rightarrow> bool" where
  "cloned p c V n g g' \<longleftrightarrow> pair_ok g' p c \<and> free_blocks (pg_phys g) \<le> free_blocks (pg_phys g') + n \<and>
     (\<forall>v \<in> V. translate g' p v = map_option (apsnd cowed) (translate g p v) \<and>
       translate g' c v = (case translate g p v of None \<Rightarrow> translate g c v | Some (ph, f) \<Rightarrow> Some (ph, share f))) \<and>
     (\<forall>v. v \<notin> V \<longrightarrow> translate g' c v = translate g c v \<and> (translate g' p v = translate g p v \<or> translate g' p v = map_option (apsnd cowed) (translate g p v)))"

lemma cloned_refl: "pair_ok g p c \<Longrightarrow> cloned p c {} 0 g g"
  by (simp add: cloned_def)

lemma cow_twice [simp]: "map_option (apsnd cowed) (map_option (apsnd cowed) x) = map_option (apsnd cowed) x"
  by (cases x) (auto simp: apsnd_def map_prod_def)

lemma cloned_trans:
  assumes a: "cloned p c V n g g1" and b: "cloned p c W m g1 g2"
  shows "cloned p c (V \<union> W) (n + m) g g2"
proof -
  have "translate g2 p v = map_option (apsnd cowed) (translate g p v) \<and>
    translate g2 c v = (case translate g p v of None \<Rightarrow> translate g c v | Some (ph, f) \<Rightarrow> Some (ph, share f))" if "v \<in> V \<union> W" for v
  proof (cases "v \<in> W")
    case True
    have x: "translate g1 p v = translate g p v \<or> translate g1 p v = map_option (apsnd cowed) (translate g p v)"
      "translate g1 c v = translate g c v \<or> translate g p v \<noteq> None"
      using a unfolding cloned_def by (cases "v \<in> V"; auto split: option.splits)+
    have y: "translate g2 p v = map_option (apsnd cowed) (translate g1 p v)"
      "translate g2 c v = (case translate g1 p v of None \<Rightarrow> translate g1 c v | Some (ph, f) \<Rightarrow> Some (ph, share f))"
      using b True unfolding cloned_def by blast+
    show ?thesis using x y by (cases "translate g p v") (auto split: option.splits)
  next
    case False
    then have "v \<in> V" using that by blast
    then show ?thesis using a b False unfolding cloned_def by (auto simp del: cow_twice) (use cow_twice in metis)+
  qed
  moreover have "translate g2 c v = translate g c v \<and> (translate g2 p v = translate g p v \<or> translate g2 p v = map_option (apsnd cowed) (translate g p v))"
    if "v \<notin> V \<union> W" for v
  proof -
    have "translate g1 c v = translate g c v \<and> (translate g1 p v = translate g p v \<or> translate g1 p v = map_option (apsnd cowed) (translate g p v))"
      "translate g2 c v = translate g1 c v \<and> (translate g2 p v = translate g1 p v \<or> translate g2 p v = map_option (apsnd cowed) (translate g1 p v))"
      using a b that unfolding cloned_def by blast+
    then show ?thesis by (metis cow_twice)
  qed
  ultimately show ?thesis using a b unfolding cloned_def by auto
qed

lemma entry_view:
  assumes "dir_ok g p" and "paging_get_entry_ext p virt 0 g = (e, k)"
  shows "if bit e 0 then k \<le> 2 \<and> e AND PAGE_PHYS_MASK AND mask (12 + 9 * k) = 0 \<and> (\<forall>w. same_piece k 3 virt w \<longrightarrow> translate g p w = Some (leaf k e w))
    else translate g p virt = None"
  using get_entry_view [of 3 "pg_mem g" p virt 0] assms by (auto simp: pt_ok_def paging_get_entry_ext_def split: if_splits)

lemma cow_page:
  assumes ok: "pair_ok g p c" and fr: "3 \<le> free_blocks (pg_phys g)" and u: "user_addr virt" and ek: "paging_get_entry_ext p virt 0 g = (e, k)"
    and e: "bit e 0" and g1: "g1 = paging_make_cow p virt g"
  shows "pair_ok g1 p c \<and> (\<forall>v. translate g1 c v = translate g c v) \<and> free_blocks (pg_phys g) \<le> free_blocks (pg_phys g1) + 3 \<and>
    (\<forall>v. translate g1 p v = (if same_piece k 3 virt v then map_option (apsnd cowed) (translate g p v) else translate g p v))"
proof -
  have po: "dir_ok g p" using ok by (simp add: pair_ok_def)
  have tr: "translate g p w = Some (leaf k e w)" if "same_piece k 3 virt w" for w using entry_view [OF po ek] e that by simp
  note mc = make_cow_ok [OF po fr ek g1]
  have sb: "bit (snd (leaf k e w)) 1 \<longleftrightarrow> bit e 1" for w by (simp add: leaf_def bit_and_iff bit_not_iff bit_or_iff)
  have cw: "map_option (apsnd cowed) (translate g p v) = (if bit e 1 then map_option (apsnd cow_flags) (translate g p v) else translate g p v)"
    if "same_piece k 3 virt v" for v using tr [OF that] sb [of v] by (cases "leaf k e v") (auto simp: cowed_def)
  show ?thesis
  proof (cases "bit e 1")
    case True
    obtain nf where nf: "g1 = mmap_walk 3 p virt (e AND PAGE_PHYS_MASK) nf g" "(e AND PAGE_PHYS_MASK) AND PAGE_PHYS_MASK AND mask (12 + 9 * target nf) = 0"
      using cow_walk [OF po ek True] unfolding g1 by (metis and.assoc)
    note pw = pair_walk [OF ok fr nf(2) u, folded nf(1)]
    have "free_blocks (pg_phys g) \<le> free_blocks (pg_phys g1) + 3" using walk_okD(5) [OF pw(3)] by linarith
    then show ?thesis using pw(1,2) mc True cw by auto
  next
    case False
    then show ?thesis using mc cw ok by auto
  qed
qed

text \<open>An address of the page translates to the address at the same place of the frame.\<close>

lemma leaf_page:
  assumes k: "k \<le> 2" and sp: "same_piece 0 3 virt v"
  shows "fst (leaf 0 (leaf_entry (fst (leaf k e virt)) flags) v) = fst (leaf k e v)"
proof (rule bit_eqI)
  fix n
  assume "possible_bit TYPE(64 word) n"
  have vb: "bit v n \<longleftrightarrow> bit virt n" if "12 \<le> n" "n < 12 + 9 * k" using same_page_bit [OF sp that(1)] that(2) k by simp
  show "bit (fst (leaf 0 (leaf_entry (fst (leaf k e virt)) flags) v)) n = bit (fst (leaf k e v)) n"
    using vb k unfolding leaf_def fst_conv by (auto simp: bit_and_iff bit_or_iff bit_not_iff bit_mask_iff bit_leaf_entry not_less)
qed

lemma clone_page_ok:
  assumes ok: "pair_ok g p c" and fr: "6 \<le> free_blocks (pg_phys g)" and u: "user_addr virt"
  shows "cloned p c {v. same_piece 0 3 virt v} 6 g (clone_page c p virt g)"
proof -
  obtain e k where ek: "paging_get_entry_ext p virt 0 g = (e, k)" by (cases "paging_get_entry_ext p virt 0 g")
  have po: "dir_ok g p" using ok by (simp add: pair_ok_def)
  have ge: "paging_get_entry p virt g = e" using ek by (simp add: paging_get_entry_def)
  note ev = entry_view [OF po ek]
  show ?thesis
  proof (cases "bit e 0")
    case False
    then have "translate g p v = None" if "same_piece 0 3 virt v" for v using ev view_page_None [OF that] by simp
    then show ?thesis using False ge ok by (auto simp: clone_page_def cloned_def)
  next
    case True
    then have k: "k \<le> 2" and tr: "\<And>w. same_piece k 3 virt w \<Longrightarrow> translate g p w = Some (leaf k e w)" using ev by auto
    define g1 where "g1 = paging_make_cow p virt g"
    have g1: "pair_ok g1 p c" "\<And>v. translate g1 c v = translate g c v" "free_blocks (pg_phys g) \<le> free_blocks (pg_phys g1) + 3"
      "\<And>v. translate g1 p v = (if same_piece k 3 virt v then map_option (apsnd cowed) (translate g p v) else translate g p v)"
      using cow_page [OF ok _ u ek True g1_def] fr by auto
    let ?f = "snd (leaf k e virt)" and ?ne = "paging_get_entry p virt g1"
    have "translate g1 p virt = Some (fst (leaf k e virt), cowed ?f)" using g1(4) [of virt] tr [of virt] by (simp add: apsnd_def map_prod_def split_beta)
    then have ne: "cowed ?f = ?ne AND NOT (PAGE_PHYS_MASK OR PAGE_HUGE)" "vaddr_to_paddr p virt g1 = fst (leaf k e virt)"
      using get_entry_translate [of g1 p virt] g1(1) by (simp_all add: pair_ok_def)
    have "bit (cowed ?f) n \<longleftrightarrow> bit ?ne n" if "n = 1 \<or> n = 9 \<or> n = 63" for n unfolding ne(1) using that by (auto simp: bit_and_iff bit_not_iff bit_or_iff)
    then have cf: "clone_page c p virt g = mmap_walk 3 c virt (fst (leaf k e virt)) (share ?f) g1"
      using True ge by (simp add: clone_page_def Let_def g1_def [symmetric] ne(2) share_def paging_mmap_def mmap_internal_def)
    have tg: "target (share ?f) = 0" by (simp add: target_def bit_share)
    have "PAGE_PHYS_MASK AND mask 12 = 0" by (rule bit_eqI) (auto simp: bit_and_iff bit_mask_iff)
    then have al: "fst (leaf k e virt) AND PAGE_PHYS_MASK AND mask (12 + 9 * target (share ?f)) = 0" unfolding tg by simp
    have f1: "3 \<le> free_blocks (pg_phys g1)" "pair_ok g1 c p" using g1(1,3) fr pair_sym by auto
    note pw = pair_walk [OF f1(2,1) al u, folded cf]
    have fl: "snd (leaf k e v) = ?f" for v by (simp add: leaf_def)
    have "mapping (fst (leaf k e virt)) (share ?f) v = Some (fst (leaf k e v), share ?f)" if "same_piece 0 3 virt v" for v
      using leaf_page [OF k that, of e "share ?f"] leaf_flags [of 0 "fst (leaf k e virt)" "share ?f" v]
      by (simp add: mapping_def tg bit_share share_hw prod_eq_iff)
    then have tc: "translate (clone_page c p virt g) c v = (if same_piece 0 3 virt v then Some (fst (leaf k e v), share ?f) else translate g c v)" for v
      using walk_okD(4) [OF pw(3), of v] g1(2) [of v] by (simp add: tg)
    have sk: "translate g p v = Some (fst (leaf k e v), ?f) \<and> same_piece k 3 virt v" if "same_piece 0 3 virt v" for v
      using tr [OF same_piece_mono [OF that]] same_piece_mono [OF that] fl [of v] by (simp add: prod_eq_iff)
    have "free_blocks (pg_phys g) \<le> free_blocks (pg_phys (clone_page c p virt g)) + 6" using g1(3) walk_okD(5) [OF pw(3)] by linarith
    then show ?thesis unfolding cloned_def using pw(1) pair_sym pw(2) tc g1(4) sk by (auto split: if_splits)
  qed
qed


section \<open>One area\<close>

lemma clone_pages_ok:
  assumes "pair_ok g p c" and "6 * n \<le> free_blocks (pg_phys g)" and "\<forall>i < n. user_addr (page_at a i)"
  shows "cloned p c {v. \<exists>i < n. same_piece 0 3 (page_at a i) v} (6 * n) g (fold (\<lambda>i. clone_page c p (a + of_nat i * of_nat BLOCK_SIZE)) [0..<n] g)"
  using assms(2,3)
proof (induction n)
  case 0
  then show ?case using cloned_refl [OF assms(1)] by simp
next
  case (Suc n)
  let ?g = "fold (\<lambda>i. clone_page c p (a + of_nat i * of_nat BLOCK_SIZE)) [0..<n] g"
  have c: "cloned p c {v. \<exists>i < n. same_piece 0 3 (page_at a i) v} (6 * n) g ?g" using Suc by simp
  then have "pair_ok ?g p c" "6 \<le> free_blocks (pg_phys ?g)" using Suc.prems(1) by (auto simp: cloned_def)
  then have "cloned p c {v. same_piece 0 3 (page_at a n) v} 6 ?g (clone_page c p (page_at a n) ?g)" using Suc.prems(2) by (intro clone_page_ok) auto
  from cloned_trans [OF c this] show ?case by (simp add: page_at_def less_Suc_eq Un_def ex_disj_distrib conj_disj_distribR add.commute disj_commute)
qed

definition user_area :: "virtual_memory \<Rightarrow> bool" where
  "user_area v \<longleftrightarrow> start_address v < end_address v \<and> unat (end_address v) \<le> 2 ^ 47 \<and> take_bit 12 (start_address v) = 0 \<and> area_pages v < 1000000"

text \<open>The addresses of the pages of an area.\<close>

definition span :: "virtual_memory \<Rightarrow> u64 set" where
  "span v = {a. unat (start_address v) \<le> va a \<and> va a < unat (start_address v) + 4096 * unat (area_pages v)}"

lemma va_small: "unat v < 2 ^ 48 \<Longrightarrow> va v = unat v"
  unfolding va_def by (simp only: unsigned_take_bit_eq) (simp add: take_bit_eq_mod)

lemma user_small: "unat v < 2 ^ 47 \<Longrightarrow> user_addr v"
proof -
  assume v: "unat v < 2 ^ 47"
  have "unat (drop_bit 39 v AND 0x1FF) \<le> unat (drop_bit 39 v)" by (rule word_le_nat_alt [THEN iffD1]) (rule word_and_le2)
  also have "\<dots> < 256" using v by (simp only: unat_drop_bit_eq) (simp add: drop_bit_eq_div less_mult_imp_div_less)
  finally show ?thesis by (simp add: user_addr_def table_index_def)
qed

lemma area_bounds:
  assumes "user_area v"
  shows "unat (start_address v) + 4096 * unat (area_pages v) \<le> 2 ^ 47" and "0 < unat (area_pages v)"
    and "unat (end_address v) \<le> unat (start_address v) + 4096 * unat (area_pages v)"
proof -
  let ?s = "unat (start_address v)" and ?e = "unat (end_address v)"
  have v: "?s < ?e" "?e \<le> 2 ^ 47" "4096 dvd ?s" using assms by (auto simp: user_area_def word_less_nat_alt page_aligned)
  have sub: "unat (end_address v - start_address v) = ?e - ?s" using v(1) by (simp add: unat_sub word_le_nat_alt)
  have "unat (end_address v - start_address v + 4095) = ?e - ?s + 4095"
    using v unfolding unat_word_ariths sub by simp
  then have u: "unat ((end_address v - start_address v + 4095) div of_nat BLOCK_SIZE) = (?e - ?s + 4095) div 4096"
    by (simp add: unat_div BLOCK_SIZE_def)
  have pos: "0 < (?e - ?s + 4095) div 4096" using v(1) by (simp add: div_greater_zero_iff)
  then have "(end_address v - start_address v + 4095) div of_nat BLOCK_SIZE \<noteq> 0" using u by (metis less_irrefl unsigned_0)
  then have ap: "unat (area_pages v) = (?e - ?s + 4095) div 4096" using u by (simp add: area_pages_def Let_def)
  show "0 < unat (area_pages v)" using ap pos by simp
  obtain k where k: "?s = 4096 * k" using v(3) by blast
  have "(?e - ?s + 4095) div 4096 \<le> 2 ^ 35 - k"
  proof -
    have "?e - ?s + 4095 < 4096 * (2 ^ 35 - k + 1)" using v k by simp
    then show ?thesis using less_mult_imp_div_less [of "?e - ?s + 4095" "2 ^ 35 - k + 1" 4096] by (simp add: mult.commute)
  qed
  then show "?s + 4096 * unat (area_pages v) \<le> 2 ^ 47" using ap k v by simp
  show "?e \<le> ?s + 4096 * unat (area_pages v)" unfolding ap by linarith
qed

lemma span_pages:
  assumes "user_area v"
  shows "{a. \<exists>i < unat (area_pages v). same_piece 0 3 (page_at (start_address v) i) a} = span v" and "\<forall>i < unat (area_pages v). user_addr (page_at (start_address v) i)"
proof -
  let ?s = "unat (start_address v)" and ?n = "unat (area_pages v)"
  have b: "?s + 4096 * ?n \<le> 2 ^ 47" by (rule area_bounds [OF assms])
  obtain k where k: "?s = 4096 * k" using assms by (auto simp: user_area_def page_aligned)
  have pa: "unat (page_at (start_address v) i) = 4096 * (k + i)" "unat (page_at (start_address v) i) < 2 ^ 47" if "i < ?n" for i
  proof -
    have "4096 * Suc i \<le> 4096 * ?n" using that by simp
    then show "unat (page_at (start_address v) i) = 4096 * (k + i)" "unat (page_at (start_address v) i) < 2 ^ 47"
      using unat_page_at [of "start_address v" i] b k by (simp_all add: algebra_simps)
  qed
  then show "\<forall>i < ?n. user_addr (page_at (start_address v) i)" using user_small by blast
  have "same_piece 0 3 (page_at (start_address v) i) a \<longleftrightarrow> va a div 4096 = k + i" if "i < ?n" for i a
    using same_piece_div [of 0 "page_at (start_address v) i" a] va_small [of "page_at (start_address v) i"] pa [OF that] by simp
  then have "(\<exists>i < ?n. same_piece 0 3 (page_at (start_address v) i) a) \<longleftrightarrow> k \<le> va a div 4096 \<and> va a div 4096 < k + ?n" for a
    by (auto intro!: exI [of _ "va a div 4096 - k"])
  also have "\<dots> a \<longleftrightarrow> a \<in> span v" for a
    unfolding span_def k by (simp add: less_eq_div_iff_mult_less_eq div_less_iff_less_mult algebra_simps)
  finally show "{a. \<exists>i < ?n. same_piece 0 3 (page_at (start_address v) i) a} = span v" by blast
qed

text \<open>The child's area for an area of the parent.\<close>

definition clone_of :: "virtual_memory \<Rightarrow> virtual_memory" where
  "clone_of v = v\<lparr>vm_length := end_address v - start_address v, vm_core := 0\<rparr>"

lemma clone_new: "new_area (phys_address v) (start_address v) (end_address v - start_address v) (vm_flags v) = clone_of v"
  by (cases v) (simp add: new_area_def clone_of_def)

definition keeps_zones :: "vm \<Rightarrow> ptr \<Rightarrow> vm \<Rightarrow> bool" where
  "keeps_zones s p s' \<longleftrightarrow> (\<exists>root. v_pages s' p = map_option (\<lambda>pg. pg\<lparr>vp_tree := root\<rparr>) (v_pages s p))"

lemma zones_refl [simp]: "keeps_zones s p s"
proof (cases "v_pages s p")
  case (Some pg)
  then show ?thesis unfolding keeps_zones_def by (intro exI [of _ "vp_tree pg"]) simp
qed (simp add: keeps_zones_def)

lemma zones_trans: "keeps_zones s p s1 \<Longrightarrow> keeps_zones s1 p s2 \<Longrightarrow> keeps_zones s p s2"
  by (cases "v_pages s p") (auto simp: keeps_zones_def)

lemma clone_area_ok:
  assumes ok: "vm_ok s T" and tc: "T kid = Some tc" and u: "user_area (v_vmas s d)" and new: "vma_key s d \<notin> dom (areas s tc)"
    and ne: "rbt_node_cache s \<noteq> []" "vma_cache s \<noteq> []" and g: "pair_ok g pp pc" "6 * unat (area_pages (v_vmas s d)) \<le> free_blocks (pg_phys g)"
  shows "\<exists>s' g' tc'. clone_area kid pc pp d (s, g) = Some (s', g') \<and> vm_ok s' (T(kid \<mapsto> tc')) \<and>
    areas s' tc' = (areas s tc)(vma_key s d \<mapsto> clone_of (v_vmas s d)) \<and> (\<forall>q u. q \<noteq> kid \<longrightarrow> T q = Some u \<longrightarrow> areas s' u = areas s u) \<and>
    length (rbt_node_cache s) \<le> Suc (length (rbt_node_cache s')) \<and> length (vma_cache s) \<le> Suc (length (vma_cache s')) \<and> touches s kid tc s' \<and>
    cloned pp pc (span (v_vmas s d)) (6 * unat (area_pages (v_vmas s d))) g g' \<and> keeps_zones s kid s'"
proof -
  let ?v = "v_vmas s d"
  obtain n ns e es where c: "rbt_node_cache s = n # ns" "vma_cache s = e # es" using ne by (meson neq_Nil_conv)
  define g' where "g' = fold (\<lambda>i. clone_page pc pp (start_address ?v + of_nat i * of_nat BLOCK_SIZE)) [0..<unat (area_pages ?v)] g"
  have cl: "cloned pp pc (span ?v) (6 * unat (area_pages ?v)) g g'"
    using clone_pages_ok [OF g span_pages(2) [OF u]] unfolding g'_def span_pages(1) [OF u] .
  have "unat (start_address ?v) < 2 ^ 47" using u by (auto simp: user_area_def word_less_nat_alt)
  then have low: "start_address ?v < VMA_REGION_A" by (simp add: word_less_nat_alt VMA_REGION_A_def)
  have cd: "clone_area kid pc pp d (s, g) =
    map_option (\<lambda>s1. (s1, g')) (vma_register_locked (Some kid) (phys_address ?v) (start_address ?v) (end_address ?v - start_address ?v) (vm_flags ?v) s)"
    using u low by (simp add: clone_area_def Let_def user_area_def g'_def)
  show ?thesis
  proof (rule register_ok [OF ok tc c, of "phys_address ?v" "start_address ?v" "end_address ?v - start_address ?v" "vm_flags ?v"])
    fix s' tc'
    assume r: "vma_register_locked (Some kid) (phys_address ?v) (start_address ?v) (end_address ?v - start_address ?v) (vm_flags ?v) s = Some s'"
      "vm_ok s' (T(kid \<mapsto> tc'))"
      "areas s' tc' = (if start_address ?v \<in> dom (areas s tc) then areas s tc
         else (areas s tc)(start_address ?v \<mapsto> new_area (phys_address ?v) (start_address ?v) (end_address ?v - start_address ?v) (vm_flags ?v)))"
      "\<And>q u. q \<noteq> kid \<Longrightarrow> T q = Some u \<Longrightarrow> areas s' u = areas s u"
      "length (rbt_node_cache s) \<le> Suc (length (rbt_node_cache s'))" "length (vma_cache s) \<le> Suc (length (vma_cache s'))" "touches s kid tc s'"
    obtain pg where "v_pages s kid = Some pg" using vm_okD(2) [OF ok tc] by (auto simp: space_ok_def)
    then have "keeps_zones s kid s'" using register_zones [of kid _ _ _ _ s s' pg] r(1) by (auto simp: vma_register_def keeps_zones_def)
    moreover have "areas s' tc' = (areas s tc)(vma_key s d \<mapsto> clone_of ?v)" using r(3) new unfolding clone_new vma_key_def by simp
    ultimately show ?thesis using r(1,2,4-7) cl cd by auto
  qed
qed


section \<open>The whole space\<close>

text \<open>What a list of areas needs, covers and shows.\<close>

definition page_count :: "vm \<Rightarrow> ptr list \<Rightarrow> nat" where
  "page_count s ds = sum_list (map (\<lambda>d. unat (area_pages (v_vmas s d))) ds)"

definition spans :: "vm \<Rightarrow> ptr list \<Rightarrow> u64 set" where
  "spans s ds = (\<Union>d \<in> set ds. span (v_vmas s d))"

definition area_map :: "vm \<Rightarrow> ptr list \<Rightarrow> u64 \<rightharpoonup> virtual_memory" where
  "area_map s ds = map_of (map (\<lambda>d. (vma_key s d, v_vmas s d)) ds)"

lemma same_objs:
  assumes "\<forall>d \<in> set ds. v_vmas s' d = v_vmas s d"
  shows "page_count s' ds = page_count s ds" "spans s' ds = spans s ds" "area_map s' ds = area_map s ds" "map (vma_key s') ds = map (vma_key s) ds"
  using assms by (auto simp: page_count_def spans_def area_map_def vma_key_def intro!: arg_cong [of _ _ sum_list] arg_cong [of _ _ map_of])

text \<open>The areas \<open>ds\<close> of the parent's tree \<open>tp\<close> that are still to be copied, and the state when they have been.\<close>

definition to_clone :: "vm \<Rightarrow> paging \<Rightarrow> (ptr \<rightharpoonup> ptree) \<Rightarrow> ptr \<Rightarrow> ptr \<Rightarrow> u64 \<Rightarrow> u64 \<Rightarrow> ptree \<Rightarrow> ptree \<Rightarrow> ptr list \<Rightarrow> bool" where
  "to_clone s g T parent kid pp pc tp tc ds \<longleftrightarrow> vm_ok s T \<and> T parent = Some tp \<and> T kid = Some tc \<and> parent \<noteq> kid \<and> set ds \<subseteq> set (area_objs s tp) \<and>
     distinct (map (vma_key s) ds) \<and> vma_key s ` set ds \<inter> dom (areas s tc) = {} \<and> (\<forall>d \<in> set ds. user_area (v_vmas s d)) \<and>
     length ds \<le> length (rbt_node_cache s) \<and> length ds \<le> length (vma_cache s) \<and> pair_ok g pp pc \<and> 6 * page_count s ds \<le> free_blocks (pg_phys g)"

definition kept :: "vm \<Rightarrow> ptree \<Rightarrow> vm \<Rightarrow> bool" where
  "kept s tp s' \<longleftrightarrow> VMA_RBT_NIL s' = VMA_RBT_NIL s \<and> (\<forall>n \<in> set (ptrs tp). v_nodes s' n = v_nodes s n) \<and> (\<forall>d \<in> set (area_objs s tp). v_vmas s' d = v_vmas s d)"

definition done_clone :: "vm \<Rightarrow> paging \<Rightarrow> (ptr \<rightharpoonup> ptree) \<Rightarrow> ptr \<Rightarrow> u64 \<Rightarrow> u64 \<Rightarrow> ptree \<Rightarrow> ptree \<Rightarrow> ptr list \<Rightarrow> vm \<Rightarrow> paging \<Rightarrow> ptree \<Rightarrow> bool" where
  "done_clone s g T kid pp pc tp tc ds s' g' tc' \<longleftrightarrow> vm_ok s' (T(kid \<mapsto> tc')) \<and>
     areas s' tc' = (\<lambda>a. case area_map s ds a of None \<Rightarrow> areas s tc a | Some v \<Rightarrow> Some (clone_of v)) \<and>
     (\<forall>q u. q \<noteq> kid \<longrightarrow> T q = Some u \<longrightarrow> areas s' u = areas s u) \<and> kept s tp s' \<and>
     length (rbt_node_cache s) \<le> length (rbt_node_cache s') + length ds \<and> length (vma_cache s) \<le> length (vma_cache s') + length ds \<and>
     cloned pp pc (spans s ds) (6 * page_count s ds) g g' \<and> keeps_zones s kid s'"

lemma kept_objs: "kept s tp s' \<Longrightarrow> area_objs s' tp = area_objs s tp"
  by (simp add: kept_def area_objs_def node_area_def)

lemma kept_trans: "kept s tp s1 \<Longrightarrow> kept s1 tp s2 \<Longrightarrow> kept s tp s2"
  using kept_objs [of s tp s1] by (simp add: kept_def)

lemma done_Nil: "to_clone s g T parent kid pp pc tp tc ds \<Longrightarrow> done_clone s g T kid pp pc tp tc [] s g tc"
  using cloned_refl [of g pp pc] by (auto simp: to_clone_def done_clone_def area_map_def spans_def page_count_def kept_def map_upd_triv)

lemma clone_then:
  assumes t: "to_clone s g T parent kid pp pc tp tc (xs @ ys)" and d: "done_clone s g T kid pp pc tp tc xs s1 g1 tc1"
  shows "to_clone s1 g1 (T(kid \<mapsto> tc1)) parent kid pp pc tp tc1 ys"
proof -
  have T: "T parent = Some tp" "T kid = Some tc" "parent \<noteq> kid" "set xs \<subseteq> set (area_objs s tp)" "set ys \<subseteq> set (area_objs s tp)"
    "distinct (map (vma_key s) xs @ map (vma_key s) ys)" "vma_key s ` set (xs @ ys) \<inter> dom (areas s tc) = {}" "\<forall>d \<in> set (xs @ ys). user_area (v_vmas s d)"
    using t by (auto simp: to_clone_def)
  have D: "vm_ok s1 (T(kid \<mapsto> tc1))" "areas s1 tc1 = (\<lambda>a. case area_map s xs a of None \<Rightarrow> areas s tc a | Some v \<Rightarrow> Some (clone_of v))" "kept s tp s1"
    "cloned pp pc (spans s xs) (6 * page_count s xs) g g1" using d by (auto simp: done_clone_def)
  have v: "\<forall>d \<in> set ys. v_vmas s1 d = v_vmas s d" using D(3) T(5) by (auto simp: kept_def)
  note sm = same_objs [OF v]
  have "set (map (vma_key s) xs) \<inter> set (map (vma_key s) ys) = {}" using T(6) unfolding distinct_append by blast
  moreover have "area_map s xs a = None" if "a \<notin> set (map (vma_key s) xs)" for a using that by (auto simp: area_map_def map_of_eq_None_iff image_image)
  ultimately have "areas s1 tc1 a = None" if "a \<in> set (map (vma_key s) ys)" for a
  proof -
    have "a \<notin> set (map (vma_key s) xs)" using that \<open>set (map (vma_key s) xs) \<inter> set (map (vma_key s) ys) = {}\<close> by blast
    then have "area_map s xs a = None" by (rule \<open>\<And>a. a \<notin> set (map (vma_key s) xs) \<Longrightarrow> area_map s xs a = None\<close>)
    moreover have "areas s tc a = None" using that T(7) by (auto simp: dom_def)
    ultimately show ?thesis unfolding D(2) by simp
  qed
  then have "set (map (vma_key s1) ys) \<inter> dom (areas s1 tc1) = {}" unfolding sm(4) by (auto simp: dom_def)
  moreover have "pair_ok g1 pp pc" "free_blocks (pg_phys g) \<le> free_blocks (pg_phys g1) + 6 * page_count s xs" using D(4) by (auto simp: cloned_def)
  moreover have "page_count s (xs @ ys) = page_count s xs + page_count s ys" by (simp add: page_count_def)
  moreover have "distinct (map (vma_key s1) ys)" unfolding sm(4) using T(6) by simp
  ultimately show ?thesis using D(1) T t d kept_objs [OF D(3)] v unfolding to_clone_def done_clone_def sm(1) by auto
qed

lemma clone_join:
  assumes t: "to_clone s g T parent kid pp pc tp tc (xs @ ys)" and d: "done_clone s g T kid pp pc tp tc xs s1 g1 tc1"
    and e: "done_clone s1 g1 (T(kid \<mapsto> tc1)) kid pp pc tp tc1 ys s2 g2 tc2"
  shows "done_clone s g T kid pp pc tp tc (xs @ ys) s2 g2 tc2"
proof -
  have ys: "set ys \<subseteq> set (area_objs s tp)" "distinct (map (vma_key s) xs @ map (vma_key s) ys)" using t by (auto simp: to_clone_def)
  have D: "areas s1 tc1 = (\<lambda>a. case area_map s xs a of None \<Rightarrow> areas s tc a | Some v \<Rightarrow> Some (clone_of v))" "kept s tp s1"
    "cloned pp pc (spans s xs) (6 * page_count s xs) g g1" using d by (auto simp: done_clone_def)
  have "\<forall>d \<in> set ys. v_vmas s1 d = v_vmas s d" using D(2) ys(1) by (auto simp: kept_def)
  note sm = same_objs [OF this]
  have E: "areas s2 tc2 = (\<lambda>a. case area_map s ys a of None \<Rightarrow> areas s1 tc1 a | Some v \<Rightarrow> Some (clone_of v))" "kept s1 tp s2"
    "cloned pp pc (spans s ys) (6 * page_count s ys) g1 g2" using e unfolding done_clone_def sm by auto
  have pc: "page_count s (xs @ ys) = page_count s xs + page_count s ys" "spans s (xs @ ys) = spans s xs \<union> spans s ys" by (auto simp: page_count_def spans_def)
  have "set (map (vma_key s) xs) \<inter> set (map (vma_key s) ys) = {}" using ys(2) unfolding distinct_append by blast
  then have dj: "area_map s xs a = None \<or> area_map s ys a = None" for a by (auto simp: area_map_def map_of_eq_None_iff image_image)
  have "areas s2 tc2 a = (case area_map s (xs @ ys) a of None \<Rightarrow> areas s tc a | Some v \<Rightarrow> Some (clone_of v))" for a
    unfolding E(1) D(1) using dj [of a] by (auto simp: area_map_def map_add_def split: option.splits)
  then have "areas s2 tc2 = (\<lambda>a. case area_map s (xs @ ys) a of None \<Rightarrow> areas s tc a | Some v \<Rightarrow> Some (clone_of v))" by blast
  moreover have "cloned pp pc (spans s (xs @ ys)) (6 * page_count s (xs @ ys)) g g2" using cloned_trans [OF D(3) E(3)] by (simp add: pc algebra_simps)
  moreover have "kept s tp s2" by (rule kept_trans [OF D(2) E(2)])
  moreover have "keeps_zones s kid s2" by (rule zones_trans [of _ _ s1]) (use d e in \<open>auto simp: done_clone_def\<close>)
  moreover have "areas s2 u = areas s u" if "q \<noteq> kid" "T q = Some u" for q u using d e that by (auto simp: done_clone_def)
  ultimately show ?thesis using d e unfolding done_clone_def by auto
qed

lemma clone_one:
  assumes t: "to_clone s g T parent kid pp pc tp tc [d]"
  shows "\<exists>s' g' tc'. clone_area kid pc pp d (s, g) = Some (s', g') \<and> done_clone s g T kid pp pc tp tc [d] s' g' tc'"
proof -
  have T: "vm_ok s T" "T parent = Some tp" "T kid = Some tc" "parent \<noteq> kid" "user_area (v_vmas s d)" "vma_key s d \<notin> dom (areas s tc)"
    "rbt_node_cache s \<noteq> []" "vma_cache s \<noteq> []" "pair_ok g pp pc" "6 * unat (area_pages (v_vmas s d)) \<le> free_blocks (pg_phys g)"
    using t by (auto simp: to_clone_def page_count_def)
  obtain s' g' tc' where r: "clone_area kid pc pp d (s, g) = Some (s', g')" "vm_ok s' (T(kid \<mapsto> tc'))"
    "areas s' tc' = (areas s tc)(vma_key s d \<mapsto> clone_of (v_vmas s d))" "\<forall>q u. q \<noteq> kid \<longrightarrow> T q = Some u \<longrightarrow> areas s' u = areas s u"
    "length (rbt_node_cache s) \<le> Suc (length (rbt_node_cache s'))" "length (vma_cache s) \<le> Suc (length (vma_cache s'))" "touches s kid tc s'"
    "cloned pp pc (span (v_vmas s d)) (6 * unat (area_pages (v_vmas s d))) g g'" "keeps_zones s kid s'"
    using clone_area_ok [OF T(1,3,5-10)] by blast
  have "set (ptrs tp) \<inter> set (ptrs tc) = {} \<and> set (area_objs s tp) \<inter> set (area_objs s tc) = {}" by (rule vm_okD(3) [OF T(1,4,2,3)])
  moreover have "set (ptrs tp) \<inter> set (rbt_node_cache s) = {}" "set (area_objs s tp) \<inter> set (vma_cache s) = {}"
    using vm_okD(2) [OF T(1,2)] by (auto simp: space_ok_def)
  ultimately have "kept s tp s'" using r(7) unfolding kept_def touches_def by (meson disjoint_iff)
  then have "done_clone s g T kid pp pc tp tc [d] s' g' tc'"
    using r by (auto simp: done_clone_def area_map_def page_count_def spans_def fun_eq_iff)
  then show ?thesis using r(1) by blast
qed

lemma clone_tree:
  assumes "to_clone s g T parent kid pp pc tp tc (area_objs s t)" and "repr (VMA_RBT_NIL s) (v_nodes s) par t" and "set (ptrs t) \<subseteq> set (ptrs tp)"
  shows "\<exists>s' g' tc'. vma_clone_cow_recursive kid pc pp (rootp (VMA_RBT_NIL s) t) (s, g) = Some (s', g') \<and>
    done_clone s g T kid pp pc tp tc (area_objs s t) s' g' tc'"
  using assms
proof (induction t arbitrary: s g T tc par)
  case Leaf
  have "done_clone s g T kid pp pc tp tc [] s g tc" by (rule done_Nil [OF Leaf.prems(1)])
  then show ?case by (subst vma_clone_cow_recursive.simps) (auto simp: area_objs_def)
next
  case (Node l n r)
  have tr: "n \<noteq> VMA_RBT_NIL s" "repr (VMA_RBT_NIL s) (v_nodes s) n l" "repr (VMA_RBT_NIL s) (v_nodes s) n r"
    "n_left (v_nodes s n) = rootp (VMA_RBT_NIL s) l" "n_right (v_nodes s n) = rootp (VMA_RBT_NIL s) r" using Node.prems(2) by auto
  have sp: "space_ok s parent tp" using Node.prems(1) vm_okD(2) by (auto simp: to_clone_def)
  have nt: "n \<in> set (ptrs tp)" using Node.prems(3) by simp
  then have n0: "n \<noteq> 0" "n_data (v_nodes s n) = Some (node_area s n)" using sp node_keys(2) by (auto simp: space_ok_def)
  let ?L = "area_objs s l" and ?d = "node_area s n" and ?R = "area_objs s r"
  have ob: "area_objs s (Node l n r) = ?L @ [?d] @ ?R" by (simp add: area_objs_def)
  note t0 = Node.prems(1) [unfolded ob]
  have tl: "to_clone s g T parent kid pp pc tp tc ?L" using t0 by (auto simp: to_clone_def page_count_def)
  obtain s1 g1 tc1 where s1: "vma_clone_cow_recursive kid pc pp (rootp (VMA_RBT_NIL s) l) (s, g) = Some (s1, g1)" "done_clone s g T kid pp pc tp tc ?L s1 g1 tc1"
    using Node.IH(1) [OF tl tr(2)] Node.prems(3) by auto
  note t1 = clone_then [OF t0 s1(2)]
  have k1: "kept s tp s1" using s1(2) by (simp add: done_clone_def)
  have td: "to_clone s1 g1 (T(kid \<mapsto> tc1)) parent kid pp pc tp tc1 [?d]" using t1 by (auto simp: to_clone_def page_count_def)
  obtain s2 g2 tc2 where s2: "clone_area kid pc pp ?d (s1, g1) = Some (s2, g2)" "done_clone s1 g1 (T(kid \<mapsto> tc1)) kid pp pc tp tc1 [?d] s2 g2 tc2"
    using clone_one [OF td] by blast
  note t2 = clone_then [OF t1 s2(2)]
  have rs: "set (ptrs r) \<subseteq> set (ptrs tp)" using Node.prems(3) by simp
  have k2: "kept s tp s2" using kept_trans [OF k1] s2(2) by (simp add: done_clone_def)
  have R: "area_objs s2 r = ?R" "rootp (VMA_RBT_NIL s2) r = rootp (VMA_RBT_NIL s) r" "repr (VMA_RBT_NIL s2) (v_nodes s2) n r"
    using k2 Node.prems(3) tr(3) by (auto simp: kept_def area_objs_def node_area_def same_links_def elim!: repr_frame)
  obtain s3 g3 tc3 where s3: "vma_clone_cow_recursive kid pc pp (rootp (VMA_RBT_NIL s2) r) (s2, g2) = Some (s3, g3)"
    "done_clone s2 g2 (T(kid \<mapsto> tc1, kid \<mapsto> tc2)) kid pp pc tp tc2 ?R s3 g3 tc3"
    using Node.IH(2) [OF t2 [folded R(1)] R(3)] rs unfolding R(1) by blast
  have "done_clone s g T kid pp pc tp tc (?L @ [?d] @ ?R) s3 g3 tc3" by (rule clone_join [OF t0 s1(2) clone_join [OF t1 s2(2) s3(2)]])
  moreover have "n_data (v_nodes s1 n) = Some ?d" "n_right (v_nodes s2 n) = rootp (VMA_RBT_NIL s) r" using k1 k2 n0(2) tr(5) nt by (auto simp: kept_def)
  then have "vma_clone_cow_recursive kid pc pp n (s, g) = Some (s3, g3)"
    using s1(1) s2(1) s3(1) tr(1,4) n0 R(2) by (subst vma_clone_cow_recursive.simps) simp
  ultimately show ?case unfolding ob by auto
qed


section \<open>The zones\<close>

definition zone_ranges :: "virtual_memory_tree \<Rightarrow> (u64 \<times> u64) list" where
  "zone_ranges z = map (\<lambda>n. (zn_start n, zn_end n)) (zt_active z)"

lemma clone_nodes_ok:
  "length ns \<le> length pool \<Longrightarrow> \<exists>ns'. clone_nodes ns pool = Some (ns', drop (length ns) pool) \<and> map (\<lambda>n. (zn_start n, zn_end n)) ns' = map (\<lambda>n. (zn_start n, zn_end n)) ns"
  by (induction ns pool rule: clone_nodes.induct) auto

lemma tree_clone_ok:
  assumes "n + length (zt_active z) \<le> length (vma_tree_zone_cache s)"
  obtains pool z' where "vma_tree_clone z s = Some (s\<lparr>vma_tree_zone_cache := pool\<rparr>, z')" "n \<le> length pool" "zone_ranges z' = zone_ranges z"
  using clone_nodes_ok [of "zt_active z" "vma_tree_zone_cache s"] assms by (auto simp: vma_tree_clone_def zone_ranges_def)

definition zone_size :: "virtual_memory_page \<Rightarrow> nat" where
  "zone_size pg = length (zt_active (vma_tree_zone_process pg)) + length (zt_active (vma_tree_zone_a pg)) + length (zt_active (vma_tree_zone_b pg)) +
     length (zt_active (vma_tree_zone_c pg)) + length (zt_active (vma_tree_zone_kmodule pg))"

definition same_zones :: "virtual_memory_page \<Rightarrow> virtual_memory_page \<Rightarrow> bool" where
  "same_zones pg pg' \<longleftrightarrow> zone_ranges (vma_tree_zone_process pg') = zone_ranges (vma_tree_zone_process pg) \<and>
     zone_ranges (vma_tree_zone_a pg') = zone_ranges (vma_tree_zone_a pg) \<and> zone_ranges (vma_tree_zone_b pg') = zone_ranges (vma_tree_zone_b pg) \<and>
     zone_ranges (vma_tree_zone_c pg') = zone_ranges (vma_tree_zone_c pg) \<and> zone_ranges (vma_tree_zone_kmodule pg') = zone_ranges (vma_tree_zone_kmodule pg)"

lemma clone_zones_ok:
  assumes "zone_size pp \<le> length (vma_tree_zone_cache s)"
  shows "\<exists>pool pc'. clone_zones pp pc s = Some (s\<lparr>vma_tree_zone_cache := pool\<rparr>, pc') \<and> same_zones pp pc' \<and> vp_tree pc' = vp_tree pc"
proof -
  let ?n = "\<lambda>z. length (zt_active z)"
  let ?k = "?n (vma_tree_zone_kmodule pp)" and ?c = "?n (vma_tree_zone_c pp)" and ?b = "?n (vma_tree_zone_b pp)" and ?a = "?n (vma_tree_zone_a pp)"
  obtain p1 z1 where z1: "vma_tree_clone (vma_tree_zone_process pp) s = Some (s\<lparr>vma_tree_zone_cache := p1\<rparr>, z1)" "?a + ?b + ?c + ?k \<le> length p1"
    "zone_ranges z1 = zone_ranges (vma_tree_zone_process pp)" by (rule tree_clone_ok [of "?a + ?b + ?c + ?k" "vma_tree_zone_process pp" s]) (use assms in \<open>auto simp: zone_size_def ac_simps\<close>)
  obtain p2 z2 where z2: "vma_tree_clone (vma_tree_zone_a pp) (s\<lparr>vma_tree_zone_cache := p1\<rparr>) = Some (s\<lparr>vma_tree_zone_cache := p2\<rparr>, z2)" "?b + ?c + ?k \<le> length p2"
    "zone_ranges z2 = zone_ranges (vma_tree_zone_a pp)" by (rule tree_clone_ok [of "?b + ?c + ?k" _ "s\<lparr>vma_tree_zone_cache := p1\<rparr>"]) (use z1(2) in auto)
  obtain p3 z3 where z3: "vma_tree_clone (vma_tree_zone_b pp) (s\<lparr>vma_tree_zone_cache := p2\<rparr>) = Some (s\<lparr>vma_tree_zone_cache := p3\<rparr>, z3)" "?c + ?k \<le> length p3"
    "zone_ranges z3 = zone_ranges (vma_tree_zone_b pp)" by (rule tree_clone_ok [of "?c + ?k" _ "s\<lparr>vma_tree_zone_cache := p2\<rparr>"]) (use z2(2) in auto)
  obtain p4 z4 where z4: "vma_tree_clone (vma_tree_zone_c pp) (s\<lparr>vma_tree_zone_cache := p3\<rparr>) = Some (s\<lparr>vma_tree_zone_cache := p4\<rparr>, z4)" "?k \<le> length p4"
    "zone_ranges z4 = zone_ranges (vma_tree_zone_c pp)" by (rule tree_clone_ok [of "?k" _ "s\<lparr>vma_tree_zone_cache := p3\<rparr>"]) (use z3(2) in auto)
  obtain p5 z5 where z5: "vma_tree_clone (vma_tree_zone_kmodule pp) (s\<lparr>vma_tree_zone_cache := p4\<rparr>) = Some (s\<lparr>vma_tree_zone_cache := p5\<rparr>, z5)"
    "zone_ranges z5 = zone_ranges (vma_tree_zone_kmodule pp)" by (rule tree_clone_ok [of 0 _ "s\<lparr>vma_tree_zone_cache := p4\<rparr>"]) (use z4(2) in auto)
  show ?thesis using z1 z2 z3 z4 z5 unfolding clone_zones_def by (simp add: same_zones_def) blast
qed

section \<open>Properties\<close>

lemma ran_areas:
  assumes "distinct (map (vma_key s) (area_objs s t))"
  shows "ran (areas s t) = v_vmas s ` set (area_objs s t)" and "page_count s (area_objs s t) = (\<Sum>v \<in> ran (areas s t). unat (area_pages v))"
    and "length (area_objs s t) = card (ran (areas s t))"
proof -
  show r: "ran (areas s t) = v_vmas s ` set (area_objs s t)" using areas_Some [OF assms] by (auto simp: ran_def)
  have "distinct (map start_address (map (v_vmas s) (area_objs s t)))" using assms by (simp add: vma_key_def [abs_def] comp_def)
  then have d: "distinct (map (v_vmas s) (area_objs s t))" unfolding distinct_map [of start_address] by blast
  have "page_count s (area_objs s t) = sum_list (map (\<lambda>v. unat (area_pages v)) (map (v_vmas s) (area_objs s t)))" by (simp add: page_count_def comp_def)
  also have "\<dots> = (\<Sum>v \<in> set (map (v_vmas s) (area_objs s t)). unat (area_pages v))" by (rule sum_list_distinct_conv_sum_set [OF d])
  finally show "page_count s (area_objs s t) = (\<Sum>v \<in> ran (areas s t). unat (area_pages v))" by (simp add: r)
  show "length (area_objs s t) = card (ran (areas s t))" using distinct_card [OF d] by (simp add: r)
qed


lemma entry_bits:
  assumes "dir_ok g d"
  shows "bit (paging_get_entry d v g) 1 \<longleftrightarrow> (\<exists>ph f. translate g d v = Some (ph, f) \<and> bit f 1)"
    and "bit (paging_get_entry d v g) 9 \<longleftrightarrow> (\<exists>ph f. translate g d v = Some (ph, f) \<and> bit f 9)"
    and "bit (paging_get_entry d v g) 0 \<longleftrightarrow> translate g d v \<noteq> None"
    and "vaddr_to_paddr d v g = (case translate g d v of None \<Rightarrow> 0 | Some (ph, f) \<Rightarrow> ph)"
  using get_entry_translate [OF assms, of v] by (auto simp: bit_and_iff bit_not_iff bit_or_iff split: option.splits)

lemma clone_cow_ok:
  assumes ok: "vm_ok s T" and T: "T parent = Some tp" "T kid = Some tc" "areas s tc = Map.empty" "parent \<noteq> kid"
    and pg: "v_pages s parent = Some pp" "zone_size pp \<le> length (vma_tree_zone_cache s)"
    and u: "\<forall>d \<in> set (area_objs s tp). user_area (v_vmas s d)"
    and n: "length (area_objs s tp) \<le> length (rbt_node_cache s)" "length (area_objs s tp) \<le> length (vma_cache s)"
    and g: "pair_ok g pd kd" "6 * page_count s (area_objs s tp) \<le> free_blocks (pg_phys g)"
  shows "\<exists>s' g' tc' pk. vma_clone_cow parent kid kd pd (s, g) = Some ((s', g'), 0) \<and> vm_ok s' (T(kid \<mapsto> tc')) \<and>
    areas s' tc' = (\<lambda>a. map_option clone_of (areas s tp a)) \<and> (\<forall>q t. q \<noteq> kid \<longrightarrow> T q = Some t \<longrightarrow> areas s' t = areas s t) \<and>
    v_pages s' kid = Some pk \<and> same_zones pp pk \<and> cloned pd kd (spans s (area_objs s tp)) (6 * page_count s (area_objs s tp)) g g'"
proof -
  have sp: "space_ok s parent tp" "space_ok s kid tc" using vm_okD(2) [OF ok] T(1,2) by auto
  obtain pc where pc: "v_pages s kid = Some pc" using sp(2) by (auto simp: space_ok_def)
  obtain pool pc' where z: "clone_zones pp pc s = Some (s\<lparr>vma_tree_zone_cache := pool\<rparr>, pc')" "same_zones pp pc'" "vp_tree pc' = vp_tree pc"
    using clone_zones_ok [OF pg(2)] by blast
  define s1 where "s1 = set_page kid pc' (s\<lparr>vma_tree_zone_cache := pool\<rparr>)"
  have f: "v_nodes s1 = v_nodes s" "v_vmas s1 = v_vmas s" "rbt_node_cache s1 = rbt_node_cache s" "vma_cache s1 = vma_cache s"
    "VMA_RBT_NIL s1 = VMA_RBT_NIL s" "v_pages s1 = (v_pages s)(kid \<mapsto> pc')" by (simp_all add: s1_def set_page_def)
  note k = same_areas [OF f(1,2)]
  have "space_ok s1 kid tc" using sp(2) pc z(3) unfolding space_ok_def k f by auto
  then have "vm_ok s1 (T(kid \<mapsto> tc))" by (rule vm_update(1) [OF ok T(2) f(6,5)]) (use vm_okD(7,8) [OF ok] in \<open>auto simp: f k\<close>)
  then have ok1: "vm_ok s1 T" using T(2) by (simp add: map_upd_triv)
  have pk: "page_count s1 = page_count s" "spans s1 = spans s" "area_map s1 (area_objs s tp) = areas s tp"
    by (simp_all add: fun_eq_iff page_count_def spans_def area_map_def areas_def k f(2))
  have to: "to_clone s1 g T parent kid pd kd tp tc (area_objs s1 tp)"
    using ok1 T sp(1) u n g by (auto simp: to_clone_def k f pk space_ok_def)
  have tp: "repr (VMA_RBT_NIL s1) (v_nodes s1) (VMA_RBT_NIL s1) tp" "vp_tree pp = rootp (VMA_RBT_NIL s1) tp"
    using sp(1) pg(1) by (auto simp: space_ok_def rbt_ok_def holds_def f)
  obtain s' g' tc' where r: "vma_clone_cow_recursive kid kd pd (rootp (VMA_RBT_NIL s1) tp) (s1, g) = Some (s', g')"
    "done_clone s1 g T kid pd kd tp tc (area_objs s1 tp) s' g' tc'" using clone_tree [OF to tp(1)] by auto
  have D: "vm_ok s' (T(kid \<mapsto> tc'))" "areas s' tc' = (\<lambda>a. map_option clone_of (areas s tp a))" "\<forall>q t. q \<noteq> kid \<longrightarrow> T q = Some t \<longrightarrow> areas s' t = areas s t"
    "cloned pd kd (spans s (area_objs s tp)) (6 * page_count s (area_objs s tp)) g g'"
    using r(2) T(3) unfolding done_clone_def k pk by (auto simp: fun_eq_iff split: option.splits)
  have "keeps_zones s1 kid s'" using r(2) by (simp add: done_clone_def)
  then have "\<exists>pk. v_pages s' kid = Some pk \<and> same_zones pp pk" using z(2) by (auto simp: keeps_zones_def f same_zones_def)
  moreover have "vma_clone_cow parent kid kd pd (s, g) = Some ((s', g'), 0)"
    using T(4) pg(1) pc z(1) r(1) tp(2) by (simp add: vma_clone_cow_def s1_def)
  ultimately show ?thesis using D by blast
qed




definition sample_frames3 :: phys where
  "sample_frames3 = \<lparr>bitmap_base = 7 # replicate 7 0, higher_base_length = 65536, usable_total = 0\<rparr>"

definition sample_paging3 :: paging where
  "sample_paging3 = \<lparr>pg_mem = (\<lambda>_ _. 0), pg_phys = sample_frames3, pg_kernel = 0x1000\<rparr>"

lemma sample_frames3_ok: "phys_ok sample_frames3" "free_blocks sample_frames3 = 13" "in_use sample_frames3 0x1000" "in_use sample_frames3 0x2000"
proof -
  have t: "total_blocks sample_frames3 = 16" by (simp add: sample_frames3_def total_blocks_def BLOCK_SIZE_def)
  have b: "bit_used (bitmap_base sample_frames3) i \<longleftrightarrow> i < 3" if "i < 16" for i
  proof -
    have "(7 :: u8) = mask 3" by (simp add: mask_eq_decr_exp)
    then have "bit (7 :: u8) i \<longleftrightarrow> i < 3" using bit_mask_iff [where ?'a = "8 word", of 3 i] by auto
    moreover have "(7 # replicate 7 0 :: u8 list) ! (i div 8) = (if i < 8 then 7 else 0)" using that by (auto simp: nth_Cons' not_less)
    ultimately show ?thesis by (auto simp: bit_used_def sample_frames3_def)
  qed
  show "phys_ok sample_frames3" using b [of 0] t by (simp add: phys_ok_def phys_inv_def covers_def sample_frames3_def)
  have "{i. i < 16 \<and> \<not> bit_used (bitmap_base sample_frames3) i} = {3..<16}" using b by auto
  then show "free_blocks sample_frames3 = 13" by (simp add: free_blocks_card t)
  show "in_use sample_frames3 0x1000" "in_use sample_frames3 0x2000" using b [of 1] b [of 2] by (simp_all add: in_use_def frame_def BLOCK_SIZE_def PAGE_PHYS_MASK_def)
qed

text \<open>Two empty directories; the first one then maps a page.\<close>

lemma sample_pair: "pair_ok sample_paging3 0x1000 0x2000"
proof -
  have t: "tables l (pg_mem sample_paging3) d = [d]" "below l (pg_mem sample_paging3) (pg_mem sample_paging3 d i) = []" for l d i
    using empty_tables(1) [of "pg_mem sample_paging3" d l] by (simp_all add: sample_paging3_def)
  show ?thesis unfolding pair_ok_def low_def t using sample_frames3_ok by (auto simp: sample_paging3_def intro!: empty_dir_ok)
qed

lemma sample_parent:
  obtains g where "pair_ok g 0x1000 0x2000" "10 \<le> free_blocks (pg_phys g)" "translate g 0x1000 0x400000 = Some (0x8000, 7)"
proof -
  define g where "g = mmap_walk 3 0x1000 0x400000 0x8000 7 sample_paging3"
  have b: "bit (7 :: u64) n \<longleftrightarrow> n < 3" for n
  proof -
    have "(7 :: u64) = mask 3" by (simp add: mask_eq_decr_exp)
    then show ?thesis using bit_mask_iff [where ?'a = "64 word", of 3 n] by auto
  qed
  have tg: "target 7 = 0" by (simp add: target_def b)
  have f: "free_blocks (pg_phys sample_paging3) = 13" using sample_frames3_ok by (simp add: sample_paging3_def)
  have f3: "3 \<le> free_blocks (pg_phys sample_paging3)" "user_addr 0x400000" using f by (simp_all add: user_small)
  have "PAGE_PHYS_MASK AND mask 12 = 0" by (rule bit_eqI) (auto simp: bit_and_iff bit_mask_iff)
  then have "0x8000 AND PAGE_PHYS_MASK AND mask (12 + 9 * target 7) = 0" unfolding tg by simp
  note pw = pair_walk [OF sample_pair f3(1) this f3(2), folded g_def]
  have "translate g 0x1000 0x400000 = mapping 0x8000 7 0x400000" using walk_okD(4) [OF pw(3), of "0x400000"] by (simp add: tg)
  also have "\<dots> = Some (0x8000, 7)"
    unfolding mapping_def tg by (simp add: b leaf_def leaf_entry_def tg PAGE_PHYS_MASK_def PAGE_HW_FLAG_def PAGE_HUGE_def PAGE_NO_EXECUTE_def mask_eq_decr_exp)
  finally show thesis using that pw(1) walk_okD(5) [OF pw(3)] f by (simp add: tg)
qed


end
