(* ===== verification/Vma_Unmap.thy ===== *)
theory Vma_Unmap
  imports Vma_Clone "HOL-Library.Multiset"
begin

text \<open>
  Releasing an address space: \<^verbatim>\<open>vma_unmap_all\<close> removes the pages of all areas and gives every object of the space back
  to the cache it came from.
\<close>

section \<open>Pages\<close>

definition unmapped :: "u64 \<Rightarrow> u64 set \<Rightarrow> nat \<Rightarrow> paging \<Rightarrow> paging \<Rightarrow> bool" where
  "unmapped dir V n g g' \<longleftrightarrow> dir_ok g' dir \<and> free_blocks (pg_phys g) \<le> free_blocks (pg_phys g') + n \<and>
     (\<forall>v. translate g' dir v = (if v \<in> V then None else translate g dir v))"

lemma unmapped_trans: "unmapped dir V n g g1 \<Longrightarrow> unmapped dir W m g1 g2 \<Longrightarrow> unmapped dir (V \<union> W) (n + m) g g2"
  by (auto simp: unmapped_def)

lemma unmap_area:
  assumes u: "user_area v" and ok: "dir_ok g dir" and fr: "3 * unat (area_pages v) \<le> free_blocks (pg_phys g)"
  shows "\<exists>g'. paging_multiple_unmap dir (start_address v) (area_pages v) g = Some g' \<and> unmapped dir (span v) (3 * unat (area_pages v)) g g'"
proof -
  have b: "unat (start_address v) + 4096 * unat (area_pages v) \<le> 2 ^ 47" "0 < unat (area_pages v)" by (rule area_bounds [OF u])+
  have va: "va (start_address v) = unat (start_address v)" using b by (intro va_small) simp
  have al: "take_bit 12 (start_address v) = 0" using u by (simp add: user_area_def)
  obtain g' where g': "mmap_range_internal dir (start_address v) 0 (area_pages v) 0 g = Some g'"
    "range_ok dir (start_address v) 0 (4096 * unat (area_pages v)) 0 (3 * unat (area_pages v)) g g'"
    using multiple_mmap_ok [OF ok fr al, of 0 0] b va by auto
  have "unmapped dir (span v) (3 * unat (area_pages v)) g g'"
    using g'(2) unfolding range_ok_def unmapped_def span_def remap_def va by auto
  then show ?thesis using g'(1) by (simp add: paging_multiple_unmap_def)
qed

section \<open>The tree\<close>

lemma unmap_tree:
  assumes "repr (VMA_RBT_NIL s) (v_nodes s) par t" and "0 \<notin> set (ptrs t)" and "\<forall>n \<in> set (ptrs t). n_data (v_nodes s n) = Some (node_area s n)"
    and "\<forall>d \<in> set (area_objs s t). user_area (v_vmas s d)" and "dir_ok g dir" and "3 * page_count s (area_objs s t) \<le> free_blocks (pg_phys g)"
  shows "\<exists>ns ds g'. vma_unmap_all_recursive (Some dir) (rootp (VMA_RBT_NIL s) t) (s, g) =
      Some (s\<lparr>rbt_node_cache := ns @ rbt_node_cache s, vma_cache := ds @ vma_cache s\<rparr>, g') \<and> mset ns = mset (ptrs t) \<and> mset ds = mset (area_objs s t) \<and>
    unmapped dir (spans s (area_objs s t)) (3 * page_count s (area_objs s t)) g g'"
  using assms
proof (induction t arbitrary: s g par)
  case Leaf
  then show ?case by (subst vma_unmap_all_recursive.simps) (auto simp: area_objs_def unmapped_def spans_def intro!: exI [of _ "[]"])
next
  case (Node l n r)
  let ?L = "area_objs s l" and ?d = "node_area s n" and ?R = "area_objs s r"
  have ob: "area_objs s (Node l n r) = ?L @ [?d] @ ?R" by (simp add: area_objs_def)
  have pc: "page_count s (?L @ [?d] @ ?R) = page_count s ?L + unat (area_pages (v_vmas s ?d)) + page_count s ?R"
    "spans s (?L @ [?d] @ ?R) = spans s ?L \<union> spans s ?R \<union> span (v_vmas s ?d)" by (auto simp: page_count_def spans_def)
  have u: "\<forall>d \<in> set ?L. user_area (v_vmas s d)" "\<forall>d \<in> set ?R. user_area (v_vmas s d)" "user_area (v_vmas s ?d)" using Node.prems(4) unfolding ob by auto
  have fr: "3 * page_count s ?L + 3 * unat (area_pages (v_vmas s ?d)) + 3 * page_count s ?R \<le> free_blocks (pg_phys g)"
    using Node.prems(6) unfolding ob pc by simp
  have tr: "n \<noteq> VMA_RBT_NIL s" "n \<noteq> 0" "repr (VMA_RBT_NIL s) (v_nodes s) n l" "repr (VMA_RBT_NIL s) (v_nodes s) n r"
    "n_left (v_nodes s n) = rootp (VMA_RBT_NIL s) l" "n_right (v_nodes s n) = rootp (VMA_RBT_NIL s) r" "n_data (v_nodes s n) = Some ?d"
    using Node.prems(1-3) by auto
  obtain ns1 ds1 g1 where 1: "vma_unmap_all_recursive (Some dir) (rootp (VMA_RBT_NIL s) l) (s, g) =
      Some (s\<lparr>rbt_node_cache := ns1 @ rbt_node_cache s, vma_cache := ds1 @ vma_cache s\<rparr>, g1)" "mset ns1 = mset (ptrs l)" "mset ds1 = mset ?L"
    "unmapped dir (spans s ?L) (3 * page_count s ?L) g g1"
    using Node.IH(1) [OF tr(3) _ _ u(1) Node.prems(5)] Node.prems(2,3) fr by auto
  define s1 where "s1 = s\<lparr>rbt_node_cache := ns1 @ rbt_node_cache s, vma_cache := ds1 @ vma_cache s\<rparr>"
  have f: "v_nodes s1 = v_nodes s" "v_vmas s1 = v_vmas s" "VMA_RBT_NIL s1 = VMA_RBT_NIL s" by (simp_all add: s1_def)
  have k: "area_objs s1 = area_objs s" "node_area s1 = node_area s" "page_count s1 = page_count s" "spans s1 = spans s"
    using same_areas [OF f(1,2)] by (simp_all add: fun_eq_iff page_count_def spans_def f)
  have g1: "dir_ok g1 dir" "3 * page_count s ?R \<le> free_blocks (pg_phys g1)" "3 * page_count s ?R + 3 * unat (area_pages (v_vmas s ?d)) \<le> free_blocks (pg_phys g1)"
    using 1(4) fr by (auto simp: unmapped_def)
  obtain ns2 ds2 g2 where 2: "vma_unmap_all_recursive (Some dir) (rootp (VMA_RBT_NIL s1) r) (s1, g1) =
      Some (s1\<lparr>rbt_node_cache := ns2 @ rbt_node_cache s1, vma_cache := ds2 @ vma_cache s1\<rparr>, g2)" "mset ns2 = mset (ptrs r)" "mset ds2 = mset ?R"
    "unmapped dir (spans s ?R) (3 * page_count s ?R) g1 g2"
    using Node.IH(2) [of s1 n g1] tr(4) u(2) g1 Node.prems(2,3) unfolding k f by auto
  have "dir_ok g2 dir" "3 * unat (area_pages (v_vmas s ?d)) \<le> free_blocks (pg_phys g2)" using 2(4) g1(3) by (auto simp: unmapped_def)
  then obtain g3 where 3: "paging_multiple_unmap dir (start_address (v_vmas s ?d)) (area_pages (v_vmas s ?d)) g2 = Some g3"
    "unmapped dir (span (v_vmas s ?d)) (3 * unat (area_pages (v_vmas s ?d))) g2 g3" using unmap_area [OF u(3)] by blast
  have "unmapped dir (spans s (?L @ [?d] @ ?R)) (3 * page_count s (?L @ [?d] @ ?R)) g g3"
    using unmapped_trans [OF unmapped_trans [OF 1(4) 2(4)] 3(2)] unfolding pc by (simp add: algebra_simps)
  moreover have "vma_unmap_all_recursive (Some dir) n (s, g) =
    Some (s\<lparr>rbt_node_cache := (n # ns2 @ ns1) @ rbt_node_cache s, vma_cache := (?d # ds2 @ ds1) @ vma_cache s\<rparr>, g3)"
    using 1(1) [folded s1_def] 2(1) 3(1) tr by (subst vma_unmap_all_recursive.simps) (simp add: f release_area_def s1_def)
  moreover have "mset (n # ns2 @ ns1) = mset (ptrs (Node l n r))" "mset (?d # ds2 @ ds1) = mset (?L @ [?d] @ ?R)" using 1(2,3) 2(2,3) by simp_all
  ultimately show ?case unfolding ob rootp.simps by blast
qed


section \<open>Properties\<close>



end
