(* ===== verification/Spec2Isabelle.thy ===== *)
theory Spec2Isabelle
  imports Pipe Vfs Fd_Props Net_Props Net_Socket Unix_Props Pty_Props Paging_Props Rbt_Props Grow_Bitmap Vma_Unmap
begin

text \<open>
  A verification development for the Voxia kernel, a monolithic x86-64 kernel in C under
  \<^verbatim>\<open>src/kernel\<close>. Path names below are relative to that directory.

  \<^bold>\<open>The program.\<close> User programs enter through system calls (\<^verbatim>\<open>sys/syscall\<close>). A process has a
  table of descriptors (\<^verbatim>\<open>sys/fd.c\<close>) that point to open files; an open file is a vnode of the file
  layer (\<^verbatim>\<open>vfs\<close>), one end of a pipe, one side of a pseudo terminal (\<^verbatim>\<open>tty/pty.c\<close>) or a socket
  (\<^verbatim>\<open>net\<close>). The file layer finds vnodes by path in a cache of directory entries and asks
  file system drivers for the rest. The network layer answers ARP, ICMP and TCP frames that card drivers
  queue. Memory comes from a bit map of physical pages (\<^verbatim>\<open>memory/phys_base_allocator.c\<close>); the page tables
  (\<^verbatim>\<open>hal/cpu/paging.c\<close>) take their tables from it. The areas of a process (\<^verbatim>\<open>memory/vm_manager.c\<close>) are kept
  in a red-black tree (\<^verbatim>\<open>libk/tree/rbt.h\<close>) and are mapped, cloned and released through the page tables.

  \<^bold>\<open>Theories and sources.\<close>
  \<^item> \<^verbatim>\<open>Voxia_Prelude\<close>: word types, error numbers, lemmas on lists and words that all parts share.
  \<^item> \<^verbatim>\<open>Byte_Ring\<close>, \<^verbatim>\<open>Item_Queue\<close>, \<^verbatim>\<open>Page_Alloc\<close>: the interfaces \<open>byte_fifo\<close>, \<open>item_queue\<close> and
    \<open>page_allocator\<close>, each with the lemmas that its clients use. \<open>byte_fifo\<close> is interpreted on the rings
    of pipes, Unix sockets and pseudo terminals, \<open>item_queue\<close> on the receive queue of a network card and the
    backlog of a listening socket, \<open>page_allocator\<close> on the physical allocator and on the allocator of virtual pages.
  \<^item> \<^verbatim>\<open>Pipe_Ring\<close>, \<^verbatim>\<open>Pipe\<close>: \<^verbatim>\<open>sys/syscall/pipe.c\<close>. The blocking loops run pass by pass: a pass is
    one turn of the loop between two points where the thread can be preempted or sleeps, and
    \<open>pipe_step\<close> interleaves passes, closes and wake-ups of all threads.
  \<^item> \<^verbatim>\<open>Kernel_Heap\<close>: \<^verbatim>\<open>struct dentry\<close>, \<^verbatim>\<open>vnode\<close>, \<^verbatim>\<open>file_descriptor\<close>, \<^verbatim>\<open>fdtable\<close> and
    \<^verbatim>\<open>internal_pipe\<close> in one explicit heap of partial maps from addresses; a freed object leaves the map
    and a use of it is \<open>None\<close>, \<open>Faults\<close> or \<open>Wild\<close>. Fresh addresses come from the pool \<open>k_pool\<close>, which may run out.
  \<^item> \<^verbatim>\<open>Kstr\<close>: \<^verbatim>\<open>libk/str/str.c\<close>, \<^verbatim>\<open>libk/string.c\<close> and \<^verbatim>\<open>libk/hash.c\<close>.
  \<^item> \<^verbatim>\<open>Vfs\<close>: \<^verbatim>\<open>vfs/dentry.c\<close>, \<^verbatim>\<open>vfs/cache.c\<close> and the creation of vnodes.
  \<^item> \<^verbatim>\<open>Fd_Table\<close>, \<^verbatim>\<open>Fd_Io\<close>, \<^verbatim>\<open>Fd_Props\<close>: \<^verbatim>\<open>sys/fd.c\<close>, the calls \<^verbatim>\<open>dup\<close>, \<^verbatim>\<open>dup2\<close>, \<^verbatim>\<open>close\<close>,
    \<^verbatim>\<open>fcntl\<close>, \<^verbatim>\<open>lseek\<close>, \<^verbatim>\<open>pipe2\<close>, \<^verbatim>\<open>read\<close>, \<^verbatim>\<open>readv\<close>, \<^verbatim>\<open>write\<close>, \<^verbatim>\<open>writev\<close> and the tables in
    \<^verbatim>\<open>fork\<close> and \<^verbatim>\<open>exit\<close>. The operations of a file are arguments.
  \<^item> \<^verbatim>\<open>Net_Util\<close>, \<^verbatim>\<open>Net\<close>, \<^verbatim>\<open>Tcp\<close>, \<^verbatim>\<open>Net_Props\<close>: \<^verbatim>\<open>net/netutils.c\<close>, \<^verbatim>\<open>netbuff.c\<close>, \<^verbatim>\<open>ethernet.c\<close>,
    \<^verbatim>\<open>ipv4.c\<close>, \<^verbatim>\<open>icmp.c\<close>, \<^verbatim>\<open>arp.c\<close>, \<^verbatim>\<open>tcp.c\<close>. A packet buffer is its bytes and signed offsets, so an
    access outside of it is visible.
  \<^item> \<^verbatim>\<open>Nic_Queue\<close>, \<^verbatim>\<open>Net_Socket\<close>: \<^verbatim>\<open>sys/ioforge/ioforge_nic.c\<close>, \<^verbatim>\<open>net/netdev.c\<close>, \<^verbatim>\<open>net/socket.c\<close>.
  \<^item> \<^verbatim>\<open>Unix_Ring\<close>, \<^verbatim>\<open>Unix_Socket\<close>, \<^verbatim>\<open>Unix_Frame\<close>, \<^verbatim>\<open>Unix_Props\<close>: the seven socket calls under
    \<^verbatim>\<open>sys/syscall\<close> for local sockets.
  \<^item> \<^verbatim>\<open>Pty\<close>, \<^verbatim>\<open>Pty_Props\<close>: \<^verbatim>\<open>tty/pty.c\<close>.
  \<^item> \<^verbatim>\<open>Phys_Alloc\<close>: \<^verbatim>\<open>memory/phys_base_allocator.c\<close>.
  \<^item> \<^verbatim>\<open>Rbt\<close>, \<^verbatim>\<open>Rbt_Insert\<close>, \<^verbatim>\<open>Rbt_Delete\<close>, \<^verbatim>\<open>Rbt_Props\<close>: \<^verbatim>\<open>libk/tree/rbt.h\<close> on a heap of nodes with
    parent pointers and a sentinel. A tree in the heap is described by the inductive tree of its addresses, the
    place where a repair works by a path of frames from there to the root. The interface \<open>sorted_index\<close> is interpreted on it.
  \<^item> \<^verbatim>\<open>Paging\<close>, \<^verbatim>\<open>Paging_Walk\<close>, \<^verbatim>\<open>Paging_Props\<close>: \<^verbatim>\<open>hal/cpu/paging.c\<close>. Physical memory is a map from frames
    to tables of 512 entries; \<open>view\<close> is the translation that the processor reads from them.
  \<^item> \<^verbatim>\<open>Grow_Bitmap\<close>: \<^verbatim>\<open>libk/grow_bitmap.h\<close>, virtual pages of the kernel, with the bit maps in frames of physical memory.
  \<^item> \<^verbatim>\<open>Vma\<close>, \<^verbatim>\<open>Vma_Props\<close>, \<^verbatim>\<open>Vma_Clone\<close>, \<^verbatim>\<open>Vma_Unmap\<close>: \<^verbatim>\<open>memory/vm_manager.c\<close> over the two parts above, with the
    objects of all spaces in one store. The interface \<open>area_store\<close> is interpreted on its calls.

  \<^bold>\<open>What the lemmas show.\<close> For pipes: no byte is lost, duplicated or reordered under any
  interleaving, no wake-up is lost with one reader and one writer, and no pass uses freed memory. For descriptors:
  reference counts are exact after every sequence of calls, so files live exactly as long as they
  are used; buffered writes refine plain writes. For paths: resolution keeps reference counts exact and
  inverts the construction of full paths. For the network: both checksum routines agree, replies are
  byte-exact with valid checksums, and the missing length checks are stated as errors. For sockets and terminals:
  what is sent is what is received. For memory: the allocator is a first fit and never hands out a page twice
  or one that is not usable, and the same holds of virtual pages; the tree keeps order, balance and parent links under insertion and removal and is
  at most twice the logarithm of its size high; mapping, copy on write and removal change the translation of exactly the
  pages they name, huge pages included. For address spaces: the areas are a finite map for each space, a free range is free, a clone
  shares every page read-only with its parent, and the release of a space gives everything back.

  \<^bold>\<open>Bounds and fuel.\<close> No definition carries fuel. Loops that end are recursion with a measure; walks over
  pointer chains, which the code cannot bound, and the option loop of TCP are \<^verbatim>\<open>partial_function (option)\<close>, where
  \<open>None\<close> is a loop that does not return, and the theorems state when they return. Machine integers are words
  where the code can wrap; indices bounded by a constant array size are natural numbers.

  \<^bold>\<open>Not modelled.\<close> Context switches, interrupt and device code act on hardware whose
  behaviour is not in the source. The heaps above the page allocator are replaced by pools of addresses.
  Program loading, on-disk file systems, the screen terminal, futexes and signals are not
  translated; file system drivers appear as arguments. Locks are left out where a call holds one from its
  first to its last access, and so is debug output. musl is third-party code.
\<close>

end
